(* ===== verification/Prelude.thy ===== *)
theory Prelude
  imports Main "HOL-Library.Word" "HOL-Library.Multiset"
begin

text \<open>
  Shared vocabulary of the development.

  Machine integers: \<open>u8\<close> to \<open>u64\<close> are words and wrap around, as the arithmetic of the
  release profile does (the repository sets no \<open>overflow-checks\<close>, and its Dockerfile ships
  the release binaries).  A \<open>usize\<close> that only counts or indexes a buffer is a \<open>nat\<close> below
  \<open>2 ^ 64\<close>, and the places where the code adds or subtracts such values use \<open>uadd\<close> and
  \<open>usub\<close>, which wrap like the code does.

  Errors: \<open>AIOSException\<close> is the error type of every crate of the workspace
  (\<open>aios-core/src/error.rs\<close>); a \<open>Result\<close> is a sum with the error on the left.

  A \<open>HashMap\<close> is a map \<open>'k \<rightharpoonup> 'v\<close> with a finite domain; where the code iterates over one,
  the iteration order is an argument of the definition, because the standard library
  promises none.

  Text: a \<open>String\<close> is the list of its UTF-8 bytes as characters.
\<close>

named_theorems usize_simps \<open>wrapping usize arithmetic on values that do not wrap\<close>

type_synonym u8 = "8 word"
type_synonym u16 = "16 word"
type_synonym u32 = "32 word"
type_synonym u64 = "64 word"
type_synonym bytes = "u8 list"

subsection \<open>Errors\<close>

datatype AIOSException =
    BlockNotFound string
  | BlockAlreadyRegistered string
  | InvalidSignature (expected: string) (actual: string)
  | IntegrityCheckFailed string
  | StateExtractionFailed string
  | StateRestoreFailed string
  | HotSwapFailed string
  | RollbackFailed string
  | IPCError string
  | SchedulerError string
  | ProcessNotFound u64
  | ProcessAlreadyExists u64
  | PermissionDenied string
  | HardwareNotDetected string
  | InvalidPayload string
  | Timeout string
  | ConfigurationError string
  | SerializationError string
  | Generic string

type_synonym 'a result = "AIOSException + 'a"

abbreviation Ok :: "'a \<Rightarrow> 'e + 'a" where "Ok \<equiv> Inr"
abbreviation Err :: "'e \<Rightarrow> 'e + 'a" where "Err \<equiv> Inl"

definition is_ok :: "'e + 'a \<Rightarrow> bool" where
  "is_ok r = (case r of Err _ \<Rightarrow> False | Ok _ \<Rightarrow> True)"

lemma is_ok_simps [simp]: "is_ok (Ok x)" "\<not> is_ok (Err e)"
  by (simp_all add: is_ok_def)

lemma is_okE: "is_ok r \<Longrightarrow> (\<And>x. r = Ok x \<Longrightarrow> P) \<Longrightarrow> P"
  by (cases r) auto

subsection \<open>Decimal text\<close>

definition digit_char :: "nat \<Rightarrow> char" where
  "digit_char d = char_of (48 + d)"

fun dec :: "nat \<Rightarrow> string" where
  "dec n = (if n < 10 then [digit_char n] else dec (n div 10) @ [digit_char (n mod 10)])"

declare dec.simps [simp del]

abbreviation dec_word :: "'a::len word \<Rightarrow> string" where
  "dec_word w \<equiv> dec (unat w)"

text \<open>Display of an exception (\<open>impl fmt::Display for AIOSException\<close>).\<close>

fun show_exception :: "AIOSException \<Rightarrow> string" where
  "show_exception (BlockNotFound i) = ''Block not found: '' @ i"
| "show_exception (BlockAlreadyRegistered i) = ''Block already registered: '' @ i"
| "show_exception (InvalidSignature e a) =
     ''Invalid signature: expected '' @ e @ '', got '' @ a"
| "show_exception (IntegrityCheckFailed m) = ''Integrity check failed: '' @ m"
| "show_exception (StateExtractionFailed m) = ''State extraction failed: '' @ m"
| "show_exception (StateRestoreFailed m) = ''State restore failed: '' @ m"
| "show_exception (HotSwapFailed m) = ''Hot swap failed: '' @ m"
| "show_exception (RollbackFailed m) = ''Rollback failed: '' @ m"
| "show_exception (IPCError m) = ''IPC error: '' @ m"
| "show_exception (SchedulerError m) = ''Scheduler error: '' @ m"
| "show_exception (ProcessNotFound p) = ''Process not found: '' @ dec_word p"
| "show_exception (ProcessAlreadyExists p) = ''Process already exists: '' @ dec_word p"
| "show_exception (PermissionDenied m) = ''Permission denied: '' @ m"
| "show_exception (HardwareNotDetected c) = ''Hardware not detected: '' @ c"
| "show_exception (InvalidPayload m) = ''Invalid payload: '' @ m"
| "show_exception (Timeout m) = ''Timeout: '' @ m"
| "show_exception (ConfigurationError m) = ''Configuration error: '' @ m"
| "show_exception (SerializationError m) = ''Serialization error: '' @ m"
| "show_exception (Generic m) = ''Error: '' @ m"

subsection \<open>usize arithmetic\<close>

definition usize_modulus :: nat where
  "usize_modulus = 2 ^ 64"

definition uadd :: "nat \<Rightarrow> nat \<Rightarrow> nat" where
  "uadd a b = (a + b) mod usize_modulus"

definition usub :: "nat \<Rightarrow> nat \<Rightarrow> nat" where
  "usub a b = (if b \<le> a then a - b else usize_modulus + a - b)"

lemma usub_le [usize_simps]: "b \<le> a \<Longrightarrow> usub a b = a - b"
  by (simp add: usub_def)

lemma uadd_less [usize_simps]: "a + b < usize_modulus \<Longrightarrow> uadd a b = a + b"
  by (simp add: uadd_def)

definition sat_sub :: "'a::len word \<Rightarrow> 'a word \<Rightarrow> 'a word" where
  "sat_sub a b = (if b \<le> a then a - b else 0)"

lemma unat_sat_sub: "unat (sat_sub a b) = unat a - unat b"
  by (auto simp: sat_sub_def unat_sub word_le_nat_alt)

lemma sat_sub_le [simp]: "sat_sub a b \<le> a"
  by (simp add: word_le_nat_alt unat_sat_sub)

lemma sat_sub_zero [simp]: "sat_sub a 0 = a"
  by (simp add: sat_sub_def)

text \<open>Word addition that does not wrap, in the form the resource bounds use.\<close>

lemma unat_add_no_wrap:
  fixes a b :: "'a::len word"
  assumes "unat a + unat b < 2 ^ LENGTH('a)"
  shows "unat (a + b) = unat a + unat b"
  using assms by (simp add: unat_word_ariths)

lemma unat_64_less: "unat (a :: u64) < 2 ^ 64"
  using unsigned_less[of a] by simp

lemma unat_32_less: "unat (a :: u32) < 2 ^ 32"
  using unsigned_less[of a] by simp

lemma unat_Suc_64:
  fixes a :: u64
  assumes "unat a + 1 < 2 ^ 64"
  shows "unat (a + 1) = unat a + 1"
  using assms by (simp add: unat_word_ariths)

unbundle bit_operations_syntax

lemma word_round_down: "(x :: 'a::len word) AND NOT (mask n) = push_bit n (drop_bit n x)"
  by (rule bit_word_eqI) (auto simp: bit_simps)

lemma unat_round_down: "unat ((x :: 'a::len word) AND NOT (mask n)) = unat x div 2 ^ n * 2 ^ n"
proof -
  have le: "unat x div 2 ^ n * 2 ^ n \<le> unat x" by (simp add: div_times_less_eq_dividend)
  have "unat (push_bit n (drop_bit n x)) = unat x div 2 ^ n * 2 ^ n mod 2 ^ LENGTH('a)"
    unfolding unsigned_push_bit_eq unsigned_drop_bit_eq
    by (simp add: take_bit_eq_mod push_bit_eq_mult drop_bit_eq_div)
  also have "\<dots> = unat x div 2 ^ n * 2 ^ n"
    using le unsigned_less[of x] by (meson mod_less order_le_less_trans)
  finally show ?thesis by (simp add: word_round_down)
qed

subsection \<open>Vectors\<close>

fun position :: "('a \<Rightarrow> bool) \<Rightarrow> 'a list \<Rightarrow> nat option" where
  "position P [] = None"
| "position P (x # xs) = (if P x then Some 0 else map_option Suc (position P xs))"

lemma position_None: "position P xs = None \<longleftrightarrow> (\<forall>x\<in>set xs. \<not> P x)"
  by (induction xs) auto

lemma position_SomeD:
  "position P xs = Some i \<Longrightarrow> i < length xs \<and> P (xs ! i) \<and> (\<forall>j<i. \<not> P (xs ! j))"
proof (induction xs arbitrary: i)
  case (Cons x xs)
  then show ?case
    by (cases i) (auto split: if_splits simp: nth_Cons less_Suc_eq_0_disj)
qed simp

definition insert_at :: "nat \<Rightarrow> 'a \<Rightarrow> 'a list \<Rightarrow> 'a list" where
  "insert_at i x xs = take i xs @ x # drop i xs"

lemma length_insert_at [simp]: "i \<le> length xs \<Longrightarrow> length (insert_at i x xs) = Suc (length xs)"
  by (simp add: insert_at_def)

lemma set_insert_at [simp]: "set (insert_at i x xs) = insert x (set xs)"
proof -
  have "set (take i xs) \<union> set (drop i xs) = set xs"
    by (metis append_take_drop_id set_append)
  then show ?thesis by (auto simp: insert_at_def)
qed

lemma mset_insert_at [simp]: "mset (insert_at i x xs) = add_mset x (mset xs)"
proof -
  have "mset (take i xs) + mset (drop i xs) = mset xs"
    by (metis append_take_drop_id mset_append)
  then show ?thesis by (simp add: insert_at_def)
qed

text \<open>\<open>Vec::first\<close>-style search: the first element that satisfies a predicate.\<close>

lemma find_Some_filter: "List.find P xs = (case filter P xs of [] \<Rightarrow> None | x # _ \<Rightarrow> Some x)"
  by (induction xs) auto

lemma find_NoneD: "List.find P xs = None \<longleftrightarrow> (\<forall>x\<in>set xs. \<not> P x)"
  by (induction xs) auto

lemma find_SomeD: "List.find P xs = Some x \<Longrightarrow> x \<in> set xs \<and> P x"
  by (induction xs) (auto split: if_splits)

subsection \<open>Hash maps\<close>

text \<open>\<open>HashMap::len\<close> and the \<open>Entry\<close> operations the sources use.\<close>

definition map_len :: "('k \<rightharpoonup> 'v) \<Rightarrow> nat" where
  "map_len m = card (dom m)"

definition or_insert :: "('k \<rightharpoonup> 'v) \<Rightarrow> 'k \<Rightarrow> 'v \<Rightarrow> ('k \<rightharpoonup> 'v)" where
  "or_insert m k v = (case m k of None \<Rightarrow> m(k \<mapsto> v) | Some _ \<Rightarrow> m)"

definition entry_push :: "('k \<rightharpoonup> 'v list) \<Rightarrow> 'k \<Rightarrow> 'v \<Rightarrow> ('k \<rightharpoonup> 'v list)" where
  "entry_push m k v = m(k \<mapsto> (case m k of None \<Rightarrow> [] | Some vs \<Rightarrow> vs) @ [v])"

definition update_entry :: "('k \<rightharpoonup> 'v) \<Rightarrow> 'k \<Rightarrow> ('v \<Rightarrow> 'v) \<Rightarrow> ('k \<rightharpoonup> 'v)" where
  "update_entry m k f = (case m k of None \<Rightarrow> m | Some v \<Rightarrow> m(k \<mapsto> f v))"

text \<open>A list of keys is an iteration order of a map when it lists each key exactly once.\<close>

definition iteration_of :: "'k list \<Rightarrow> ('k \<rightharpoonup> 'v) \<Rightarrow> bool" where
  "iteration_of ks m \<longleftrightarrow> distinct ks \<and> set ks = dom m"

lemma update_entry_apply:
  "update_entry m k f j = (if j = k then map_option f (m k) else m j)"
  by (auto simp: update_entry_def split: option.splits)

lemma dom_update_entry [simp]: "dom (update_entry m k f) = dom m"
  by (auto simp: update_entry_def split: option.splits)

lemma update_entry_None [simp]: "update_entry m k f j = None \<longleftrightarrow> m j = None"
  by (auto simp: update_entry_apply)

lemma or_insert_apply:
  "or_insert m k v j = (if j = k \<and> m k = None then Some v else m j)"
  by (auto simp: or_insert_def split: option.splits)

lemma dom_or_insert [simp]: "dom (or_insert m k v) = insert k (dom m)"
  by (auto simp: or_insert_def split: option.splits)

lemma entry_push_apply:
  "entry_push m k v j =
     (if j = k then Some ((case m k of None \<Rightarrow> [] | Some vs \<Rightarrow> vs) @ [v]) else m j)"
  by (simp add: entry_push_def)

lemma dom_entry_push [simp]: "dom (entry_push m k v) = insert k (dom m)"
  by (auto simp: entry_push_def)

lemma map_len_empty [simp]: "map_len Map.empty = 0"
  by (simp add: map_len_def)

lemma map_len_update: "finite (dom m) \<Longrightarrow> m k = None \<Longrightarrow> map_len (m(k \<mapsto> v)) = Suc (map_len m)"
  by (simp add: map_len_def domIff)

lemma map_len_delete:
  "finite (dom m) \<Longrightarrow> m k = Some v \<Longrightarrow> map_len (m(k := None)) = map_len m - 1"
  by (simp add: map_len_def domI)

end
