(* ===== verification/Ring_Buffer.thy ===== *)
theory Ring_Buffer
  imports Prelude "HOL-Library.Monad_Syntax"
begin

text \<open>
  The zero-copy IPC ring buffer (\<open>aios-ringbuf/src/buffer.rs\<close>) with its reader and writer
  handles.  The buffer's memory is a byte list; every \<open>unsafe\<close> copy of the source is an
  option-valued memory operation that is \<open>None\<close> outside the allocation, so that memory
  safety is a theorem and not an assumption.  \<open>rb_contents\<close> is the abstraction to the FIFO
  the buffer implements; the interface its clients use is the locale \<open>bounded_fifo\<close>.
\<close>

subsection \<open>Data\<close>

record ring_buffer_config =
  cfg_capacity :: nat
  cfg_zero_copy :: bool

definition ring_buffer_config_default :: ring_buffer_config where
  "ring_buffer_config_default = \<lparr>cfg_capacity = 65536, cfg_zero_copy = True\<rparr>"

record ring_buffer =
  rb_data :: bytes
  rb_write_pos :: nat
  rb_read_pos :: nat
  rb_capacity :: nat
  rb_config :: ring_buffer_config

subsection \<open>Raw memory\<close>

text \<open>
  \<open>copy_nonoverlapping\<close> into and out of an allocation; \<open>None\<close> is undefined behaviour
  (an access outside the allocation).
\<close>

definition mem_store :: "bytes \<Rightarrow> nat \<Rightarrow> bytes \<Rightarrow> bytes option" where
  "mem_store mem off src =
     (if off + length src \<le> length mem
      then Some (take off mem @ src @ drop (off + length src) mem) else None)"

definition mem_load :: "bytes \<Rightarrow> nat \<Rightarrow> nat \<Rightarrow> bytes option" where
  "mem_load mem off n =
     (if off + n \<le> length mem then Some (take n (drop off mem)) else None)"

text \<open>\<open>Layout::from_size_align\<close> accepts a size whose round-up fits in \<open>isize\<close>.\<close>

definition layout_ok :: "nat \<Rightarrow> nat \<Rightarrow> bool" where
  "layout_ok n align \<longleftrightarrow> n \<le> 2 ^ 63 - align"

subsection \<open>Operations\<close>

definition rb_new :: "(nat \<Rightarrow> bytes option) \<Rightarrow> ring_buffer_config \<Rightarrow> ring_buffer result" where
  "rb_new alloc config =
     (if cfg_capacity config = 0
      then Err (ConfigurationError ''Ring buffer capacity must be > 0'')
      else if \<not> layout_ok (cfg_capacity config) 4096
      then Err (ConfigurationError ''Invalid ring buffer layout'')
      else (case alloc (cfg_capacity config) of
          None \<Rightarrow> Err (IPCError ''Failed to allocate ring buffer memory'')
        | Some mem \<Rightarrow> Ok \<lparr>rb_data = mem, rb_write_pos = 0, rb_read_pos = 0,
            rb_capacity = cfg_capacity config, rb_config = config\<rparr>))"

definition is_zero_copy :: "ring_buffer \<Rightarrow> bool" where
  "is_zero_copy rb = cfg_zero_copy (rb_config rb)"

definition available_write :: "ring_buffer \<Rightarrow> nat" where
  "available_write rb =
     (let w = rb_write_pos rb; r = rb_read_pos rb in
      if r \<le> w then usub (usub (rb_capacity rb) (usub w r)) 1
      else usub (usub r w) 1)"

definition available_read :: "ring_buffer \<Rightarrow> nat" where
  "available_read rb =
     (let w = rb_write_pos rb; r = rb_read_pos rb in
      if r \<le> w then usub w r else usub (rb_capacity rb) (usub r w))"

definition rb_full_error :: "nat \<Rightarrow> nat \<Rightarrow> AIOSException" where
  "rb_full_error need have_n =
     IPCError (''Ring buffer full: need '' @ dec need @ '', have '' @ dec have_n)"

definition rb_write :: "ring_buffer \<Rightarrow> bytes \<Rightarrow> (nat result \<times> ring_buffer) option" where
  "rb_write rb dat =
     (let available = available_write rb in
      if available < length dat
      then Some (Err (rb_full_error (length dat) available), rb)
      else
        let write_pos = rb_write_pos rb;
            first_seg = min (length dat) (usub (rb_capacity rb) write_pos)
        in do {
          d1 \<leftarrow> mem_store (rb_data rb) write_pos (take first_seg dat);
          (d2, written) \<leftarrow>
            (if first_seg < length dat
             then (let remaining = length dat - first_seg in do {
               d2 \<leftarrow> mem_store d1 0 (take remaining (drop first_seg dat));
               Some (d2, first_seg + remaining) })
             else Some (d1, first_seg));
          Some (Ok written,
            rb\<lparr>rb_data := d2,
               rb_write_pos := uadd write_pos written mod rb_capacity rb\<rparr>)
        })"

definition rb_read :: "ring_buffer \<Rightarrow> bytes \<Rightarrow> (nat result \<times> bytes \<times> ring_buffer) option" where
  "rb_read rb buf =
     (let available = available_read rb;
          to_read = min (length buf) available
      in if to_read = 0 then Some (Ok 0, buf, rb)
      else
        let read_pos = rb_read_pos rb;
            first_seg = min to_read (usub (rb_capacity rb) read_pos)
        in do {
          s1 \<leftarrow> mem_load (rb_data rb) read_pos first_seg;
          b1 \<leftarrow> mem_store buf 0 s1;
          (b2, read_bytes) \<leftarrow>
            (if first_seg < to_read
             then (let remaining = to_read - first_seg in do {
               s2 \<leftarrow> mem_load (rb_data rb) 0 remaining;
               b2 \<leftarrow> mem_store b1 first_seg s2;
               Some (b2, first_seg + remaining) })
             else Some (b1, first_seg));
          Some (Ok read_bytes, b2,
            rb\<lparr>rb_read_pos := uadd read_pos read_bytes mod rb_capacity rb\<rparr>)
        })"

text \<open>A zero-copy pointer is its offset into the allocation, with the length handed out.\<close>

definition read_ptr :: "ring_buffer \<Rightarrow> nat \<times> nat" where
  "read_ptr rb =
     (let read_pos = rb_read_pos rb; write_pos = rb_write_pos rb;
          continuous =
            (if read_pos < write_pos then usub write_pos read_pos
             else if write_pos < read_pos then usub (rb_capacity rb) read_pos
             else 0)
      in (read_pos, continuous))"

definition write_ptr :: "ring_buffer \<Rightarrow> nat \<times> nat" where
  "write_ptr rb =
     (let write_pos = rb_write_pos rb; read_pos = rb_read_pos rb;
          available =
            (if read_pos \<le> write_pos
             then usub (uadd (usub (rb_capacity rb) write_pos) read_pos) 1
             else usub (usub read_pos write_pos) 1);
          continuous =
            (if read_pos \<le> write_pos then usub (rb_capacity rb) write_pos
             else usub (usub read_pos write_pos) 1)
      in (write_pos, min available continuous))"

definition advance_read :: "ring_buffer \<Rightarrow> nat \<Rightarrow> unit result \<times> ring_buffer" where
  "advance_read rb cnt =
     (if available_read rb < cnt
      then (Err (IPCError ''Cannot advance read past available data''), rb)
      else (Ok (), rb\<lparr>rb_read_pos := uadd (rb_read_pos rb) cnt mod rb_capacity rb\<rparr>))"

definition advance_write :: "ring_buffer \<Rightarrow> nat \<Rightarrow> unit result \<times> ring_buffer" where
  "advance_write rb cnt =
     (if available_write rb < cnt
      then (Err (IPCError ''Cannot advance write past available space''), rb)
      else (Ok (), rb\<lparr>rb_write_pos := uadd (rb_write_pos rb) cnt mod rb_capacity rb\<rparr>))"

definition rb_clear :: "ring_buffer \<Rightarrow> ring_buffer" where
  "rb_clear rb = rb\<lparr>rb_write_pos := 0, rb_read_pos := 0\<rparr>"

text \<open>
  The reader's and the writer's busy-wait loops.  The ring as seen by the \<open>i\<close>-th poll is
  \<open>rings i\<close> (the other side moves it meanwhile) and \<open>elapsed i\<close> is the clock reading of that
  poll; \<open>None\<close> is a loop that never ends.
\<close>

partial_function (option) wait_for_data ::
  "(nat \<Rightarrow> ring_buffer) \<Rightarrow> (nat \<Rightarrow> u64) \<Rightarrow> u64 \<Rightarrow> nat \<Rightarrow> bool option" where
  "wait_for_data rings elapsed timeout_ms i =
     (if 0 < available_read (rings i) then Some True
      else if timeout_ms < elapsed i then Some False
      else wait_for_data rings elapsed timeout_ms (Suc i))"

partial_function (option) wait_for_space ::
  "(nat \<Rightarrow> ring_buffer) \<Rightarrow> (nat \<Rightarrow> u64) \<Rightarrow> nat \<Rightarrow> u64 \<Rightarrow> nat \<Rightarrow> bool option" where
  "wait_for_space rings elapsed needed timeout_ms i =
     (if needed \<le> available_write (rings i) then Some True
      else if timeout_ms < elapsed i then Some False
      else wait_for_space rings elapsed needed timeout_ms (Suc i))"

subsection \<open>Invariant and abstraction\<close>

definition rb_inv :: "ring_buffer \<Rightarrow> bool" where
  "rb_inv rb \<longleftrightarrow>
     0 < rb_capacity rb \<and> layout_ok (rb_capacity rb) 4096 \<and>
     length (rb_data rb) = rb_capacity rb \<and>
     rb_write_pos rb < rb_capacity rb \<and> rb_read_pos rb < rb_capacity rb"

definition rb_contents :: "ring_buffer \<Rightarrow> bytes" where
  "rb_contents rb =
     map (\<lambda>i. rb_data rb ! ((rb_read_pos rb + i) mod rb_capacity rb)) [0..<available_read rb]"

lemma rb_capacity_bound: "rb_inv rb \<Longrightarrow> 2 * rb_capacity rb < usize_modulus"
  by (auto simp: rb_inv_def layout_ok_def usize_modulus_def)

lemma wrap_add:
  fixes a b c :: nat
  assumes "a < c" "b \<le> c"
  shows "(a + b) mod c = (if a + b < c then a + b else a + b - c)"
  using assms by (auto simp: le_mod_geq)

lemma available_read_eq:
  assumes "rb_inv rb"
  shows "available_read rb =
     (if rb_read_pos rb \<le> rb_write_pos rb then rb_write_pos rb - rb_read_pos rb
      else rb_capacity rb - (rb_read_pos rb - rb_write_pos rb))"
  using assms by (auto simp: available_read_def rb_inv_def Let_def usize_simps)

lemma available_write_eq:
  assumes "rb_inv rb"
  shows "available_write rb =
     (if rb_read_pos rb \<le> rb_write_pos rb
      then rb_capacity rb - (rb_write_pos rb - rb_read_pos rb) - 1
      else rb_read_pos rb - rb_write_pos rb - 1)"
  using assms by (auto simp: available_write_def rb_inv_def Let_def usize_simps)

lemma available_sum: "rb_inv rb \<Longrightarrow> available_read rb + available_write rb = rb_capacity rb - 1"
  by (auto simp: available_read_eq available_write_eq rb_inv_def)

lemma available_read_less: "rb_inv rb \<Longrightarrow> available_read rb < rb_capacity rb"
  by (auto simp: available_read_eq rb_inv_def)

lemma length_rb_contents [simp]: "length (rb_contents rb) = available_read rb"
  by (simp add: rb_contents_def)

lemma nth_rb_contents:
  "i < available_read rb \<Longrightarrow>
     rb_contents rb ! i = rb_data rb ! ((rb_read_pos rb + i) mod rb_capacity rb)"
  by (simp add: rb_contents_def)

subsection \<open>Memory operations\<close>

lemma mem_store_SomeI:
  "off + length src \<le> length mem \<Longrightarrow>
     mem_store mem off src = Some (take off mem @ src @ drop (off + length src) mem)"
  by (simp add: mem_store_def)

lemma mem_store_append:
  "length src \<le> length ys \<Longrightarrow>
     mem_store (xs @ ys) (length xs) src = Some (xs @ src @ drop (length src) ys)"
  by (simp add: mem_store_def)

lemma length_mem_store: "mem_store mem off src = Some mem' \<Longrightarrow> length mem' = length mem"
  by (auto simp: mem_store_def split: if_splits)

lemma nth_mem_store:
  assumes "mem_store mem off src = Some mem'" "j < length mem"
  shows "mem' ! j = (if off \<le> j \<and> j < off + length src then src ! (j - off) else mem ! j)"
  using assms by (auto simp: mem_store_def nth_append min_def split: if_splits)

text \<open>The two segments of a wrapped store are one circular store.\<close>

definition circ_store :: "bytes \<Rightarrow> nat \<Rightarrow> bytes \<Rightarrow> bytes" where
  "circ_store mem pos src =
     map (\<lambda>j. let k = (j + length mem - pos) mod length mem in
            if k < length src then src ! k else mem ! j) [0..<length mem]"

lemma length_circ_store [simp]: "length (circ_store mem pos src) = length mem"
  by (simp add: circ_store_def)

lemma nth_circ_store:
  assumes "j < length mem" "pos < length mem"
  shows "circ_store mem pos src ! j =
     (let k = (if pos \<le> j then j - pos else j + length mem - pos) in
      if k < length src then src ! k else mem ! j)"
proof -
  have "(j + length mem - pos) mod length mem =
      (if pos \<le> j then j - pos else j + length mem - pos)"
    using assms by (auto simp: le_mod_geq)
  then show ?thesis using assms by (simp add: circ_store_def Let_def)
qed

lemma circ_store_one_segment:
  assumes "pos < length mem" "length src \<le> length mem - pos"
  shows "mem_store mem pos src = Some (circ_store mem pos src)"
proof -
  let ?m = "take pos mem @ src @ drop (pos + length src) mem"
  have "?m = circ_store mem pos src"
    using assms by (intro nth_equalityI) (auto simp: nth_append nth_circ_store Let_def)
  then show ?thesis using assms by (simp add: mem_store_def)
qed

lemma circ_store_two_segments:
  assumes "pos < length mem" "length mem - pos < length src" "length src \<le> length mem"
  defines "f \<equiv> length mem - pos"
  shows "\<exists>d1. mem_store mem pos (take f src) = Some d1 \<and>
     mem_store d1 0 (drop f src) = Some (circ_store mem pos src)"
proof -
  define d1 where "d1 = take pos mem @ take f src"
  have s1: "mem_store mem pos (take f src) = Some d1"
    using assms by (auto simp: mem_store_def d1_def)
  have l1: "length d1 = length mem"
    using assms by (simp add: d1_def)
  let ?d2 = "drop f src @ drop (length src - f) d1"
  have s2: "mem_store d1 0 (drop f src) = Some ?d2"
    using assms l1 by (simp add: mem_store_def)
  have "?d2 = circ_store mem pos src"
  proof (intro nth_equalityI)
    show "length ?d2 = length (circ_store mem pos src)"
      using assms l1 by simp
    fix j assume "j < length ?d2"
    then have j: "j < length mem" using assms l1 by simp
    have e: "?d2 ! j = (if j < length src - f then src ! (f + j) else d1 ! j)"
      using assms j l1 by (simp add: nth_append)
    show "?d2 ! j = circ_store mem pos src ! j"
    proof (cases "pos \<le> j")
      case True
      then have "\<not> j < length src - f" "j - pos < length src" "j - pos < f"
        using assms j by linarith+
      then have "?d2 ! j = src ! (j - pos)"
        using e True assms(1) by (simp add: d1_def nth_append)
      then show ?thesis
        using True j assms(1) \<open>j - pos < length src\<close> by (simp add: nth_circ_store Let_def)
    next
      case False
      then have k: "j + length mem - pos = f + j"
        using assms j by linarith
      have "?d2 ! j = (if f + j < length src then src ! (f + j) else mem ! j)"
        using e False assms(1) by (auto simp: d1_def nth_append)
      then show ?thesis
        using False j assms(1) k by (simp add: nth_circ_store Let_def)
    qed
  qed
  with s1 s2 show ?thesis by auto
qed

subsection \<open>What each operation does\<close>

lemma rb_new_inv:
  assumes "\<And>n mem. alloc n = Some mem \<Longrightarrow> length mem = n" "rb_new alloc config = Ok rb"
  shows "rb_inv rb" "rb_contents rb = []" "rb_capacity rb = cfg_capacity config"
  using assms
  by (auto simp: rb_new_def rb_inv_def rb_contents_def available_read_def usize_simps
      split: if_splits option.splits)

lemma rb_write_fits:
  assumes inv: "rb_inv rb" and fits: "length dat \<le> available_write rb"
  shows "rb_write rb dat = Some (Ok (length dat),
     rb\<lparr>rb_data := circ_store (rb_data rb) (rb_write_pos rb) dat,
        rb_write_pos := (rb_write_pos rb + length dat) mod rb_capacity rb\<rparr>)"
proof -
  let ?w = "rb_write_pos rb" and ?c = "rb_capacity rb"
  have c: "?w < ?c" "length (rb_data rb) = ?c" "length dat < ?c"
    using inv fits available_sum[OF inv] by (auto simp: rb_inv_def)
  have u: "uadd ?w (length dat) = ?w + length dat" "usub ?c ?w = ?c - ?w"
    using c rb_capacity_bound[OF inv] by (auto simp: usize_simps)
  show ?thesis
  proof (cases "length dat \<le> ?c - ?w")
    case True
    then have "mem_store (rb_data rb) ?w dat = Some (circ_store (rb_data rb) ?w dat)"
      using c by (intro circ_store_one_segment) auto
    with True fits u show ?thesis
      by (simp add: rb_write_def Let_def min_def)
  next
    case False
    then obtain d1 where "mem_store (rb_data rb) ?w (take (?c - ?w) dat) = Some d1"
      "mem_store d1 0 (drop (?c - ?w) dat) = Some (circ_store (rb_data rb) ?w dat)"
      using circ_store_two_segments[of ?w "rb_data rb" dat] c by auto
    with False fits u show ?thesis
      by (simp add: rb_write_def Let_def min_def)
  qed
qed

lemma rb_write_full:
  "available_write rb < length dat \<Longrightarrow>
     rb_write rb dat = Some (Err (rb_full_error (length dat) (available_write rb)), rb)"
  by (simp add: rb_write_def)

lemma rb_read_eq:
  assumes inv: "rb_inv rb" and n: "n = min (length buf) (available_read rb)"
  shows "rb_read rb buf = Some (Ok n, take n (rb_contents rb) @ drop n buf,
     rb\<lparr>rb_read_pos := (rb_read_pos rb + n) mod rb_capacity rb\<rparr>)"
proof (cases "n = 0")
  case True
  moreover have "rb_read_pos rb mod rb_capacity rb = rb_read_pos rb"
    using inv by (simp add: rb_inv_def)
  ultimately show ?thesis using n by (simp add: rb_read_def Let_def)
next
  case False
  let ?r = "rb_read_pos rb" and ?c = "rb_capacity rb" and ?d = "rb_data rb"
  have c: "?r < ?c" "length ?d = ?c" "n < ?c" "n \<le> length buf" "n \<le> available_read rb"
    using inv n available_read_less[OF inv] by (auto simp: rb_inv_def)
  have u: "uadd ?r n = ?r + n" "usub ?c ?r = ?c - ?r"
    using c rb_capacity_bound[OF inv] by (auto simp: usize_simps)
  define f where "f = min n (?c - ?r)"
  have f: "f \<le> n" "?r + f \<le> ?c" using c by (auto simp: f_def)
  have ld: "mem_load ?d ?r f = Some (take f (drop ?r ?d))"
    using c f by (simp add: mem_load_def)
  have nf: "min (length buf) (available_read rb) = n" "min n (usub ?c ?r) = f"
    using n u(2) by (simp_all add: f_def)
  have lf: "length (take f (drop ?r ?d)) = f" using c f by simp
  have seg: "take f (drop ?r ?d) @ take (n - f) ?d = take n (rb_contents rb)"
  proof (intro nth_equalityI)
    show "length (take f (drop ?r ?d) @ take (n - f) ?d) = length (take n (rb_contents rb))"
      using c f by (auto simp: f_def)
    fix i assume "i < length (take f (drop ?r ?d) @ take (n - f) ?d)"
    then have i: "i < n" using c f by auto
    have "(?r + i) mod ?c = (if i < f then ?r + i else i - f)"
      using wrap_add[of ?r ?c i] c i by (auto simp: f_def min_def)
    then show "(take f (drop ?r ?d) @ take (n - f) ?d) ! i = take n (rb_contents rb) ! i"
      using i c f lf by (auto simp: nth_append nth_rb_contents)
  qed
  have b1: "mem_store buf 0 (take f (drop ?r ?d)) = Some (take f (drop ?r ?d) @ drop f buf)"
    using c f by (simp add: mem_store_def)
  show ?thesis
  proof (cases "f < n")
    case True
    then have ld2: "mem_load ?d 0 (n - f) = Some (take (n - f) ?d)"
      using c by (simp add: mem_load_def)
    have b2: "mem_store (take f (drop ?r ?d) @ drop f buf) f (take (n - f) ?d) =
        Some (take n (rb_contents rb) @ drop n buf)"
      using mem_store_append[of "take (n - f) ?d" "drop f buf" "take f (drop ?r ?d)"] c True lf
      by (simp flip: seg)
    show ?thesis
      using False True ld b1 ld2 b2 by (simp add: rb_read_def nf u(1))
  next
    case noteq: False
    then have "f = n" using f by simp
    then show ?thesis
      using False ld b1 seg by (simp add: rb_read_def nf u(1))
  qed
qed

text \<open>The two pointer moves on the abstract queue.\<close>

lemma produce_inv:
  assumes "rb_inv rb" "length d = rb_capacity rb"
  shows "rb_inv (rb\<lparr>rb_data := d, rb_write_pos := (rb_write_pos rb + n) mod rb_capacity rb\<rparr>)"
  using assms by (simp add: rb_inv_def)

lemma produce_available:
  assumes inv: "rb_inv rb" and n: "n \<le> available_write rb" and d: "length d = rb_capacity rb"
  shows "available_read (rb\<lparr>rb_data := d,
     rb_write_pos := (rb_write_pos rb + n) mod rb_capacity rb\<rparr>) = available_read rb + n"
proof -
  have "(rb_write_pos rb + n) mod rb_capacity rb =
      (if rb_write_pos rb + n < rb_capacity rb then rb_write_pos rb + n
       else rb_write_pos rb + n - rb_capacity rb)"
    using inv n available_sum[OF inv] by (intro wrap_add) (auto simp: rb_inv_def)
  then show ?thesis
    using inv n produce_inv[OF inv d, of n]
    by (auto simp: available_read_eq available_write_eq rb_inv_def split: if_splits)
qed

lemma produce_contents:
  assumes inv: "rb_inv rb" and n: "length dat \<le> available_write rb"
  defines "rb' \<equiv> rb\<lparr>rb_data := circ_store (rb_data rb) (rb_write_pos rb) dat,
     rb_write_pos := (rb_write_pos rb + length dat) mod rb_capacity rb\<rparr>"
  shows "rb_contents rb' = rb_contents rb @ dat"
proof (rule nth_equalityI)
  let ?r = "rb_read_pos rb" and ?w = "rb_write_pos rb" and ?c = "rb_capacity rb"
  have c: "?w < ?c" "?r < ?c" "length (rb_data rb) = ?c"
    using inv by (auto simp: rb_inv_def)
  have ar: "available_read rb' = available_read rb + length dat"
    unfolding rb'_def using inv n c by (intro produce_available) auto
  then show "length (rb_contents rb') = length (rb_contents rb @ dat)" by simp
  fix i assume "i < length (rb_contents rb')"
  then have i: "i < available_read rb + length dat" using ar by simp
  define p where "p = (?r + i) mod ?c"
  have p: "p < ?c" using c by (simp add: p_def)
  have p_eq: "p = (if ?r + i < ?c then ?r + i else ?r + i - ?c)"
    unfolding p_def using c i n available_sum[OF inv] by (intro wrap_add) auto
  have k: "(if ?w \<le> p then p - ?w else p + ?c - ?w) =
      (if i < available_read rb then i + (?c - available_read rb) else i - available_read rb)"
    using p_eq c i n inv by (auto simp: available_read_eq available_write_eq)
  have "rb_contents rb' ! i = circ_store (rb_data rb) ?w dat ! p"
    using i ar by (simp add: nth_rb_contents rb'_def p_def)
  also have "\<dots> = (rb_contents rb @ dat) ! i"
    using c p i n available_sum[OF inv] k
    by (auto simp: nth_circ_store Let_def nth_append nth_rb_contents p_def)
  finally show "rb_contents rb' ! i = (rb_contents rb @ dat) ! i" .
qed

lemma consume_inv:
  "rb_inv rb \<Longrightarrow> rb_inv (rb\<lparr>rb_read_pos := (rb_read_pos rb + n) mod rb_capacity rb\<rparr>)"
  by (simp add: rb_inv_def)

lemma consume_available:
  assumes inv: "rb_inv rb" and n: "n \<le> available_read rb"
  shows "available_read (rb\<lparr>rb_read_pos := (rb_read_pos rb + n) mod rb_capacity rb\<rparr>) =
     available_read rb - n"
proof -
  have "(rb_read_pos rb + n) mod rb_capacity rb =
      (if rb_read_pos rb + n < rb_capacity rb then rb_read_pos rb + n
       else rb_read_pos rb + n - rb_capacity rb)"
    using inv n available_read_less[OF inv] by (intro wrap_add) (auto simp: rb_inv_def)
  then show ?thesis
    using inv n consume_inv[OF inv, of n]
    by (auto simp: available_read_eq rb_inv_def split: if_splits)
qed

lemma consume_contents:
  assumes inv: "rb_inv rb" and n: "n \<le> available_read rb"
  shows "rb_contents (rb\<lparr>rb_read_pos := (rb_read_pos rb + n) mod rb_capacity rb\<rparr>) =
     drop n (rb_contents rb)"
proof (rule nth_equalityI)
  let ?rb = "rb\<lparr>rb_read_pos := (rb_read_pos rb + n) mod rb_capacity rb\<rparr>"
  show "length (rb_contents ?rb) = length (drop n (rb_contents rb))"
    using consume_available[OF inv n] by simp
  fix i assume "i < length (rb_contents ?rb)"
  then have i: "i < available_read rb - n" using consume_available[OF inv n] by simp
  then show "rb_contents ?rb ! i = drop n (rb_contents rb) ! i"
    using consume_available[OF inv n]
    by (simp add: nth_rb_contents mod_add_left_eq add.assoc)
qed

subsection \<open>The interface of a bounded queue\<close>

text \<open>
  What a client of the ring relies on: a write that fits is appended, a write that does not
  fit changes nothing, a read delivers the oldest bytes.  A run of puts and gets is
  executed by \<open>fifo_run\<close>, which collects what was accepted and what was delivered.
\<close>

datatype 'a fifo_op = Put "'a list" | Get "'a list"

fun fifo_run ::
  "('q \<Rightarrow> 'a list \<Rightarrow> (('e + nat) \<times> 'q) option) \<Rightarrow>
   ('q \<Rightarrow> 'a list \<Rightarrow> (('e + nat) \<times> 'a list \<times> 'q) option) \<Rightarrow>
   'q \<Rightarrow> 'a fifo_op list \<Rightarrow> ('a list \<times> 'a list \<times> 'q) option" where
  "fifo_run write read q [] = Some ([], [], q)"
| "fifo_run write read q (Put xs # ops) = do {
     (r, q') \<leftarrow> write q xs;
     (a, d, q'') \<leftarrow> fifo_run write read q' ops;
     Some ((case r of Err _ \<Rightarrow> [] | Ok n \<Rightarrow> take n xs) @ a, d, q'') }"
| "fifo_run write read q (Get buf # ops) = do {
     (r, b, q') \<leftarrow> read q buf;
     (a, d, q'') \<leftarrow> fifo_run write read q' ops;
     Some (a, (case r of Err _ \<Rightarrow> [] | Ok n \<Rightarrow> take n b) @ d, q'') }"

locale bounded_fifo =
  fixes invar :: "'q \<Rightarrow> bool"
    and queue :: "'q \<Rightarrow> 'a list"
    and room :: "'q \<Rightarrow> nat"
    and put :: "'q \<Rightarrow> 'a list \<Rightarrow> (('e + nat) \<times> 'q) option"
    and get :: "'q \<Rightarrow> 'a list \<Rightarrow> (('e + nat) \<times> 'a list \<times> 'q) option"
  assumes put_fits: "invar q \<Longrightarrow> length xs \<le> room q \<Longrightarrow>
      \<exists>q'. put q xs = Some (Ok (length xs), q') \<and> invar q' \<and>
        queue q' = queue q @ xs \<and> room q' + length xs = room q"
    and put_full: "invar q \<Longrightarrow> room q < length xs \<Longrightarrow> \<exists>e. put q xs = Some (Err e, q)"
    and get_min: "invar q \<Longrightarrow> n = min (length buf) (length (queue q)) \<Longrightarrow>
      \<exists>q'. get q buf = Some (Ok n, take n (queue q) @ drop n buf, q') \<and> invar q' \<and>
        queue q' = drop n (queue q) \<and> room q' = room q + n"
begin

lemma put_then_get:
  assumes "invar q" "queue q = []" "length xs \<le> room q" "length buf = length xs"
  shows "\<exists>q' q''. put q xs = Some (Ok (length xs), q') \<and>
     get q' buf = Some (Ok (length xs), xs, q'') \<and> invar q'' \<and> queue q'' = [] \<and>
     room q'' = room q"
proof -
  obtain q' where q': "put q xs = Some (Ok (length xs), q')" "invar q'" "queue q' = xs"
    "room q' + length xs = room q"
    using put_fits[OF assms(1,3)] assms(2) by auto
  then obtain q'' where "get q' buf = Some (Ok (length xs), take (length xs) xs @ drop (length xs) buf, q'')"
    "invar q''" "queue q'' = []" "room q'' = room q' + length xs"
    using get_min[OF q'(2), of "length xs" buf] assms(4) by auto
  with q' assms(4) show ?thesis by auto
qed

lemma run_fifo:
  assumes "invar q"
  shows "\<exists>a d q'. fifo_run put get q ops = Some (a, d, q') \<and> invar q' \<and>
     queue q @ a = d @ queue q' \<and> length (queue q') + room q' = length (queue q) + room q"
  using assms
proof (induction ops arbitrary: q)
  case Nil
  then show ?case by simp
next
  case (Cons op ops)
  show ?case
  proof (cases op)
    case (Put xs)
    show ?thesis
    proof (cases "length xs \<le> room q")
      case True
      then obtain q1 where q1: "put q xs = Some (Ok (length xs), q1)" "invar q1"
        "queue q1 = queue q @ xs" "room q1 + length xs = room q"
        using put_fits[OF Cons.prems] by blast
      from Cons.IH[OF q1(2)] q1 Put show ?thesis by fastforce
    next
      case False
      then obtain e where "put q xs = Some (Err e, q)"
        using put_full[OF Cons.prems] by (meson not_le)
      with Cons.IH[OF Cons.prems] Put show ?thesis by fastforce
    qed
  next
    case (Get buf)
    define n where "n = min (length buf) (length (queue q))"
    obtain q1 where q1: "get q buf = Some (Ok n, take n (queue q) @ drop n buf, q1)"
      "invar q1" "queue q1 = drop n (queue q)" "room q1 = room q + n"
      using get_min[OF Cons.prems n_def] by blast
    obtain a d q' where r: "fifo_run put get q1 ops = Some (a, d, q')" "invar q'"
      "queue q1 @ a = d @ queue q'" "length (queue q') + room q' = length (queue q1) + room q1"
      using Cons.IH[OF q1(2)] by blast
    have t: "take n (take n (queue q) @ drop n buf) = take n (queue q)"
      by (simp add: n_def)
    have "queue q @ a = take n (queue q) @ d @ queue q'"
      using r(3) q1(3) by (metis append.assoc append_take_drop_id)
    with Get q1 r t show ?thesis
      by (auto simp: n_def)
  qed
qed

end

interpretation ring: bounded_fifo rb_inv rb_contents available_write rb_write rb_read
proof unfold_locales
  fix rb :: ring_buffer and xs :: bytes
  assume inv: "rb_inv rb" and fits: "length xs \<le> available_write rb"
  let ?rb = "rb\<lparr>rb_data := circ_store (rb_data rb) (rb_write_pos rb) xs,
    rb_write_pos := (rb_write_pos rb + length xs) mod rb_capacity rb\<rparr>"
  have inv': "rb_inv ?rb" using inv by (intro produce_inv) (auto simp: rb_inv_def)
  have "rb_contents ?rb = rb_contents rb @ xs" by (rule produce_contents[OF inv fits])
  moreover from this have "available_read ?rb = available_read rb + length xs"
    by (metis length_append length_rb_contents)
  then have "available_write ?rb + length xs = available_write rb"
    using available_sum[OF inv] available_sum[OF inv'] by simp
  ultimately show "\<exists>q'. rb_write rb xs = Some (Ok (length xs), q') \<and> rb_inv q' \<and>
     rb_contents q' = rb_contents rb @ xs \<and> available_write q' + length xs = available_write rb"
    using rb_write_fits[OF inv fits] inv' by blast
next
  fix rb :: ring_buffer and xs :: bytes
  assume "available_write rb < length xs"
  then show "\<exists>e. rb_write rb xs = Some (Err e, rb)"
    using rb_write_full by blast
next
  fix rb :: ring_buffer and n :: nat and buf :: bytes
  assume inv: "rb_inv rb" and n: "n = min (length buf) (length (rb_contents rb))"
  let ?rb = "rb\<lparr>rb_read_pos := (rb_read_pos rb + n) mod rb_capacity rb\<rparr>"
  have nle: "n \<le> available_read rb" using n by simp
  have inv': "rb_inv ?rb" by (rule consume_inv[OF inv])
  have "available_write ?rb = available_write rb + n"
    using available_sum[OF inv] available_sum[OF inv'] consume_available[OF inv nle] nle by simp
  then show "\<exists>q'. rb_read rb buf = Some (Ok n, take n (rb_contents rb) @ drop n buf, q') \<and>
     rb_inv q' \<and> rb_contents q' = drop n (rb_contents rb) \<and>
     available_write q' = available_write rb + n"
    using rb_read_eq[OF inv, of n buf] n inv' consume_contents[OF inv nle] by auto
qed

subsection \<open>Zero-copy access\<close>

lemma read_ptr_eq:
  assumes inv: "rb_inv rb" and p: "read_ptr rb = (off, len)"
  shows "mem_load (rb_data rb) off len = Some (take len (rb_contents rb))"
    "len \<le> available_read rb" "len = 0 \<longleftrightarrow> rb_contents rb = []"
proof -
  let ?r = "rb_read_pos rb" and ?w = "rb_write_pos rb" and ?c = "rb_capacity rb"
  have c: "?r < ?c" "?w < ?c" "length (rb_data rb) = ?c"
    using inv by (auto simp: rb_inv_def)
  have ol: "off = ?r" "len = (if ?r < ?w then ?w - ?r else if ?w < ?r then ?c - ?r else 0)"
    using p c by (auto simp: read_ptr_def Let_def usize_simps split: if_splits)
  then show le: "len \<le> available_read rb"
    using c inv by (auto simp: available_read_eq)
  have "off + len \<le> ?c" using ol c by auto
  moreover have "take len (drop off (rb_data rb)) = take len (rb_contents rb)"
    using le \<open>off + len \<le> ?c\<close> c ol(1)
    by (intro nth_equalityI) (auto simp: nth_rb_contents)
  ultimately show "mem_load (rb_data rb) off len = Some (take len (rb_contents rb))"
    using c by (simp add: mem_load_def)
  have "rb_contents rb = [] \<longleftrightarrow> available_read rb = 0"
    using length_rb_contents[of rb] by (metis length_0_conv)
  then show "len = 0 \<longleftrightarrow> rb_contents rb = []"
    using ol c inv by (auto simp: available_read_eq)
qed

lemma write_ptr_eq:
  assumes inv: "rb_inv rb" and p: "write_ptr rb = (off, len)"
  shows "off = rb_write_pos rb" "len = min (available_write rb) (rb_capacity rb - rb_write_pos rb)"
proof -
  let ?r = "rb_read_pos rb" and ?w = "rb_write_pos rb" and ?c = "rb_capacity rb"
  have c: "?r < ?c" "?w < ?c" using inv by (auto simp: rb_inv_def)
  have u: "usub ?c ?w = ?c - ?w" "uadd (?c - ?w) ?r = ?c - ?w + ?r"
    using c rb_capacity_bound[OF inv] by (auto simp: usize_simps)
  show "off = ?w" using p by (simp add: write_ptr_def Let_def)
  show "len = min (available_write rb) (?c - ?w)"
    using p c u inv
    by (auto simp: write_ptr_def Let_def available_write_eq usize_simps min_def split: if_splits)
qed

lemma advance_read_eq:
  assumes "rb_inv rb" "n \<le> available_read rb"
  shows "advance_read rb n = (Ok (), rb\<lparr>rb_read_pos := (rb_read_pos rb + n) mod rb_capacity rb\<rparr>)"
proof -
  have "uadd (rb_read_pos rb) n = rb_read_pos rb + n"
    using assms available_read_less[OF assms(1)] rb_capacity_bound[OF assms(1)]
    by (intro uadd_less) (auto simp: rb_inv_def)
  then show ?thesis using assms by (simp add: advance_read_def)
qed

lemma advance_write_eq:
  assumes "rb_inv rb" "n \<le> available_write rb"
  shows "advance_write rb n = (Ok (), rb\<lparr>rb_write_pos := (rb_write_pos rb + n) mod rb_capacity rb\<rparr>)"
proof -
  have "uadd (rb_write_pos rb) n = rb_write_pos rb + n"
    using assms available_sum[OF assms(1)] rb_capacity_bound[OF assms(1)]
    by (intro uadd_less) (auto simp: rb_inv_def)
  then show ?thesis using assms by (simp add: advance_write_def)
qed

subsection \<open>Busy waiting\<close>

text \<open>Both loops return at the first poll that is ready or out of time.\<close>

lemma wait_for_data_first:
  assumes "0 < available_read (rings j) \<or> timeout_ms < elapsed j" "i \<le> j"
    "\<And>k. i \<le> k \<Longrightarrow> k < j \<Longrightarrow> available_read (rings k) = 0 \<and> \<not> timeout_ms < elapsed k"
  shows "wait_for_data rings elapsed timeout_ms i = Some (0 < available_read (rings j))"
  using assms
proof (induction "j - i" arbitrary: i)
  case 0
  then show ?case by (subst wait_for_data.simps) auto
next
  case (Suc d)
  then have "wait_for_data rings elapsed timeout_ms (Suc i) = Some (0 < available_read (rings j))"
    by (intro Suc.hyps(1)) auto
  moreover have "available_read (rings i) = 0 \<and> \<not> timeout_ms < elapsed i"
    using Suc by simp
  ultimately show ?case by (subst wait_for_data.simps) simp
qed

lemma wait_for_space_first:
  assumes "needed \<le> available_write (rings j) \<or> timeout_ms < elapsed j" "i \<le> j"
    "\<And>k. i \<le> k \<Longrightarrow> k < j \<Longrightarrow> available_write (rings k) < needed \<and> \<not> timeout_ms < elapsed k"
  shows "wait_for_space rings elapsed needed timeout_ms i =
     Some (needed \<le> available_write (rings j))"
  using assms
proof (induction "j - i" arbitrary: i)
  case 0
  then show ?case by (subst wait_for_space.simps) auto
next
  case (Suc d)
  then have "wait_for_space rings elapsed needed timeout_ms (Suc i) =
      Some (needed \<le> available_write (rings j))"
    by (intro Suc.hyps(1)) auto
  moreover have "available_write (rings i) < needed \<and> \<not> timeout_ms < elapsed i"
    using Suc by simp
  ultimately show ?case by (subst wait_for_space.simps) simp
qed

subsection \<open>Properties\<close>

text \<open>
  C6: Every run of \<open>write\<close> and \<open>read\<close> calls on a well-formed ring is memory
  safe (no copy leaves the allocation), keeps the ring well formed and is first-in first-out
  without loss: the bytes held before plus the bytes accepted are the bytes delivered plus
  the bytes still held, in order, and the free room accounts for exactly the rest.
\<close>

theorem ring_run_fifo:
  assumes "rb_inv rb"
  shows "\<exists>accepted delivered rb'. fifo_run rb_write rb_read rb ops = Some (accepted, delivered, rb') \<and>
     rb_inv rb' \<and> rb_contents rb @ accepted = delivered @ rb_contents rb' \<and>
     length (rb_contents rb') + available_write rb' = length (rb_contents rb) + available_write rb"
  using assms by (rule ring.run_fifo)

definition ring4 :: ring_buffer where
  "ring4 = \<lparr>rb_data = [7, 8, 9, 10], rb_write_pos = 1, rb_read_pos = 3, rb_capacity = 4,
     rb_config = \<lparr>cfg_capacity = 4, cfg_zero_copy = True\<rparr>\<rparr>"

lemma ring4_inv: "rb_inv ring4"
  by (simp add: ring4_def rb_inv_def layout_ok_def)

lemma ring4_contents: "rb_contents ring4 = [10, 7]"
  by (simp add: ring4_def rb_contents_def available_read_def usub_def usize_modulus_def upt_rec)

theorem ring_run_fifo_witness:
  "rb_inv ring4 \<and>
   (\<exists>a d rb'. fifo_run rb_write rb_read ring4 [Put [1], Get [0, 0]] = Some (a, d, rb') \<and>
      rb_inv rb' \<and> rb_contents ring4 @ a = d @ rb_contents rb' \<and>
      length (rb_contents rb') + available_write rb' =
        length (rb_contents ring4) + available_write ring4)"
  using ring_run_fifo[OF ring4_inv, of "[Put [1], Get [0, 0]]"] ring4_inv by blast

text \<open>
  C23: \<open>write\<close> is all or nothing: data that fits the free space is
  appended in full and the call returns its length; data that does not fit is refused with
  the \<open>Ring buffer full\<close> error naming both sizes, and the ring is unchanged.
\<close>

theorem ring_write_all_or_nothing:
  assumes "rb_inv rb"
  shows "(length dat \<le> rb_capacity rb - 1 - length (rb_contents rb) \<and>
      (\<exists>rb'. rb_write rb dat = Some (Ok (length dat), rb') \<and> rb_inv rb' \<and>
         rb_contents rb' = rb_contents rb @ dat)) \<or>
    (rb_capacity rb - 1 - length (rb_contents rb) < length dat \<and>
      rb_write rb dat = Some (Err (rb_full_error (length dat)
        (rb_capacity rb - 1 - length (rb_contents rb))), rb))"
proof -
  have room: "available_write rb = rb_capacity rb - 1 - length (rb_contents rb)"
    using available_sum[OF assms] by simp
  show ?thesis
  proof (cases "length dat \<le> available_write rb")
    case True
    then show ?thesis using ring.put_fits[OF assms True] room by auto
  next
    case False
    then show ?thesis using rb_write_full[of rb dat] room by auto
  qed
qed

theorem ring_write_all_or_nothing_witness:
  "rb_inv ring4 \<and> rb_write ring4 [1, 2] = Some (Err (rb_full_error 2 1), ring4)"
proof -
  have l: "length (rb_contents ring4) = 2" by (simp add: ring4_contents)
  have c: "rb_capacity ring4 = 4" by (simp add: ring4_def)
  show ?thesis
    using ring_write_all_or_nothing[OF ring4_inv, of "[1, 2]"] ring4_inv
    unfolding l c by (simp add: numeral_2_eq_2)
qed

text \<open>
  C24: Zero-copy reading agrees with copying: the slice \<open>read_ptr\<close> hands
  out lies inside the allocation and holds the oldest bytes of the queue, it is empty only
  for an empty ring, and consuming it with \<open>advance_read\<close> leaves the same ring as \<open>read\<close>
  into a buffer of that length.
\<close>

theorem ring_zero_copy_read:
  assumes "rb_inv rb" "read_ptr rb = (off, len)" "length buf = len"
  shows "mem_load (rb_data rb) off len = Some (take len (rb_contents rb)) \<and>
     (len = 0 \<longleftrightarrow> rb_contents rb = []) \<and>
     rb_read rb buf = Some (Ok len, take len (rb_contents rb), snd (advance_read rb len)) \<and>
     fst (advance_read rb len) = Ok ()"
proof -
  have le: "len \<le> available_read rb" by (rule read_ptr_eq(2)[OF assms(1,2)])
  then have "min (length buf) (available_read rb) = len" using assms(3) by simp
  then show ?thesis
    using read_ptr_eq(1,3)[OF assms(1,2)] advance_read_eq[OF assms(1) le]
      rb_read_eq[OF assms(1), of len buf] assms(3) by simp
qed

theorem ring_zero_copy_read_witness:
  "read_ptr ring4 = (3, 1) \<and> rb_read ring4 [0] = Some (Ok 1, [10], snd (advance_read ring4 1))"
proof -
  have p: "read_ptr ring4 = (3, 1)"
    by (simp add: ring4_def read_ptr_def usub_def)
  show ?thesis
    using ring_zero_copy_read[OF ring4_inv p, of "[0]"] p by (simp add: ring4_contents)
qed

text \<open>
   Zero-copy writing agrees with copying: any data no longer than the
  slice \<open>write_ptr\<close> hands out can be stored through it without leaving the allocation, and
  committing it with \<open>advance_write\<close> gives exactly the ring that \<open>write\<close> gives.
\<close>

theorem ring_zero_copy_write:
  assumes "rb_inv rb" "write_ptr rb = (off, len)" "length dat \<le> len"
  shows "\<exists>mem. mem_store (rb_data rb) off dat = Some mem \<and>
     advance_write (rb\<lparr>rb_data := mem\<rparr>) (length dat) =
       (Ok (), snd (the (rb_write rb dat))) \<and>
     fst (the (rb_write rb dat)) = Ok (length dat)"
proof -
  let ?w = "rb_write_pos rb"
  let ?m = "circ_store (rb_data rb) ?w dat"
  note p = write_ptr_eq[OF assms(1,2)]
  have w: "?w < length (rb_data rb)" "length (rb_data rb) = rb_capacity rb"
    using assms(1) by (auto simp: rb_inv_def)
  have st: "mem_store (rb_data rb) off dat = Some ?m"
    using p assms(3) w by (simp add: circ_store_one_segment)
  have fit: "length dat \<le> available_write rb" using p assms(3) by simp
  have inv': "rb_inv (rb\<lparr>rb_data := ?m\<rparr>)" using assms(1) by (simp add: rb_inv_def)
  have "available_write (rb\<lparr>rb_data := ?m\<rparr>) = available_write rb"
    by (simp add: available_write_def Let_def)
  then show ?thesis
    using st rb_write_fits[OF assms(1) fit] advance_write_eq[OF inv', of "length dat"] fit by simp
qed

theorem ring_zero_copy_write_witness:
  "write_ptr ring4 = (1, 1) \<and> mem_store (rb_data ring4) 1 [42] \<noteq> None"
proof -
  have p: "write_ptr ring4 = (1, 1)"
    by (simp add: ring4_def write_ptr_def usub_def)
  show ?thesis
    using ring_zero_copy_write[OF ring4_inv p, of "[42]"] p by auto
qed

text \<open>
  C25: The reader's busy wait always returns once the clock passes the
  timeout: it stops at the first poll that sees data or an expired clock, and answers
  whether that poll saw data.
\<close>

theorem wait_for_data_returns:
  assumes "timeout_ms < elapsed n"
  shows "\<exists>j\<le>n. wait_for_data rings elapsed timeout_ms 0 = Some (0 < available_read (rings j)) \<and>
     (0 < available_read (rings j) \<or> timeout_ms < elapsed j) \<and>
     (\<forall>k<j. available_read (rings k) = 0 \<and> \<not> timeout_ms < elapsed k)"
proof -
  let ?P = "\<lambda>j. 0 < available_read (rings j) \<or> timeout_ms < elapsed j"
  define j where "j = (LEAST j. ?P j)"
  have "?P n" using assms by simp
  then have j: "?P j" "j \<le> n" unfolding j_def by (rule LeastI, rule Least_le)
  have "\<forall>k<j. \<not> ?P k" unfolding j_def using not_less_Least by blast
  then have before: "\<forall>k<j. available_read (rings k) = 0 \<and> \<not> timeout_ms < elapsed k" by simp
  then have "wait_for_data rings elapsed timeout_ms 0 = Some (0 < available_read (rings j))"
    using j(1) by (intro wait_for_data_first) auto
  then show ?thesis using j before by blast
qed

theorem wait_for_data_returns_witness:
  "\<exists>j\<le>(9::nat). wait_for_data (\<lambda>_. ring4) (\<lambda>i. of_nat i) 8 0 =
     Some (0 < available_read ring4)"
  using wait_for_data_returns[of 8 "\<lambda>i. of_nat i" 9 "\<lambda>_. ring4"] by auto

end
