(* ===== verification/Ring_Concurrency.thy ===== *)
theory Ring_Concurrency
  imports Ring_Buffer "HOL-Library.Sublist"
begin

text \<open>
  One producer in \<open>write\<close> and one consumer in \<open>read\<close> on the same ring, interleaved at every
  atomic load and store of the source and at every single byte of its copies.  Each rule
  below is one such access of \<open>RingBuffer::write\<close> or \<open>RingBuffer::read\<close>; the bytes of a
  \<open>copy_nonoverlapping\<close> are copied in any order.  Memory is sequentially consistent, which the
  acquire loads and release stores of the two positions give for one producer and one
  consumer.

  \<open>sp_log\<close> and \<open>sp_out\<close> are history variables: the bytes published by completed writes and the
  bytes handed to the consumer's caller by completed reads.
\<close>

subsection \<open>The two programs\<close>

datatype prod_pc =
    PIdle
  | PLoadedW bytes nat            \<comment> \<open>\<open>available_write\<close> has loaded \<open>write_pos\<close>\<close>
  | PReady bytes                  \<comment> \<open>the data fits\<close>
  | PCopy bytes nat "nat set"     \<comment> \<open>\<open>write_pos\<close> loaded; indices still to copy\<close>

datatype cons_pc =
    CIdle
  | CLoadedW nat nat              \<comment> \<open>buffer length; \<open>available_read\<close> has loaded \<open>write_pos\<close>\<close>
  | CReady nat                    \<comment> \<open>\<open>to_read\<close> is known and not zero\<close>
  | CCopy nat nat "nat set" bytes \<comment> \<open>\<open>read_pos\<close>, \<open>to_read\<close>, indices still to copy, the buffer\<close>

record spsc =
  sp_rb :: ring_buffer
  sp_prod :: prod_pc
  sp_cons :: cons_pc
  sp_log :: bytes
  sp_out :: bytes

text \<open>The address of the \<open>i\<close>-th byte of a copy of \<open>n\<close> bytes split into the code's two segments.\<close>

definition seg_addr :: "nat \<Rightarrow> nat \<Rightarrow> nat \<Rightarrow> nat \<Rightarrow> nat" where
  "seg_addr cap pos n i =
     (let first_seg = min n (usub cap pos) in if i < first_seg then pos + i else i - first_seg)"

inductive spsc_step :: "spsc \<Rightarrow> spsc \<Rightarrow> bool" where
  p_load: "sp_prod s = PIdle \<Longrightarrow>
     spsc_step s (s\<lparr>sp_prod := PLoadedW dat (rb_write_pos (sp_rb s))\<rparr>)"
| p_full: "sp_prod s = PLoadedW dat w \<Longrightarrow>
     available_write ((sp_rb s)\<lparr>rb_write_pos := w\<rparr>) < length dat \<Longrightarrow>
     spsc_step s (s\<lparr>sp_prod := PIdle\<rparr>)"
| p_fits: "sp_prod s = PLoadedW dat w \<Longrightarrow>
     length dat \<le> available_write ((sp_rb s)\<lparr>rb_write_pos := w\<rparr>) \<Longrightarrow>
     spsc_step s (s\<lparr>sp_prod := PReady dat\<rparr>)"
| p_pos: "sp_prod s = PReady dat \<Longrightarrow>
     spsc_step s (s\<lparr>sp_prod := PCopy dat (rb_write_pos (sp_rb s)) {..<length dat}\<rparr>)"
| p_copy: "sp_prod s = PCopy dat wp todo \<Longrightarrow> i \<in> todo \<Longrightarrow>
     spsc_step s (s\<lparr>sp_rb := (sp_rb s)\<lparr>rb_data := (rb_data (sp_rb s))
         [seg_addr (rb_capacity (sp_rb s)) wp (length dat) i := dat ! i]\<rparr>,
       sp_prod := PCopy dat wp (todo - {i})\<rparr>)"
| p_store: "sp_prod s = PCopy dat wp {} \<Longrightarrow>
     spsc_step s (s\<lparr>sp_rb := (sp_rb s)\<lparr>rb_write_pos :=
         uadd wp (length dat) mod rb_capacity (sp_rb s)\<rparr>,
       sp_prod := PIdle, sp_log := sp_log s @ dat\<rparr>)"
| c_load: "sp_cons s = CIdle \<Longrightarrow>
     spsc_step s (s\<lparr>sp_cons := CLoadedW n (rb_write_pos (sp_rb s))\<rparr>)"
| c_empty: "sp_cons s = CLoadedW n w \<Longrightarrow>
     min n (available_read ((sp_rb s)\<lparr>rb_write_pos := w\<rparr>)) = 0 \<Longrightarrow>
     spsc_step s (s\<lparr>sp_cons := CIdle\<rparr>)"
| c_some: "sp_cons s = CLoadedW n w \<Longrightarrow>
     k = min n (available_read ((sp_rb s)\<lparr>rb_write_pos := w\<rparr>)) \<Longrightarrow> k \<noteq> 0 \<Longrightarrow>
     spsc_step s (s\<lparr>sp_cons := CReady k\<rparr>)"
| c_pos: "sp_cons s = CReady k \<Longrightarrow> length buf = k \<Longrightarrow>
     spsc_step s (s\<lparr>sp_cons := CCopy (rb_read_pos (sp_rb s)) k {..<k} buf\<rparr>)"
| c_copy: "sp_cons s = CCopy rp k todo buf \<Longrightarrow> i \<in> todo \<Longrightarrow>
     spsc_step s (s\<lparr>sp_cons := CCopy rp k (todo - {i})
       (buf[i := rb_data (sp_rb s) ! seg_addr (rb_capacity (sp_rb s)) rp k i])\<rparr>)"
| c_store: "sp_cons s = CCopy rp k {} buf \<Longrightarrow>
     spsc_step s (s\<lparr>sp_rb := (sp_rb s)\<lparr>rb_read_pos :=
         uadd rp k mod rb_capacity (sp_rb s)\<rparr>,
       sp_cons := CIdle, sp_out := sp_out s @ buf\<rparr>)"

definition spsc_init :: "ring_buffer \<Rightarrow> spsc" where
  "spsc_init rb = \<lparr>sp_rb = rb, sp_prod = PIdle, sp_cons = CIdle, sp_log = [], sp_out = []\<rparr>"

inductive spsc_reachable :: "ring_buffer \<Rightarrow> spsc \<Rightarrow> bool" for rb where
  start: "spsc_reachable rb (spsc_init rb)"
| step: "spsc_reachable rb s \<Longrightarrow> spsc_step s t \<Longrightarrow> spsc_reachable rb t"

subsection \<open>Positions as counters modulo the capacity\<close>

lemma mod_window_le:
  fixes x y c :: nat
  assumes "x \<le> y" "x mod c = y mod c" "y < x + c"
  shows "x = y"
proof -
  have "c dvd y - x"
    using assms(1,2) by (metis mod_eq_dvd_iff_nat)
  then have "y - x = 0"
    using assms dvd_imp_le[of c "y - x"] by linarith
  then show ?thesis using assms(1) by simp
qed

lemma mod_window_inj:
  fixes a b c l :: nat
  assumes "a mod c = b mod c" "l \<le> a" "a < l + c" "l \<le> b" "b < l + c"
  shows "a = b"
proof (cases "a \<le> b")
  case True
  then show ?thesis using mod_window_le[of a b c] assms by linarith
next
  case False
  then show ?thesis using mod_window_le[of b a c] assms by linarith
qed

text \<open>What the two availability formulas compute when the positions are counters \<open>W\<close> and \<open>R\<close>.\<close>

lemma counters_diff:
  fixes R W c :: nat
  assumes "R \<le> W" "W < R + c"
  shows "W - R = (if R mod c \<le> W mod c then W mod c - R mod c else c - (R mod c - W mod c))"
proof -
  have c: "0 < c" using assms by simp
  define d where "d = W - R"
  have W: "W = R + d" and d: "d < c" using assms by (auto simp: d_def)
  have "W mod c = (R mod c + d) mod c" using W by (simp add: mod_add_left_eq)
  also have "\<dots> = (if R mod c + d < c then R mod c + d else R mod c + d - c)"
    using c d by (intro wrap_add) auto
  finally have "W mod c = (if R mod c + d < c then R mod c + d else R mod c + d - c)" .
  moreover have "R mod c < c" using c by simp
  ultimately show ?thesis using d W by (auto split: if_splits)
qed

lemma available_read_counters:
  assumes "rb_inv rb" "rb_write_pos rb = W mod rb_capacity rb" "rb_read_pos rb = R mod rb_capacity rb"
    "R \<le> W" "W < R + rb_capacity rb"
  shows "available_read rb = W - R"
  using assms counters_diff[OF assms(4,5)] by (simp add: available_read_eq)

lemma available_write_counters:
  assumes "rb_inv rb" "rb_write_pos rb = W mod rb_capacity rb" "rb_read_pos rb = R mod rb_capacity rb"
    "R \<le> W" "W < R + rb_capacity rb"
  shows "available_write rb = rb_capacity rb - 1 - (W - R)"
  using available_read_counters[OF assms] available_sum[OF assms(1)] by simp

lemma seg_addr_mod:
  assumes "pos < cap" "n \<le> cap" "i < n"
  shows "seg_addr cap pos n i = (pos + i) mod cap"
  using assms wrap_add[of pos cap i] by (auto simp: seg_addr_def Let_def usize_simps min_def)

lemma seg_addr_counter:
  assumes "0 < cap" "n \<le> cap" "i < n"
  shows "seg_addr cap (P mod cap) n i = (P + i) mod cap"
  using seg_addr_mod[of "P mod cap" cap n i] assms by (simp add: mod_add_left_eq)

subsection \<open>The invariant\<close>

definition shared_inv :: "spsc \<Rightarrow> bool" where
  "shared_inv s \<longleftrightarrow>
     (let rb = sp_rb s; c = rb_capacity rb; W = length (sp_log s); R = length (sp_out s) in
      rb_inv rb \<and> R \<le> W \<and> W < R + c \<and>
      rb_write_pos rb = W mod c \<and> rb_read_pos rb = R mod c \<and>
      sp_out s = take R (sp_log s) \<and>
      (\<forall>k. R \<le> k \<and> k < W \<longrightarrow> rb_data rb ! (k mod c) = sp_log s ! k))"

definition prod_inv :: "spsc \<Rightarrow> bool" where
  "prod_inv s \<longleftrightarrow>
     (let rb = sp_rb s; c = rb_capacity rb; W = length (sp_log s); R = length (sp_out s) in
      case sp_prod s of
        PIdle \<Rightarrow> True
      | PLoadedW dat w \<Rightarrow> w = rb_write_pos rb
      | PReady dat \<Rightarrow> W + length dat < R + c
      | PCopy dat wp todo \<Rightarrow> wp = rb_write_pos rb \<and> W + length dat < R + c \<and>
          todo \<subseteq> {..<length dat} \<and>
          (\<forall>i<length dat. i \<notin> todo \<longrightarrow> rb_data rb ! ((W + i) mod c) = dat ! i))"

definition cons_inv :: "spsc \<Rightarrow> bool" where
  "cons_inv s \<longleftrightarrow>
     (let rb = sp_rb s; c = rb_capacity rb; W = length (sp_log s); R = length (sp_out s) in
      case sp_cons s of
        CIdle \<Rightarrow> True
      | CLoadedW n w \<Rightarrow> (\<exists>V. R \<le> V \<and> V \<le> W \<and> w = V mod c)
      | CReady k \<Rightarrow> R + k \<le> W
      | CCopy rp k todo buf \<Rightarrow> rp = rb_read_pos rb \<and> R + k \<le> W \<and> length buf = k \<and>
          todo \<subseteq> {..<k} \<and> (\<forall>i<k. i \<notin> todo \<longrightarrow> buf ! i = sp_log s ! (R + i)))"

definition spsc_inv :: "spsc \<Rightarrow> bool" where
  "spsc_inv s \<longleftrightarrow> shared_inv s \<and> prod_inv s \<and> cons_inv s"

lemmas spsc_inv_defs = spsc_inv_def shared_inv_def prod_inv_def cons_inv_def Let_def

lemma spsc_init_inv:
  assumes "rb_inv rb" "rb_write_pos rb = 0" "rb_read_pos rb = 0"
  shows "spsc_inv (spsc_init rb)"
  using assms by (auto simp: spsc_inv_defs spsc_init_def rb_inv_def)

text \<open>The steps that only change a program counter.\<close>

lemma p_fits_inv:
  assumes "spsc_inv s" "sp_prod s = PLoadedW dat w"
    "length dat \<le> available_write ((sp_rb s)\<lparr>rb_write_pos := w\<rparr>)"
  shows "spsc_inv (s\<lparr>sp_prod := PReady dat\<rparr>)"
proof -
  let ?c = "rb_capacity (sp_rb s)" and ?W = "length (sp_log s)" and ?R = "length (sp_out s)"
  have h: "rb_inv (sp_rb s)" "?R \<le> ?W" "?W < ?R + ?c" "w = rb_write_pos (sp_rb s)"
    "rb_write_pos (sp_rb s) = ?W mod ?c" "rb_read_pos (sp_rb s) = ?R mod ?c"
    using assms(1,2) by (auto simp: spsc_inv_defs)
  then have "available_write (sp_rb s) = ?c - 1 - (?W - ?R)"
    by (intro available_write_counters) auto
  moreover have "(sp_rb s)\<lparr>rb_write_pos := w\<rparr> = sp_rb s"
    unfolding h(4) by simp
  ultimately have "?W + length dat < ?R + ?c" using assms(3) h(2,3) by simp
  then show ?thesis using assms(1) by (auto simp: spsc_inv_defs split: cons_pc.splits)
qed

lemma c_some_inv:
  assumes "spsc_inv s" "sp_cons s = CLoadedW n w"
    "k = min n (available_read ((sp_rb s)\<lparr>rb_write_pos := w\<rparr>))"
  shows "spsc_inv (s\<lparr>sp_cons := CReady k\<rparr>)"
proof -
  let ?c = "rb_capacity (sp_rb s)" and ?W = "length (sp_log s)" and ?R = "length (sp_out s)"
  obtain V where V: "?R \<le> V" "V \<le> ?W" "w = V mod ?c"
    using assms(1,2) by (auto simp: spsc_inv_defs)
  have h: "rb_inv (sp_rb s)" "?R \<le> ?W" "?W < ?R + ?c" "rb_read_pos (sp_rb s) = ?R mod ?c"
    using assms(1) by (auto simp: spsc_inv_defs)
  have "rb_inv ((sp_rb s)\<lparr>rb_write_pos := w\<rparr>)"
    using h(1) V(3) by (auto simp: rb_inv_def)
  then have "available_read ((sp_rb s)\<lparr>rb_write_pos := w\<rparr>) = V - ?R"
    using V h by (intro available_read_counters) auto
  then have "?R + k \<le> ?W" using assms(3) V by simp
  then show ?thesis using assms(1) by (auto simp: spsc_inv_defs split: prod_pc.splits)
qed

text \<open>A byte of the producer's copy touches no byte the consumer may read.\<close>

lemma p_copy_inv:
  assumes inv: "spsc_inv s" and pc: "sp_prod s = PCopy dat wp todo" and i: "i \<in> todo"
  defines "a \<equiv> seg_addr (rb_capacity (sp_rb s)) wp (length dat) i"
  shows "spsc_inv (s\<lparr>sp_rb := (sp_rb s)\<lparr>rb_data := (rb_data (sp_rb s))[a := dat ! i]\<rparr>,
     sp_prod := PCopy dat wp (todo - {i})\<rparr>)" "a < length (rb_data (sp_rb s))"
proof -
  let ?rb = "sp_rb s" let ?c = "rb_capacity ?rb" let ?W = "length (sp_log s)"
  let ?R = "length (sp_out s)" let ?d = "rb_data ?rb"
  have h: "rb_inv ?rb" "?R \<le> ?W" "?W + length dat < ?R + ?c" "wp = ?W mod ?c"
    "todo \<subseteq> {..<length dat}" "\<forall>k. ?R \<le> k \<and> k < ?W \<longrightarrow> ?d ! (k mod ?c) = sp_log s ! k"
    "\<forall>j<length dat. j \<notin> todo \<longrightarrow> ?d ! ((?W + j) mod ?c) = dat ! j"
    using inv pc by (auto simp: spsc_inv_defs)
  have c: "0 < ?c" "length ?d = ?c" using h(1) by (auto simp: rb_inv_def)
  have il: "i < length dat" using i h(5) by auto
  have a: "a = (?W + i) mod ?c"
    unfolding a_def h(4) using c il h by (intro seg_addr_counter) auto
  then show al: "a < length ?d" using c by simp
  have old: "?d[a := dat ! i] ! (k mod ?c) = ?d ! (k mod ?c)" if "?R \<le> k" "k < ?W + length dat" "k \<noteq> ?W + i" for k
    using that mod_window_inj[of k ?c "?W + i" ?R] h il a by (subst nth_list_update_neq) auto
  have new: "?d[a := dat ! i] ! ((?W + i) mod ?c) = dat ! i"
    using al a by simp
  have "\<forall>j<length dat. j \<notin> todo - {i} \<longrightarrow> ?d[a := dat ! i] ! ((?W + j) mod ?c) = dat ! j"
  proof (intro allI impI)
    fix j assume "j < length dat" "j \<notin> todo - {i}"
    then show "?d[a := dat ! i] ! ((?W + j) mod ?c) = dat ! j"
      using new old[of "?W + j"] h(2,7) by (cases "j = i") auto
  qed
  moreover have "\<forall>k. ?R \<le> k \<and> k < ?W \<longrightarrow> ?d[a := dat ! i] ! (k mod ?c) = sp_log s ! k"
    using old h(6) by auto
  ultimately show "spsc_inv (s\<lparr>sp_rb := (sp_rb s)\<lparr>rb_data := ?d[a := dat ! i]\<rparr>,
     sp_prod := PCopy dat wp (todo - {i})\<rparr>)"
    using inv pc h(5) by (auto simp: spsc_inv_defs rb_inv_def split: cons_pc.splits)
qed

lemma p_store_inv:
  assumes inv: "spsc_inv s" and pc: "sp_prod s = PCopy dat wp {}"
  shows "spsc_inv (s\<lparr>sp_rb := (sp_rb s)\<lparr>rb_write_pos :=
      uadd wp (length dat) mod rb_capacity (sp_rb s)\<rparr>,
    sp_prod := PIdle, sp_log := sp_log s @ dat\<rparr>)"
proof -
  let ?rb = "sp_rb s" let ?c = "rb_capacity ?rb" let ?W = "length (sp_log s)"
  let ?R = "length (sp_out s)" let ?d = "rb_data ?rb"
  have h: "rb_inv ?rb" "?R \<le> ?W" "?W + length dat < ?R + ?c" "wp = ?W mod ?c"
    "\<forall>k. ?R \<le> k \<and> k < ?W \<longrightarrow> ?d ! (k mod ?c) = sp_log s ! k"
    "\<forall>j<length dat. ?d ! ((?W + j) mod ?c) = dat ! j" "sp_out s = take ?R (sp_log s)"
    "rb_read_pos ?rb = ?R mod ?c"
    using inv pc by (auto simp: spsc_inv_defs)
  have c: "0 < ?c" using h(1) by (auto simp: rb_inv_def)
  have "wp + length dat < usize_modulus"
    using h c rb_capacity_bound[OF h(1)] mod_less_divisor[OF c, of ?W] by linarith
  then have "uadd wp (length dat) mod ?c = (?W + length dat) mod ?c"
    using h(4) by (simp add: uadd_less mod_add_left_eq)
  moreover have "\<forall>k. ?R \<le> k \<and> k < ?W + length dat \<longrightarrow> ?d ! (k mod ?c) = (sp_log s @ dat) ! k"
  proof (intro allI impI)
    fix k assume k: "?R \<le> k \<and> k < ?W + length dat"
    show "?d ! (k mod ?c) = (sp_log s @ dat) ! k"
      using k h(5) h(6)[rule_format, of "k - ?W"] by (cases "k < ?W") (auto simp: nth_append)
  qed
  moreover have "cons_inv (s\<lparr>sp_rb := ?rb\<lparr>rb_write_pos := p\<rparr>, sp_prod := PIdle,
      sp_log := sp_log s @ dat\<rparr>)" for p
    using inv by (fastforce simp: spsc_inv_defs nth_append split: cons_pc.splits)
  ultimately show ?thesis
    using h c by (simp add: spsc_inv_def shared_inv_def prod_inv_def Let_def rb_inv_def)
qed

lemma c_copy_inv:
  assumes inv: "spsc_inv s" and pc: "sp_cons s = CCopy rp k todo buf" and i: "i \<in> todo"
  defines "a \<equiv> seg_addr (rb_capacity (sp_rb s)) rp k i"
  shows "spsc_inv (s\<lparr>sp_cons := CCopy rp k (todo - {i}) (buf[i := rb_data (sp_rb s) ! a])\<rparr>)"
    "a < length (rb_data (sp_rb s))"
proof -
  let ?rb = "sp_rb s" let ?c = "rb_capacity ?rb" let ?W = "length (sp_log s)"
  let ?R = "length (sp_out s)" let ?d = "rb_data ?rb"
  have h: "rb_inv ?rb" "?W < ?R + ?c" "?R + k \<le> ?W" "rp = ?R mod ?c" "length buf = k"
    "todo \<subseteq> {..<k}" "\<forall>k. ?R \<le> k \<and> k < ?W \<longrightarrow> ?d ! (k mod ?c) = sp_log s ! k"
    "\<forall>j<k. j \<notin> todo \<longrightarrow> buf ! j = sp_log s ! (?R + j)"
    using inv pc by (auto simp: spsc_inv_defs)
  have c: "0 < ?c" "length ?d = ?c" using h(1) by (auto simp: rb_inv_def)
  have il: "i < k" using i h(6) by auto
  have a: "a = (?R + i) mod ?c"
    unfolding a_def h(4) using c il h by (intro seg_addr_counter) auto
  then show "a < length ?d" using c by simp
  have "?d ! a = sp_log s ! (?R + i)" using a h(3,7) il by simp
  then have "\<forall>j<k. j \<notin> todo - {i} \<longrightarrow> buf[i := ?d ! a] ! j = sp_log s ! (?R + j)"
    using h(5,8) il by (auto simp: nth_list_update)
  then have "cons_inv (s\<lparr>sp_cons := CCopy rp k (todo - {i}) (buf[i := ?d ! a])\<rparr>)"
    using inv pc h(5,6) by (auto simp: spsc_inv_defs)
  then show "spsc_inv (s\<lparr>sp_cons := CCopy rp k (todo - {i}) (buf[i := ?d ! a])\<rparr>)"
    using inv by (simp add: spsc_inv_def shared_inv_def prod_inv_def Let_def)
qed

lemma c_store_inv:
  assumes inv: "spsc_inv s" and pc: "sp_cons s = CCopy rp k {} buf"
  shows "spsc_inv (s\<lparr>sp_rb := (sp_rb s)\<lparr>rb_read_pos := uadd rp k mod rb_capacity (sp_rb s)\<rparr>,
    sp_cons := CIdle, sp_out := sp_out s @ buf\<rparr>)"
proof -
  let ?rb = "sp_rb s" let ?c = "rb_capacity ?rb" let ?W = "length (sp_log s)"
  let ?R = "length (sp_out s)"
  have h: "rb_inv ?rb" "?W < ?R + ?c" "?R + k \<le> ?W" "rp = ?R mod ?c" "length buf = k"
    "sp_out s = take ?R (sp_log s)" "\<forall>j<k. buf ! j = sp_log s ! (?R + j)"
    using inv pc by (auto simp: spsc_inv_defs)
  have c: "0 < ?c" using h(1) by (auto simp: rb_inv_def)
  have "buf = take k (drop ?R (sp_log s))"
    using h by (intro nth_equalityI) auto
  then have "sp_out s @ buf = take (?R + k) (sp_log s)"
    using h(6) by (metis take_add)
  moreover have "rp + k < usize_modulus"
    using h c rb_capacity_bound[OF h(1)] mod_less_divisor[OF c, of ?R] by linarith
  then have "uadd rp k mod ?c = (?R + k) mod ?c"
    using h(4) by (simp add: uadd_less mod_add_left_eq)
  moreover have "prod_inv (s\<lparr>sp_rb := ?rb\<lparr>rb_read_pos := p\<rparr>, sp_cons := CIdle,
      sp_out := sp_out s @ buf\<rparr>)" for p
    using inv by (fastforce simp: spsc_inv_defs split: prod_pc.splits)
  moreover have "shared_inv s" using inv by (simp add: spsc_inv_def)
  ultimately show ?thesis
    using h c by (auto simp: spsc_inv_def shared_inv_def cons_inv_def Let_def rb_inv_def)
qed

lemma spsc_step_inv: "spsc_step s t \<Longrightarrow> spsc_inv s \<Longrightarrow> spsc_inv t"
proof (induction rule: spsc_step.induct)
  case (p_load s dat)
  then show ?case by (auto simp: spsc_inv_defs split: cons_pc.splits)
next
  case (p_full s dat w)
  then show ?case by (auto simp: spsc_inv_defs split: cons_pc.splits)
next
  case (p_fits s dat w)
  then show ?case by (blast intro: p_fits_inv)
next
  case (p_pos s dat)
  then show ?case by (auto simp: spsc_inv_defs split: cons_pc.splits)
next
  case (p_copy s dat wp todo i)
  then show ?case by (blast intro: p_copy_inv)
next
  case (p_store s dat wp)
  then show ?case by (blast intro: p_store_inv)
next
  case (c_load s n)
  then show ?case by (auto simp: spsc_inv_defs split: prod_pc.splits)
next
  case (c_empty s n w)
  then show ?case by (auto simp: spsc_inv_defs split: prod_pc.splits)
next
  case (c_some s n w k)
  then show ?case by (blast intro: c_some_inv)
next
  case (c_pos s k buf)
  then show ?case by (auto simp: spsc_inv_defs split: prod_pc.splits)
next
  case (c_copy s rp k todo buf i)
  then show ?case by (blast intro: c_copy_inv)
next
  case (c_store s rp k buf)
  then show ?case by (blast intro: c_store_inv)
qed

lemma spsc_reachable_inv:
  assumes "spsc_reachable rb s" "rb_inv rb" "rb_write_pos rb = 0" "rb_read_pos rb = 0"
  shows "spsc_inv s"
  using assms by (induction rule: spsc_reachable.induct) (auto intro: spsc_init_inv spsc_step_inv)

lemma spsc_inv_contents:
  assumes "spsc_inv s"
  shows "sp_log s = sp_out s @ rb_contents (sp_rb s)"
proof -
  let ?rb = "sp_rb s" let ?c = "rb_capacity ?rb" let ?W = "length (sp_log s)"
  let ?R = "length (sp_out s)"
  have h: "rb_inv ?rb" "?R \<le> ?W" "?W < ?R + ?c" "rb_write_pos ?rb = ?W mod ?c"
    "rb_read_pos ?rb = ?R mod ?c" "sp_out s = take ?R (sp_log s)"
    "\<forall>k. ?R \<le> k \<and> k < ?W \<longrightarrow> rb_data ?rb ! (k mod ?c) = sp_log s ! k"
    using assms by (auto simp: spsc_inv_defs)
  have av: "available_read ?rb = ?W - ?R"
    using h by (intro available_read_counters) auto
  have "rb_contents ?rb = drop ?R (sp_log s)"
    using h(2,5,7) av by (intro nth_equalityI) (auto simp: nth_rb_contents mod_add_left_eq)
  then show ?thesis using h(6) by (metis append_take_drop_id)
qed

subsection \<open>Properties\<close>

text \<open>
  C1: One producer and one consumer running \<open>write\<close> and \<open>read\<close> concurrently, at any
  interleaving of their loads, stores and byte copies, never lose, duplicate, reorder or
  tear data: the bytes delivered so far are exactly the published bytes without those still
  in the ring, and every byte still to be copied by either side lies inside the allocation.
\<close>

theorem spsc_fifo:
  assumes "spsc_reachable rb s" "rb_inv rb" "rb_write_pos rb = 0" "rb_read_pos rb = 0"
  shows "sp_log s = sp_out s @ rb_contents (sp_rb s) \<and> rb_inv (sp_rb s) \<and>
     (\<forall>dat wp todo i. sp_prod s = PCopy dat wp todo \<and> i \<in> todo \<longrightarrow>
        seg_addr (rb_capacity (sp_rb s)) wp (length dat) i < length (rb_data (sp_rb s))) \<and>
     (\<forall>rp k todo buf i. sp_cons s = CCopy rp k todo buf \<and> i \<in> todo \<longrightarrow>
        seg_addr (rb_capacity (sp_rb s)) rp k i < length (rb_data (sp_rb s)))"
proof -
  have inv: "spsc_inv s" using assms by (rule spsc_reachable_inv)
  then have "rb_inv (sp_rb s)" by (simp add: spsc_inv_defs)
  then show ?thesis
    using spsc_inv_contents[OF inv] p_copy_inv(2)[OF inv] c_copy_inv(2)[OF inv] by blast
qed

definition ring2 :: ring_buffer where
  "ring2 = \<lparr>rb_data = [0, 0], rb_write_pos = 0, rb_read_pos = 0, rb_capacity = 2,
     rb_config = \<lparr>cfg_capacity = 2, cfg_zero_copy = True\<rparr>\<rparr>"

lemma ring2_reach: "spsc_reachable ring2 (spsc_init ring2\<lparr>sp_prod := PReady [5]\<rparr>)"
proof -
  let ?s = "spsc_init ring2\<lparr>sp_prod := PLoadedW [5] 0\<rparr>"
  have "spsc_step (spsc_init ring2) ?s"
    using p_load[of "spsc_init ring2" "[5]"] by (simp add: spsc_init_def ring2_def)
  moreover have "spsc_step ?s (?s\<lparr>sp_prod := PReady [5]\<rparr>)"
    by (rule p_fits[of _ _ 0])
      (simp_all add: spsc_init_def ring2_def available_write_def usub_def)
  ultimately show ?thesis
    by (metis (no_types, lifting) spsc.update_convs(2) spsc_reachable.simps spsc.surjective
        spsc.ext_inject spsc.select_convs)
qed

theorem spsc_fifo_witness:
  "spsc_reachable ring2 (spsc_init ring2\<lparr>sp_prod := PReady [5]\<rparr>) \<and>
   sp_log (spsc_init ring2\<lparr>sp_prod := PReady [5]\<rparr>) =
     sp_out (spsc_init ring2\<lparr>sp_prod := PReady [5]\<rparr>) @
     rb_contents (sp_rb (spsc_init ring2\<lparr>sp_prod := PReady [5]\<rparr>))"
proof -
  have "rb_inv ring2" "rb_write_pos ring2 = 0" "rb_read_pos ring2 = 0"
    by (simp_all add: ring2_def rb_inv_def layout_ok_def)
  then show ?thesis using spsc_fifo[OF ring2_reach] ring2_reach by blast
qed

end
