(* ===== verification/Task.thy ===== *)
theory Task
  imports Prelude
begin

text \<open>
  Processes, groups, timers (\<open>aios-process-mgr/src/task.rs\<close>) and the fault contract
  (\<open>aios-core/src/fault.rs\<close>, \<open>aios-process-mgr/src/fault.rs\<close>).  A wall-clock reading is a
  \<open>u64\<close> of milliseconds and an \<open>Instant\<close> is an integer number of nanoseconds; every
  definition that reads a clock takes the reading as an argument.
\<close>

subsection \<open>Priorities\<close>

type_synonym process_id = u64
type_synonym instant = int

datatype Priority = Background | Low | Normal | High | Critical

fun prio_rank :: "Priority \<Rightarrow> u8" where
  "prio_rank Background = 0"
| "prio_rank Low = 1"
| "prio_rank Normal = 2"
| "prio_rank High = 3"
| "prio_rank Critical = 4"

text \<open>The derived order of the enum.\<close>

instantiation Priority :: linorder
begin

definition less_eq_Priority :: "Priority \<Rightarrow> Priority \<Rightarrow> bool" where
  "less_eq_Priority p q \<longleftrightarrow> prio_rank p \<le> prio_rank q"

definition less_Priority :: "Priority \<Rightarrow> Priority \<Rightarrow> bool" where
  "less_Priority p q \<longleftrightarrow> prio_rank p < prio_rank q"

instance
proof
  fix p q :: Priority
  assume "p \<le> q" "q \<le> p"
  then show "p = q"
    by (cases p; cases q) (simp_all add: less_eq_Priority_def word_le_nat_alt)
qed (auto simp: less_eq_Priority_def less_Priority_def)

end

lemma le_Critical [simp]: "p \<le> Critical"
  by (cases p) (simp_all add: less_eq_Priority_def word_le_nat_alt)

lemma Critical_le [simp]: "Critical \<le> p \<longleftrightarrow> p = Critical"
  by (cases p) (simp_all add: less_eq_Priority_def word_le_nat_alt)

fun priority_from_u8 :: "u8 \<Rightarrow> Priority" where
  "priority_from_u8 v =
     (if v = 0 then Background else if v = 1 then Low else if v = 2 then Normal
      else if v = 3 then High else Critical)"

declare priority_from_u8.simps [simp del]

fun show_priority :: "Priority \<Rightarrow> string" where
  "show_priority Background = ''Background''"
| "show_priority Low = ''Low''"
| "show_priority Normal = ''Normal''"
| "show_priority High = ''High''"
| "show_priority Critical = ''Critical''"

lemma priority_from_rank [simp]: "priority_from_u8 (prio_rank p) = p"
  by (cases p) (simp_all add: priority_from_u8.simps)

subsection \<open>Processes\<close>

datatype ProcessState = Ready | Running | Suspended | Terminated | Crashed

record process =
  pr_pid :: process_id
  pr_name :: string
  pr_priority :: Priority
  pr_state :: ProcessState
  pr_ram_quota_mb :: u64
  pr_cpu_time_ms :: u64
  pr_block_id :: "u32 option"
  pr_parent_pid :: "process_id option"
  pr_group_id :: "u64 option"
  pr_crash_count :: u32
  pr_max_restarts :: u32

definition process_new :: "process_id \<Rightarrow> string \<Rightarrow> Priority \<Rightarrow> u64 \<Rightarrow> process" where
  "process_new pid name priority ram_mb =
     \<lparr>pr_pid = pid, pr_name = name, pr_priority = priority, pr_state = Ready,
      pr_ram_quota_mb = ram_mb, pr_cpu_time_ms = 0, pr_block_id = None, pr_parent_pid = None,
      pr_group_id = None, pr_crash_count = 0, pr_max_restarts = 3\<rparr>"

definition with_parent :: "process \<Rightarrow> process_id \<Rightarrow> process" where
  "with_parent p parent = p\<lparr>pr_parent_pid := Some parent\<rparr>"

definition with_max_restarts :: "process \<Rightarrow> u32 \<Rightarrow> process" where
  "with_max_restarts p m = p\<lparr>pr_max_restarts := m\<rparr>"

subsection \<open>Groups\<close>

record process_group =
  gr_id :: u64
  gr_name :: string
  gr_priority :: Priority
  gr_member_pids :: "process_id list"
  gr_created_at_ms :: u64
  gr_session_id :: "u64 option"

definition group_new :: "u64 \<Rightarrow> u64 \<Rightarrow> string \<Rightarrow> Priority \<Rightarrow> process_group" where
  "group_new now gid name priority =
     \<lparr>gr_id = gid, gr_name = name, gr_priority = priority, gr_member_pids = [],
      gr_created_at_ms = now, gr_session_id = None\<rparr>"

definition add_member :: "process_group \<Rightarrow> process_id \<Rightarrow> process_group" where
  "add_member g pid =
     (if pid \<in> set (gr_member_pids g) then g
      else g\<lparr>gr_member_pids := gr_member_pids g @ [pid]\<rparr>)"

definition remove_member :: "process_group \<Rightarrow> process_id \<Rightarrow> process_group" where
  "remove_member g pid = g\<lparr>gr_member_pids := filter (\<lambda>p. p \<noteq> pid) (gr_member_pids g)\<rparr>"

lemma distinct_add_member: "distinct (gr_member_pids g) \<Longrightarrow> distinct (gr_member_pids (add_member g pid))"
  by (simp add: add_member_def)

subsection \<open>Timers\<close>

record process_timer =
  tm_pid :: process_id
  tm_started :: instant
  tm_quota_ms :: u64

definition timer_new :: "instant \<Rightarrow> process_id \<Rightarrow> u64 \<Rightarrow> process_timer" where
  "timer_new now pid quota_ms = \<lparr>tm_pid = pid, tm_started = now, tm_quota_ms = quota_ms\<rparr>"

text \<open>\<open>Instant::elapsed\<close> saturates at zero; \<open>as_millis() as u64\<close> truncates.\<close>

definition elapsed_ms :: "instant \<Rightarrow> process_timer \<Rightarrow> u64" where
  "elapsed_ms now t = of_int (max 0 (now - tm_started t) div 1000000)"

definition quota_exceeded :: "instant \<Rightarrow> process_timer \<Rightarrow> bool" where
  "quota_exceeded now t \<longleftrightarrow> tm_quota_ms t \<le> elapsed_ms now t"

definition remaining_ms :: "instant \<Rightarrow> process_timer \<Rightarrow> u64" where
  "remaining_ms now t = sat_sub (tm_quota_ms t) (elapsed_ms now t)"

definition force_expire :: "instant \<Rightarrow> process_timer \<Rightarrow> process_timer" where
  "force_expire now t = t\<lparr>tm_started := now - uint (tm_quota_ms t + 1) * 1000000\<rparr>"

lemma elapsed_force_expire: "elapsed_ms now (force_expire now t) = tm_quota_ms t + 1"
  by (simp add: elapsed_ms_def force_expire_def)

subsection \<open>Faults\<close>

datatype RecoveryAction = Rollback | Terminate | Resume

fun recovery_name :: "RecoveryAction \<Rightarrow> string" where
  "recovery_name Rollback = ''rollback''"
| "recovery_name Terminate = ''terminate''"
| "recovery_name Resume = ''resume''"

datatype FaultKind = Panic | Hang | TaskFault

record fault_info =
  fi_pid :: u64
  fi_name :: string
  fi_kind :: FaultKind
  fi_message :: string
  fi_timestamp_ms :: u64

definition fault_info_new :: "u64 \<Rightarrow> string \<Rightarrow> FaultKind \<Rightarrow> string \<Rightarrow> u64 \<Rightarrow> fault_info" where
  "fault_info_new pid name kind message ts =
     \<lparr>fi_pid = pid, fi_name = name, fi_kind = kind, fi_message = message, fi_timestamp_ms = ts\<rparr>"

definition fault_for :: "u64 \<Rightarrow> process \<Rightarrow> FaultKind \<Rightarrow> string \<Rightarrow> fault_info" where
  "fault_for now p kind message = fault_info_new (pr_pid p) (pr_name p) kind message now"

record task_snapshot =
  sn_pid :: process_id
  sn_name :: string
  sn_priority :: Priority
  sn_ram_quota_mb :: u64
  sn_block_id :: "u32 option"
  sn_crash_count :: u32

definition snapshot_capture :: "process \<Rightarrow> task_snapshot" where
  "snapshot_capture p =
     \<lparr>sn_pid = pr_pid p, sn_name = pr_name p, sn_priority = pr_priority p,
      sn_ram_quota_mb = pr_ram_quota_mb p, sn_block_id = pr_block_id p,
      sn_crash_count = pr_crash_count p\<rparr>"

definition snapshot_restore_to :: "task_snapshot \<Rightarrow> process \<Rightarrow> process" where
  "snapshot_restore_to sn p =
     p\<lparr>pr_priority := sn_priority sn, pr_ram_quota_mb := sn_ram_quota_mb sn,
       pr_block_id := sn_block_id sn, pr_crash_count := sn_crash_count sn\<rparr>"

lemma snapshot_restore_capture: "snapshot_restore_to (snapshot_capture p) p = p"
  by (simp add: snapshot_restore_to_def snapshot_capture_def)

end
