(* ===== verification/Ipc_Protocol.thy ===== *)
theory Ipc_Protocol
  imports Task
begin

text \<open>
  The packet format of the kernel bus (\<open>aios-core/src/ipc_protocol.rs\<close>).  SHA-256 and the
  bincode encoding are code outside the repository: they are the arguments \<open>sha\<close> and \<open>ser\<close> of
  the definitions that use them (\<open>ser p = None\<close> when bincode fails).  JSON values are a type
  parameter.  The packet counter is a number that each constructor call takes and returns.
\<close>

subsection \<open>Packets\<close>

record ipc_header =
  ih_packet_id :: u64
  ih_source_block :: u32
  ih_target_block :: u32
  ih_command_id :: u16
  ih_priority :: u8
  ih_payload_len :: u32
  ih_checksum :: bytes

record cluster_process_info =
  cpi_node :: u64
  cpi_pid :: u64
  cpi_name :: string
  cpi_state :: string
  cpi_ram_mb :: u64

datatype 'j Payload =
    PEmpty
  | PBinary bytes
  | PText string
  | PRegisterBlock string string bytes
  | PUnloadBlock u32
  | PGetTopology
  | PSpawnProcess string u8 u64
  | PKillProcess u64
  | PAdjustPriority u64 u8
  | PHealthCheck
  | PExtractState
  | PRestoreState bytes
  | PHotSwap u32 bytes string
  | PRollback u32
  | PIntentCommand string 'j
  | PClusterSpawn string u8 u64 "u64 option"
  | PClusterKill u64 u64
  | PClusterStatus
  | PClusterStatusReply "cluster_process_info list"
  | PFaultReport fault_info
  | PRecoveryDecision u64 RecoveryAction
  | PCustom string bytes

datatype 'j Response = Success "'j Payload" | Failure u16 string | ResponseTimeout

record 'j ipc_packet =
  pk_header :: ipc_header
  pk_payload :: "'j Payload"

datatype CommandId =
    CRegisterBlock | CUnloadBlock | CGetTopology | CSpawnProcess | CKillProcess | CAdjustPriority
  | CHealthCheck | CExtractState | CRestoreState | CHotSwap | CRollback | CIntentCommand
  | CClusterSpawn | CClusterKill | CClusterStatus | CFaultReport | CRecoveryDecision | CCustom

fun command_code :: "CommandId \<Rightarrow> u16" where
  "command_code CRegisterBlock = 0x0001"
| "command_code CUnloadBlock = 0x0002"
| "command_code CGetTopology = 0x0003"
| "command_code CSpawnProcess = 0x0010"
| "command_code CKillProcess = 0x0011"
| "command_code CAdjustPriority = 0x0012"
| "command_code CHealthCheck = 0x0020"
| "command_code CExtractState = 0x0030"
| "command_code CRestoreState = 0x0031"
| "command_code CHotSwap = 0x0040"
| "command_code CRollback = 0x0041"
| "command_code CIntentCommand = 0x0050"
| "command_code CClusterSpawn = 0x0060"
| "command_code CClusterKill = 0x0061"
| "command_code CClusterStatus = 0x0062"
| "command_code CFaultReport = 0x0070"
| "command_code CRecoveryDecision = 0x0071"
| "command_code CCustom = 0x00FF"

definition command_from_u16 :: "u16 \<Rightarrow> CommandId option" where
  "command_from_u16 v =
     (if v = 0x0001 then Some CRegisterBlock
      else if v = 0x0002 then Some CUnloadBlock
      else if v = 0x0003 then Some CGetTopology
      else if v = 0x0010 then Some CSpawnProcess
      else if v = 0x0011 then Some CKillProcess
      else if v = 0x0012 then Some CAdjustPriority
      else if v = 0x0020 then Some CHealthCheck
      else if v = 0x0030 then Some CExtractState
      else if v = 0x0031 then Some CRestoreState
      else if v = 0x0040 then Some CHotSwap
      else if v = 0x0041 then Some CRollback
      else if v = 0x0050 then Some CIntentCommand
      else if v = 0x0060 then Some CClusterSpawn
      else if v = 0x0061 then Some CClusterKill
      else if v = 0x0062 then Some CClusterStatus
      else if v = 0x0070 then Some CFaultReport
      else if v = 0x0071 then Some CRecoveryDecision
      else if v = 0x00FF then Some CCustom
      else None)"

definition payload_to_bytes :: "('j Payload \<Rightarrow> bytes option) \<Rightarrow> 'j Payload \<Rightarrow> bytes" where
  "payload_to_bytes ser p = (case ser p of None \<Rightarrow> [] | Some bs \<Rightarrow> bs)"

definition payload_is_empty :: "'j Payload \<Rightarrow> bool" where
  "payload_is_empty p = (case p of PEmpty \<Rightarrow> True | _ \<Rightarrow> False)"

definition packet_new :: "('j Payload \<Rightarrow> bytes option) \<Rightarrow> (bytes \<Rightarrow> bytes) \<Rightarrow> u64 \<Rightarrow>
    u32 \<Rightarrow> u32 \<Rightarrow> CommandId \<Rightarrow> 'j Payload \<Rightarrow> 'j ipc_packet \<times> u64" where
  "packet_new ser sha counter source_block target_block command payload =
     (let payload_bytes = payload_to_bytes ser payload; checksum = sha payload_bytes in
      (\<lparr>pk_header = \<lparr>ih_packet_id = counter, ih_source_block = source_block,
          ih_target_block = target_block, ih_command_id = command_code command, ih_priority = 2,
          ih_payload_len = of_nat (length payload_bytes), ih_checksum = checksum\<rparr>,
        pk_payload = payload\<rparr>, counter + 1))"

definition with_priority :: "'j ipc_packet \<Rightarrow> u8 \<Rightarrow> 'j ipc_packet" where
  "with_priority p priority = p\<lparr>pk_header := (pk_header p)\<lparr>ih_priority := priority\<rparr>\<rparr>"

definition response_ok :: "('j Payload \<Rightarrow> bytes option) \<Rightarrow> (bytes \<Rightarrow> bytes) \<Rightarrow>
    u32 \<Rightarrow> u32 \<Rightarrow> u64 \<Rightarrow> 'j Payload \<Rightarrow> 'j ipc_packet" where
  "response_ok ser sha source target in_reply_to payload =
     (let payload_bytes = payload_to_bytes ser payload; checksum = sha payload_bytes in
      \<lparr>pk_header = \<lparr>ih_packet_id = in_reply_to + 1000000, ih_source_block = source,
          ih_target_block = target, ih_command_id = command_code CCustom, ih_priority = 2,
          ih_payload_len = of_nat (length payload_bytes), ih_checksum = checksum\<rparr>,
        pk_payload = payload\<rparr>)"

definition response_err :: "('j Payload \<Rightarrow> bytes option) \<Rightarrow> (bytes \<Rightarrow> bytes) \<Rightarrow>
    u32 \<Rightarrow> u32 \<Rightarrow> u64 \<Rightarrow> string \<Rightarrow> 'j ipc_packet" where
  "response_err ser sha source target in_reply_to msg =
     (let payload = PText msg; payload_bytes = payload_to_bytes ser payload;
          checksum = sha payload_bytes in
      \<lparr>pk_header = \<lparr>ih_packet_id = in_reply_to + 2000000, ih_source_block = source,
          ih_target_block = target, ih_command_id = command_code CCustom, ih_priority = 0,
          ih_payload_len = of_nat (length payload_bytes), ih_checksum = checksum\<rparr>,
        pk_payload = payload\<rparr>)"

definition verify_checksum :: "('j Payload \<Rightarrow> bytes option) \<Rightarrow> (bytes \<Rightarrow> bytes) \<Rightarrow> 'j ipc_packet \<Rightarrow> bool" where
  "verify_checksum ser sha p \<longleftrightarrow>
     (let payload_bytes = payload_to_bytes ser (pk_payload p); expected = sha payload_bytes
      in ih_checksum (pk_header p) = expected)"

subsection \<open>Properties\<close>

text \<open>
   The command numbers and their decoder are inverse to each other: decoding a
  number gives a command exactly when it is that command's number, so every command survives
  the round trip, no two commands share a number, and every other number is rejected.
\<close>

theorem command_code_roundtrip: "command_from_u16 v = Some c \<longleftrightarrow> v = command_code c"
proof -
  have "command_from_u16 (command_code c) = Some c" for c
    by (cases c) (simp_all add: command_from_u16_def)
  moreover have "command_from_u16 v = Some c \<Longrightarrow> v = command_code c"
    by (auto simp: command_from_u16_def split: if_splits)
  ultimately show ?thesis by blast
qed

lemma packet_constructors_verify:
  "verify_checksum ser sha (fst (packet_new ser sha n s t c p))"
  "verify_checksum ser sha (response_ok ser sha s t i p)"
  "verify_checksum ser sha (response_err ser sha s t i m)"
  "verify_checksum ser sha (with_priority q pr) = verify_checksum ser sha q"
  by (simp_all add: verify_checksum_def packet_new_def response_ok_def response_err_def
      with_priority_def Let_def)

lemma replaced_payload:
  assumes "verify_checksum ser sha q" "verify_checksum ser sha (q\<lparr>pk_payload := p'\<rparr>)"
  shows "payload_to_bytes ser p' = payload_to_bytes ser (pk_payload q) \<or> (\<exists>x y. x \<noteq> y \<and> sha x = sha y)"
proof -
  have "sha (payload_to_bytes ser p') = sha (payload_to_bytes ser (pk_payload q))"
    using assms by (simp add: verify_checksum_def)
  then show ?thesis by blast
qed

text \<open>
   Every packet a constructor builds passes the checksum test, whatever its
  priority is set to; and a packet whose payload was replaced in transit passes it only when the
  replacement has the same encoding or exhibits a collision of the hash function.
\<close>

theorem checksum_binds_payload:
  "verify_checksum ser sha (with_priority (fst (packet_new ser sha n s t c p)) pr) \<and>
   verify_checksum ser sha (response_ok ser sha s t i p) \<and>
   verify_checksum ser sha (response_err ser sha s t i m) \<and>
   (verify_checksum ser sha q \<and> verify_checksum ser sha (q\<lparr>pk_payload := p'\<rparr>) \<longrightarrow>
      payload_to_bytes ser p' = payload_to_bytes ser (pk_payload q) \<or>
      (\<exists>x y. x \<noteq> y \<and> sha x = sha y))"
  using replaced_payload[of ser sha q p'] by (auto simp: packet_constructors_verify)

text \<open>A toy hash and encoding for the witnesses.\<close>

definition toy_sha :: "bytes \<Rightarrow> bytes" where
  "toy_sha bs = take 32 (bs @ replicate 32 0)"

fun toy_ser :: "unit Payload \<Rightarrow> bytes option" where
  "toy_ser PEmpty = Some [0]"
| "toy_ser (PBinary bs) = Some (1 # bs)"
| "toy_ser p = None"

theorem checksum_binds_payload_witness:
  "let q = fst (packet_new toy_ser toy_sha 1 7 8 CCustom (PBinary [5])) in
   verify_checksum toy_ser toy_sha q \<and> \<not> verify_checksum toy_ser toy_sha (q\<lparr>pk_payload := PEmpty\<rparr>) \<and>
   (verify_checksum toy_ser toy_sha q \<and> verify_checksum toy_ser toy_sha (q\<lparr>pk_payload := PEmpty\<rparr>) \<longrightarrow>
      payload_to_bytes toy_ser PEmpty = payload_to_bytes toy_ser (pk_payload q) \<or>
      (\<exists>x y. x \<noteq> y \<and> toy_sha x = toy_sha y))"
proof -
  have "\<not> verify_checksum toy_ser toy_sha
      ((fst (packet_new toy_ser toy_sha 1 7 8 CCustom (PBinary [5])))\<lparr>pk_payload := PEmpty\<rparr>)"
    by (simp add: verify_checksum_def packet_new_def payload_to_bytes_def toy_sha_def)
  with checksum_binds_payload[of toy_ser toy_sha 1 7 8 CCustom "PBinary [5]" 2 0 "[]"
      "fst (packet_new toy_ser toy_sha 1 7 8 CCustom (PBinary [5]))" PEmpty]
  show ?thesis unfolding Let_def by (simp add: packet_constructors_verify)
qed

end
