(* ===== verification/Ipc_Bus.thy ===== *)
theory Ipc_Bus
  imports Ipc_Protocol
begin

text \<open>
  The message bus (\<open>aios-ipc/src/bus.rs\<close>): a bounded queue with two back-pressure policies,
  optional suppression of duplicate packet identifiers, priority insertion, freezing for live
  updates, and its counters.  The duration measured for a send is an argument, in microseconds.
  The bus shared between threads is the bus behind a mutex; a poisoned mutex is \<open>None\<close>.
\<close>

subsection \<open>State\<close>

datatype BackpressurePolicy = Reject | DropOldest

record bus_metrics =
  bx_total_sent :: u64
  bx_total_received :: u64
  bx_total_dropped :: u64
  bx_total_deduplicated :: u64
  bx_peak_queue_depth :: nat
  bx_send_latency_sum_us :: "128 word"
  bx_send_count_for_latency :: u64

definition metrics_default :: bus_metrics where
  "metrics_default = \<lparr>bx_total_sent = 0, bx_total_received = 0, bx_total_dropped = 0,
     bx_total_deduplicated = 0, bx_peak_queue_depth = 0, bx_send_latency_sum_us = 0,
     bx_send_count_for_latency = 0\<rparr>"

record 'j ipc_bus =
  bu_queue :: "'j ipc_packet list"
  bu_max_queue_size :: nat
  bu_frozen :: bool
  bu_backpressure :: BackpressurePolicy
  bu_seen :: "u64 set"
  bu_dedup :: bool
  bu_metrics :: bus_metrics

definition bus_new :: "nat \<Rightarrow> 'j ipc_bus" where
  "bus_new max_queue_size =
     \<lparr>bu_queue = [], bu_max_queue_size = max_queue_size, bu_frozen = False,
      bu_backpressure = Reject, bu_seen = {}, bu_dedup = False, bu_metrics = metrics_default\<rparr>"

definition with_backpressure :: "'j ipc_bus \<Rightarrow> BackpressurePolicy \<Rightarrow> 'j ipc_bus" where
  "with_backpressure b policy = b\<lparr>bu_backpressure := policy\<rparr>"

definition with_dedup :: "'j ipc_bus \<Rightarrow> 'j ipc_bus" where
  "with_dedup b = b\<lparr>bu_dedup := True\<rparr>"

abbreviation pk_id :: "'j ipc_packet \<Rightarrow> u64" where
  "pk_id p \<equiv> ih_packet_id (pk_header p)"

abbreviation pk_priority :: "'j ipc_packet \<Rightarrow> u8" where
  "pk_priority p \<equiv> ih_priority (pk_header p)"

subsection \<open>Operations\<close>

definition is_duplicate :: "'j ipc_packet \<Rightarrow> 'j ipc_bus \<Rightarrow> bool" where
  "is_duplicate p b \<longleftrightarrow> bu_dedup b \<and> pk_id p \<in> bu_seen b"

definition record_send_latency :: "128 word \<Rightarrow> 'j ipc_bus \<Rightarrow> 'j ipc_bus" where
  "record_send_latency us b = b\<lparr>bu_metrics := (bu_metrics b)
     \<lparr>bx_send_latency_sum_us := bx_send_latency_sum_us (bu_metrics b) + us,
      bx_send_count_for_latency := bx_send_count_for_latency (bu_metrics b) + 1\<rparr>\<rparr>"

definition count_dropped :: "'j ipc_bus \<Rightarrow> 'j ipc_bus" where
  "count_dropped b = b\<lparr>bu_metrics := (bu_metrics b)
     \<lparr>bx_total_dropped := bx_total_dropped (bu_metrics b) + 1\<rparr>\<rparr>"

definition count_deduplicated :: "'j ipc_bus \<Rightarrow> 'j ipc_bus" where
  "count_deduplicated b = b\<lparr>bu_metrics := (bu_metrics b)
     \<lparr>bx_total_deduplicated := bx_total_deduplicated (bu_metrics b) + 1\<rparr>\<rparr>"

text \<open>The counters of an accepted packet, once it is in the queue.\<close>

definition count_sent :: "'j ipc_bus \<Rightarrow> 'j ipc_bus" where
  "count_sent b = b\<lparr>bu_metrics := (bu_metrics b)
     \<lparr>bx_total_sent := bx_total_sent (bu_metrics b) + 1,
      bx_peak_queue_depth := max (bx_peak_queue_depth (bu_metrics b)) (length (bu_queue b))\<rparr>\<rparr>"

definition evict_front :: "'j ipc_bus \<Rightarrow> 'j ipc_bus" where
  "evict_front b =
     (case bu_queue b of
        [] \<Rightarrow> b
      | d # q \<Rightarrow> count_dropped (b\<lparr>bu_queue := q, bu_seen := bu_seen b - {pk_id d}\<rparr>))"

definition evict_back :: "'j ipc_bus \<Rightarrow> 'j ipc_bus" where
  "evict_back b =
     (if bu_queue b = [] then b
      else count_dropped (b\<lparr>bu_queue := butlast (bu_queue b),
        bu_seen := bu_seen b - {pk_id (last (bu_queue b))}\<rparr>))"

definition bus_send :: "128 word \<Rightarrow> 'j ipc_packet \<Rightarrow> 'j ipc_bus \<Rightarrow> unit result \<times> 'j ipc_bus" where
  "bus_send us p b =
     (if bu_frozen b then (Err (IPCError ''Bus is frozen''), b)
      else if is_duplicate p b then (Ok (), count_deduplicated b)
      else if bu_max_queue_size b \<le> length (bu_queue b) \<and> bu_backpressure b = Reject
      then (Err (IPCError ''Message queue full''), count_dropped b)
      else
        let b1 = (if bu_max_queue_size b \<le> length (bu_queue b) then evict_front b else b);
            b2 = b1\<lparr>bu_seen := insert (pk_id p) (bu_seen b1), bu_queue := bu_queue b1 @ [p]\<rparr>
        in (Ok (), record_send_latency us (count_sent b2)))"

definition priority_pos :: "u8 \<Rightarrow> 'j ipc_packet list \<Rightarrow> nat" where
  "priority_pos priority q =
     (case position (\<lambda>p. pk_priority p < priority) q of None \<Rightarrow> length q | Some i \<Rightarrow> i)"

definition bus_send_priority :: "128 word \<Rightarrow> 'j ipc_packet \<Rightarrow> 'j ipc_bus \<Rightarrow> unit result \<times> 'j ipc_bus" where
  "bus_send_priority us p b =
     (if bu_frozen b then (Err (IPCError ''Bus is frozen''), b)
      else if is_duplicate p b then (Ok (), count_deduplicated b)
      else if bu_max_queue_size b \<le> length (bu_queue b) \<and> bu_backpressure b = Reject
      then (Err (IPCError ''Message queue full''), count_dropped b)
      else
        let b1 = (if bu_max_queue_size b \<le> length (bu_queue b) then evict_back b else b);
            pos = priority_pos (pk_priority p) (bu_queue b1);
            b2 = b1\<lparr>bu_seen := insert (pk_id p) (bu_seen b1), bu_queue := insert_at pos p (bu_queue b1)\<rparr>
        in (Ok (), record_send_latency us (count_sent b2)))"

definition bus_receive :: "'j ipc_bus \<Rightarrow> 'j ipc_packet option \<times> 'j ipc_bus" where
  "bus_receive b =
     (case bu_queue b of
        [] \<Rightarrow> (None, b)
      | p # q \<Rightarrow> (Some p, b\<lparr>bu_queue := q, bu_seen := bu_seen b - {pk_id p},
          bu_metrics := (bu_metrics b)
            \<lparr>bx_total_received := bx_total_received (bu_metrics b) + 1\<rparr>\<rparr>))"

definition bus_peek :: "'j ipc_bus \<Rightarrow> 'j ipc_packet option" where
  "bus_peek b = (case bu_queue b of [] \<Rightarrow> None | p # _ \<Rightarrow> Some p)"

definition bus_flush :: "'j ipc_bus \<Rightarrow> 'j ipc_bus" where
  "bus_flush b = b\<lparr>bu_queue := [], bu_seen := {}\<rparr>"

definition bus_freeze :: "'j ipc_bus \<Rightarrow> 'j ipc_packet list \<times> 'j ipc_bus" where
  "bus_freeze b = (bu_queue b, b\<lparr>bu_frozen := True, bu_seen := {}, bu_queue := []\<rparr>)"

definition bus_unfreeze :: "'j ipc_packet list \<Rightarrow> 'j ipc_bus \<Rightarrow> 'j ipc_bus" where
  "bus_unfreeze packets b =
     fold (\<lambda>p b. b\<lparr>bu_seen := insert (pk_id p) (bu_seen b), bu_queue := p # bu_queue b\<rparr>)
       (rev packets) (b\<lparr>bu_frozen := False\<rparr>)"

definition bus_reroute :: "u32 \<Rightarrow> u32 \<Rightarrow> 'j ipc_bus \<Rightarrow> nat \<times> 'j ipc_bus" where
  "bus_reroute old_target new_target b =
     (length (filter (\<lambda>p. ih_target_block (pk_header p) = old_target) (bu_queue b)),
      b\<lparr>bu_queue := map (\<lambda>p. if ih_target_block (pk_header p) = old_target
          then p\<lparr>pk_header := (pk_header p)\<lparr>ih_target_block := new_target\<rparr>\<rparr> else p) (bu_queue b)\<rparr>)"

definition bus_reset_metrics :: "'j ipc_bus \<Rightarrow> 'j ipc_bus" where
  "bus_reset_metrics b = b\<lparr>bu_metrics := metrics_default\<rparr>"

subsection \<open>The shared bus\<close>

type_synonym 'j shared_bus = "'j ipc_bus option"

definition shared_new :: "nat \<Rightarrow> 'j shared_bus" where
  "shared_new max_queue_size = Some (bus_new max_queue_size)"

definition shared_with_backpressure :: "BackpressurePolicy \<Rightarrow> 'j shared_bus \<Rightarrow> 'j shared_bus" where
  "shared_with_backpressure policy sb = map_option (\<lambda>b. b\<lparr>bu_backpressure := policy\<rparr>) sb"

definition shared_with_dedup :: "'j shared_bus \<Rightarrow> 'j shared_bus" where
  "shared_with_dedup sb = map_option (\<lambda>b. b\<lparr>bu_dedup := True\<rparr>) sb"

definition shared_send :: "128 word \<Rightarrow> 'j ipc_packet \<Rightarrow> 'j shared_bus \<Rightarrow> unit result \<times> 'j shared_bus" where
  "shared_send us p sb =
     (case sb of
        None \<Rightarrow> (Err (IPCError ''Lock poisoned''), None)
      | Some b \<Rightarrow> (case bus_send us p b of (r, b') \<Rightarrow> (r, Some b')))"

definition shared_receive :: "'j shared_bus \<Rightarrow> 'j ipc_packet option \<times> 'j shared_bus" where
  "shared_receive sb =
     (case sb of
        None \<Rightarrow> (None, None)
      | Some b \<Rightarrow> (case bus_receive b of (r, b') \<Rightarrow> (r, Some b')))"

definition shared_len :: "'j shared_bus \<Rightarrow> nat" where
  "shared_len sb = (case sb of None \<Rightarrow> 0 | Some b \<Rightarrow> length (bu_queue b))"

definition shared_is_empty :: "'j shared_bus \<Rightarrow> bool" where
  "shared_is_empty sb = (case sb of None \<Rightarrow> True | Some b \<Rightarrow> bu_queue b = [])"

definition shared_flush :: "'j shared_bus \<Rightarrow> 'j shared_bus" where
  "shared_flush sb = map_option bus_flush sb"

definition shared_metrics :: "'j shared_bus \<Rightarrow> bus_metrics" where
  "shared_metrics sb = (case sb of None \<Rightarrow> metrics_default | Some b \<Rightarrow> bu_metrics b)"

subsection \<open>Simplification of the counters\<close>

lemma counters_keep [simp]:
  "bu_queue (count_dropped b) = bu_queue b" "bu_seen (count_dropped b) = bu_seen b"
  "bu_frozen (count_dropped b) = bu_frozen b" "bu_dedup (count_dropped b) = bu_dedup b"
  "bu_max_queue_size (count_dropped b) = bu_max_queue_size b"
  "bu_backpressure (count_dropped b) = bu_backpressure b"
  "bu_queue (count_deduplicated b) = bu_queue b" "bu_seen (count_deduplicated b) = bu_seen b"
  "bu_frozen (count_deduplicated b) = bu_frozen b" "bu_dedup (count_deduplicated b) = bu_dedup b"
  "bu_max_queue_size (count_deduplicated b) = bu_max_queue_size b"
  "bu_backpressure (count_deduplicated b) = bu_backpressure b"
  "bu_queue (count_sent b) = bu_queue b" "bu_seen (count_sent b) = bu_seen b"
  "bu_frozen (count_sent b) = bu_frozen b" "bu_dedup (count_sent b) = bu_dedup b"
  "bu_max_queue_size (count_sent b) = bu_max_queue_size b"
  "bu_backpressure (count_sent b) = bu_backpressure b"
  "bu_queue (record_send_latency us b) = bu_queue b" "bu_seen (record_send_latency us b) = bu_seen b"
  "bu_frozen (record_send_latency us b) = bu_frozen b" "bu_dedup (record_send_latency us b) = bu_dedup b"
  "bu_max_queue_size (record_send_latency us b) = bu_max_queue_size b"
  "bu_backpressure (record_send_latency us b) = bu_backpressure b"
  by (simp_all add: count_dropped_def count_deduplicated_def count_sent_def record_send_latency_def)

lemma evict_simps [simp]:
  "bu_queue (evict_front b) = tl (bu_queue b)" "bu_queue (evict_back b) = butlast (bu_queue b)"
  "bu_frozen (evict_front b) = bu_frozen b" "bu_frozen (evict_back b) = bu_frozen b"
  "bu_dedup (evict_front b) = bu_dedup b" "bu_dedup (evict_back b) = bu_dedup b"
  "bu_max_queue_size (evict_front b) = bu_max_queue_size b"
  "bu_max_queue_size (evict_back b) = bu_max_queue_size b"
  "bu_backpressure (evict_front b) = bu_backpressure b"
  "bu_backpressure (evict_back b) = bu_backpressure b"
  by (simp_all add: evict_front_def evict_back_def split: list.split)

lemma unfreeze_eq:
  "bus_unfreeze ps b = b\<lparr>bu_frozen := False, bu_seen := bu_seen b \<union> pk_id ` set ps,
     bu_queue := ps @ bu_queue b\<rparr>"
  for b :: "'j ipc_bus"
proof -
  have "fold (\<lambda>p b. b\<lparr>bu_seen := insert (pk_id p) (bu_seen b), bu_queue := p # bu_queue b\<rparr>) (rev ps) c =
      c\<lparr>bu_seen := bu_seen c \<union> pk_id ` set ps, bu_queue := ps @ bu_queue c\<rparr>" for c :: "'j ipc_bus"
    by (induction ps) (simp_all add: fold_append Un_commute)
  then show ?thesis by (simp add: bus_unfreeze_def)
qed

subsection \<open>The queue invariant\<close>

datatype 'j bus_op =
    BSend "128 word" "'j ipc_packet"
  | BSendPriority "128 word" "'j ipc_packet"
  | BReceive
  | BFlush
  | BFreeze
  | BUnfreeze "'j ipc_packet list"
  | BReroute u32 u32
  | BResetMetrics

fun bus_exec :: "'j bus_op \<Rightarrow> 'j ipc_bus \<Rightarrow> 'j ipc_bus" where
  "bus_exec (BSend us p) b = snd (bus_send us p b)"
| "bus_exec (BSendPriority us p) b = snd (bus_send_priority us p b)"
| "bus_exec BReceive b = snd (bus_receive b)"
| "bus_exec BFlush b = bus_flush b"
| "bus_exec BFreeze b = snd (bus_freeze b)"
| "bus_exec (BUnfreeze ps) b = bus_unfreeze ps b"
| "bus_exec (BReroute old new) b = snd (bus_reroute old new b)"
| "bus_exec BResetMetrics b = bus_reset_metrics b"

text \<open>
  An unfreeze is proper when the bus is frozen and the packets could have been its queue: no
  more than fit, with different identifiers.
\<close>

fun bus_op_ok :: "'j bus_op \<Rightarrow> 'j ipc_bus \<Rightarrow> bool" where
  "bus_op_ok (BUnfreeze ps) b \<longleftrightarrow>
     bu_frozen b \<and> length ps \<le> bu_max_queue_size b \<and> distinct (map pk_id ps)"
| "bus_op_ok _ b \<longleftrightarrow> True"

inductive bus_reachable :: "'j ipc_bus \<Rightarrow> 'j ipc_bus \<Rightarrow> bool" for b0 :: "'j ipc_bus" where
  bus_start: "bus_reachable b0 b0"
| bus_step: "bus_reachable b0 b \<Longrightarrow> bus_op_ok op b \<Longrightarrow> bus_reachable b0 (bus_exec op b)"

definition bus_wf :: "'j ipc_bus \<Rightarrow> bool" where
  "bus_wf b \<longleftrightarrow> bu_dedup b \<and> 0 < bu_max_queue_size b \<and>
     length (bu_queue b) \<le> bu_max_queue_size b \<and>
     distinct (map pk_id (bu_queue b)) \<and> bu_seen b = pk_id ` set (bu_queue b) \<and>
     (bu_frozen b \<longrightarrow> bu_queue b = [])"

lemma evict_front_wf:
  assumes "bus_wf b"
  shows "bus_wf (evict_front b)"
  using assms by (cases "bu_queue b") (auto simp: bus_wf_def evict_front_def)

lemma evict_back_wf:
  assumes "bus_wf b"
  shows "bus_wf (evict_back b)"
proof (cases "bu_queue b" rule: rev_cases)
  case (snoc q d)
  with assms show ?thesis by (auto simp: bus_wf_def evict_back_def)
qed (use assms in \<open>simp add: evict_back_def\<close>)

lemma distinct_map_insert_at: "distinct (map f (insert_at i p q)) \<longleftrightarrow> f p \<notin> f ` set q \<and> distinct (map f q)"
proof -
  have "mset (map f (insert_at i p q)) = mset (map f (p # q))" by simp
  then have "distinct (map f (insert_at i p q)) = distinct (map f (p # q))"
    by (rule mset_eq_imp_distinct_iff)
  then show ?thesis by simp
qed

lemma priority_pos_le [simp]: "priority_pos pr q \<le> length q"
  by (auto simp: priority_pos_def dest: position_SomeD split: option.split)

text \<open>Putting one more packet into the queue, at any position.\<close>

lemma accept_wf:
  assumes "bus_wf b" "\<not> bu_frozen b" "pk_id p \<notin> bu_seen b" "length (bu_queue b) < bu_max_queue_size b"
    and "i \<le> length (bu_queue b)"
  shows "bus_wf (record_send_latency us (count_sent (b\<lparr>bu_seen := insert (pk_id p) (bu_seen b),
    bu_queue := insert_at i p (bu_queue b)\<rparr>)))"
  using assms by (simp add: bus_wf_def distinct_map_insert_at)

lemma evict_room:
  assumes "bus_wf b" "bu_max_queue_size b \<le> length (bu_queue b)"
  shows "length (bu_queue (evict_front b)) < bu_max_queue_size (evict_front b)"
    "length (bu_queue (evict_back b)) < bu_max_queue_size (evict_back b)"
  using assms by (auto simp: bus_wf_def)

lemma evict_seen: "bu_seen (evict_front b) \<subseteq> bu_seen b" "bu_seen (evict_back b) \<subseteq> bu_seen b"
  by (auto simp: evict_front_def evict_back_def split: list.split)

lemma insert_at_end: "insert_at (length q) p q = q @ [p]"
  by (simp add: insert_at_def)

lemma counters_wf [simp]: "bus_wf (count_dropped b) = bus_wf b" "bus_wf (count_deduplicated b) = bus_wf b"
  by (simp_all add: bus_wf_def)

lemma bus_send_wf:
  assumes wf: "bus_wf b"
  shows "bus_wf (snd (bus_send us p b))"
proof (cases "bu_frozen b \<or> is_duplicate p b \<or>
    (bu_max_queue_size b \<le> length (bu_queue b) \<and> bu_backpressure b = Reject)")
  case True
  with wf show ?thesis by (auto simp: bus_send_def)
next
  case False
  let ?b = "if bu_max_queue_size b \<le> length (bu_queue b) then evict_front b else b"
  have "bu_dedup b" using wf by (simp add: bus_wf_def)
  with False have id: "pk_id p \<notin> bu_seen ?b" using evict_seen(1)[of b] by (auto simp: is_duplicate_def)
  have "bus_wf ?b" "\<not> bu_frozen ?b" "length (bu_queue ?b) < bu_max_queue_size ?b"
    using False wf evict_front_wf[OF wf] evict_room(1)[OF wf] by auto
  from accept_wf[OF this(1,2) id this(3) order_refl, of us] False show ?thesis
    by (auto simp: bus_send_def Let_def insert_at_end simp del: evict_simps)
qed

lemma bus_send_priority_wf:
  assumes wf: "bus_wf b"
  shows "bus_wf (snd (bus_send_priority us p b))"
proof (cases "bu_frozen b \<or> is_duplicate p b \<or>
    (bu_max_queue_size b \<le> length (bu_queue b) \<and> bu_backpressure b = Reject)")
  case True
  with wf show ?thesis by (auto simp: bus_send_priority_def)
next
  case False
  let ?b = "if bu_max_queue_size b \<le> length (bu_queue b) then evict_back b else b"
  have "bu_dedup b" using wf by (simp add: bus_wf_def)
  with False have id: "pk_id p \<notin> bu_seen ?b" using evict_seen(2)[of b] by (auto simp: is_duplicate_def)
  have "bus_wf ?b" "\<not> bu_frozen ?b" "length (bu_queue ?b) < bu_max_queue_size ?b"
    using False wf evict_back_wf[OF wf] evict_room(2)[OF wf] by auto
  from accept_wf[OF this(1,2) id this(3) priority_pos_le, of us] False show ?thesis
    by (auto simp: bus_send_priority_def Let_def simp del: evict_simps)
qed

lemma reroute_ids: "map pk_id (bu_queue (snd (bus_reroute old new b))) = map pk_id (bu_queue b)"
  by (simp add: bus_reroute_def)

lemma bus_reroute_wf: "bus_wf b \<Longrightarrow> bus_wf (snd (bus_reroute old new b))"
proof -
  have "pk_id ` set (bu_queue (snd (bus_reroute old new b))) = pk_id ` set (bu_queue b)"
    using arg_cong[OF reroute_ids[of old new b], of set] by simp
  moreover assume "bus_wf b"
  ultimately show "bus_wf (snd (bus_reroute old new b))"
    by (auto simp: bus_wf_def reroute_ids) (simp_all add: bus_reroute_def)
qed

lemma bus_exec_wf:
  assumes "bus_wf b" "bus_op_ok op b"
  shows "bus_wf (bus_exec op b)"
proof (cases op)
  case BReceive
  with assms show ?thesis
    by (cases "bu_queue b") (auto simp: bus_receive_def bus_wf_def)
next
  case (BUnfreeze ps)
  with assms show ?thesis by (auto simp: unfreeze_eq bus_wf_def)
qed (use assms in \<open>auto simp: bus_send_wf bus_send_priority_wf bus_reroute_wf\<close>,
    auto simp: bus_wf_def bus_flush_def bus_freeze_def bus_reset_metrics_def)

text \<open>
  C17: On a bus with duplicate suppression and room for at least one packet, in every state
  reached by sends, priority sends, receives, flushes, freezes, unfreezes that hand a frozen bus at
  most its bound of packets with distinct identifiers (as the live update does), and reroutes,
  under either back-pressure policy: the queue is within its bound, no two queued packets share an
  identifier, the set of remembered identifiers is exactly that of the queued packets, and a
  frozen bus holds no packet.
\<close>

theorem bus_dedup_bounded:
  assumes "bus_reachable (with_dedup (with_backpressure (bus_new n) policy)) b" "0 < n"
  shows "length (bu_queue b) \<le> bu_max_queue_size b \<and> distinct (map pk_id (bu_queue b)) \<and>
    bu_seen b = pk_id ` set (bu_queue b) \<and> (bu_frozen b \<longrightarrow> bu_queue b = [])"
proof -
  have "bus_wf b"
    using assms(1)
  proof (induction rule: bus_reachable.induct)
    case bus_start
    show ?case using assms(2) by (simp add: bus_wf_def with_dedup_def with_backpressure_def bus_new_def)
  qed (rule bus_exec_wf)
  then show ?thesis by (simp add: bus_wf_def)
qed

definition demo_packet :: "u64 \<Rightarrow> u8 \<Rightarrow> unit ipc_packet" where
  "demo_packet n pr = with_priority (fst (packet_new toy_ser toy_sha n 1 2 CCustom PEmpty)) pr"

lemmas demo_packet_simps = demo_packet_def with_priority_def packet_new_def Let_def

theorem bus_dedup_bounded_witness:
  "\<exists>b :: unit ipc_bus. bus_reachable (with_dedup (with_backpressure (bus_new 1) DropOldest)) b \<and>
     bu_queue b = [demo_packet 6 1] \<and> bu_seen b = {6} \<and> length (bu_queue b) \<le> bu_max_queue_size b"
proof -
  let ?start = "with_dedup (with_backpressure (bus_new 1) DropOldest) :: unit ipc_bus"
  let ?b = "bus_exec (BSend 1 (demo_packet 6 1)) (bus_exec (BSend 1 (demo_packet 5 2)) ?start)"
  have "bus_reachable ?start (bus_exec (BSend 1 (demo_packet 5 2)) ?start)"
    by (rule bus_step[OF bus_start]) simp
  then have r: "bus_reachable ?start ?b" by (rule bus_step) simp
  moreover have "bu_queue ?b = [demo_packet 6 1]"
    by (simp add: bus_send_def with_dedup_def with_backpressure_def bus_new_def is_duplicate_def Let_def
        demo_packet_simps)
  moreover have "pk_id (demo_packet 6 1) = 6" by (simp add: demo_packet_simps)
  ultimately show ?thesis using bus_dedup_bounded[OF r] by (intro exI[of _ ?b]) auto
qed

subsection \<open>Priority order\<close>

text \<open>Higher priorities first: the sort key is the distance from the highest priority.\<close>

definition urgency :: "'j ipc_packet \<Rightarrow> nat" where
  "urgency p = 255 - unat (pk_priority p)"

lemma urgency_less: "pk_priority p < pk_priority q \<longleftrightarrow> urgency q < urgency p"
  using unsigned_less[of "pk_priority p", where ?'a = nat] unsigned_less[of "pk_priority q", where ?'a = nat]
  by (auto simp: urgency_def word_less_nat_alt)

lemma priority_pos_split:
  assumes "sorted (map urgency q)"
  shows "take (priority_pos (pk_priority p) q) q = filter (\<lambda>x. urgency x \<le> urgency p) q"
    "drop (priority_pos (pk_priority p) q) q = filter (\<lambda>x. urgency p < urgency x) q"
proof -
  have "take (priority_pos (pk_priority p) q) q = filter (\<lambda>x. urgency x \<le> urgency p) q \<and>
    drop (priority_pos (pk_priority p) q) q = filter (\<lambda>x. urgency p < urgency x) q"
    using assms
  proof (induction q)
    case (Cons x q)
    show ?case
    proof (cases "pk_priority x < pk_priority p")
      case True
      then have "urgency p < urgency x" by (simp add: urgency_less)
      moreover from this Cons.prems have "\<forall>y\<in>set q. urgency p < urgency y" by fastforce
      ultimately show ?thesis using True
        by (auto simp: priority_pos_def filter_empty_conv filter_id_conv not_le)
    next
      case False
      then have "urgency x \<le> urgency p" by (simp add: urgency_less not_less)
      with False Cons show ?thesis
        by (auto simp: priority_pos_def split: option.splits)
    qed
  qed (simp add: priority_pos_def)
  then show "take (priority_pos (pk_priority p) q) q = filter (\<lambda>x. urgency x \<le> urgency p) q"
    "drop (priority_pos (pk_priority p) q) q = filter (\<lambda>x. urgency p < urgency x) q" by auto
qed

lemma insert_priority_sort:
  assumes "q = sort_key urgency ps"
  shows "insert_at (priority_pos (pk_priority p) q) p q = sort_key urgency (ps @ [p])"
proof (rule properties_for_sort_key[symmetric])
  have s: "sorted (map urgency q)" using assms by simp
  have e: "insert_at (priority_pos (pk_priority p) q) p q =
      filter (\<lambda>x. urgency x \<le> urgency p) q @ p # filter (\<lambda>x. urgency p < urgency x) q"
    by (simp add: insert_at_def priority_pos_split[OF s])
  show "mset (insert_at (priority_pos (pk_priority p) q) p q) = mset (ps @ [p])"
    using assms by simp
  show "sorted (map urgency (insert_at (priority_pos (pk_priority p) q) p q))"
    using s unfolding e by (auto simp: sorted_append sorted_filter[of urgency])
  have st: "filter (\<lambda>x. urgency k = urgency x) q = filter (\<lambda>x. urgency k = urgency x) ps" for k
    using sort_key_stable[of urgency "urgency k" ps] by (simp add: assms eq_commute[of "urgency k"])
  show "filter (\<lambda>x. urgency k = urgency x) (insert_at (priority_pos (pk_priority p) q) p q) =
      filter (\<lambda>x. urgency k = urgency x) (ps @ [p])" for k
  proof (cases "urgency k = urgency p")
    case True
    have "filter (\<lambda>x. urgency k = urgency x) (filter (\<lambda>x. urgency x \<le> urgency p) q) =
        filter (\<lambda>x. urgency k = urgency x) q"
      "filter (\<lambda>x. urgency k = urgency x) (filter (\<lambda>x. urgency p < urgency x) q) = []"
      using True by (auto simp: filter_empty_conv intro: filter_cong)
    with True st[of k] show ?thesis unfolding e by simp
  next
    case False
    have "filter (\<lambda>x. urgency k = urgency x) (insert_at (priority_pos (pk_priority p) q) p q) =
        filter (\<lambda>x. urgency k = urgency x) (take (priority_pos (pk_priority p) q) q @ drop (priority_pos (pk_priority p) q) q)"
      unfolding insert_at_def filter_append using False by simp
    with False st[of k] show ?thesis by simp
  qed
qed

fun send_all_priority :: "'j ipc_packet list \<Rightarrow> 'j ipc_bus \<Rightarrow> 'j ipc_bus" where
  "send_all_priority [] b = b"
| "send_all_priority (p # ps) b = send_all_priority ps (snd (bus_send_priority 0 p b))"

fun receive_all :: "nat \<Rightarrow> 'j ipc_bus \<Rightarrow> 'j ipc_packet list" where
  "receive_all 0 b = []"
| "receive_all (Suc n) b =
     (case bus_receive b of (None, b') \<Rightarrow> [] | (Some p, b') \<Rightarrow> p # receive_all n b')"

lemma receive_all_queue: "receive_all (length (bu_queue b)) b = bu_queue b"
proof (induction "bu_queue b" arbitrary: b)
  case (Cons p q)
  from Cons(2)[symmetric] Cons(1)[of "snd (bus_receive b)"] show ?case
    by (simp add: bus_receive_def)
qed simp

lemma send_all_priority_queue:
  assumes "bu_queue b = sort_key urgency qs" "length qs + length ps \<le> bu_max_queue_size b"
    and "\<not> bu_frozen b" "\<not> bu_dedup b"
  shows "bu_queue (send_all_priority ps b) = sort_key urgency (qs @ ps)"
  using assms
proof (induction ps arbitrary: b qs)
  case (Cons p ps)
  let ?b = "snd (bus_send_priority 0 p b)"
  have len: "length (bu_queue b) < bu_max_queue_size b" using Cons.prems(1,2) by simp
  have "bu_queue ?b = sort_key urgency (qs @ [p])"
    using Cons.prems(3,4) len insert_priority_sort[OF Cons.prems(1)]
    by (simp add: bus_send_priority_def is_duplicate_def)
  moreover have "\<not> bu_frozen ?b" "\<not> bu_dedup ?b" "bu_max_queue_size ?b = bu_max_queue_size b"
    using Cons.prems(3,4) len by (simp_all add: bus_send_priority_def is_duplicate_def Let_def)
  ultimately show ?case using Cons.IH[of ?b "qs @ [p]"] Cons.prems(2) by simp
qed simp

text \<open>
  C36: Packets sent with priority to a fresh bus that has room for them are received
  highest priority first and, within one priority, in the order they were sent: the bus sorts
  them stably.
\<close>

theorem bus_priority_order:
  assumes "length ps \<le> n"
  shows "receive_all (length ps) (send_all_priority ps (bus_new n)) = sort_key urgency ps"
proof -
  have "bu_queue (send_all_priority ps (bus_new n)) = sort_key urgency ([] @ ps)"
    by (rule send_all_priority_queue) (use assms in \<open>simp_all add: bus_new_def\<close>)
  then show ?thesis
    using receive_all_queue[of "send_all_priority ps (bus_new n)"] by simp
qed

theorem bus_priority_order_witness:
  "length [demo_packet 1 2, demo_packet 2 4, demo_packet 3 2] \<le> 3 \<and>
   receive_all (length [demo_packet 1 2, demo_packet 2 4, demo_packet 3 2])
     (send_all_priority [demo_packet 1 2, demo_packet 2 4, demo_packet 3 2] (bus_new 3)) =
     [demo_packet 2 4, demo_packet 1 2, demo_packet 3 2]"
proof -
  have s: "sort_key urgency [demo_packet 1 2, demo_packet 2 4, demo_packet 3 2] =
      [demo_packet 2 4, demo_packet 1 2, demo_packet 3 2]"
    by (simp add: urgency_def demo_packet_simps)
  have l: "length [demo_packet 1 2, demo_packet 2 4, demo_packet 3 2] \<le> 3" by simp
  from bus_priority_order[OF l] l show ?thesis unfolding s by (intro conjI)
qed

subsection \<open>Freezing\<close>

definition quiet_op :: "'j bus_op \<Rightarrow> bool" where
  "quiet_op op = (case op of BUnfreeze _ \<Rightarrow> False | BFreeze \<Rightarrow> False | _ \<Rightarrow> True)"

lemma frozen_quiet:
  assumes "bu_frozen b" "bu_queue b = []" "bu_seen b = {}" "quiet_op op"
  shows "bu_frozen (bus_exec op b) \<and> bu_queue (bus_exec op b) = [] \<and> bu_seen (bus_exec op b) = {}"
  using assms
  by (cases op) (auto simp: quiet_op_def bus_send_def bus_send_priority_def bus_receive_def bus_flush_def
      bus_reroute_def bus_reset_metrics_def)

text \<open>
  C37: A freeze followed by an unfreeze with the packets it returned restores the queue
  exactly, whatever was called on the bus in between: while it is frozen every send is refused
  and nothing is delivered, and afterwards the bus accepts packets again.
\<close>

theorem bus_freeze_roundtrip:
  assumes "\<forall>op\<in>set ops. quiet_op op"
  shows "bu_queue (bus_unfreeze (fst (bus_freeze b)) (fold bus_exec ops (snd (bus_freeze b)))) = bu_queue b \<and>
    \<not> bu_frozen (bus_unfreeze (fst (bus_freeze b)) (fold bus_exec ops (snd (bus_freeze b)))) \<and>
    fst (bus_send us p (fold bus_exec ops (snd (bus_freeze b)))) = Err (IPCError ''Bus is frozen'') \<and>
    fst (bus_receive (fold bus_exec ops (snd (bus_freeze b)))) = None"
proof -
  have "bu_frozen c \<and> bu_queue c = [] \<and> bu_seen c = {} \<Longrightarrow> \<forall>op\<in>set ops. quiet_op op \<Longrightarrow>
      bu_frozen (fold bus_exec ops c) \<and> bu_queue (fold bus_exec ops c) = []" for c :: "'a ipc_bus"
    using frozen_quiet by (induction ops arbitrary: c) auto
  from this[of "snd (bus_freeze b)"] assms
  have "bu_frozen (fold bus_exec ops (snd (bus_freeze b)))" "bu_queue (fold bus_exec ops (snd (bus_freeze b))) = []"
    by (simp_all add: bus_freeze_def)
  then show ?thesis by (simp add: unfreeze_eq bus_send_def bus_receive_def) (simp add: bus_freeze_def)
qed

theorem bus_freeze_roundtrip_witness:
  "let b = snd (bus_send 0 (demo_packet 1 2) (bus_new 4)); ops = [BSend 0 (demo_packet 2 2), BReceive] in
   bu_queue (bus_unfreeze (fst (bus_freeze b)) (fold bus_exec ops (snd (bus_freeze b)))) = [demo_packet 1 2]"
proof -
  let ?b = "snd (bus_send 0 (demo_packet 1 2) (bus_new 4))"
  have q: "bu_queue ?b = [demo_packet 1 2]"
    by (simp add: bus_send_def bus_new_def is_duplicate_def Let_def)
  have "\<forall>op\<in>set [BSend 0 (demo_packet 2 2), BReceive]. quiet_op op" by (simp add: quiet_op_def)
  from bus_freeze_roundtrip[OF this, of ?b] q show ?thesis unfolding Let_def by simp
qed

end
