(* ===== verification/Ring_Transport.thy ===== *)
theory Ring_Transport
  imports Ring_Buffer Ipc_Protocol
begin

text \<open>
  Heavy payloads between a pair of blocks through a ring buffer
  (\<open>aios-ipc/src/ring_transport.rs\<close>), on top of the ring-buffer component.  The bincode encoding
  of a packet is the argument \<open>enc\<close> (with the text of its error) and its decoding \<open>dec_pk\<close>; the
  allocator of the ring memory is \<open>alloc\<close>.  A \<open>None\<close> result is a panic (a ring that cannot be
  created) or an access outside the ring memory.
\<close>

abbreviation DEFAULT_RING_CAPACITY :: nat where
  "DEFAULT_RING_CAPACITY \<equiv> 256 * 1024"

abbreviation HEAVY_PAYLOAD_THRESHOLD :: nat where
  "HEAVY_PAYLOAD_THRESHOLD \<equiv> 4096"

record ring_metrics =
  rx_ring_sends :: u64
  rx_ring_receives :: u64
  rx_ring_full_rejections :: u64

record ring_transport =
  tr_rings :: "u32 \<times> u32 \<rightharpoonup> ring_buffer"
  tr_ring_capacity :: nat
  tr_metrics :: ring_metrics

definition ring_metrics_default :: ring_metrics where
  "ring_metrics_default = \<lparr>rx_ring_sends = 0, rx_ring_receives = 0, rx_ring_full_rejections = 0\<rparr>"

definition transport_with_capacity :: "nat \<Rightarrow> ring_transport" where
  "transport_with_capacity ring_capacity =
     \<lparr>tr_rings = Map.empty, tr_ring_capacity = ring_capacity, tr_metrics = ring_metrics_default\<rparr>"

definition transport_new :: ring_transport where
  "transport_new = transport_with_capacity DEFAULT_RING_CAPACITY"

text \<open>\<open>entry(\<dots>).or_insert_with(\<dots>)\<close>: the ring of the pair, created when there is none.\<close>

definition ring_entry :: "(nat \<Rightarrow> bytes option) \<Rightarrow> u32 \<times> u32 \<Rightarrow> ring_transport \<Rightarrow> ring_buffer option" where
  "ring_entry alloc pair t =
     (case tr_rings t pair of
        Some rb \<Rightarrow> Some rb
      | None \<Rightarrow>
          (case rb_new alloc \<lparr>cfg_capacity = tr_ring_capacity t, cfg_zero_copy = True\<rparr> of
             Err _ \<Rightarrow> None
           | Ok rb \<Rightarrow> Some rb))"

definition send_via_ring :: "('j Payload \<Rightarrow> bytes option) \<Rightarrow> ('j ipc_packet \<Rightarrow> string + bytes) \<Rightarrow>
    (nat \<Rightarrow> bytes option) \<Rightarrow> 'j ipc_packet \<Rightarrow> ring_transport \<Rightarrow> (bool result \<times> ring_transport) option" where
  "send_via_ring ser enc alloc packet t =
     (if length (payload_to_bytes ser (pk_payload packet)) < HEAVY_PAYLOAD_THRESHOLD
      then Some (Ok False, t)
      else case enc packet of
          Inl e \<Rightarrow> Some (Err (SerializationError (''Ring send serialize failed: '' @ e)), t)
        | Inr serialized \<Rightarrow>
            let pair = (ih_source_block (pk_header packet), ih_target_block (pk_header packet)) in
            (case ring_entry alloc pair t of
               None \<Rightarrow> None
             | Some ring \<Rightarrow>
                 (case rb_write ring serialized of
                    None \<Rightarrow> None
                  | Some (Ok written, ring') \<Rightarrow>
                      Some (Ok True, t\<lparr>tr_rings := (tr_rings t)(pair \<mapsto> ring'),
                        tr_metrics := (tr_metrics t)\<lparr>rx_ring_sends := rx_ring_sends (tr_metrics t) + 1\<rparr>\<rparr>)
                  | Some (Err _, ring') \<Rightarrow>
                      Some (Ok False, t\<lparr>tr_rings := (tr_rings t)(pair \<mapsto> ring'),
                        tr_metrics := (tr_metrics t)
                          \<lparr>rx_ring_full_rejections := rx_ring_full_rejections (tr_metrics t) + 1\<rparr>\<rparr>))))"

definition try_receive_from_ring :: "(bytes \<Rightarrow> 'j ipc_packet option) \<Rightarrow> u32 \<Rightarrow> u32 \<Rightarrow> ring_transport \<Rightarrow>
    ('j ipc_packet option \<times> ring_transport) option" where
  "try_receive_from_ring dec_pk from to t =
     (case tr_rings t (from, to) of
        None \<Rightarrow> Some (None, t)
      | Some ring \<Rightarrow>
          let available = available_read ring in
          if available = 0 then Some (None, t)
          else case rb_read ring (replicate available 0) of
              None \<Rightarrow> None
            | Some (Ok bytes_read, buf, ring') \<Rightarrow>
                if bytes_read > 0
                then Some (dec_pk (take bytes_read buf),
                  t\<lparr>tr_rings := (tr_rings t)((from, to) \<mapsto> ring'),
                    tr_metrics := (tr_metrics t)\<lparr>rx_ring_receives := rx_ring_receives (tr_metrics t) + 1\<rparr>\<rparr>)
                else Some (None, t\<lparr>tr_rings := (tr_rings t)((from, to) \<mapsto> ring')\<rparr>)
            | Some (Err _, buf, ring') \<Rightarrow> Some (None, t\<lparr>tr_rings := (tr_rings t)((from, to) \<mapsto> ring')\<rparr>))"

definition transport_reset_metrics :: "ring_transport \<Rightarrow> ring_transport" where
  "transport_reset_metrics t = t\<lparr>tr_metrics := ring_metrics_default\<rparr>"

subsection \<open>Delivery\<close>

definition transport_inv :: "ring_transport \<Rightarrow> bool" where
  "transport_inv t \<longleftrightarrow> (\<forall>pair rb. tr_rings t pair = Some rb \<longrightarrow> rb_inv rb)"

definition pending :: "u32 \<times> u32 \<Rightarrow> ring_transport \<Rightarrow> bytes" where
  "pending pair t = (case tr_rings t pair of None \<Rightarrow> [] | Some rb \<Rightarrow> rb_contents rb)"

text \<open>Receiving takes all pending bytes of the pair at once and decodes them as one packet.\<close>

lemma receive_takes_all:
  assumes inv: "transport_inv t"
  shows "\<exists>t'. try_receive_from_ring dec_pk from to t =
      Some (if pending (from, to) t = [] then None else dec_pk (pending (from, to) t), t') \<and>
    transport_inv t' \<and> pending (from, to) t' = []"
proof (cases "tr_rings t (from, to)")
  case None
  with inv show ?thesis by (simp add: try_receive_from_ring_def pending_def)
next
  case (Some ring)
  then have r: "rb_inv ring" using inv by (simp add: transport_inv_def)
  let ?n = "available_read ring"
  have len: "length (rb_contents ring) = ?n" by simp
  show ?thesis
  proof (cases "?n = 0")
    case True
    then have "rb_contents ring = []" using len by (metis length_0_conv)
    with True Some inv show ?thesis by (simp add: try_receive_from_ring_def pending_def)
  next
    case False
    then have ne: "rb_contents ring \<noteq> []" using len by (metis list.size(3))
    from ring.get_min[OF r, of ?n "replicate ?n 0"] len obtain ring' where
      rd: "rb_read ring (replicate ?n 0) = Some (Ok ?n, rb_contents ring, ring')"
      and r': "rb_inv ring'" "rb_contents ring' = []" by auto
    have "take ?n (rb_contents ring) = rb_contents ring" using len by simp
    with Some False ne rd r' inv show ?thesis
      by (auto simp: try_receive_from_ring_def pending_def Let_def transport_inv_def)
  qed
qed

lemma send_appends:
  assumes inv: "transport_inv t" and alloc: "\<And>n mem. alloc n = Some mem \<Longrightarrow> length mem = n"
    and heavy: "HEAVY_PAYLOAD_THRESHOLD \<le> length (payload_to_bytes ser (pk_payload p))"
    and enc: "enc p = Inr bs"
    and pair: "pair = (ih_source_block (pk_header p), ih_target_block (pk_header p))"
    and ring: "ring_entry alloc pair t = Some rb"
  shows "\<exists>t'. send_via_ring ser enc alloc p t = Some (Ok (length bs \<le> available_write rb), t') \<and>
    transport_inv t' \<and>
    pending pair t' = (if length bs \<le> available_write rb then pending pair t @ bs else pending pair t)"
proof -
  have r: "rb_inv rb" and c: "rb_contents rb = pending pair t"
    using ring rb_new_inv[OF alloc] inv[unfolded transport_inv_def, rule_format]
    by (auto simp: ring_entry_def pending_def split: option.splits sum.splits)
  have ns: "\<not> length (payload_to_bytes ser (pk_payload p)) < HEAVY_PAYLOAD_THRESHOLD" using heavy by simp
  show ?thesis
  proof (cases "length bs \<le> available_write rb")
    case True
    from ring.put_fits[OF r True] obtain rb' where
      "rb_write rb bs = Some (Ok (length bs), rb')" "rb_inv rb'" "rb_contents rb' = rb_contents rb @ bs"
      by blast
    with True ns enc ring pair inv c show ?thesis
      by (auto simp: send_via_ring_def Let_def transport_inv_def pending_def)
  next
    case False
    then have "rb_write rb bs = Some (Err (rb_full_error (length bs) (available_write rb)), rb)"
      by (intro rb_write_full) simp
    with False ns enc ring pair inv c r show ?thesis
      by (auto simp: send_via_ring_def Let_def transport_inv_def pending_def)
  qed
qed

text \<open>
   A heavy packet sent while nothing is pending for its pair of blocks and
  the ring has room for its encoding is handed to the ring, and the next receive of the pair returns
  exactly that packet and leaves nothing pending.  The decoding of an encoded packet is assumed to
  be the packet.
\<close>

theorem ring_transport_delivers:
  assumes "transport_inv t" "\<And>n mem. alloc n = Some mem \<Longrightarrow> length mem = n"
    and "HEAVY_PAYLOAD_THRESHOLD \<le> length (payload_to_bytes ser (pk_payload p))"
    and "enc p = Inr bs" "bs \<noteq> []" "dec_pk bs = Some p"
    and "from = ih_source_block (pk_header p)" "to = ih_target_block (pk_header p)"
    and "ring_entry alloc (from, to) t = Some rb" "length bs \<le> available_write rb"
    and "pending (from, to) t = []"
  shows "\<exists>t' t''. send_via_ring ser enc alloc p t = Some (Ok True, t') \<and>
    try_receive_from_ring dec_pk from to t' = Some (Some p, t'') \<and>
    transport_inv t'' \<and> pending (from, to) t'' = []"
proof -
  obtain t' where t': "send_via_ring ser enc alloc p t = Some (Ok True, t')" "transport_inv t'"
    "pending (from, to) t' = bs"
    using send_appends[where t = t and alloc = alloc and ser = ser and enc = enc and p = p and bs = bs
        and pair = "(from, to)" and rb = rb] assms by auto
  with receive_takes_all[OF t'(2), of dec_pk "from" to] assms(5,6) show ?thesis by auto
qed

definition demo_alloc :: "nat \<Rightarrow> bytes option" where
  "demo_alloc n = Some (replicate n 0)"

definition heavy_packet :: "u64 \<Rightarrow> unit ipc_packet" where
  "heavy_packet n = \<lparr>pk_header = \<lparr>ih_packet_id = n, ih_source_block = 1, ih_target_block = 2,
     ih_command_id = 0, ih_priority = 2, ih_payload_len = 5000, ih_checksum = []\<rparr>,
     pk_payload = PBinary (replicate 5000 7)\<rparr>"

definition heavy_ser :: "unit Payload \<Rightarrow> bytes option" where
  "heavy_ser p = (case p of PBinary bs \<Rightarrow> Some bs | _ \<Rightarrow> None)"

text \<open>A one-byte code of the demo packets; like bincode, the decoder ignores what follows.\<close>

definition demo_enc :: "unit ipc_packet \<Rightarrow> string + bytes" where
  "demo_enc p = Inr [ucast (ih_packet_id (pk_header p))]"

definition demo_dec :: "bytes \<Rightarrow> unit ipc_packet option" where
  "demo_dec bs = (case bs of [] \<Rightarrow> None | b # _ \<Rightarrow> Some (heavy_packet (ucast b)))"

lemmas demo_ring_simps = demo_alloc_def heavy_packet_def heavy_ser_def demo_enc_def demo_dec_def
  payload_to_bytes_def transport_with_capacity_def transport_inv_def
  pending_def ring_entry_def rb_new_def layout_ok_def available_write_def available_read_def usize_simps

theorem ring_transport_delivers_witness:
  "\<exists>t' t''. send_via_ring heavy_ser demo_enc demo_alloc (heavy_packet 9) (transport_with_capacity 8) =
      Some (Ok True, t') \<and>
    try_receive_from_ring demo_dec 1 2 t' = Some (Some (heavy_packet 9), t'') \<and>
    transport_inv t'' \<and> pending (1, 2) t'' = []"
  by (rule ring_transport_delivers[of _ _ _ _ _ "[9]" _ _ _ "\<lparr>rb_data = replicate 8 0, rb_write_pos = 0,
      rb_read_pos = 0, rb_capacity = 8, rb_config = \<lparr>cfg_capacity = 8, cfg_zero_copy = True\<rparr>\<rparr>"])
    (simp_all add: demo_ring_simps)

text \<open>
  Two packets sent before the first receive: the receive consumes the bytes of both and decodes the
  first, so that the second is lost although its send answered \<open>Ok(true)\<close>.
\<close>

lemma ring_transport_drops_second:
  assumes "transport_inv t1" "pending (from, to) t1 = bs1 @ bs2" "bs1 \<noteq> []"
    and trailing: "dec_pk (bs1 @ bs2) = dec_pk bs1"
  shows "\<exists>t2. try_receive_from_ring dec_pk from to t1 = Some (dec_pk bs1, t2) \<and>
    try_receive_from_ring dec_pk from to t2 = Some (None, t2)"
proof -
  obtain t2 where t2: "try_receive_from_ring dec_pk from to t1 = Some (dec_pk bs1, t2)"
    "transport_inv t2" "pending (from, to) t2 = []"
    using receive_takes_all[OF assms(1), of dec_pk "from" to] assms(2,3) trailing by auto
  have "try_receive_from_ring dec_pk from to t2 = Some (None, t2)"
  proof (cases "tr_rings t2 (from, to)")
    case None then show ?thesis by (simp add: try_receive_from_ring_def)
  next
    case (Some ring)
    then have "available_read ring = 0"
      using t2(3) by (simp add: pending_def) (metis length_rb_contents list.size(3))
    with Some show ?thesis by (simp add: try_receive_from_ring_def)
  qed
  with t2 show ?thesis by blast
qed

end
