(* ===== verification/Kernel_Paging.thy ===== *)
theory Kernel_Paging
  imports Prelude
begin

text \<open>
  Physical frames and page tables of the kernel (\<open>aios-kernel/src/memory.rs\<close>).  The physical memory
  is a function from the addresses of its 8-byte cells in the bootloader's direct map to their
  values, so that a table entry is the cell \<open>PHYS_OFFSET + table + 8 * index\<close>; the static
  variables and the register \<open>cr3\<close> are fields of the state.  Flushing a TLB entry has no effect on
  the state.
\<close>

unbundle bit_operations_syntax

definition PAGE_SIZE :: u64 where "PAGE_SIZE = 0x1000"
definition PTE_PRESENT :: u64 where "PTE_PRESENT = 1"
definition PTE_WRITABLE :: u64 where "PTE_WRITABLE = 2"
definition PTE_USER :: u64 where "PTE_USER = 4"
definition PTE_HUGE :: u64 where "PTE_HUGE = 128"
definition PTE_FRAME :: u64 where "PTE_FRAME = 0x000FFFFFFFFFF000"
definition INDEX_MASK :: u64 where "INDEX_MASK = 0x1FF"
definition MAX_FRAME_REGIONS :: nat where "MAX_FRAME_REGIONS = 16"
definition MMIO_BASE :: u64 where "MMIO_BASE = 0xFFFFFF0020000000"
definition SELFTEST_ADDR :: u64 where "SELFTEST_ADDR = 0xFFFFFF0010000000"
abbreviation SELFTEST_PATTERN :: u64 where "SELFTEST_PATTERN \<equiv> 0xDEADBEEFCAFEF00D"

lemmas pte_defs = PTE_PRESENT_def PTE_WRITABLE_def PTE_USER_def PTE_HUGE_def PTE_FRAME_def INDEX_MASK_def
  PAGE_SIZE_def

record mem_region =
  mr_start :: u64
  mr_end :: u64

record machine =
  pg_mem :: "u64 \<Rightarrow> u64"
  pg_cr3 :: u64
  pg_phys_offset :: u64
  pg_frame_next :: u64
  pg_frame_region :: nat
  pg_frames_alloc :: u64
  pg_frame_regions :: "mem_region list"
  pg_frame_region_count :: nat
  pg_mmio_next :: u64

definition addr_align_up :: "u64 \<Rightarrow> u64 \<Rightarrow> u64" where
  "addr_align_up addr align = (addr + align - 1) AND NOT (align - 1)"

definition addr_align_down :: "u64 \<Rightarrow> u64 \<Rightarrow> u64" where
  "addr_align_down addr align = addr AND NOT (align - 1)"

definition is_page_aligned :: "u64 \<Rightarrow> bool" where
  "is_page_aligned addr = (addr AND (PAGE_SIZE - 1) = 0)"

fun init_regions :: "mem_region list \<Rightarrow> nat \<Rightarrow> mem_region list \<Rightarrow> mem_region list \<times> nat" where
  "init_regions [] cnt arr = (arr, cnt)"
| "init_regions (region # regions) cnt arr =
     (if MAX_FRAME_REGIONS \<le> cnt then (arr, cnt)
      else let start = addr_align_up (mr_start region) PAGE_SIZE; fin = addr_align_down (mr_end region) PAGE_SIZE in
        if start < fin
        then init_regions regions (cnt + 1) (arr[cnt := \<lparr>mr_start = start, mr_end = fin\<rparr>])
        else init_regions regions cnt arr)"

definition memory_init :: "u64 \<Rightarrow> mem_region list \<Rightarrow> machine \<Rightarrow> machine" where
  "memory_init physical_offset regions s =
     (let (arr, cnt) = init_regions regions 0 (pg_frame_regions s);
          s1 = s\<lparr>pg_phys_offset := physical_offset, pg_frame_regions := arr, pg_frame_region_count := cnt\<rparr>
      in if cnt > 0 then s1\<lparr>pg_frame_next := mr_start (arr ! 0)\<rparr> else s1)"

definition physical_to_virtual :: "u64 \<Rightarrow> machine \<Rightarrow> u64" where
  "physical_to_virtual phys s = pg_phys_offset s + phys"

definition read_entry :: "u64 \<Rightarrow> u64 \<Rightarrow> machine \<Rightarrow> u64" where
  "read_entry table_phys index s = pg_mem s (physical_to_virtual table_phys s + index * 8)"

definition write_entry :: "u64 \<Rightarrow> u64 \<Rightarrow> u64 \<Rightarrow> machine \<Rightarrow> machine" where
  "write_entry table_phys index v s =
     s\<lparr>pg_mem := (pg_mem s)(physical_to_virtual table_phys s + index * 8 := v)\<rparr>"

function alloc_frame :: "machine \<Rightarrow> u64 option \<times> machine" where
  "alloc_frame s =
     (let cnt = pg_frame_region_count s; region = pg_frame_region s in
      if cnt \<le> region then (None, s)
      else let current = pg_frame_regions s ! region; nxt = pg_frame_next s in
        if mr_end current \<le> nxt
        then if cnt \<le> region + 1 then (None, s)
          else alloc_frame (s\<lparr>pg_frame_region := region + 1,
            pg_frame_next := mr_start (pg_frame_regions s ! (region + 1))\<rparr>)
        else (Some nxt, s\<lparr>pg_frame_next := nxt + PAGE_SIZE, pg_frames_alloc := pg_frames_alloc s + 1\<rparr>))"
  by auto
termination
  by (relation "measure (\<lambda>s. pg_frame_region_count s - pg_frame_region s)") (auto simp: Let_def)

declare alloc_frame.simps [simp del]

definition translate :: "u64 \<Rightarrow> machine \<Rightarrow> u64 option" where
  "translate addr s =
     (let pml4 = pg_cr3 s AND PTE_FRAME;
          pml4e = read_entry pml4 (drop_bit 39 addr AND INDEX_MASK) s in
      if pml4e AND PTE_PRESENT = 0 then None
      else let pdpt = pml4e AND PTE_FRAME; pdpte = read_entry pdpt (drop_bit 30 addr AND INDEX_MASK) s in
      if pdpte AND PTE_PRESENT = 0 then None
      else if pdpte AND PTE_HUGE \<noteq> 0 then Some ((pdpte AND PTE_FRAME) OR (addr AND 0x3FFFFFFF))
      else let pd = pdpte AND PTE_FRAME; pde = read_entry pd (drop_bit 21 addr AND INDEX_MASK) s in
      if pde AND PTE_PRESENT = 0 then None
      else if pde AND PTE_HUGE \<noteq> 0 then Some ((pde AND PTE_FRAME) OR (addr AND 0x1FFFFF))
      else let pt = pde AND PTE_FRAME; pte = read_entry pt (drop_bit 12 addr AND INDEX_MASK) s in
      if pte AND PTE_PRESENT = 0 then None
      else Some ((pte AND PTE_FRAME) OR (addr AND 0xFFF)))"

definition walk_leaf :: "u64 \<Rightarrow> u64 \<Rightarrow> machine \<Rightarrow> u64" where
  "walk_leaf pml4 addr s =
     (let pml4e = read_entry pml4 (drop_bit 39 addr AND INDEX_MASK) s in
      if pml4e AND PTE_PRESENT = 0 then 0
      else let pdpte = read_entry (pml4e AND PTE_FRAME) (drop_bit 30 addr AND INDEX_MASK) s in
      if pdpte AND PTE_PRESENT = 0 then 0
      else if pdpte AND PTE_HUGE \<noteq> 0 then pdpte
      else let pde = read_entry (pdpte AND PTE_FRAME) (drop_bit 21 addr AND INDEX_MASK) s in
      if pde AND PTE_PRESENT = 0 then 0
      else if pde AND PTE_HUGE \<noteq> 0 then pde
      else read_entry (pde AND PTE_FRAME) (drop_bit 12 addr AND INDEX_MASK) s)"

record region_check =
  rc_pages_total :: u64
  rc_pages_present :: u64
  rc_pages_writable :: u64

definition div_ceil :: "u64 \<Rightarrow> u64 \<Rightarrow> u64" where
  "div_ceil a b = (if a mod b = 0 then a div b else a div b + 1)"

definition verify_page :: "machine \<Rightarrow> nat \<Rightarrow> u64 \<times> u64 \<Rightarrow> u64 \<times> u64" where
  "verify_page s page acc =
     (let entry = walk_leaf (pg_cr3 s AND PTE_FRAME) (word_of_nat page * PAGE_SIZE) s in
      if entry AND PTE_PRESENT = 0 then acc
      else (fst acc + 1, if entry AND PTE_WRITABLE \<noteq> 0 then snd acc + 1 else snd acc))"

definition verify_region :: "u64 \<Rightarrow> u64 \<Rightarrow> machine \<Rightarrow> region_check" where
  "verify_region virt bytes s =
     (let start_page = virt div PAGE_SIZE; end_page = div_ceil (virt + bytes) PAGE_SIZE;
          (present, writable) = fold (verify_page s) [unat start_page ..< unat end_page] (0, 0)
      in \<lparr>rc_pages_total = end_page - start_page, rc_pages_present = present, rc_pages_writable = writable\<rparr>)"

definition clear_table :: "u64 \<Rightarrow> machine \<Rightarrow> machine" where
  "clear_table frame s = fold (\<lambda>i. write_entry frame (word_of_nat i) 0) [0..<512] s"

definition ensure_table :: "u64 \<Rightarrow> u64 \<Rightarrow> u64 \<Rightarrow> machine \<Rightarrow> (string + u64) \<times> machine" where
  "ensure_table parent index flags s =
     (let entry = read_entry parent index s in
      if entry AND PTE_PRESENT \<noteq> 0 then (Ok entry, s)
      else case alloc_frame s of
          (None, s1) \<Rightarrow> (Err ''out of memory for page table'', s1)
        | (Some frame, s1) \<Rightarrow>
            (Ok (frame OR flags), write_entry parent index (frame OR flags) (clear_table frame s1)))"

definition mark_user :: "bool \<Rightarrow> u64 \<Rightarrow> u64 \<Rightarrow> u64 \<Rightarrow> machine \<Rightarrow> u64 \<times> machine" where
  "mark_user user table index entry s =
     (if user then (entry OR PTE_USER, write_entry table index (entry OR PTE_USER) s) else (entry, s))"

text \<open>One level of the walk: \<open>ensure_table(\<dots>)?\<close>, then the user flag where it is requested.\<close>

definition table_step :: "bool \<Rightarrow> u64 \<Rightarrow> u64 \<Rightarrow> u64 \<Rightarrow> machine \<Rightarrow> (string + u64) \<times> machine" where
  "table_step user table index flags s =
     (case ensure_table table index flags s of
        (Err e, s1) \<Rightarrow> (Err e, s1)
      | (Ok entry, s1) \<Rightarrow> (let (entry', s2) = mark_user user table index entry s1 in (Ok entry', s2)))"

definition map_page :: "u64 \<Rightarrow> u64 \<Rightarrow> bool \<Rightarrow> machine \<Rightarrow> (string + unit) \<times> machine" where
  "map_page virt phys user s =
     (if \<not> is_page_aligned virt \<or> \<not> is_page_aligned phys
      then (Err ''map_page: address not page aligned'', s)
      else let flags = PTE_PRESENT OR PTE_WRITABLE OR (if user then PTE_USER else 0);
               pml4 = pg_cr3 s AND PTE_FRAME in
        case table_step user pml4 (drop_bit 39 virt AND INDEX_MASK) flags s of
          (Err e, s1) \<Rightarrow> (Err e, s1)
        | (Ok pml4e, s1) \<Rightarrow>
          (case table_step user (pml4e AND PTE_FRAME) (drop_bit 30 virt AND INDEX_MASK) flags s1 of
            (Err e, s2) \<Rightarrow> (Err e, s2)
          | (Ok pdpte, s2) \<Rightarrow>
            if pdpte AND PTE_HUGE \<noteq> 0 then (Err ''map_page: 1GiB page in path'', s2)
            else (case table_step user (pdpte AND PTE_FRAME) (drop_bit 21 virt AND INDEX_MASK) flags s2 of
              (Err e, s3) \<Rightarrow> (Err e, s3)
            | (Ok pde, s3) \<Rightarrow>
              if pde AND PTE_HUGE \<noteq> 0 then (Err ''map_page: 2MiB page in path'', s3)
              else (Ok (), write_entry (pde AND PTE_FRAME) (drop_bit 12 virt AND INDEX_MASK) (phys OR flags) s3))))"

definition unmap_page :: "u64 \<Rightarrow> machine \<Rightarrow> machine" where
  "unmap_page virt s =
     (if \<not> is_page_aligned virt then s
      else let pml4 = pg_cr3 s AND PTE_FRAME; pml4e = read_entry pml4 (drop_bit 39 virt AND INDEX_MASK) s in
      if pml4e AND PTE_PRESENT = 0 then s
      else let pdpte = read_entry (pml4e AND PTE_FRAME) (drop_bit 30 virt AND INDEX_MASK) s in
      if pdpte AND PTE_PRESENT = 0 \<or> pdpte AND PTE_HUGE \<noteq> 0 then s
      else let pde = read_entry (pdpte AND PTE_FRAME) (drop_bit 21 virt AND INDEX_MASK) s in
      if pde AND PTE_PRESENT = 0 \<or> pde AND PTE_HUGE \<noteq> 0 then s
      else let pt = pde AND PTE_FRAME; index = drop_bit 12 virt AND INDEX_MASK in
      if read_entry pt index s AND PTE_PRESENT \<noteq> 0 then write_entry pt index 0 s else s)"

fun map_pages :: "nat \<Rightarrow> u64 \<Rightarrow> u64 \<Rightarrow> u64 \<Rightarrow> machine \<Rightarrow> (string + unit) \<times> machine" where
  "map_pages 0 page virt start s = (Ok (), s)"
| "map_pages (Suc n) page virt start s =
     (case map_page (virt + page * PAGE_SIZE) (start + page * PAGE_SIZE) False s of
        (Err e, s1) \<Rightarrow> (Err e, s1)
      | (Ok _, s1) \<Rightarrow> map_pages n (page + 1) virt start s1)"

definition map_mmio :: "u64 \<Rightarrow> u64 \<Rightarrow> machine \<Rightarrow> (string + u64) \<times> machine" where
  "map_mmio phys sz s =
     (let start = addr_align_down phys PAGE_SIZE; offset = phys - start;
          pages = div_ceil (offset + sz) PAGE_SIZE; virt = pg_mmio_next s;
          s1 = s\<lparr>pg_mmio_next := virt + pages * PAGE_SIZE\<rparr>
      in case map_pages (unat pages) 0 virt start s1 of
          (Err e, s2) \<Rightarrow> (Err e, s2)
        | (Ok _, s2) \<Rightarrow> (Ok (virt + offset), s2))"

definition mmio_used :: "machine \<Rightarrow> u64" where
  "mmio_used s = pg_mmio_next s - MMIO_BASE"

text \<open>A store and a load of the kernel go through the page tables; \<open>None\<close> is a page fault.\<close>

definition mmu_write :: "u64 \<Rightarrow> u64 \<Rightarrow> machine \<Rightarrow> machine option" where
  "mmu_write addr v s =
     map_option (\<lambda>phys. s\<lparr>pg_mem := (pg_mem s)(physical_to_virtual phys s := v)\<rparr>) (translate addr s)"

definition mmu_read :: "u64 \<Rightarrow> machine \<Rightarrow> u64 option" where
  "mmu_read addr s = map_option (\<lambda>phys. pg_mem s (physical_to_virtual phys s)) (translate addr s)"

definition paging_selftest :: "machine \<Rightarrow> ((string + unit) \<times> machine) option" where
  "paging_selftest s =
     (if translate SELFTEST_ADDR s \<noteq> None
      then Some (Err ''selftest: target virtual address already mapped'', s)
      else case alloc_frame s of
          (None, s1) \<Rightarrow> Some (Err ''selftest: no frames available'', s1)
        | (Some frame, s1) \<Rightarrow>
          (case map_page SELFTEST_ADDR frame False s1 of
            (Err e, s2) \<Rightarrow> Some (Err e, s2)
          | (Ok _, s2) \<Rightarrow>
            (case mmu_write SELFTEST_ADDR SELFTEST_PATTERN s2 of
               None \<Rightarrow> None
             | Some s3 \<Rightarrow>
               (case mmu_read SELFTEST_ADDR s3 of
                  None \<Rightarrow> None
                | Some v \<Rightarrow>
                  if v \<noteq> SELFTEST_PATTERN then Some (Err ''selftest: read-back mismatch'', s3)
                  else if translate SELFTEST_ADDR s3 \<noteq> Some frame
                  then Some (Err ''selftest: translate does not match mapped frame'', s3)
                  else let s4 = unmap_page SELFTEST_ADDR s3 in
                    if translate SELFTEST_ADDR s4 \<noteq> None
                    then Some (Err ''selftest: unmap did not take effect'', s4)
                    else Some (Ok (), s4)))))"

subsection \<open>Cells of table entries\<close>

definition frame_ok :: "u64 \<Rightarrow> bool" where
  "frame_ok f \<longleftrightarrow> f AND PTE_FRAME = f"

lemma frame_ok_mask [simp]: "frame_ok (e AND PTE_FRAME)"
  by (simp add: frame_ok_def and.assoc)

lemma frame_ok_iff: "frame_ok f \<longleftrightarrow> unat f < 2 ^ 52 \<and> 4096 dvd unat f"
proof -
  have m: "PTE_FRAME = mask 52 AND NOT (mask 12)" by (simp add: PTE_FRAME_def mask_eq_exp_minus_1)
  have "f AND PTE_FRAME = (take_bit 52 f) AND NOT (mask 12)" by (simp add: m take_bit_eq_mask and.assoc)
  moreover have "unat ((take_bit 52 f) AND NOT (mask 12)) = unat f mod 2 ^ 52 div 4096 * 4096"
    unfolding unat_round_down unsigned_take_bit_eq by (simp add: take_bit_eq_mod)
  ultimately have "frame_ok f \<longleftrightarrow> unat f mod 2 ^ 52 div 4096 * 4096 = unat f"
    unfolding frame_ok_def word_unat_eq_iff by metis
  also have "\<dots> \<longleftrightarrow> unat f < 2 ^ 52 \<and> 4096 dvd unat f"
  proof
    assume eq: "unat f mod 2 ^ 52 div 4096 * 4096 = unat f"
    have "unat f mod 2 ^ 52 div 4096 * 4096 < 2 ^ 52"
      by (rule order_le_less_trans[OF div_times_less_eq_dividend]) (rule mod_less_divisor, simp)
    moreover have "4096 dvd unat f mod 2 ^ 52 div 4096 * 4096" by (rule dvd_triv_right)
    ultimately show "unat f < 2 ^ 52 \<and> 4096 dvd unat f" unfolding eq by (rule conjI)
  next
    assume "unat f < 2 ^ 52 \<and> 4096 dvd unat f"
    then show "unat f mod 2 ^ 52 div 4096 * 4096 = unat f" by (simp only: mod_less dvd_div_mult_self)
  qed
  finally show ?thesis .
qed

lemma cell_unat:
  assumes "frame_ok f" "i < (512 :: u64)"
  shows "unat (f + i * 8) = unat f + 8 * unat i"
proof -
  have i: "unat i < 512" using assms(2) by (simp add: word_less_nat_alt)
  have f: "unat f < 2 ^ 52" using assms(1) unfolding frame_ok_iff by (rule conjunct1)
  have i8: "unat (i * 8) = 8 * unat i"
    unfolding unat_word_ariths using i by (simp add: mod_less)
  show ?thesis
    unfolding unat_word_ariths(1) i8 using i f by (intro mod_less) simp
qed

lemma cell_inj:
  assumes "frame_ok f" "frame_ok g" "i < (512 :: u64)" "j < (512 :: u64)"
  shows "f + i * 8 = g + j * 8 \<longleftrightarrow> f = g \<and> i = j"
proof
  assume "f + i * 8 = g + j * 8"
  then have eq: "unat f + 8 * unat i = unat g + 8 * unat j" using assms by (metis cell_unat)
  obtain a b where ab: "unat f = 4096 * a" "unat g = 4096 * b" using assms(1,2) by (auto simp: frame_ok_iff elim!: dvdE)
  have "unat i < 512" "unat j < 512" using assms(3,4) by (simp_all add: word_less_nat_alt)
  then have r: "8 * unat i div 4096 = 0" "8 * unat j div 4096 = 0" by simp_all
  have "(8 * unat i + 4096 * a) div 4096 = (8 * unat j + 4096 * b) div 4096" using eq ab by (simp add: add.commute)
  then have "a = b" unfolding div_mult_self2[OF zero_neq_numeral[symmetric]] r by simp
  with eq ab have "unat i = unat j" by simp
  with ab \<open>a = b\<close> show "f = g \<and> i = j" by (simp add: word_unat_eq_iff)
qed simp

lemma read_write_entry:
  assumes "frame_ok t" "frame_ok t'" "i < 512" "j < 512"
  shows "read_entry t' j (write_entry t i v s) = (if t' = t \<and> j = i then v else read_entry t' j s)"
  using cell_inj[OF assms(2,1,4,3)]
  by (simp add: read_entry_def write_entry_def physical_to_virtual_def add.assoc)

lemma write_entry_fields [simp]:
  "pg_cr3 (write_entry t i v s) = pg_cr3 s" "pg_phys_offset (write_entry t i v s) = pg_phys_offset s"
  "pg_frame_next (write_entry t i v s) = pg_frame_next s" "pg_frame_region (write_entry t i v s) = pg_frame_region s"
  "pg_frame_regions (write_entry t i v s) = pg_frame_regions s"
  "pg_frame_region_count (write_entry t i v s) = pg_frame_region_count s"
  "pg_mmio_next (write_entry t i v s) = pg_mmio_next s"
  by (simp_all add: write_entry_def)

lemma clear_table_gen:
  assumes "n \<le> 512" "frame_ok f"
    and s': "s' = fold (\<lambda>i. write_entry f (word_of_nat i) 0) [0..<n] s"
  shows "(frame_ok t \<longrightarrow> j < 512 \<longrightarrow> read_entry t j s' = (if t = f \<and> unat j < n then 0 else read_entry t j s)) \<and>
    pg_cr3 s' = pg_cr3 s \<and> pg_phys_offset s' = pg_phys_offset s \<and> pg_frame_next s' = pg_frame_next s \<and>
    pg_frame_region s' = pg_frame_region s \<and> pg_frame_regions s' = pg_frame_regions s \<and>
    pg_frame_region_count s' = pg_frame_region_count s \<and> pg_mmio_next s' = pg_mmio_next s"
  using assms(1) unfolding s'
proof (induction n)
  case (Suc n)
  have un: "unat (word_of_nat n :: u64) = n" unfolding unat_of_nat using Suc.prems by (intro mod_less) simp
  then have "word_of_nat n < (512 :: u64)" using Suc.prems by (simp add: word_less_nat_alt)
  moreover have "j = word_of_nat n \<longleftrightarrow> unat j = n" using un by auto
  ultimately show ?case using Suc by (auto simp: read_write_entry assms(2))
qed simp

lemma clear_table_read:
  assumes "frame_ok f" "frame_ok t" "j < 512"
  shows "read_entry t j (clear_table f s) = (if t = f then 0 else read_entry t j s)"
proof -
  have "unat j < 512" using assms(3) by (simp add: word_less_nat_alt)
  then show ?thesis using clear_table_gen[OF order_refl assms(1) refl, of t j s] assms by (simp add: clear_table_def)
qed

lemma clear_table_fields [simp]:
  assumes "frame_ok f"
  shows "pg_cr3 (clear_table f s) = pg_cr3 s" "pg_phys_offset (clear_table f s) = pg_phys_offset s"
    "pg_frame_next (clear_table f s) = pg_frame_next s" "pg_frame_region (clear_table f s) = pg_frame_region s"
    "pg_frame_regions (clear_table f s) = pg_frame_regions s"
    "pg_frame_region_count (clear_table f s) = pg_frame_region_count s"
    "pg_mmio_next (clear_table f s) = pg_mmio_next s"
  using clear_table_gen[OF order_refl assms refl] by (simp_all add: clear_table_def)

subsection \<open>The tree of tables\<close>

text \<open>
  A path lists the indexes that lead to a table, the last one first; the root has the empty path.
  \<open>slot s (i # p)\<close> is entry \<open>i\<close> of the table at \<open>p\<close>, or 0 when there is no such table.
\<close>

definition sub_table :: "u64 list \<Rightarrow> u64 \<Rightarrow> u64 option" where
  "sub_table p e = (if e AND PTE_PRESENT \<noteq> 0 \<and> (p = [] \<or> e AND PTE_HUGE = 0) then Some (e AND PTE_FRAME) else None)"

fun table_at :: "machine \<Rightarrow> u64 list \<Rightarrow> u64 option" where
  "table_at s [] = Some (pg_cr3 s AND PTE_FRAME)"
| "table_at s (i # p) = (case table_at s p of None \<Rightarrow> None | Some t \<Rightarrow> sub_table p (read_entry t i s))"

fun slot :: "machine \<Rightarrow> u64 list \<Rightarrow> u64" where
  "slot s [] = 0"
| "slot s (i # p) = (case table_at s p of None \<Rightarrow> 0 | Some t \<Rightarrow> read_entry t i s)"

definition path_ok :: "u64 list \<Rightarrow> bool" where
  "path_ok p \<longleftrightarrow> (\<forall>i\<in>set p. i < 512)"

definition tree :: "machine \<Rightarrow> bool" where
  "tree s \<longleftrightarrow> (\<forall>p q f. path_ok p \<and> path_ok q \<and> length p \<le> 3 \<and> length q \<le> 3 \<and>
     table_at s p = Some f \<and> table_at s q = Some f \<longrightarrow> p = q)"

lemma treeD: "tree s \<Longrightarrow> path_ok p \<Longrightarrow> path_ok q \<Longrightarrow> length p \<le> 3 \<Longrightarrow> length q \<le> 3 \<Longrightarrow>
    table_at s p = Some f \<Longrightarrow> table_at s q = Some f \<Longrightarrow> p = q"
  by (simp add: tree_def)

lemma table_at_frame_ok: "table_at s p = Some t \<Longrightarrow> frame_ok t"
  by (cases p) (auto simp: sub_table_def split: option.splits if_splits)

lemma path_ok_Cons [simp]: "path_ok (i # p) \<longleftrightarrow> i < 512 \<and> path_ok p" "path_ok []"
  by (auto simp: path_ok_def)

lemma sub_table_zero [simp]: "sub_table p 0 = None"
  by (simp add: sub_table_def)

lemma table_at_slot: "table_at s (i # p) = sub_table p (slot s (i # p))"
  by (simp split: option.splits)

text \<open>An entry rewritten so that it leads to the same table changes one slot only.\<close>

lemma table_at_write:
  assumes tr: "tree s" and p: "path_ok p" "length p \<le> 3" "table_at s p = Some t" "i < 512"
    and v: "length p = 3 \<or> sub_table p v = sub_table p (read_entry t i s)"
    and q: "path_ok q" "length q \<le> 3"
  shows "table_at (write_entry t i v s) q = table_at s q"
  using q
proof (induction q)
  case (Cons j q)
  show ?case
  proof (cases "table_at s q")
    case (Some t')
    have "t' = t \<Longrightarrow> q = p" using treeD[OF tr _ p(1) _ p(2) _ p(3), of q] Cons.prems Some by simp
    with Some Cons v p(4) show ?thesis
      by (auto simp: read_write_entry[OF table_at_frame_ok[OF p(3)] table_at_frame_ok[OF Some]])
  qed (use Cons in simp)
qed simp

lemma slot_write:
  assumes tr: "tree s" and p: "path_ok p" "length p \<le> 3" "table_at s p = Some t" "i < 512"
    and v: "length p = 3 \<or> sub_table p v = sub_table p (read_entry t i s)"
    and q: "path_ok q" "length q \<le> 4"
  shows "slot (write_entry t i v s) q = (if q = i # p then v else slot s q)"
proof (cases q)
  case (Cons j q')
  then have q': "path_ok q'" "length q' \<le> 3" "j < 512" using q by auto
  note ta = table_at_write[OF tr p v q'(1,2)]
  show ?thesis
  proof (cases "table_at s q'")
    case None
    with Cons ta p(3) show ?thesis by auto
  next
    case (Some t')
    have "t' = t \<longleftrightarrow> q' = p" using treeD[OF tr q'(1) p(1) q'(2) p(2) _ p(3)] Some p(3) by auto
    with Some Cons ta p(4) q'(3) show ?thesis
      by (auto simp: read_write_entry[OF table_at_frame_ok[OF p(3)] table_at_frame_ok[OF Some]])
  qed
qed simp

text \<open>Hanging a cleared fresh table into an absent entry changes that slot only.\<close>

lemma table_at_new:
  assumes tr: "tree s" and p: "path_ok p" "length p \<le> 2" "table_at s p = Some t" "i < 512"
    and ab: "sub_table p (read_entry t i s) = None" and v: "sub_table p v = Some f"
    and f: "frame_ok f" "\<And>q. path_ok q \<Longrightarrow> length q \<le> 3 \<Longrightarrow> table_at s q \<noteq> Some f"
    and q: "path_ok q" "length q \<le> 3"
  shows "table_at (write_entry t i v (clear_table f s)) q = (if q = i # p then Some f else table_at s q)"
  using q
proof (induction q)
  case Nil
  then show ?case using f(1) by simp
next
  case (Cons j q)
  let ?s = "write_entry t i v (clear_table f s)"
  have ft: "frame_ok t" "t \<noteq> f" using table_at_frame_ok[OF p(3)] f(2)[OF p(1)] p by auto
  have rd: "read_entry t' j ?s = (if t' = t \<and> j = i then v else if t' = f then 0 else read_entry t' j s)"
    if "frame_ok t'" for t'
    using that ft f(1) p(4) Cons.prems by (simp add: read_write_entry clear_table_read)
  have q: "path_ok q" "length q \<le> 3" using Cons.prems by auto
  show ?case
  proof (cases "q = i # p")
    case True
    then have "table_at ?s q = Some f" "table_at s q = None" using Cons.IH q ab p(3) by auto
    moreover have "read_entry f j ?s = 0" using rd[OF f(1)] ft by auto
    moreover have "j # q \<noteq> i # p" using True by auto
    ultimately show ?thesis by simp
  next
    case False
    then have ih: "table_at ?s q = table_at s q" using Cons.IH q by simp
    show ?thesis
    proof (cases "table_at s q")
      case (Some t')
      have "t' \<noteq> f" using f(2)[OF q] Some by simp
      moreover have "t' = t \<longleftrightarrow> q = p" using treeD[OF tr q(1) p(1) q(2) _ _ p(3)] p Some by auto
      ultimately show ?thesis using ih Some rd[OF table_at_frame_ok[OF Some]] v by auto
    qed (use ih p(3) in auto)
  qed
qed

lemma slot_new:
  assumes tr: "tree s" and p: "path_ok p" "length p \<le> 2" "table_at s p = Some t" "i < 512"
    and ab: "sub_table p (read_entry t i s) = None" and v: "sub_table p v = Some f"
    and f: "frame_ok f" "\<And>q. path_ok q \<Longrightarrow> length q \<le> 3 \<Longrightarrow> table_at s q \<noteq> Some f"
    and q: "path_ok q" "length q \<le> 4"
  shows "slot (write_entry t i v (clear_table f s)) q = (if q = i # p then v else slot s q)"
proof (cases q)
  case (Cons j q')
  let ?s = "write_entry t i v (clear_table f s)"
  have q': "path_ok q'" "length q' \<le> 3" "j < 512" using q Cons by auto
  note ta = table_at_new[OF tr p ab v f q'(1,2)]
  have ft: "frame_ok t" "t \<noteq> f" using table_at_frame_ok[OF p(3)] f(2)[OF p(1)] p by auto
  have rd: "read_entry t' j ?s = (if t' = t \<and> j = i then v else if t' = f then 0 else read_entry t' j s)"
    if "frame_ok t'" for t'
    using that ft f(1) p(4) q'(3) by (simp add: read_write_entry clear_table_read)
  show ?thesis
  proof (cases "q' = i # p")
    case True
    then have "table_at s q' = None" using ab p(3) by simp
    with True ta rd[OF f(1)] ft Cons show ?thesis by auto
  next
    case False
    show ?thesis
    proof (cases "table_at s q'")
      case (Some t')
      have "t' \<noteq> f" using f(2)[OF q'(1,2)] Some by simp
      moreover have "t' = t \<longleftrightarrow> q' = p" using treeD[OF tr q'(1) p(1) q'(2) _ _ p(3)] p Some by auto
      ultimately show ?thesis using ta False Some rd[OF table_at_frame_ok[OF Some]] Cons by auto
    qed (use ta False p(3) Cons in auto)
  qed
qed simp

subsection \<open>The frame allocator\<close>

definition region_ok :: "machine \<Rightarrow> nat \<Rightarrow> bool" where
  "region_ok s r \<longleftrightarrow> frame_ok (mr_start (pg_frame_regions s ! r)) \<and> frame_ok (mr_end (pg_frame_regions s ! r))"

text \<open>Aligned disjoint regions, with the next frame inside the current one.\<close>

definition alloc_ok :: "machine \<Rightarrow> bool" where
  "alloc_ok s \<longleftrightarrow>
     (\<forall>r<pg_frame_region_count s. region_ok s r) \<and>
     (\<forall>r<pg_frame_region_count s. \<forall>r'<pg_frame_region_count s. r \<noteq> r' \<longrightarrow>
        mr_end (pg_frame_regions s ! r) \<le> mr_start (pg_frame_regions s ! r') \<or>
        mr_end (pg_frame_regions s ! r') \<le> mr_start (pg_frame_regions s ! r)) \<and>
     (pg_frame_region s < pg_frame_region_count s \<longrightarrow> frame_ok (pg_frame_next s) \<and>
        mr_start (pg_frame_regions s ! pg_frame_region s) \<le> pg_frame_next s)"

text \<open>The frames that can still be handed out.\<close>

definition avail :: "machine \<Rightarrow> u64 set" where
  "avail s = {f. frame_ok f \<and> pg_frame_region s < pg_frame_region_count s \<and>
     (pg_frame_next s \<le> f \<and> f < mr_end (pg_frame_regions s ! pg_frame_region s) \<or>
      (\<exists>r. pg_frame_region s < r \<and> r < pg_frame_region_count s \<and>
         mr_start (pg_frame_regions s ! r) \<le> f \<and> f < mr_end (pg_frame_regions s ! r)))}"

lemma frame_succ:
  assumes "frame_ok f" "frame_ok e" "f < e"
  shows "frame_ok g \<Longrightarrow> f + PAGE_SIZE \<le> g \<longleftrightarrow> f < g"
    and "f + PAGE_SIZE \<noteq> e \<Longrightarrow> frame_ok (f + PAGE_SIZE)" and "f + PAGE_SIZE \<le> e"
proof -
  obtain a where a: "unat f = 4096 * a" "unat f < 2 ^ 52" using assms(1) by (auto simp: frame_ok_iff elim!: dvdE)
  obtain b where b: "unat e = 4096 * b" "unat e < 2 ^ 52" using assms(2) by (auto simp: frame_ok_iff elim!: dvdE)
  have add: "unat (f + PAGE_SIZE) = unat f + 4096"
    unfolding PAGE_SIZE_def unat_word_ariths using a(2) by (subst mod_less) simp_all
  have le: "unat f + 4096 \<le> unat g \<longleftrightarrow> unat f < unat g" if "frame_ok g" for g
  proof -
    obtain c where "unat g = 4096 * c" using \<open>frame_ok g\<close> by (auto simp: frame_ok_iff elim!: dvdE)
    with a(1) show ?thesis by auto
  qed
  show "frame_ok g \<Longrightarrow> f + PAGE_SIZE \<le> g \<longleftrightarrow> f < g"
    using le by (simp add: word_le_nat_alt word_less_nat_alt add)
  show le': "f + PAGE_SIZE \<le> e"
    using le[OF assms(2)] assms(3) by (simp add: word_le_nat_alt word_less_nat_alt add)
  assume "f + PAGE_SIZE \<noteq> e"
  show "frame_ok (f + PAGE_SIZE)"
    unfolding frame_ok_iff add using le' b(2) a(1) by (auto simp: word_le_nat_alt add)
qed

lemma ex_above:
  assumes "Suc r < c"
  shows "(\<exists>k. r < k \<and> k < c \<and> P k) \<longleftrightarrow> P (Suc r) \<or> (\<exists>k. Suc r < k \<and> k < c \<and> P k)"
proof
  assume "\<exists>k. r < k \<and> k < c \<and> P k"
  then obtain k where "r < k" "k < c" "P k" by blast
  then show "P (Suc r) \<or> (\<exists>k. Suc r < k \<and> k < c \<and> P k)" by (cases "k = Suc r") auto
qed (use assms in \<open>auto dest: Suc_lessD\<close>)

lemma alloc_frame_spec:
  assumes "alloc_ok s"
  shows "alloc_ok (snd (alloc_frame s)) \<and> pg_mem (snd (alloc_frame s)) = pg_mem s \<and>
    pg_cr3 (snd (alloc_frame s)) = pg_cr3 s \<and> pg_phys_offset (snd (alloc_frame s)) = pg_phys_offset s \<and>
    pg_mmio_next (snd (alloc_frame s)) = pg_mmio_next s \<and>
    (case fst (alloc_frame s) of
       None \<Rightarrow> avail s = {} \<and> avail (snd (alloc_frame s)) = {}
     | Some f \<Rightarrow> f \<in> avail s \<and> avail (snd (alloc_frame s)) = avail s - {f})"
  using assms
proof (induction s rule: alloc_frame.induct)
  case (1 s)
  let ?c = "pg_frame_region_count s" and ?r = "pg_frame_region s" and ?n = "pg_frame_next s"
  let ?cur = "pg_frame_regions s ! ?r"
  show ?case
  proof (cases "?c \<le> ?r")
    case True
    with 1 show ?thesis by (simp add: alloc_frame.simps[of s] Let_def avail_def)
  next
    case False
    note r = this
    show ?thesis
    proof (cases "mr_end ?cur \<le> ?n")
      case True
      note full = this
      show ?thesis
      proof (cases "?c \<le> ?r + 1")
        case True
        have "avail s = {}" using True full by (auto simp: avail_def)
        with 1 r True full show ?thesis by (simp add: alloc_frame.simps[of s] Let_def)
      next
        case False
        let ?s = "s\<lparr>pg_frame_region := ?r + 1, pg_frame_next := mr_start (pg_frame_regions s ! (?r + 1))\<rparr>"
        have ok: "alloc_ok ?s" using "1.prems" False by (auto simp: alloc_ok_def region_ok_def)
        have "avail ?s = avail s"
        proof (rule set_eqI)
          fix f
          have "\<not> (?n \<le> f \<and> f < mr_end ?cur)" using full by auto
          then show "f \<in> avail ?s \<longleftrightarrow> f \<in> avail s"
            using ex_above[of ?r ?c "\<lambda>k. mr_start (pg_frame_regions s ! k) \<le> f \<and> f < mr_end (pg_frame_regions s ! k)"]
              r False by (simp add: avail_def) blast
        qed
        moreover have "alloc_frame s = alloc_frame ?s"
          using r full False by (subst alloc_frame.simps) (simp add: Let_def)
        moreover have "pg_mem ?s = pg_mem s" "pg_cr3 ?s = pg_cr3 s" "pg_phys_offset ?s = pg_phys_offset s"
          "pg_mmio_next ?s = pg_mmio_next s" by simp_all
        ultimately show ?thesis using "1.IH"[OF refl refl r refl refl full False ok] by metis
      qed
    next
      case False
      let ?s = "s\<lparr>pg_frame_next := ?n + PAGE_SIZE, pg_frames_alloc := pg_frames_alloc s + 1\<rparr>"
      have al: "alloc_frame s = (Some ?n, ?s)" using r False by (simp add: alloc_frame.simps[of s] Let_def)
      have n: "frame_ok ?n" "frame_ok (mr_end ?cur)" "mr_start ?cur \<le> ?n" "?n < mr_end ?cur"
        using "1.prems" r False by (auto simp: alloc_ok_def region_ok_def)
      note succ = frame_succ[OF n(1,2,4)]
      have "frame_ok (?n + PAGE_SIZE)" using succ(2) n(2) by (cases "?n + PAGE_SIZE = mr_end ?cur") auto
      moreover have "?n \<le> ?n + PAGE_SIZE" using succ(1)[OF calculation] succ(1)[OF n(1)] by (metis linorder_not_le order_le_less)
      ultimately have "alloc_ok ?s" using "1.prems" n(3) by (auto simp: alloc_ok_def region_ok_def)
      moreover have "?n \<in> avail s" using n r by (simp add: avail_def)
      moreover have "avail ?s = avail s - {?n}"
      proof -
        have "\<not> (mr_start (pg_frame_regions s ! k) \<le> ?n \<and> ?n < mr_end (pg_frame_regions s ! k))"
          if "?r < k" "k < ?c" for k
          using "1.prems" that n(3,4) unfolding alloc_ok_def
          by (metis (no_types, lifting) less_irrefl less_trans order_le_less_trans order_less_le_trans)
        moreover have "frame_ok f \<Longrightarrow> ?n + PAGE_SIZE \<le> f \<longleftrightarrow> ?n \<le> f \<and> f \<noteq> ?n" for f using succ(1)[of f] by auto
        ultimately show ?thesis by (auto simp: avail_def)
      qed
      ultimately show ?thesis by (simp add: al)
    qed
  qed
qed

subsection \<open>Mapping a page\<close>

text \<open>
  The tables form a tree, and neither a frame that can still be handed out nor a frame of the set \<open>X\<close>
  of frames in other use is a table.
\<close>

definition pt_ok :: "u64 set \<Rightarrow> machine \<Rightarrow> bool" where
  "pt_ok X s \<longleftrightarrow> alloc_ok s \<and> tree s \<and> X \<inter> avail s = {} \<and>
     (\<forall>p f. path_ok p \<and> length p \<le> 3 \<and> table_at s p = Some f \<longrightarrow> f \<notin> avail s \<and> f \<notin> X)"

text \<open>The indexes an address selects, last level first, and the translation read off the slots.\<close>

definition table_path :: "u64 \<Rightarrow> u64 list" where
  "table_path addr = [drop_bit 12 addr AND INDEX_MASK, drop_bit 21 addr AND INDEX_MASK,
     drop_bit 30 addr AND INDEX_MASK, drop_bit 39 addr AND INDEX_MASK]"

definition trans_view :: "(u64 list \<Rightarrow> u64) \<Rightarrow> u64 \<Rightarrow> u64 option" where
  "trans_view v addr =
     (let q = table_path addr; e0 = v (drop 3 q); e1 = v (drop 2 q); e2 = v (drop 1 q); e3 = v q in
      if e0 AND PTE_PRESENT = 0 \<or> e1 AND PTE_PRESENT = 0 then None
      else if e1 AND PTE_HUGE \<noteq> 0 then Some ((e1 AND PTE_FRAME) OR (addr AND 0x3FFFFFFF))
      else if e2 AND PTE_PRESENT = 0 then None
      else if e2 AND PTE_HUGE \<noteq> 0 then Some ((e2 AND PTE_FRAME) OR (addr AND 0x1FFFFF))
      else if e3 AND PTE_PRESENT = 0 then None
      else Some ((e3 AND PTE_FRAME) OR (addr AND 0xFFF)))"

lemma index_less [simp]: "x AND INDEX_MASK < 512"
proof -
  have "x AND INDEX_MASK \<le> INDEX_MASK" by (rule word_and_le1)
  then show ?thesis by (simp add: INDEX_MASK_def order_le_less_trans)
qed

lemma path_ok_table_path [simp]: "path_ok (table_path a)" "length (table_path a) = 4"
  by (simp_all add: table_path_def)

lemma path_ok_drop: "path_ok p \<Longrightarrow> path_ok (drop n p)"
  by (auto simp: path_ok_def dest: in_set_dropD)

lemma translate_view: "translate addr s = trans_view (slot s) addr"
  by (simp add: translate_def trans_view_def table_path_def sub_table_def Let_def)

lemma trans_view_cong:
  assumes "\<And>q. path_ok q \<Longrightarrow> length q \<le> 4 \<Longrightarrow> v q = w q"
  shows "trans_view v a = trans_view w a"
  using assms[of "table_path a"] assms[of "drop 1 (table_path a)"] assms[of "drop 2 (table_path a)"]
    assms[of "drop 3 (table_path a)"] path_ok_drop[OF path_ok_table_path(1)[of a]]
  by (simp add: trans_view_def Let_def)

text \<open>Entries that differ in other bits only translate alike.\<close>

definition same_bits :: "u64 \<Rightarrow> u64 \<Rightarrow> bool" where
  "same_bits e e' \<longleftrightarrow> (e AND PTE_PRESENT = 0 \<longleftrightarrow> e' AND PTE_PRESENT = 0) \<and>
     (e AND PTE_HUGE = 0 \<longleftrightarrow> e' AND PTE_HUGE = 0) \<and> e AND PTE_FRAME = e' AND PTE_FRAME"

lemma same_bits_refl [simp]: "same_bits e e"
  by (simp add: same_bits_def)

lemma same_bits_user [simp]: "same_bits (e OR PTE_USER) e"
  by (simp add: same_bits_def pte_defs bit.conj_disj_distrib2)

lemma sub_table_same_bits: "same_bits e e' \<Longrightarrow> sub_table p e = sub_table p e'"
  by (auto simp: same_bits_def sub_table_def)

lemma trans_view_same_bits:
  assumes "\<And>q. path_ok q \<Longrightarrow> length q \<le> 4 \<Longrightarrow> same_bits (v q) (w q)"
  shows "trans_view v a = trans_view w a"
  using assms[of "table_path a"] assms[of "drop 1 (table_path a)"] assms[of "drop 2 (table_path a)"]
    assms[of "drop 3 (table_path a)"] path_ok_drop[OF path_ok_table_path(1)[of a]]
  unfolding trans_view_def Let_def by (simp add: same_bits_def)

text \<open>Turning an absent entry above the last level into a table without entries changes no translation.\<close>

lemma trans_view_hang:
  assumes p: "length p \<le> 2" and ab: "v (i # p) AND PTE_PRESENT = 0"
    and e: "e AND PTE_HUGE = 0" and kids: "\<And>j. v (j # i # p) = 0"
  shows "trans_view (v(i # p := e)) a = trans_view v a"
proof -
  obtain i3 i2 i1 i0 where q: "table_path a = [i3, i2, i1, i0]" by (simp add: table_path_def)
  consider "p = []" | p0 where "p = [p0]" | p0 p1 where "p = [p0, p1]"
    using p by (cases p rule: list.exhaust; cases "tl p"; cases "tl (tl p)") auto
  then show ?thesis
    using ab e kids by cases (auto simp: trans_view_def q Let_def)
qed

lemma alloc_frame_table_at: 
  assumes "alloc_ok s"
  shows "table_at (snd (alloc_frame s)) p = table_at s p" "slot (snd (alloc_frame s)) q = slot s q"
proof -
  have r: "read_entry t i (snd (alloc_frame s)) = read_entry t i s" for t i
    using alloc_frame_spec[OF assms] by (simp add: read_entry_def physical_to_virtual_def)
  have c: "pg_cr3 (snd (alloc_frame s)) = pg_cr3 s" using alloc_frame_spec[OF assms] by simp
  show t: "table_at (snd (alloc_frame s)) p = table_at s p" for p by (induction p) (simp_all add: r c split: option.split)
  show "slot (snd (alloc_frame s)) q = slot s q" by (cases q) (simp_all add: t r split: option.split)
qed

lemma avail_cong:
  "pg_frame_next s' = pg_frame_next s \<Longrightarrow> pg_frame_region s' = pg_frame_region s \<Longrightarrow>
   pg_frame_regions s' = pg_frame_regions s \<Longrightarrow> pg_frame_region_count s' = pg_frame_region_count s \<Longrightarrow>
   avail s' = avail s \<and> alloc_ok s' = alloc_ok s"
  by (simp add: avail_def alloc_ok_def region_ok_def)

lemma pt_ok_write:
  assumes ok: "pt_ok X s" and p: "path_ok p" "length p \<le> 3" "table_at s p = Some t" "i < 512"
    and v: "length p = 3 \<or> sub_table p v = sub_table p (read_entry t i s)"
  shows "pt_ok X (write_entry t i v s)"
proof -
  have tr: "tree s" using ok by (simp add: pt_ok_def)
  have "avail (write_entry t i v s) = avail s" "alloc_ok (write_entry t i v s) = alloc_ok s"
    using avail_cong[of "write_entry t i v s" s] by simp_all
  with ok show ?thesis unfolding pt_ok_def tree_def
    by (simp add: table_at_write[OF tr p v] cong: conj_cong)
qed

lemma flags_cases: "PTE_PRESENT OR PTE_WRITABLE OR (if user then PTE_USER else 0) = (if user then 7 else 3)"
  by (simp add: pte_defs)

lemma frame_flags:
  assumes "frame_ok f"
  shows "(f OR (if user then 7 else 3)) AND PTE_FRAME = f" "(f OR (if user then 7 else 3)) AND PTE_HUGE = 0"
    "(f OR (if user then 7 else 3)) AND PTE_PRESENT \<noteq> 0"
proof -
  have h: "f AND 128 = 0" "f AND 1 = 0"
    using arg_cong[OF assms[unfolded frame_ok_def, symmetric], of "\<lambda>x. x AND 128"]
      arg_cong[OF assms[unfolded frame_ok_def, symmetric], of "\<lambda>x. x AND 1"]
    by (simp_all add: PTE_FRAME_def and.assoc)
  show "(f OR (if user then 7 else 3)) AND PTE_FRAME = f" "(f OR (if user then 7 else 3)) AND PTE_HUGE = 0"
    "(f OR (if user then 7 else 3)) AND PTE_PRESENT \<noteq> 0"
    using assms h by (simp_all add: frame_ok_def pte_defs bit.conj_disj_distrib2)
qed

text \<open>
  The effect of a step on the tables that leaves every translation alone: the invariant is kept,
  the root stays and no frame becomes available.
\<close>

definition quiet_step :: "u64 set \<Rightarrow> machine \<Rightarrow> machine \<Rightarrow> bool" where
  "quiet_step X s s' \<longleftrightarrow> pt_ok X s' \<and> pg_cr3 s' = pg_cr3 s \<and> pg_phys_offset s' = pg_phys_offset s \<and>
     pg_mmio_next s' = pg_mmio_next s \<and> avail s' \<subseteq> avail s \<and> (\<forall>a. translate a s' = translate a s) \<and>
     (\<forall>q. path_ok q \<and> length q \<le> 4 \<and> slot s' q AND PTE_HUGE \<noteq> 0 \<longrightarrow> slot s q AND PTE_HUGE \<noteq> 0)"

lemma quiet_refl: "pt_ok X s \<Longrightarrow> quiet_step X s s"
  by (simp add: quiet_step_def)

lemma quiet_trans: "quiet_step X s s' \<Longrightarrow> quiet_step X s' s'' \<Longrightarrow> quiet_step X s s''"
  by (auto simp: quiet_step_def)

lemma ensure_table_spec:
  assumes ok: "pt_ok X s" and p: "path_ok p" "length p \<le> 2" "table_at s p = Some t" "i < 512"
    and flags: "flags = (if user then 7 else 3)"
  shows "quiet_step X s (snd (ensure_table t i flags s)) \<and>
    card (avail s) \<le> Suc (card (avail (snd (ensure_table t i flags s)))) \<and>
    (case fst (ensure_table t i flags s) of
       Err m \<Rightarrow> m = ''out of memory for page table'' \<and> avail s = {}
     | Ok e \<Rightarrow> e AND PTE_PRESENT \<noteq> 0 \<and> slot (snd (ensure_table t i flags s)) (i # p) = e \<and>
         table_at (snd (ensure_table t i flags s)) p = Some t)"
proof (cases "read_entry t i s AND PTE_PRESENT = 0")
  case False
  then show ?thesis using p(3) ok by (simp add: ensure_table_def quiet_refl)
next
  case True
  have al: "alloc_ok s" and tr: "tree s" using ok by (auto simp: pt_ok_def)
  obtain r s1 where af: "alloc_frame s = (r, s1)" by (cases "alloc_frame s")
  note spec = alloc_frame_spec[OF al, unfolded af, simplified] and ta = alloc_frame_table_at[OF al, unfolded af, simplified]
  have tr1: "tree s1" using tr by (simp add: tree_def ta)
  have ok1: "pt_ok X s1" using ok spec unfolding pt_ok_def tree_def by (auto simp: ta split: option.splits)
  have rd: "read_entry t i s1 = read_entry t i s" using spec by (simp add: read_entry_def physical_to_virtual_def)
  show ?thesis
  proof (cases r)
    case None
    then have "quiet_step X s s1" using ok1 spec by (simp add: quiet_step_def translate_view ta trans_view_cong[OF ta(2)])
    with True af None spec show ?thesis by (simp add: ensure_table_def)
  next
    case (Some f)
    let ?v = "f OR flags" and ?s = "write_entry t i (f OR flags) (clear_table f s1)"
    have f: "frame_ok f" "f \<in> avail s" "avail s1 = avail s - {f}" using spec Some by (auto simp: avail_def)
    have nt: "table_at s1 q \<noteq> Some f" if "path_ok q" "length q \<le> 3" for q
      using ok that f(2) by (auto simp: pt_ok_def ta)
    have v: "sub_table p ?v = Some f" "?v AND PTE_HUGE = 0" "?v AND PTE_PRESENT \<noteq> 0"
      using frame_flags[OF f(1)] by (simp_all add: flags sub_table_def)
    have ab: "sub_table p (read_entry t i s1) = None" using True rd by (simp add: sub_table_def)
    have p1: "table_at s1 p = Some t" using p(3) ta by simp
    note tn = table_at_new[OF tr1 p(1,2) p1 p(4) ab v(1) f(1) nt]
    note sn = slot_new[OF tr1 p(1,2) p1 p(4) ab v(1) f(1) nt]
    have en: "ensure_table t i flags s = (Ok ?v, ?s)" using True af Some by (simp add: ensure_table_def)
    have av: "avail ?s = avail s - {f}" "alloc_ok ?s"
      using avail_cong[of ?s s1] f spec by simp_all
    have "tree ?s"
      unfolding tree_def
    proof (intro allI impI)
      fix p' q g
      assume "path_ok p' \<and> path_ok q \<and> length p' \<le> 3 \<and> length q \<le> 3 \<and> table_at ?s p' = Some g \<and> table_at ?s q = Some g"
      then show "p' = q" using treeD[OF tr1, of p' q g] nt[of p'] nt[of q] by (auto simp: tn split: if_splits)
    qed
    moreover have "g \<notin> avail ?s \<and> g \<notin> X" if "path_ok q" "length q \<le> 3" "table_at ?s q = Some g" for q g
      using that ok f(2,3) av(1) by (auto simp: tn ta pt_ok_def split: if_splits)
    moreover have "X \<inter> avail ?s = {}" using ok av by (auto simp: pt_ok_def)
    ultimately have pt: "pt_ok X ?s" using av by (auto simp: pt_ok_def)
    have view: "translate a ?s = translate a s" for a
    proof -
      have "trans_view (slot ?s) a = trans_view ((slot s1)(i # p := ?v)) a"
        by (rule trans_view_cong) (simp add: sn)
      also have "\<dots> = trans_view (slot s1) a"
        by (rule trans_view_hang[OF p(2)]) (use p1 ab True rd v(2) in simp_all)
      also have "\<dots> = trans_view (slot s) a" by (rule trans_view_cong) (simp add: ta)
      finally show ?thesis by (simp add: translate_view)
    qed
    have "slot ?s q AND PTE_HUGE \<noteq> 0 \<longrightarrow> slot s q AND PTE_HUGE \<noteq> 0" if "path_ok q" "length q \<le> 4" for q
      using sn[of q] that v(2) by (simp add: ta del: slot.simps)
    then have "quiet_step X s ?s" using pt view av f spec by (auto simp: quiet_step_def)
    moreover have "card (avail s) \<le> Suc (card (avail ?s))" using av(1) f(2) by (simp add: card.insert_remove card_Diff_singleton)
    moreover have "slot ?s (i # p) = ?v" using sn[of "i # p"] p by simp
    moreover have "table_at ?s p = Some t" using tn[of p] p p1 by simp
    ultimately show ?thesis using en v(3) by simp
  qed
qed

lemma mark_user_spec:
  assumes ok: "pt_ok X s" and p: "path_ok p" "length p \<le> 3" "table_at s p = Some t" "i < 512"
    and e: "slot s (i # p) = e"
  shows "quiet_step X s (snd (mark_user user t i e s)) \<and> same_bits (fst (mark_user user t i e s)) e \<and>
    slot (snd (mark_user user t i e s)) (i # p) = fst (mark_user user t i e s) \<and>
    avail (snd (mark_user user t i e s)) = avail s"
proof (cases user)
  case True
  let ?s = "write_entry t i (e OR PTE_USER) s"
  have tr: "tree s" using ok by (simp add: pt_ok_def)
  have rd: "read_entry t i s = e" using e p(3) by simp
  have sub: "length p = 3 \<or> sub_table p (e OR PTE_USER) = sub_table p (read_entry t i s)"
    using sub_table_same_bits[OF same_bits_user] rd by simp
  note sw = slot_write[OF tr p sub]
  have "translate a ?s = translate a s" for a
    unfolding translate_view by (rule trans_view_same_bits) (use rd p(3) in \<open>auto simp: sw\<close>)
  moreover have "avail ?s = avail s" using avail_cong[of ?s s] by simp
  moreover have "slot ?s q AND PTE_HUGE \<noteq> 0 \<longrightarrow> slot s q AND PTE_HUGE \<noteq> 0" if "path_ok q" "length q \<le> 4" for q
    using sw[OF that] e same_bits_user[of e] by (auto simp: same_bits_def simp del: slot.simps)
  ultimately have "quiet_step X s ?s" using pt_ok_write[OF ok p sub] by (simp add: quiet_step_def)
  with True p sw[of "i # p"] \<open>avail ?s = avail s\<close> show ?thesis by (simp add: mark_user_def)
qed (use e in \<open>simp add: mark_user_def quiet_refl[OF ok]\<close>)

text \<open>One level of the walk is quiet and ends at the table it returns.\<close>

lemma table_step_spec:
  assumes ok: "pt_ok X s" and p: "path_ok p" "length p \<le> 2" "table_at s p = Some t" "i < 512"
    and flags: "flags = (if user then 7 else 3)" and st: "table_step user t i flags s = (r, s')"
  shows "quiet_step X s s' \<and> card (avail s) \<le> Suc (card (avail s')) \<and> (case r of Err _ \<Rightarrow> avail s = {}
    | Ok e \<Rightarrow> slot s' (i # p) = e \<and> (p = [] \<or> e AND PTE_HUGE = 0 \<longrightarrow> table_at s' (i # p) = Some (e AND PTE_FRAME)))"
proof -
  obtain r1 s1 where en: "ensure_table t i flags s = (r1, s1)" by (cases "ensure_table t i flags s")
  note es = ensure_table_spec[OF ok p flags, unfolded en, simplified]
  show ?thesis
  proof (cases r1)
    case (Inl m)
    then show ?thesis using es st en by (auto simp: table_step_def)
  next
    case (Inr e)
    obtain e' s2 where mu: "mark_user user t i e s1 = (e', s2)" by (cases "mark_user user t i e s1")
    have res: "r = Ok e'" "s' = s2" using st en Inr mu by (simp_all add: table_step_def)
    have e1: "quiet_step X s s1" "e AND PTE_PRESENT \<noteq> 0" "slot s1 (i # p) = e" "table_at s1 p = Some t"
      using ensure_table_spec[OF ok p flags] en Inr by auto
    have ok1: "pt_ok X s1" using e1(1) by (simp add: quiet_step_def)
    have ms: "quiet_step X s1 s2" "same_bits e' e" "slot s2 (i # p) = e'" "avail s2 = avail s1"
      using mark_user_spec[OF ok1 p(1) _ e1(4) p(4) e1(3), of user] p(2) mu by auto
    have "p = [] \<or> e' AND PTE_HUGE = 0 \<Longrightarrow> table_at s2 (i # p) = Some (e' AND PTE_FRAME)"
      using ms(2,3) e1(2) unfolding table_at_slot by (simp add: sub_table_def same_bits_def)
    with res quiet_trans[OF e1(1) ms(1)] ms(3,4) es show ?thesis by (simp del: slot.simps table_at.simps)
  qed
qed

text \<open>No huge page lies in the way of a mapping.\<close>

definition no_huge :: "u64 \<Rightarrow> machine \<Rightarrow> bool" where
  "no_huge virt s \<longleftrightarrow> slot s (drop 2 (table_path virt)) AND PTE_HUGE = 0 \<and> slot s (drop 1 (table_path virt)) AND PTE_HUGE = 0"

lemma quiet_no_huge: "quiet_step X s s' \<Longrightarrow> no_huge virt s \<Longrightarrow> no_huge virt s'"
  using path_ok_drop[OF path_ok_table_path(1)[of virt]] unfolding quiet_step_def no_huge_def by fastforce

text \<open>Writing the last-level entry decides the translation of its page and of no other.\<close>

lemma trans_view_leaf:
  assumes "table_path virt = q"
    and "\<forall>n\<in>{1, 2, 3}. \<exists>f. sub_table (drop (Suc n) q) (v (drop n q)) = Some f"
  shows "trans_view (v(q := e)) a =
    (if table_path a = q
     then if e AND PTE_PRESENT = 0 then None else Some ((e AND PTE_FRAME) OR (a AND 0xFFF))
     else trans_view v a)"
proof -
  obtain i3 i2 i1 i0 where q: "q = [i3, i2, i1, i0]" using assms(1) unfolding table_path_def by metis
  obtain j3 j2 j1 j0 where a: "table_path a = [j3, j2, j1, j0]" by (simp add: table_path_def)
  from assms(2) show ?thesis
    by (auto simp: trans_view_def a q Let_def sub_table_def split: if_splits)
qed

lemma table_at_tail:
  assumes "table_at s (i # p) \<noteq> None"
  shows "table_at s p \<noteq> None" "\<exists>f. sub_table p (slot s (i # p)) = Some f"
  using assms by (auto split: option.splits)

lemma write_leaf_spec:
  assumes ok: "pt_ok X s" and pt: "table_at s (tl (table_path virt)) = Some t"
    and s'_def: "s' = write_entry t (hd (table_path virt)) e s"
  shows "pt_ok X s' \<and> avail s' = avail s \<and> pg_cr3 s' = pg_cr3 s \<and> pg_phys_offset s' = pg_phys_offset s \<and>
    pg_mmio_next s' = pg_mmio_next s \<and> table_at s' (tl (table_path virt)) = Some t \<and>
    (\<forall>v. no_huge v s' = no_huge v s) \<and>
    (\<forall>a. translate a s' =
      (if table_path a = table_path virt
       then if e AND PTE_PRESENT = 0 then None else Some ((e AND PTE_FRAME) OR (a AND 0xFFF))
       else translate a s))"
proof -
  obtain i3 i2 i1 i0 where q: "table_path virt = [i3, i2, i1, i0]" by (simp add: table_path_def)
  have pk: "path_ok [i2, i1, i0]" "i3 < 512" using path_ok_table_path(1)[of virt] q by auto
  have t: "table_at s [i2, i1, i0] = Some t" using pt q by simp
  have tr: "tree s" using ok by (simp add: pt_ok_def)
  note sw = slot_write[OF tr pk(1) _ t pk(2), of e, simplified]
  have "\<exists>f. sub_table [i1, i0] (slot s [i2, i1, i0]) = Some f" "\<exists>f. sub_table [i0] (slot s [i1, i0]) = Some f"
    "\<exists>f. sub_table [] (slot s [i0]) = Some f"
    using t table_at_tail[of s i2 "[i1, i0]"] table_at_tail[of s i1 "[i0]"] table_at_tail[of s i0 "[]"] by blast+
  then have subs: "\<forall>n\<in>{1, 2, 3}. \<exists>f. sub_table (drop (Suc n) (table_path virt)) (slot s (drop n (table_path virt))) = Some f"
    by (simp add: q del: slot.simps)
  have "translate a s' =
      (if table_path a = table_path virt
       then if e AND PTE_PRESENT = 0 then None else Some ((e AND PTE_FRAME) OR (a AND 0xFFF))
       else translate a s)" for a
  proof -
    have "trans_view (slot s') a = trans_view ((slot s)(table_path virt := e)) a"
      by (rule trans_view_cong) (simp add: s'_def q sw del: slot.simps)
    then show ?thesis unfolding translate_view by (simp only: trans_view_leaf[OF refl subs])
  qed
  moreover have "pt_ok X s'" using pt_ok_write[OF ok pk(1) _ t pk(2)] by (simp add: s'_def q)
  moreover have "avail s' = avail s" using avail_cong[of s' s] by (simp add: s'_def)
  moreover have "table_at s' (tl (table_path virt)) = Some t"
    using table_at_write[OF tr pk(1) _ t pk(2), of e "[i2, i1, i0]"] t pk by (simp add: s'_def q del: table_at.simps)
  moreover have "no_huge v s' = no_huge v s" for v
  proof -
    obtain j3 j2 j1 j0 where v: "table_path v = [j3, j2, j1, j0]" by (simp add: table_path_def)
    with path_ok_table_path(1)[of v] show ?thesis by (simp add: no_huge_def s'_def q sw del: slot.simps)
  qed
  ultimately show ?thesis by (simp add: s'_def)
qed

lemma table_path_split:
  "table_path virt = [i3, i2, i1, i0] \<Longrightarrow> drop_bit 39 virt AND INDEX_MASK = i0 \<and> drop_bit 30 virt AND INDEX_MASK = i1 \<and>
     drop_bit 21 virt AND INDEX_MASK = i2 \<and> drop_bit 12 virt AND INDEX_MASK = i3 \<and> path_ok [i3, i2, i1, i0]"
  using path_ok_table_path(1)[of virt] by (auto simp: table_path_def)

definition map_result :: "u64 set \<Rightarrow> u64 \<Rightarrow> u64 \<Rightarrow> machine \<Rightarrow> string + unit \<Rightarrow> machine \<Rightarrow> bool" where
  "map_result X virt phys s r s' = (case r of
      Err _ \<Rightarrow> quiet_step X s s'
    | Ok _ \<Rightarrow> is_page_aligned virt \<and> pt_ok X s' \<and> avail s' \<subseteq> avail s \<and> pg_cr3 s' = pg_cr3 s \<and>
        pg_phys_offset s' = pg_phys_offset s \<and> pg_mmio_next s' = pg_mmio_next s \<and>
        table_at s' (tl (table_path virt)) \<noteq> None \<and>
        card (avail s) \<le> card (avail s') + 3 \<and> (\<forall>v. no_huge v s \<longrightarrow> no_huge v s') \<and>
        (\<forall>a. translate a s' = (if table_path a = table_path virt then Some (phys OR (a AND 0xFFF)) else translate a s)))"

lemma map_page_spec:
  assumes ok: "pt_ok X s" and phys: "frame_ok phys" and mp: "map_page virt phys user s = (r, s')"
  shows "map_result X virt phys s r s'"
proof (cases "is_page_aligned virt \<and> is_page_aligned phys")
  case False
  then show ?thesis using mp quiet_refl[OF ok] by (auto simp: map_page_def map_result_def)
next
  case True
  obtain i3 i2 i1 i0 where q: "table_path virt = [i3, i2, i1, i0]" by (simp add: table_path_def)
  have pk: "path_ok [i1, i0]" "path_ok [i0]" "path_ok []" "i0 < 512" "i1 < 512" "i2 < 512"
    using table_path_split[OF q] by auto
  define flags :: u64 where "flags = (if user then 7 else 3)"
  define t0 where "t0 = pg_cr3 s AND PTE_FRAME"
  obtain r1 s1 where st0: "table_step user t0 i0 flags s = (r1, s1)" by (cases "table_step user t0 i0 flags s")
  have ts0: "quiet_step X s s1" "card (avail s) \<le> Suc (card (avail s1))" "\<And>e. r1 = Ok e \<Longrightarrow> table_at s1 [i0] = Some (e AND PTE_FRAME)"
    using table_step_spec[OF ok pk(3) _ _ pk(4) flags_def st0] by (auto simp: t0_def)
  have ok1: "pt_ok X s1" using ts0(1) by (simp add: quiet_step_def)
  note mp' = mp[unfolded map_page_def flags_cases, folded flags_def t0_def] True table_path_split[OF q] st0
  show ?thesis
  proof (cases r1)
    case (Inr pml4e)
    define t1 where "t1 = pml4e AND PTE_FRAME"
    obtain r2 s2 where st1: "table_step user t1 i1 flags s1 = (r2, s2)" by (cases "table_step user t1 i1 flags s1")
    have ts1: "quiet_step X s1 s2" "card (avail s1) \<le> Suc (card (avail s2))" "\<And>e. r2 = Ok e \<Longrightarrow> e AND PTE_HUGE = 0 \<Longrightarrow> table_at s2 [i1, i0] = Some (e AND PTE_FRAME)"
      using table_step_spec[OF ok1 pk(2) _ ts0(3)[OF Inr, folded t1_def] pk(5) flags_def st1] by (auto simp del: table_at.simps)
    have q2: "quiet_step X s s2" by (rule quiet_trans[OF ts0(1) ts1(1)])
    then have ok2: "pt_ok X s2" by (simp add: quiet_step_def)
    note mp1 = mp' Inr st1[unfolded t1_def]
    show ?thesis
    proof (cases "\<exists>pdpte. r2 = Ok pdpte \<and> pdpte AND PTE_HUGE = 0")
      case True
      then obtain pdpte where r2: "r2 = Ok pdpte" and h1: "pdpte AND PTE_HUGE = 0" by blast
      define t2 where "t2 = pdpte AND PTE_FRAME"
      obtain r3 s3 where st2: "table_step user t2 i2 flags s2 = (r3, s3)" by (cases "table_step user t2 i2 flags s2")
      have ts2: "quiet_step X s2 s3" "card (avail s2) \<le> Suc (card (avail s3))" "\<And>e. r3 = Ok e \<Longrightarrow> e AND PTE_HUGE = 0 \<Longrightarrow> table_at s3 [i2, i1, i0] = Some (e AND PTE_FRAME)"
        using table_step_spec[OF ok2 pk(1) _ ts1(3)[OF r2 h1, folded t2_def] pk(6) flags_def st2] by (auto simp del: table_at.simps)
      have q3: "quiet_step X s s3" by (rule quiet_trans[OF q2 ts2(1)])
      then have ok3: "pt_ok X s3" by (simp add: quiet_step_def)
      note mp2 = mp1 r2 h1 st2[unfolded t2_def]
      show ?thesis
      proof (cases "\<exists>pde. r3 = Ok pde \<and> pde AND PTE_HUGE = 0")
        case True
        then obtain pde where r3: "r3 = Ok pde" and h2: "pde AND PTE_HUGE = 0" by blast
        have pt: "table_at s3 (tl (table_path virt)) = Some (pde AND PTE_FRAME)" using ts2(3)[OF r3 h2] q by simp
        have "r = Ok ()" "s' = write_entry (pde AND PTE_FRAME) (hd (table_path virt)) (phys OR flags) s3"
          using mp2 r3 h2 q by simp_all
        with write_leaf_spec[OF ok3 pt, of s' "phys OR flags"] q3 frame_flags[OF phys, of user] mp2(2)
          ts0(2) ts1(2) ts2(2) quiet_no_huge[OF q3] show ?thesis
          by (simp add: map_result_def flags_def quiet_step_def del: table_at.simps)
      qed (use mp2 q3 in \<open>auto simp: map_result_def split: sum.splits if_splits\<close>)
    qed (use mp1 q2 in \<open>auto simp: map_result_def split: sum.splits if_splits\<close>)
  qed (use mp' ts0(1) in \<open>auto simp: map_result_def\<close>)
qed

subsection \<open>Unmapping and data frames\<close>

lemma unmap_page_table:
  "unmap_page virt s =
     (if is_page_aligned virt
      then case table_at s (tl (table_path virt)) of
          None \<Rightarrow> s
        | Some pt \<Rightarrow> if read_entry pt (hd (table_path virt)) s AND PTE_PRESENT \<noteq> 0
            then write_entry pt (hd (table_path virt)) 0 s else s
      else s)"
  by (simp add: unmap_page_def table_path_def sub_table_def Let_def)

lemma unmap_page_spec:
  assumes ok: "pt_ok X s" and al: "is_page_aligned virt"
  shows "pt_ok X (unmap_page virt s) \<and> translate a (unmap_page virt s) =
    (if table_path a = table_path virt \<and> table_at s (tl (table_path virt)) \<noteq> None then None else translate a s)"
proof (cases "table_at s (tl (table_path virt))")
  case None
  then show ?thesis using ok al by (simp add: unmap_page_table)
next
  case (Some pt)
  note wl = write_leaf_spec[OF ok Some refl, of 0]
  show ?thesis
  proof (cases "read_entry pt (hd (table_path virt)) s AND PTE_PRESENT = 0")
    case False
    then show ?thesis using wl al Some by (simp add: unmap_page_table)
  next
    case True
    have "slot s (table_path virt) = read_entry pt (hd (table_path virt)) s"
      using Some by (simp add: table_path_def)
    then have "translate a s = None" if "table_path a = table_path virt"
    proof -
      obtain i3 i2 i1 i0 where q: "table_path virt = [i3, i2, i1, i0]" by (simp add: table_path_def)
      have t: "table_at s [i2, i1, i0] \<noteq> None" using Some q by simp
      note tl = table_at_tail[OF t] table_at_tail[OF table_at_tail(1)[OF t]]
      show ?thesis
        using True \<open>slot s (table_path virt) = _\<close> that q tl
        by (auto simp: translate_view trans_view_def Let_def sub_table_def simp del: slot.simps table_at.simps split: if_splits)
    qed
    then show ?thesis using ok al True Some by (simp add: unmap_page_table)
  qed
qed

text \<open>Storing into a frame in other use touches no table.\<close>

lemma data_write_tables:
  assumes ok: "pt_ok X s" and f: "f \<in> X" "frame_ok f" "j < 512" and p: "path_ok p" "length p \<le> 3"
  shows "table_at (write_entry f j v s) p = table_at s p \<and> table_at s p \<noteq> Some f"
  using p
proof (induction p)
  case Nil
  then show ?case using ok f(1) by (auto simp: pt_ok_def dest: spec[of _ "[]"])
next
  case (Cons i p)
  have nt: "table_at s (i # p) \<noteq> Some f" using ok Cons.prems f(1) unfolding pt_ok_def by blast
  show ?case
  proof (cases "table_at s p")
    case (Some t)
    then have "t \<noteq> f" using Cons by auto
    with Some Cons nt show ?thesis by (simp add: read_write_entry[OF f(2) table_at_frame_ok[OF Some] f(3)])
  qed (use Cons in simp)
qed

lemma data_write_quiet:
  assumes ok: "pt_ok X s" and f: "f \<in> X" "frame_ok f" "j < 512"
  shows "quiet_step X s (write_entry f j v s)"
proof -
  let ?s = "write_entry f j v s"
  have ta: "table_at ?s p = table_at s p" and nt: "table_at s p \<noteq> Some f" if "path_ok p" "length p \<le> 3" for p
    using data_write_tables[OF ok f that] by auto
  have sl: "slot ?s q = slot s q" if "path_ok q" "length q \<le> 4" for q
  proof (cases q)
    case (Cons i p)
    show ?thesis
    proof (cases "table_at s p")
      case (Some t)
      then have "t \<noteq> f" using nt[of p] Cons that by auto
      with Some Cons that show ?thesis by (simp add: ta read_write_entry[OF f(2) table_at_frame_ok[OF Some] f(3)])
    qed (use Cons that ta in simp)
  qed simp
  have "translate a ?s = translate a s" for a
    unfolding translate_view by (rule trans_view_cong) (simp add: sl)
  moreover have av: "avail ?s = avail s" "alloc_ok ?s = alloc_ok s" using avail_cong[of ?s s] by simp_all
  moreover have "pt_ok X ?s" using ok av unfolding pt_ok_def tree_def by (simp add: ta cong: conj_cong)
  moreover note sl
  ultimately show ?thesis by (auto simp: quiet_step_def)
qed

lemma alloc_frame_data:
  assumes ok: "pt_ok X s" and al: "alloc_frame s = (r, s')"
  shows "case r of
      None \<Rightarrow> quiet_step X s s' \<and> avail s = {}
    | Some f \<Rightarrow> quiet_step (insert f X) s s' \<and> frame_ok f \<and> f \<in> avail s \<and> f \<notin> X"
proof -
  have a: "alloc_ok s" using ok by (simp add: pt_ok_def)
  note spec = alloc_frame_spec[OF a, unfolded al, simplified] and ta = alloc_frame_table_at[OF a, unfolded al, simplified]
  have "translate b s' = translate b s" for b
    unfolding translate_view by (rule trans_view_cong) (simp add: ta)
  moreover have "tree s'" using ok by (simp add: pt_ok_def tree_def ta)
  ultimately show ?thesis
    using spec ok by (auto simp: quiet_step_def pt_ok_def ta avail_def[of s] split: option.splits)
qed

text \<open>
  C9: On tables that form a tree apart from the frames in other use: a refused mapping changes no
  translation of any address; a mapping that succeeds makes exactly the addresses of its page
  translate to the given frame with their offset in the page and leaves all other translations
  alone; unmapping then makes exactly that page absent, also when the mapping had replaced an older one.  All three keep the tables in order.
\<close>

theorem paging_map_unmap:
  assumes "pt_ok X s" "frame_ok phys"
  shows "case map_page virt phys user s of
      (Err _, s') \<Rightarrow> pt_ok X s' \<and> (\<forall>a. translate a s' = translate a s)
    | (Ok _, s') \<Rightarrow> pt_ok X s' \<and> pt_ok X (unmap_page virt s') \<and>
        (\<forall>a. translate a s' = (if table_path a = table_path virt then Some (phys OR (a AND 0xFFF)) else translate a s)) \<and>
        (\<forall>a. translate a (unmap_page virt s') = (if table_path a = table_path virt then None else translate a s))"
proof -
  obtain r s' where mp: "map_page virt phys user s = (r, s')" by (cases "map_page virt phys user s")
  note ms = map_page_spec[OF assms mp, unfolded map_result_def]
  show ?thesis
  proof (cases r)
    case (Inl e)
    then show ?thesis using ms mp by (simp add: quiet_step_def)
  next
    case (Inr u)
    then have s': "is_page_aligned virt" "pt_ok X s'" "table_at s' (tl (table_path virt)) \<noteq> None"
      "\<And>a. translate a s' = (if table_path a = table_path virt then Some (phys OR (a AND 0xFFF)) else translate a s)"
      using ms by auto
    have "translate a (unmap_page virt s') = (if table_path a = table_path virt then None else translate a s)" for a
      using unmap_page_spec[OF s'(2,1), of a] s'(3) s'(4)[of a] by simp
    then show ?thesis using s' unmap_page_spec[OF s'(2,1)] mp Inr by simp
  qed
qed

text \<open>
  A user mapping refused because of a 1 GiB page in its path has already marked that page: its
  entry, a leaf of the kernel's own mapping, is left accessible to user mode.
\<close>

lemma refused_user_mapping_marks_huge_page:
  assumes ok: "pt_ok X s" and al: "is_page_aligned virt" "is_page_aligned phys"
    and q: "table_path virt = [i3, i2, i1, i0]"
    and e0: "slot s [i0] AND PTE_PRESENT \<noteq> 0" and e1: "slot s [i1, i0] AND PTE_PRESENT \<noteq> 0" "slot s [i1, i0] AND PTE_HUGE \<noteq> 0"
  shows "\<exists>s'. map_page virt phys True s = (Err ''map_page: 1GiB page in path'', s') \<and>
    slot s' [i1, i0] = slot s [i1, i0] OR PTE_USER"
proof -
  define t0 t1 where "t0 = pg_cr3 s AND PTE_FRAME" and "t1 = slot s [i0] AND PTE_FRAME"
  have pk: "i0 < 512" "i1 < 512" using table_path_split[OF q] by auto
  have ts: "table_at s [] = Some t0" "table_at s [i0] = Some t1" using e0 by (simp_all add: t0_def t1_def sub_table_def)
  have r: "read_entry t0 i0 s = slot s [i0]" "read_entry t1 i1 s = slot s [i1, i0]" using ts by simp_all
  have st0: "table_step True t0 i0 7 s = (Ok (slot s [i0] OR PTE_USER), write_entry t0 i0 (slot s [i0] OR PTE_USER) s)"
    (is "_ = (_, ?s1)")
    using e0 by (simp add: table_step_def ensure_table_def mark_user_def r(1) del: slot.simps)
  have ts0: "quiet_step X s ?s1" "slot ?s1 [i0] = slot s [i0] OR PTE_USER" "table_at ?s1 [i0] = Some t1"
    using table_step_spec[OF ok _ _ ts(1) pk(1) _ st0] same_bits_user[of "slot s [i0]"]
    by (simp_all add: t1_def same_bits_def del: slot.simps table_at.simps)
  have sl: "slot ?s1 [i1, i0] = slot s [i1, i0]"
    using slot_write[of s "[]" t0 i0 "slot s [i0] OR PTE_USER" "[i1, i0]"] ok ts pk r(1)
      sub_table_same_bits[OF same_bits_user] by (simp add: pt_ok_def del: slot.simps)
  then have r1: "read_entry t1 i1 ?s1 = slot s [i1, i0]" using ts0(3) by simp
  have st1: "table_step True t1 i1 7 ?s1 = (Ok (slot s [i1, i0] OR PTE_USER), write_entry t1 i1 (slot s [i1, i0] OR PTE_USER) ?s1)"
    (is "_ = (_, ?s2)")
    using e1(1) by (simp add: table_step_def ensure_table_def mark_user_def r1 del: slot.simps)
  have "pt_ok X ?s1" using ts0(1) by (simp add: quiet_step_def)
  from table_step_spec[OF this _ _ ts0(3) pk(2) _ st1] have "slot ?s2 [i1, i0] = slot s [i1, i0] OR PTE_USER"
    using pk by (simp del: slot.simps table_at.simps)
  moreover have "(slot s [i1, i0] OR PTE_USER) AND PTE_HUGE \<noteq> 0" "(slot s [i0] OR PTE_USER) AND PTE_FRAME = t1"
    using same_bits_user[of "slot s [i1, i0]"] same_bits_user[of "slot s [i0]"] e1(2) by (auto simp: same_bits_def t1_def)
  ultimately show ?thesis
    using al st0 st1 table_path_split[OF q] unfolding map_page_def flags_cases
    by (simp add: t0_def[symmetric] del: slot.simps)
qed

subsection \<open>When a mapping succeeds\<close>

text \<open>Three free frames are enough for the three levels of tables, where no huge page is in the way.\<close>

lemma map_page_succeeds:
  assumes ok: "pt_ok X s" and al: "is_page_aligned virt" "is_page_aligned phys"
    and frames: "3 \<le> card (avail s)" and nh: "no_huge virt s"
  shows "fst (map_page virt phys user s) = Ok ()"
proof -
  obtain i3 i2 i1 i0 where q: "table_path virt = [i3, i2, i1, i0]" by (simp add: table_path_def)
  have pk: "path_ok [i1, i0]" "path_ok [i0]" "path_ok []" "i0 < 512" "i1 < 512" "i2 < 512"
    using table_path_split[OF q] by auto
  define flags :: u64 where "flags = (if user then 7 else 3)"
  define t0 where "t0 = pg_cr3 s AND PTE_FRAME"
  obtain r1 s1 where st0: "table_step user t0 i0 flags s = (r1, s1)" by (cases "table_step user t0 i0 flags s")
  note ts0 = table_step_spec[OF ok pk(3) _ _ pk(4) flags_def st0, simplified, folded t0_def, OF refl]
  from ts0 frames obtain e1 where r1: "r1 = Ok e1" by (cases r1) auto
  define t1 where "t1 = e1 AND PTE_FRAME"
  have s1: "pt_ok X s1" "table_at s1 [i0] = Some t1" "2 \<le> card (avail s1)" "no_huge virt s1"
    using ts0 r1 frames quiet_no_huge[OF _ nh] by (auto simp: quiet_step_def t1_def)
  obtain r2 s2 where st1: "table_step user t1 i1 flags s1 = (r2, s2)" by (cases "table_step user t1 i1 flags s1")
  note ts1 = table_step_spec[OF s1(1) pk(2) _ s1(2) pk(5) flags_def st1, simplified]
  from ts1 s1(3) obtain e2 where r2: "r2 = Ok e2" by (cases r2) auto
  define t2 where "t2 = e2 AND PTE_FRAME"
  have "quiet_step X s1 s2" "slot s2 [i1, i0] = e2" using ts1 r2 by auto
  then have h2: "e2 AND PTE_HUGE = 0" "no_huge virt s2"
    using quiet_no_huge[OF _ s1(4)] q by (auto simp: no_huge_def simp del: slot.simps)
  have s2: "pt_ok X s2" "table_at s2 [i1, i0] = Some t2" "1 \<le> card (avail s2)"
    using ts1 r2 s1(3) h2 by (auto simp: quiet_step_def t2_def)
  obtain r3 s3 where st2: "table_step user t2 i2 flags s2 = (r3, s3)" by (cases "table_step user t2 i2 flags s2")
  note ts2 = table_step_spec[OF s2(1) pk(1) _ s2(2) pk(6) flags_def st2, simplified]
  from ts2 s2(3) obtain e3 where r3: "r3 = Ok e3" by (cases r3) auto
  have "quiet_step X s2 s3" "slot s3 [i2, i1, i0] = e3" using ts2 r3 by auto
  then have "e3 AND PTE_HUGE = 0"
    using quiet_no_huge[OF _ h2(2)] q by (auto simp: no_huge_def simp del: slot.simps)
  with al st0 r1 st1 r2 h2(1) st2 r3 table_path_split[OF q] show ?thesis
    unfolding map_page_def flags_cases by (simp add: flags_def t0_def t1_def t2_def)
qed

subsection \<open>The paging self-test\<close>

lemma selftest_addr: "is_page_aligned SELFTEST_ADDR" "SELFTEST_ADDR AND 0xFFF = 0"
  by (simp_all add: is_page_aligned_def SELFTEST_ADDR_def PAGE_SIZE_def)

lemma frame_ok_aligned: "frame_ok f \<Longrightarrow> is_page_aligned f"
proof -
  assume "frame_ok f"
  then have "f AND 0xFFF = f AND (PTE_FRAME AND 0xFFF)" unfolding frame_ok_def by (metis and.assoc)
  then show ?thesis by (simp add: is_page_aligned_def PAGE_SIZE_def PTE_FRAME_def)
qed

lemma translate_page_None: "table_path a = table_path b \<Longrightarrow> translate b s = None \<Longrightarrow> translate a s = None"
  by (auto simp: translate_view trans_view_def Let_def split: if_splits)

lemma mmu_write_data:
  "translate a s = Some f \<Longrightarrow> mmu_write a v s = Some (write_entry f 0 v s)"
  by (simp add: mmu_write_def write_entry_def)

lemma mmu_read_data:
  "translate a s = Some f \<Longrightarrow> mmu_read a s = Some (read_entry f 0 s)"
  by (simp add: mmu_read_def read_entry_def)

text \<open>
   The paging self-test succeeds on tables in order whenever its address is not mapped,
  no huge page covers it and four frames are free (one for the page, three for tables): the
  pattern written through the new mapping is read back, and afterwards every address translates as
  it did before the test.
\<close>

theorem paging_selftest_passes:
  assumes ok: "pt_ok X s" and un: "translate SELFTEST_ADDR s = None" "no_huge SELFTEST_ADDR s"
    and frames: "4 \<le> card (avail s)"
  shows "\<exists>s'. paging_selftest s = Some (Ok (), s') \<and> (\<forall>a. translate a s' = translate a s)"
proof -
  let ?A = SELFTEST_ADDR
  obtain f s1 where af: "alloc_frame s = (Some f, s1)"
    using alloc_frame_data[OF ok, of "fst (alloc_frame s)" "snd (alloc_frame s)"] frames
    by (cases "alloc_frame s"; cases "fst (alloc_frame s)") auto
  have s1: "quiet_step (insert f X) s s1" "frame_ok f" using alloc_frame_data[OF ok af] by auto
  have av: "avail s1 = avail s - {f}" "f \<in> avail s"
    using alloc_frame_spec[of s] ok af by (auto simp: pt_ok_def)
  have ok1: "pt_ok (insert f X) s1" "\<And>a. translate a s1 = translate a s" using s1(1) by (auto simp: quiet_step_def)
  have "3 \<le> card (avail s1)" using av frames by simp
  then obtain s2 where mp: "map_page ?A f False s1 = (Ok (), s2)"
    using map_page_succeeds[OF ok1(1) selftest_addr(1) frame_ok_aligned[OF s1(2)] _ quiet_no_huge[OF s1(1) un(2)]]
    by (metis prod.collapse)
  note ms = map_page_spec[OF ok1(1) s1(2) mp, unfolded map_result_def, simplified]
  let ?s3 = "write_entry f 0 SELFTEST_PATTERN s2"
  have ok2: "pt_ok (insert f X) s2" using ms by simp
  have t2: "translate ?A s2 = Some f" using ms selftest_addr(2) by simp
  note q3 = data_write_quiet[OF ok2 insertI1 s1(2), of 0 SELFTEST_PATTERN]
  have ok3: "pt_ok (insert f X) ?s3" "\<And>a. translate a ?s3 = translate a s2" using q3 by (auto simp: quiet_step_def)
  have t3: "translate ?A ?s3 = Some f" using ok3(2) t2 by simp
  have rd: "mmu_read ?A ?s3 = Some SELFTEST_PATTERN"
    using mmu_read_data[OF t3] by (simp add: read_write_entry[OF s1(2) s1(2)])
  have tb: "table_at ?s3 (tl (table_path ?A)) \<noteq> None"
    using data_write_tables[OF ok2 insertI1 s1(2), of 0 "tl (table_path ?A)"] ms by (simp add: table_path_def del: table_at.simps)
  let ?s4 = "unmap_page ?A ?s3"
  have t4: "translate a ?s4 = translate a s" for a
    using unmap_page_spec[OF ok3(1) selftest_addr(1), of a] tb ok3(2)[of a] ms ok1(2)[of a]
      translate_page_None[OF _ un(1), of a]
    by (cases "table_path a = table_path ?A") (simp_all del: table_at.simps)
  show ?thesis
    using un(1) af mp mmu_write_data[OF t2] rd t3 t4 by (simp add: paging_selftest_def Let_def)
qed

end
