(* ===== verification/Kernel_Heap.thy ===== *)
theory Kernel_Heap
  imports Prelude
begin

text \<open>
  The kernel heap (\<open>aios-kernel/src/heap.rs\<close>): a first-fit allocator over an address-sorted free
  list that lives inside the heap memory itself.  The memory is a function from the addresses of
  its 8-byte cells to their values; the header of a block at \<open>a\<close> is the pair of cells \<open>a\<close> (size) and
  \<open>a + 8\<close> (next), and the null pointer is 0.  Both list walks are \<open>partial_function (option)\<close>: a walk
  that never ends is \<open>None\<close>.  The lock makes each operation atomic.

  The abstract view is a tiling of the heap window by used and free blocks; the theorems show that
  the pointer manipulations implement first fit and complete coalescing on tilings, never loop,
  never touch a live allocation and never lose a byte of the heap.
\<close>

unbundle bit_operations_syntax

definition HEAP_START :: nat where
  "HEAP_START = 0xFFFFFF0000000000"

definition HEAP_SIZE :: nat where
  "HEAP_SIZE = 4 * 1024 * 1024"

definition HEADER_SIZE :: nat where
  "HEADER_SIZE = 16"

definition BLOCK_ALIGN :: nat where
  "BLOCK_ALIGN = 16"

definition MIN_PAYLOAD :: nat where
  "MIN_PAYLOAD = 16"

record heap =
  hp_mem :: "nat \<Rightarrow> nat"
  hp_free_head :: nat

definition blk_size :: "heap \<Rightarrow> nat \<Rightarrow> nat" where
  "blk_size h a = hp_mem h a"

definition blk_next :: "heap \<Rightarrow> nat \<Rightarrow> nat" where
  "blk_next h a = hp_mem h (a + 8)"

definition set_size :: "nat \<Rightarrow> nat \<Rightarrow> heap \<Rightarrow> heap" where
  "set_size a v h = h\<lparr>hp_mem := (hp_mem h)(a := v)\<rparr>"

definition set_next :: "nat \<Rightarrow> nat \<Rightarrow> heap \<Rightarrow> heap" where
  "set_next a v h = h\<lparr>hp_mem := (hp_mem h)(a + 8 := v)\<rparr>"

definition min_block_size :: nat where
  "min_block_size = HEADER_SIZE + MIN_PAYLOAD"

definition align_up :: "nat \<Rightarrow> nat \<Rightarrow> nat" where
  "align_up val align = unat ((word_of_nat val + word_of_nat align - 1 :: u64) AND NOT (word_of_nat align - 1))"

definition init_free_list :: "heap \<Rightarrow> heap" where
  "init_free_list h = (set_next HEAP_START 0 (set_size HEAP_START HEAP_SIZE h))\<lparr>hp_free_head := HEAP_START\<rparr>"

text \<open>\<open>if prev.is_null() \<dots>\<close>: makes \<open>target\<close> the successor of \<open>prev\<close>, or the head.\<close>

definition set_link :: "nat \<Rightarrow> nat \<Rightarrow> heap \<Rightarrow> heap" where
  "set_link prev target h = (if prev = 0 then h\<lparr>hp_free_head := target\<rparr> else set_next prev target h)"

definition take_block :: "nat \<Rightarrow> nat \<Rightarrow> nat \<Rightarrow> heap \<Rightarrow> heap" where
  "take_block needed prev current h =
     (let nxt = blk_next h current; remaining = usub (blk_size h current) needed in
      if min_block_size \<le> remaining
      then let leftover = uadd current needed;
               h1 = set_size current needed h;
               h2 = set_size leftover remaining h1;
               h3 = set_next leftover nxt h2
           in set_link prev leftover h3
      else set_link prev nxt h)"

partial_function (option) alloc_walk :: "nat \<Rightarrow> nat \<Rightarrow> nat \<Rightarrow> heap \<Rightarrow> (nat \<times> heap) option" where
  "alloc_walk needed prev current h =
     (if current = 0 then Some (0, h)
      else if needed \<le> blk_size h current
      then Some (uadd current HEADER_SIZE, take_block needed prev current h)
      else alloc_walk needed current (blk_next h current) h)"

declare alloc_walk.simps [code]

definition heap_alloc :: "nat \<Rightarrow> nat \<Rightarrow> heap \<Rightarrow> (nat \<times> heap) option" where
  "heap_alloc layout_size layout_align h =
     (if layout_align > BLOCK_ALIGN then Some (0, h)
      else let needed = uadd (max (align_up layout_size BLOCK_ALIGN) MIN_PAYLOAD) HEADER_SIZE in
        alloc_walk needed 0 (hp_free_head h) h)"

partial_function (option) dealloc_walk :: "nat \<Rightarrow> nat \<Rightarrow> nat \<Rightarrow> heap \<Rightarrow> (nat \<times> nat) option" where
  "dealloc_walk block prev cur h =
     (if cur \<noteq> 0 \<and> cur < block then dealloc_walk block cur (blk_next h cur) h else Some (prev, cur))"

declare dealloc_walk.simps [code]

definition absorb_next :: "nat \<Rightarrow> nat \<Rightarrow> heap \<Rightarrow> heap" where
  "absorb_next block nxt h =
     (if nxt \<noteq> 0 \<and> uadd block (blk_size h block) = nxt
      then let h1 = set_size block (uadd (blk_size h block) (blk_size h nxt)) h in
        set_next block (blk_next h1 nxt) h1
      else set_next block nxt h)"

definition absorb_into_prev :: "nat \<Rightarrow> nat \<Rightarrow> heap \<Rightarrow> heap" where
  "absorb_into_prev prev block h =
     (if prev = 0 then h\<lparr>hp_free_head := block\<rparr>
      else if uadd prev (blk_size h prev) = block
      then let h1 = set_size prev (uadd (blk_size h prev) (blk_size h block)) h in
        set_next prev (blk_next h1 block) h1
      else set_next prev block h)"

definition heap_dealloc :: "nat \<Rightarrow> heap \<Rightarrow> heap option" where
  "heap_dealloc pointer h =
     (let block = usub pointer HEADER_SIZE in
      case dealloc_walk block 0 (hp_free_head h) h of
        None \<Rightarrow> None
      | Some (prev, nxt) \<Rightarrow> Some (absorb_into_prev prev block (absorb_next block nxt h)))"

subsection \<open>The list inside the memory\<close>

fun lseg :: "(nat \<Rightarrow> nat) \<Rightarrow> nat \<Rightarrow> (nat \<times> nat) list \<Rightarrow> nat \<Rightarrow> bool" where
  "lseg m a [] z = (a = z)"
| "lseg m a ((b, s) # fs) z = (a = b \<and> b \<noteq> 0 \<and> m b = s \<and> lseg m (m (b + 8)) fs z)"

definition last_addr :: "(nat \<times> nat) list \<Rightarrow> nat" where
  "last_addr xs = (if xs = [] then 0 else fst (last xs))"

definition spaced :: "(nat \<times> nat) list \<Rightarrow> bool" where
  "spaced fs \<longleftrightarrow> sorted_wrt (\<lambda>x y. fst x + snd x \<le> fst y) fs \<and>
     (\<forall>(b, s)\<in>set fs. 16 dvd b \<and> 16 dvd s \<and> 32 \<le> s \<and> 0 < b \<and> b + s < usize_modulus)"

text \<open>A cell outside all the blocks of a list.\<close>

definition outside :: "nat \<Rightarrow> (nat \<times> nat) list \<Rightarrow> bool" where
  "outside c fs \<longleftrightarrow> (\<forall>(b, s)\<in>set fs. c < b \<or> b + s \<le> c)"

lemma last_addr_simps [simp]:
  "last_addr [] = 0" "last_addr (xs @ [x]) = fst x"
  by (simp_all add: last_addr_def)

lemma lseg_append: "lseg m a (xs @ ys) z \<longleftrightarrow> (\<exists>y. lseg m a xs y \<and> lseg m y ys z)"
  by (induction xs arbitrary: a) auto

lemma lseg_frame:
  "(\<And>b s. (b, s) \<in> set fs \<Longrightarrow> m' b = m b \<and> m' (b + 8) = m (b + 8)) \<Longrightarrow> lseg m' a fs z = lseg m a fs z"
  by (induction fs arbitrary: a) force+

lemma lseg_head: "lseg m a fs 0 \<Longrightarrow> a = (if fs = [] then 0 else fst (hd fs))"
  by (cases fs) auto

lemma spaced_Cons: "spaced (x # xs) \<longleftrightarrow> spaced [x] \<and> spaced xs \<and> (\<forall>y\<in>set xs. fst x + snd x \<le> fst y)"
  by (auto simp: spaced_def)

lemma spaced_append:
  "spaced (xs @ ys) \<longleftrightarrow> spaced xs \<and> spaced ys \<and> (\<forall>x\<in>set xs. \<forall>y\<in>set ys. fst x + snd x \<le> fst y)"
  by (auto simp: spaced_def sorted_wrt_append)

lemma spaced_memD:
  "spaced fs \<Longrightarrow> (b, s) \<in> set fs \<Longrightarrow> 16 dvd b \<and> 16 dvd s \<and> 32 \<le> s \<and> 0 < b \<and> b + s < usize_modulus"
  by (auto simp: spaced_def)

text \<open>Header cells of aligned blocks do not collide: a size cell is never a next cell.\<close>

lemma aligned_no_clash: "16 dvd (a :: nat) \<Longrightarrow> 16 dvd b \<Longrightarrow> a \<noteq> b + 8"
  by (metis dvd_add_right_iff nat_dvd_not_less numeral_less_iff rel_simps(51) semiring_norm(76) semiring_norm(78) zero_less_numeral)

lemma alloc_walk_none:
  assumes "lseg (hp_mem h) cur fs 0" "\<forall>(b, s)\<in>set fs. s < needed"
  shows "alloc_walk needed prev cur h = Some (0, h)"
  using assms
proof (induction fs arbitrary: cur prev)
  case Nil then show ?case by (simp add: alloc_walk.simps)
next
  case (Cons f fs)
  obtain b s where f: "f = (b, s)" by (cases f)
  with Cons have "alloc_walk needed b (hp_mem h (b + 8)) h = Some (0, h)" by auto
  with Cons.prems f show ?case
    by (subst alloc_walk.simps) (auto simp: blk_size_def blk_next_def)
qed

lemma alloc_walk_some:
  assumes "lseg (hp_mem h) cur (xs @ (b, s) # ys) 0" "\<forall>(b, s)\<in>set xs. s < needed" "needed \<le> s"
  shows "alloc_walk needed prev cur h =
    Some (uadd b HEADER_SIZE, take_block needed (if xs = [] then prev else last_addr xs) b h)"
  using assms
proof (induction xs arbitrary: cur prev)
  case Nil then show ?case by (subst alloc_walk.simps) (auto simp: blk_size_def)
next
  case (Cons f xs)
  obtain a t where f: "f = (a, t)" by (cases f)
  with Cons have "alloc_walk needed a (hp_mem h (a + 8)) h =
    Some (uadd b HEADER_SIZE, take_block needed (if xs = [] then a else last_addr xs) b h)" by auto
  with Cons.prems f show ?case
    by (subst alloc_walk.simps) (auto simp: blk_size_def blk_next_def last_addr_def)
qed

lemma dealloc_walk_eq:
  assumes "lseg (hp_mem h) cur (xs @ ys) 0" "\<forall>x\<in>set xs. fst x < block" "\<forall>y\<in>set ys. block \<le> fst y"
  shows "dealloc_walk block prev cur h =
    Some (if xs = [] then prev else last_addr xs, if ys = [] then 0 else fst (hd ys))"
  using assms
proof (induction xs arbitrary: cur prev)
  case Nil
  then have "cur = (if ys = [] then 0 else fst (hd ys))" using lseg_head by fastforce
  moreover from Nil have "ys \<noteq> [] \<Longrightarrow> block \<le> fst (hd ys)" by simp
  ultimately show ?case by (subst dealloc_walk.simps) auto
next
  case (Cons f xs)
  obtain a t where f: "f = (a, t)" by (cases f)
  with Cons have "dealloc_walk block a (hp_mem h (a + 8)) h =
    Some (if xs = [] then a else last_addr xs, if ys = [] then 0 else fst (hd ys))" by auto
  with Cons.prems f show ?case
    by (subst dealloc_walk.simps) (auto simp: blk_next_def last_addr_def)
qed

lemma set_link_chain:
  assumes "lseg (hp_mem h) (hp_free_head h) xs y" "spaced xs"
  shows "lseg (hp_mem (set_link (last_addr xs) x h)) (hp_free_head (set_link (last_addr xs) x h)) xs x"
proof (cases xs rule: rev_cases)
  case Nil
  then show ?thesis using assms by (simp add: set_link_def)
next
  case (snoc us f)
  obtain b s where f: "f = (b, s)" by (cases f)
  let ?m = "(hp_mem h)(b + 8 := x)"
  have al: "16 dvd b" "0 < b" using assms(2) snoc f by (auto simp: spaced_def)
  have us: "lseg (hp_mem h) (hp_free_head h) us b" "hp_mem h b = s"
    using assms(1) snoc f by (auto simp: lseg_append)
  have "lseg ?m (hp_free_head h) us b = lseg (hp_mem h) (hp_free_head h) us b"
  proof (rule lseg_frame)
    fix a t assume "(a, t) \<in> set us"
    then have "16 dvd a" "a + t \<le> b" "32 \<le> t"
      using assms(2) snoc f by (auto simp: spaced_append dest: spaced_memD)
    then show "?m a = hp_mem h a \<and> ?m (a + 8) = hp_mem h (a + 8)" using aligned_no_clash[of a b] al by auto
  qed
  with us al snoc f aligned_no_clash[of b b] show ?thesis
    by (auto simp: set_link_def set_next_def lseg_append)
qed

lemma set_link_mem:
  "hp_mem (set_link p x h) c = (if p \<noteq> 0 \<and> c = p + 8 then x else hp_mem h c)"
  by (simp add: set_link_def set_next_def)

lemma last_addr_inside:
  "spaced xs \<Longrightarrow> xs \<noteq> [] \<Longrightarrow> last_addr xs \<noteq> 0 \<and> 16 dvd last_addr xs \<and> (last_addr xs, snd (last xs)) \<in> set xs \<and>
     last_addr xs + 8 < last_addr xs + snd (last xs)"
  using spaced_memD[of xs "fst (last xs)" "snd (last xs)"]
  by (auto simp: last_addr_def)

lemma outside_append: "outside c (xs @ ys) \<longleftrightarrow> outside c xs \<and> outside c ys"
  by (auto simp: outside_def)

lemma outside_Nil [simp]: "outside c []"
  by (simp add: outside_def)

lemma outside_Cons: "outside c ((b, s) # xs) \<longleftrightarrow> (c < b \<or> b + s \<le> c) \<and> outside c xs"
  by (auto simp: outside_def)

lemma set_link_outside:
  assumes "spaced xs" "outside c xs"
  shows "hp_mem (set_link (last_addr xs) x h) c = hp_mem h c"
proof (cases "xs = []")
  case False
  then have "c \<noteq> last_addr xs + 8"
    using last_addr_inside[OF assms(1)] assms(2) unfolding outside_def by fastforce
  then show ?thesis by (simp add: set_link_mem)
qed (simp add: set_link_mem)

text \<open>A size cell of an aligned block is never overwritten by a link.\<close>

lemma set_link_size:
  "spaced xs \<Longrightarrow> 16 dvd b \<Longrightarrow> hp_mem (set_link (last_addr xs) x h) b = hp_mem h b"
  using last_addr_inside[of xs] aligned_no_clash[of b "last_addr xs"] by (cases "xs = []") (auto simp: set_link_mem)

lemma lseg_outside:
  assumes "lseg m a fs z" "spaced fs" "\<And>c. \<not> outside c fs \<Longrightarrow> m' c = m c"
  shows "lseg m' a fs z"
proof -
  have "lseg m' a fs z = lseg m a fs z"
  proof (rule lseg_frame)
    fix b s assume bs: "(b, s) \<in> set fs"
    then have "32 \<le> s" using assms(2) by (auto dest: spaced_memD)
    then have "\<not> outside b fs" "\<not> outside (b + 8) fs" using bs by (force simp: outside_def)+
    then show "m' b = m b \<and> m' (b + 8) = m (b + 8)" using assms(3) by simp
  qed
  with assms(1) show ?thesis by simp
qed

text \<open>Two chains separated by a changed region: linking the second behind the first.\<close>

lemma relink_chain:
  assumes xs: "lseg (hp_mem h) (hp_free_head h) xs y" and sp: "spaced xs" "spaced ys"
    and ys: "lseg (hp_mem h) x ys 0"
    and sep: "\<forall>f\<in>set xs. \<forall>g\<in>set ys. fst f + snd f \<le> fst g"
  shows "lseg (hp_mem (set_link (last_addr xs) x h)) (hp_free_head (set_link (last_addr xs) x h)) (xs @ ys) 0"
proof -
  have "lseg (hp_mem (set_link (last_addr xs) x h)) x ys 0"
  proof (rule lseg_outside[OF ys sp(2)])
    fix c assume "\<not> outside c ys"
    then obtain b s where "(b, s) \<in> set ys" "b \<le> c" unfolding outside_def by fastforce
    then have "outside c xs" using sep by (fastforce simp: outside_def)
    then show "hp_mem (set_link (last_addr xs) x h) c = hp_mem h c" by (rule set_link_outside[OF sp(1)])
  qed
  with set_link_chain[OF xs sp(1)] show ?thesis by (auto simp: lseg_append)
qed

lemma take_block_chain:
  assumes chain: "lseg (hp_mem h) (hp_free_head h) (xs @ (b, s) # ys) 0"
    and sp: "spaced (xs @ (b, s) # ys)" and n: "needed \<le> s" "32 \<le> needed" "16 dvd needed"
  defines "h' \<equiv> take_block needed (last_addr xs) b h"
  shows "lseg (hp_mem h') (hp_free_head h') (xs @ (if 32 \<le> s - needed then (b + needed, s - needed) # ys else ys)) 0 \<and>
    hp_mem h' b = (if 32 \<le> s - needed then needed else s) \<and>
    (\<forall>c. outside c (xs @ (b, s) # ys) \<longrightarrow> hp_mem h' c = hp_mem h c)"
proof -
  have sps: "spaced xs" "spaced ys" "spaced [(b, s)]" "\<forall>f\<in>set xs. fst f + snd f \<le> b"
    "\<forall>g\<in>set ys. b + s \<le> fst g" "\<forall>f\<in>set xs. \<forall>g\<in>set ys. fst f + snd f \<le> fst g"
    using sp spaced_Cons[of "(b, s)" ys] by (auto simp: spaced_append)
  then have bs: "16 dvd b" "16 dvd s" "32 \<le> s" "0 < b" "b + s < usize_modulus" by (auto simp: spaced_def)
  have xs: "lseg (hp_mem h) (hp_free_head h) xs b" and mb: "hp_mem h b = s"
    and ys: "lseg (hp_mem h) (hp_mem h (b + 8)) ys 0"
    using chain by (auto simp: lseg_append)
  have min: "min_block_size = 32" by (simp add: min_block_size_def HEADER_SIZE_def MIN_PAYLOAD_def)
  have rem: "usub s needed = s - needed" "uadd b needed = b + needed" using n bs by (simp_all add: usize_simps)
  show ?thesis
  proof (cases "32 \<le> s - needed")
    case False
    then have h': "h' = set_link (last_addr xs) (hp_mem h (b + 8)) h"
      using mb rem min by (simp add: h'_def take_block_def blk_size_def blk_next_def Let_def)
    from relink_chain[OF xs sps(1,2) ys sps(6)] False set_link_size[OF sps(1) bs(1)] mb set_link_outside[OF sps(1)]
    show ?thesis
      by (simp add: h' outside_append)
  next
    case True
    let ?l = "b + needed"
    let ?h3 = "set_next ?l (hp_mem h (b + 8)) (set_size ?l (s - needed) (set_size b needed h))"
    have h': "h' = set_link (last_addr xs) ?l ?h3"
      using True mb rem min by (simp add: h'_def take_block_def blk_size_def blk_next_def Let_def)
    have m3: "hp_mem ?h3 = (hp_mem h)(b := needed, ?l := s - needed, ?l + 8 := hp_mem h (b + 8))"
      and hd3: "hp_free_head ?h3 = hp_free_head h"
      by (simp_all add: set_size_def set_next_def)
    have out: "hp_mem ?h3 c = hp_mem h c" if "outside c [(b, s)]" for c
      using that True n by (auto simp: m3 outside_def)
    have al: "16 dvd ?l" "16 dvd s - needed" using bs n by (simp_all add: dvd_diff_nat)
    have c1: "lseg (hp_mem ?h3) (hp_free_head ?h3) xs b" unfolding hd3
    proof (rule lseg_outside[OF xs sps(1)])
      fix c assume "\<not> outside c xs"
      then have "outside c [(b, s)]" using sps(4) by (fastforce simp: outside_def)
      then show "hp_mem ?h3 c = hp_mem h c" by (rule out)
    qed
    have c2: "lseg (hp_mem ?h3) (hp_mem h (b + 8)) ys 0"
    proof (rule lseg_outside[OF ys sps(2)])
      fix c assume "\<not> outside c ys"
      then have "outside c [(b, s)]" using sps(5) by (fastforce simp: outside_def)
      then show "hp_mem ?h3 c = hp_mem h c" by (rule out)
    qed
    have c3: "lseg (hp_mem ?h3) ?l ((?l, s - needed) # ys) 0"
      using c2 bs n aligned_no_clash[OF al(1) al(1)] by (simp add: m3)
    have sp3: "spaced ((?l, s - needed) # ys)"
      using sps(2,5) True al bs n spaced_Cons[of "(?l, s - needed)" ys] by (auto simp: spaced_def)
    have sep: "\<forall>f\<in>set xs. \<forall>g\<in>set ((?l, s - needed) # ys). fst f + snd f \<le> fst g"
      using sps(4,6) by auto
    have "hp_mem ?h3 b = needed" using n aligned_no_clash[OF bs(1) al(1)] by (simp add: m3)
    with relink_chain[OF c1 sps(1) sp3 c3 sep] True set_link_size[OF sps(1) bs(1)] set_link_outside[OF sps(1)] out
    show ?thesis
      by (simp add: h') (simp add: outside_def)
  qed
qed

text \<open>What freeing the block \<open>(b, s)\<close> makes of the free blocks before and after it.\<close>

fun join_next :: "nat \<times> nat \<Rightarrow> (nat \<times> nat) list \<Rightarrow> (nat \<times> nat) list" where
  "join_next (b, s) [] = [(b, s)]"
| "join_next (b, s) ((b', s') # ys) = (if b + s = b' then (b, s + s') # ys else (b, s) # (b', s') # ys)"

definition join_prev :: "(nat \<times> nat) list \<Rightarrow> (nat \<times> nat) list \<Rightarrow> (nat \<times> nat) list" where
  "join_prev xs ys =
     (if xs \<noteq> [] \<and> ys \<noteq> [] \<and> last_addr xs + snd (last xs) = fst (hd ys)
      then butlast xs @ (last_addr xs, snd (last xs) + snd (hd ys)) # tl ys
      else xs @ ys)"

lemma join_next_hd: "\<exists>s' ys'. join_next (b, s) ys = (b, s') # ys' \<and> s \<le> s'"
  by (cases ys) auto

lemma spaced_join_next:
  assumes "spaced ((b, s) # ys)"
  shows "spaced (join_next (b, s) ys)"
proof (cases ys)
  case (Cons g ys')
  obtain b' s' where g: "g = (b', s')" by (cases g)
  have ys: "spaced [(b', s')]" "spaced ys'" "\<forall>y\<in>set ys'. b' + s' \<le> fst y" "spaced [(b, s)]"
    "\<forall>y\<in>set ys'. b + s \<le> fst y"
    using assms Cons g spaced_Cons[of "(b, s)" ys] spaced_Cons[of "(b', s')" ys'] by auto
  show ?thesis
  proof (cases "b + s = b'")
    case True
    then have "spaced [(b, s + s')]" using ys(1,4) by (auto simp: spaced_def)
    with ys True Cons g spaced_Cons[of "(b, s + s')" ys'] show ?thesis by auto
  qed (use assms Cons g in simp)
qed (use assms in simp)

lemma absorb_next_chain:
  assumes ys: "lseg (hp_mem h) nxt ys 0" and sp: "spaced ((b, s) # ys)" and mb: "hp_mem h b = s"
  defines "h' \<equiv> absorb_next b nxt h"
  shows "lseg (hp_mem h') b (join_next (b, s) ys) 0 \<and> hp_free_head h' = hp_free_head h \<and>
    (\<forall>c. outside c [(b, s)] \<longrightarrow> hp_mem h' c = hp_mem h c)"
proof -
  have bs: "16 dvd b" "32 \<le> s" "0 < b" "b + s < usize_modulus" "spaced ys" "\<forall>y\<in>set ys. b + s \<le> fst y"
    using sp spaced_Cons[of "(b, s)" ys] by (auto simp: spaced_def)
  have add: "uadd b s = b + s" using bs by (simp add: usize_simps)
  have chain: "lseg (hp_mem h') y zs 0" if "lseg (hp_mem h) y zs 0" "set zs \<subseteq> set ys" "spaced zs"
    "\<And>c. outside c [(b, s)] \<Longrightarrow> hp_mem h' c = hp_mem h c" for y zs
  proof (rule lseg_outside[OF that(1,3)])
    fix c assume "\<not> outside c zs"
    then have "outside c [(b, s)]" using bs(6) that(2) by (fastforce simp: outside_def)
    then show "hp_mem h' c = hp_mem h c" by (rule that(4))
  qed
  show ?thesis
  proof (cases ys)
    case Nil
    with ys have "nxt = 0" by simp
    with Nil mb bs aligned_no_clash[of b b] show ?thesis
      by (auto simp: h'_def absorb_next_def set_next_def outside_def)
  next
    case (Cons g ys')
    obtain b' s' where g: "g = (b', s')" by (cases g)
    have n: "nxt = b'" "b' \<noteq> 0" "hp_mem h b' = s'" "lseg (hp_mem h) (hp_mem h (b' + 8)) ys' 0"
      using ys Cons g by auto
    have sp': "spaced ys'" "b + s \<le> b'" "16 dvd b'" "b' + s' < usize_modulus"
      using bs(5,6) Cons g spaced_Cons[of "(b', s')" ys'] by (auto simp: spaced_def)
    show ?thesis
    proof (cases "b + s = b'")
      case True
      then have h': "h' = set_next b (hp_mem h (b' + 8)) (set_size b (s + s') h)"
        using n mb add sp' bs by (simp add: h'_def absorb_next_def blk_size_def blk_next_def Let_def set_size_def usize_simps)
      then have out: "hp_mem h' c = hp_mem h c" if "outside c [(b, s)]" for c
        using that bs by (auto simp: set_next_def set_size_def outside_def)
      have "lseg (hp_mem h') (hp_mem h (b' + 8)) ys' 0"
        using chain[OF n(4) _ sp'(1) out] Cons by auto
      with out True Cons g n bs aligned_no_clash[of b b] show ?thesis
        by (auto simp: h' set_next_def set_size_def)
    next
      case False
      then have h': "h' = set_next b b' h"
        using n mb add by (simp add: h'_def absorb_next_def blk_size_def)
      then have out: "hp_mem h' c = hp_mem h c" if "outside c [(b, s)]" for c
        using that bs by (auto simp: set_next_def outside_def)
      have "lseg (hp_mem h') b' ys 0" using chain[OF _ _ bs(5) out] ys n(1) by blast
      with out False Cons g mb bs aligned_no_clash[of b b] show ?thesis
        by (auto simp: h' set_next_def)
    qed
  qed
qed

lemma absorb_into_prev_chain:
  assumes xs: "lseg (hp_mem h) (hp_free_head h) xs y" and ys: "lseg (hp_mem h) b ys 0" "ys \<noteq> []"
    and sp: "spaced (xs @ ys)"
  defines "h' \<equiv> absorb_into_prev (last_addr xs) b h"
  shows "lseg (hp_mem h') (hp_free_head h') (join_prev xs ys) 0 \<and>
    (\<forall>c. outside c (xs @ ys) \<longrightarrow> hp_mem h' c = hp_mem h c)"
proof (cases xs rule: rev_cases)
  case Nil
  then show ?thesis using ys by (simp add: h'_def absorb_into_prev_def join_prev_def)
next
  case (snoc us f)
  obtain p t where f: "f = (p, t)" by (cases f)
  obtain s zs where yz: "ys = (b, s) # zs" using ys by (cases ys) auto
  have sps: "spaced xs" "spaced ys" "\<forall>f\<in>set xs. \<forall>g\<in>set ys. fst f + snd f \<le> fst g"
    using sp by (auto simp: spaced_append)
  have pt: "16 dvd p" "32 \<le> t" "0 < p" "p + t < usize_modulus" "p + t \<le> b" "b + s < usize_modulus" "32 \<le> s" "16 dvd b"
    using sps snoc f yz by (auto simp: spaced_def)
  have mp: "hp_mem h p = t" "lseg (hp_mem h) (hp_free_head h) us p" using xs snoc f by (auto simp: lseg_append)
  have mb: "hp_mem h b = s" "lseg (hp_mem h) (hp_mem h (b + 8)) zs 0" using ys yz by auto
  show ?thesis
  proof (cases "p + t = b")
    case False
    then have h': "h' = set_link (last_addr xs) b h"
      using pt mp snoc f by (simp add: h'_def absorb_into_prev_def blk_size_def set_link_def usize_simps)
    from relink_chain[OF xs sps(1,2) ys(1) sps(3)] set_link_outside[OF sps(1)] False snoc f yz
    show ?thesis by (simp add: h' join_prev_def outside_append outside_Cons)
  next
    case True
    then have h': "h' = set_next p (hp_mem h (b + 8)) (set_size p (t + s) h)"
      using pt mp mb snoc f by (auto simp: h'_def absorb_into_prev_def blk_size_def blk_next_def Let_def set_size_def usize_simps)
    then have out: "hp_mem h' c = hp_mem h c" if "outside c [(p, t)]" for c
      using that pt by (auto simp: set_next_def set_size_def outside_def)
    have us: "spaced us" "\<forall>f\<in>set us. fst f + snd f \<le> p" and zs: "spaced zs" "\<forall>g\<in>set zs. b + s \<le> fst g"
      using sps snoc f yz spaced_Cons[of "(b, s)" zs] by (auto simp: spaced_append)
    have c1: "lseg (hp_mem h') (hp_free_head h) us p"
    proof (rule lseg_outside[OF mp(2) us(1)])
      fix c assume "\<not> outside c us"
      then have "outside c [(p, t)]" using us(2) by (fastforce simp: outside_def)
      then show "hp_mem h' c = hp_mem h c" by (rule out)
    qed
    have c2: "lseg (hp_mem h') (hp_mem h (b + 8)) zs 0"
    proof (rule lseg_outside[OF mb(2) zs(1)])
      fix c assume "\<not> outside c zs"
      then have "outside c [(p, t)]" using zs(2) pt True by (fastforce simp: outside_def)
      then show "hp_mem h' c = hp_mem h c" by (rule out)
    qed
    have "hp_mem h' p = t + s" "hp_mem h' (p + 8) = hp_mem h (b + 8)" "hp_free_head h' = hp_free_head h"
      using aligned_no_clash[of p p] by (simp_all add: h' set_next_def set_size_def)
    with c1 c2 pt True snoc f yz out show ?thesis
      by (simp add: join_prev_def lseg_append outside_append outside_Cons)
  qed
qed

lemma dealloc_chain:
  assumes chain: "lseg (hp_mem h) (hp_free_head h) (xs @ ys) 0" and sp: "spaced (xs @ (b, s) # ys)"
    and mb: "hp_mem h b = s"
  shows "\<exists>h'. heap_dealloc (b + HEADER_SIZE) h = Some h' \<and>
    lseg (hp_mem h') (hp_free_head h') (join_prev xs (join_next (b, s) ys)) 0 \<and>
    (\<forall>c. outside c (xs @ (b, s) # ys) \<longrightarrow> hp_mem h' c = hp_mem h c)"
proof -
  have sps: "spaced xs" "spaced ((b, s) # ys)" "spaced ys" "\<forall>f\<in>set xs. fst f + snd f \<le> b" "\<forall>g\<in>set ys. b + s \<le> fst g"
    "\<forall>f\<in>set xs. \<forall>g\<in>set ys. fst f + snd f \<le> fst g"
    using sp spaced_Cons[of "(b, s)" ys] by (auto simp: spaced_append)
  have pos: "\<forall>f\<in>set xs. 0 < snd f" using sps(1) by (auto simp: spaced_def)
  let ?nxt = "if ys = [] then 0 else fst (hd ys)"
  have walk: "dealloc_walk b 0 (hp_free_head h) h = Some (last_addr xs, ?nxt)"
    using dealloc_walk_eq[OF chain, of b 0] sps(4,5) pos by (fastforce simp: last_addr_def)
  obtain y where xs: "lseg (hp_mem h) (hp_free_head h) xs y" and y: "lseg (hp_mem h) y ys 0"
    using chain by (auto simp: lseg_append)
  have "y = ?nxt" using lseg_head[OF y] .
  with y have ys: "lseg (hp_mem h) ?nxt ys 0" by simp
  let ?h1 = "absorb_next b ?nxt h"
  have a1: "lseg (hp_mem ?h1) b (join_next (b, s) ys) 0" "hp_free_head ?h1 = hp_free_head h"
    "\<And>c. outside c [(b, s)] \<Longrightarrow> hp_mem ?h1 c = hp_mem h c"
    using absorb_next_chain[OF ys sps(2) mb] by blast+
  have "lseg (hp_mem ?h1) (hp_free_head ?h1) xs y" unfolding a1(2)
  proof (rule lseg_outside[OF xs sps(1)])
    fix c assume "\<not> outside c xs"
    then have "outside c [(b, s)]" using sps(4) by (fastforce simp: outside_def)
    then show "hp_mem ?h1 c = hp_mem h c" by (rule a1(3))
  qed
  moreover have ne: "join_next (b, s) ys \<noteq> []" using join_next_hd[of b s ys] by auto
  moreover have cover: "\<forall>g\<in>set (join_next (b, s) ys). b \<le> fst g" using sps(5) by (cases ys) (fastforce split: if_splits)+
  then have "spaced (xs @ join_next (b, s) ys)"
    using sps(1,4) spaced_join_next[OF sps(2)] by (fastforce simp: spaced_append)
  moreover have "outside c (join_next (b, s) ys)" if "outside c ((b, s) # ys)" for c
    using that by (cases ys) (auto simp: outside_Cons)
  ultimately show ?thesis
    using absorb_into_prev_chain[of ?h1 xs y b "join_next (b, s) ys"] a1 walk
    by (auto simp: heap_dealloc_def usub_le outside_append outside_Cons HEADER_SIZE_def)
qed

subsection \<open>Tilings of the heap window\<close>

text \<open>
  A tile is a block: its address, its size with the header, and whether it is free.  A tiling
  covers the window without gap or overlap, and in a coalesced one no two free tiles are adjacent.
\<close>

type_synonym tile = "nat \<times> nat \<times> bool"

fun tiled :: "nat \<Rightarrow> tile list \<Rightarrow> nat \<Rightarrow> bool" where
  "tiled a [] e = (a = e)"
| "tiled a ((b, s, f) # ts) e = (b = a \<and> 32 \<le> s \<and> 16 dvd s \<and> tiled (a + s) ts e)"

fun coalesced :: "tile list \<Rightarrow> bool" where
  "coalesced ((b, s, f) # (b', s', f') # ts) = (\<not> (f \<and> f') \<and> coalesced ((b', s', f') # ts))"
| "coalesced ts = True"

fun frees :: "tile list \<Rightarrow> (nat \<times> nat) list" where
  "frees [] = []"
| "frees ((b, s, f) # ts) = (if f then (b, s) # frees ts else frees ts)"

text \<open>First fit, splitting a tile whose rest can hold a block.\<close>

fun tile_alloc :: "nat \<Rightarrow> tile list \<Rightarrow> (nat \<times> tile list) option" where
  "tile_alloc n [] = None"
| "tile_alloc n ((b, s, f) # ts) =
     (if f \<and> n \<le> s
      then Some (b, if 32 \<le> s - n then (b, n, False) # (b + n, s - n, True) # ts else (b, s, False) # ts)
      else map_option (\<lambda>(r, ts'). (r, (b, s, f) # ts')) (tile_alloc n ts))"

text \<open>Freeing marks the tile and merges runs of free tiles.\<close>

fun merge_head :: "tile \<Rightarrow> tile list \<Rightarrow> tile list" where
  "merge_head (b, s, True) ((b', s', True) # ts) = (b, s + s', True) # ts"
| "merge_head t ts = t # ts"

fun coalesce :: "tile list \<Rightarrow> tile list" where
  "coalesce [] = []"
| "coalesce (t # ts) = merge_head t (coalesce ts)"

definition mark_free :: "nat \<Rightarrow> tile list \<Rightarrow> tile list" where
  "mark_free b ts = map (\<lambda>(b', s', f). (b', s', f \<or> b' = b)) ts"

definition tile_free :: "nat \<Rightarrow> tile list \<Rightarrow> tile list" where
  "tile_free b ts = coalesce (mark_free b ts)"

definition heap_rel :: "heap \<Rightarrow> tile list \<Rightarrow> bool" where
  "heap_rel h ts \<longleftrightarrow> tiled HEAP_START ts (HEAP_START + HEAP_SIZE) \<and> coalesced ts \<and>
     lseg (hp_mem h) (hp_free_head h) (frees ts) 0 \<and> (\<forall>(b, s, f)\<in>set ts. hp_mem h b = s)"

lemma heap_window: "16 dvd HEAP_START" "0 < HEAP_START" "HEAP_START + HEAP_SIZE < usize_modulus"
  by (simp_all add: HEAP_START_def HEAP_SIZE_def usize_modulus_def)

lemma tiled_append: "tiled a (us @ vs) e \<longleftrightarrow> (\<exists>m. tiled a us m \<and> tiled m vs e)"
  by (induction a us e rule: tiled.induct) auto

lemma tiled_bounds:
  "tiled a ts e \<Longrightarrow> (b, s, f) \<in> set ts \<Longrightarrow> a \<le> b \<and> b + s \<le> e \<and> 32 \<le> s \<and> 16 dvd s \<and> (16 dvd a \<longrightarrow> 16 dvd b)"
proof (induction a ts e rule: tiled.induct)
  case (2 a b' s' f' ts e)
  have le: "tiled x us y \<Longrightarrow> x \<le> y" for x us y by (induction x us y rule: tiled.induct) auto
  from 2 le[of "a + s'" ts e] show ?case by fastforce
qed simp

lemma tiled_le: "tiled a ts e \<Longrightarrow> a \<le> e"
  by (induction a ts e rule: tiled.induct) auto

text \<open>Tiles are disjoint, so the address determines the tile.\<close>

lemma tiled_disjoint:
  "tiled a ts e \<Longrightarrow> (b, s, f) \<in> set ts \<Longrightarrow> (b', s', f') \<in> set ts \<Longrightarrow>
     (b, s, f) = (b', s', f') \<or> b + s \<le> b' \<or> b' + s' \<le> b"
proof (induction a ts e rule: tiled.induct)
  case (2 a x t g ts e)
  from 2 tiled_bounds[of "a + t" ts e] show ?case by fastforce
qed simp

lemma frees_mem: "(b, s) \<in> set (frees ts) \<longleftrightarrow> (b, s, True) \<in> set ts"
  by (induction ts rule: frees.induct) auto

lemma frees_append: "frees (us @ vs) = frees us @ frees vs"
  by (induction us rule: frees.induct) auto

lemma spaced_frees:
  "tiled a ts e \<Longrightarrow> 16 dvd a \<Longrightarrow> 0 < a \<Longrightarrow> e < usize_modulus \<Longrightarrow> spaced (frees ts)"
proof (induction a ts e rule: tiled.induct)
  case (2 a b s f ts e)
  then have "spaced (frees ts)" "tiled (a + s) ts e" by auto
  moreover have "\<forall>g\<in>set (frees ts). a + s \<le> fst g"
    using tiled_bounds[OF \<open>tiled (a + s) ts e\<close>] by (auto simp: frees_mem)
  moreover have "a + s < usize_modulus" using tiled_le[OF \<open>tiled (a + s) ts e\<close>] 2 by simp
  ultimately show ?case using 2 spaced_Cons[of "(b, s)" "frees ts"] by (auto simp: spaced_def)
qed (simp add: spaced_def)

lemma tile_alloc_None: "tile_alloc n ts = None \<longleftrightarrow> (\<forall>(b, s)\<in>set (frees ts). s < n)"
  by (induction n ts rule: tile_alloc.induct) (auto simp: not_le)

lemma tile_alloc_Some:
  assumes "tile_alloc n ts = Some (b, ts')"
  shows "\<exists>us s vs. ts = us @ (b, s, True) # vs \<and> n \<le> s \<and> (\<forall>(b, s)\<in>set (frees us). s < n) \<and>
    ts' = us @ (if 32 \<le> s - n then (b, n, False) # (b + n, s - n, True) # vs else (b, s, False) # vs)"
  using assms
proof (induction n ts arbitrary: ts' rule: tile_alloc.induct)
  case (2 n b0 s0 f ts)
  show ?case
  proof (cases "f \<and> n \<le> s0")
    case True
    with 2 show ?thesis by (intro exI[of _ "[]"]) auto
  next
    case False
    with 2 obtain ts1 where ts1: "tile_alloc n ts = Some (b, ts1)" "ts' = (b0, s0, f) # ts1" by auto
    from 2(1)[OF False ts1(1)] obtain us s vs where "ts = us @ (b, s, True) # vs" "n \<le> s" "\<forall>(b, s)\<in>set (frees us). s < n"
      "ts1 = us @ (if 32 \<le> s - n then (b, n, False) # (b + n, s - n, True) # vs else (b, s, False) # vs)" by blast
    with False ts1 show ?thesis by (intro exI[of _ "(b0, s0, f) # us"]) auto
  qed
qed simp

lemma coalesced_append:
  "coalesced (us @ vs) \<longleftrightarrow> coalesced us \<and> coalesced vs \<and>
     (us \<noteq> [] \<and> vs \<noteq> [] \<longrightarrow> \<not> (snd (snd (last us)) \<and> snd (snd (hd vs))))"
proof (induction us)
  case (Cons u us)
  then show ?case by (cases u; cases us; cases vs) auto
qed simp

subsection \<open>Allocation implements first fit\<close>

lemma align_up_16:
  assumes "v < 2 ^ 63"
  shows "align_up v 16 = (v + 15) div 16 * 16"
proof -
  have "(16 :: u64) - 1 = mask 4" by (simp add: mask_eq_exp_minus_1)
  moreover have "(word_of_nat v + 16 - 1 :: u64) = word_of_nat (v + 15)" by simp
  moreover have "unat (word_of_nat (v + 15) :: u64) = v + 15"
    unfolding unat_of_nat using assms by (intro mod_less) simp
  ultimately show ?thesis
    unfolding align_up_def using unat_round_down[of "word_of_nat (v + 15) :: u64" 4] by (simp add: add.commute)
qed

text \<open>The size of the block that holds a payload of \<open>v\<close> bytes.\<close>

definition block_for :: "nat \<Rightarrow> nat" where
  "block_for v = max ((v + 15) div 16 * 16) 16 + 16"

lemma block_for_simps: "32 \<le> block_for v" "16 dvd block_for v" "v + 16 \<le> block_for v"
proof -
  show "32 \<le> block_for v" by (simp add: block_for_def)
  show "16 dvd block_for v" by (auto simp: block_for_def max_def)
  have "v \<le> (v + 15) div 16 * 16" by presburger
  then show "v + 16 \<le> block_for v" by (simp add: block_for_def)
qed

lemma heap_alloc_walk:
  assumes "v < 2 ^ 63" "al \<le> 16"
  shows "heap_alloc v al h = alloc_walk (block_for v) 0 (hp_free_head h) h"
proof -
  have "(v + 15) div 16 * 16 < 2 ^ 63 + 16" using assms(1) by (auto simp: div_times_less_eq_dividend intro: le_less_trans)
  then have "uadd (max ((v + 15) div 16 * 16) 16) 16 = block_for v"
    by (subst uadd_less) (auto simp: usize_modulus_def block_for_def)
  with assms show ?thesis
    by (simp add: heap_alloc_def BLOCK_ALIGN_def MIN_PAYLOAD_def HEADER_SIZE_def align_up_16 Let_def)
qed

lemma lseg_mem: "lseg m a fs z \<Longrightarrow> (b, s) \<in> set fs \<Longrightarrow> m b = s"
  by (induction m a fs z rule: lseg.induct) auto

text \<open>The live data of a tiling: every cell of a used tile.\<close>

definition keeps_used :: "tile list \<Rightarrow> heap \<Rightarrow> heap \<Rightarrow> bool" where
  "keeps_used ts h h' \<longleftrightarrow> (\<forall>(b, s, f)\<in>set ts. \<not> f \<longrightarrow> (\<forall>c. b \<le> c \<and> c < b + s \<longrightarrow> hp_mem h' c = hp_mem h c))"

lemma keeps_used_iff:
  "keeps_used ts h h' \<longleftrightarrow>
     (\<forall>b s c. (b, s, False) \<in> set ts \<and> b \<le> c \<and> c < b + s \<longrightarrow> hp_mem h' c = hp_mem h c)"
  unfolding keeps_used_def by force

lemma used_outside_frees:
  assumes "tiled a ts e" "(b, s, False) \<in> set ts" "b \<le> c" "c < b + s"
  shows "outside c (frees ts)"
proof -
  have "c < b' \<or> b' + s' \<le> c" if "(b', s', True) \<in> set ts" for b' s'
    using tiled_disjoint[OF assms(1,2) that] assms(3,4) by auto
  then show ?thesis unfolding outside_def frees_mem by (force simp: frees_mem)
qed

lemma keeps_usedI:
  assumes "tiled a ts e" "\<And>c. outside c (frees ts) \<Longrightarrow> hp_mem h' c = hp_mem h c"
  shows "keeps_used ts h h'"
  using used_outside_frees[OF assms(1)] assms(2) unfolding keeps_used_def by auto

lemma heap_relD:
  assumes "heap_rel h ts"
  shows "tiled HEAP_START ts (HEAP_START + HEAP_SIZE)" "coalesced ts"
    "lseg (hp_mem h) (hp_free_head h) (frees ts) 0" "spaced (frees ts)"
    "(b, s, f) \<in> set ts \<Longrightarrow> hp_mem h b = s"
  using assms spaced_frees[of HEAP_START ts] heap_window by (auto simp: heap_rel_def)

lemma heap_alloc_refines_gen:
  assumes rel: "heap_rel h ts" and v: "v < 2 ^ 63" and al: "al \<le> 16"
  shows "case tile_alloc (block_for v) ts of
      None \<Rightarrow> heap_alloc v al h = Some (0, h)
    | Some (b, ts') \<Rightarrow> \<exists>h'. heap_alloc v al h = Some (b + HEADER_SIZE, h') \<and> heap_rel h' ts' \<and> keeps_used ts h h'"
proof (cases "tile_alloc (block_for v) ts")
  case None
  with alloc_walk_none[OF heap_relD(3)[OF rel] None[unfolded tile_alloc_None]] show ?thesis
    by (simp add: heap_alloc_walk[OF v al])
next
  case (Some r)
  obtain b ts' where r: "r = (b, ts')" by (cases r)
  let ?n = "block_for v"
  from tile_alloc_Some Some r obtain us s vs where ts: "ts = us @ (b, s, True) # vs" and n: "?n \<le> s"
    and us: "\<forall>(b, s)\<in>set (frees us). s < ?n"
    and ts': "ts' = us @ (if 32 \<le> s - ?n then (b, ?n, False) # (b + ?n, s - ?n, True) # vs else (b, s, False) # vs)"
    by blast
  have fr: "frees ts = frees us @ (b, s) # frees vs" by (simp add: ts frees_append)
  note chain = heap_relD(3)[OF rel, unfolded fr] and sp = heap_relD(4)[OF rel, unfolded fr]
  let ?h = "take_block ?n (last_addr (frees us)) b h"
  have bnd: "b + s \<le> HEAP_START + HEAP_SIZE" using tiled_bounds[OF heap_relD(1)[OF rel], of b s True] ts by auto
  have "uadd b HEADER_SIZE = b + HEADER_SIZE"
    using bnd n block_for_simps(1)[of v] heap_window by (intro uadd_less) (simp add: HEADER_SIZE_def)
  then have al: "heap_alloc v al h = Some (b + HEADER_SIZE, ?h)"
    using alloc_walk_some[OF chain us n, of 0] heap_alloc_walk[OF v al] by (simp add: last_addr_def)
  have c: "lseg (hp_mem ?h) (hp_free_head ?h) (frees ts') 0"
    "hp_mem ?h b = (if 32 \<le> s - ?n then ?n else s)"
    "\<And>c. outside c (frees ts) \<Longrightarrow> hp_mem ?h c = hp_mem h c"
    using take_block_chain[OF chain sp n block_for_simps(1,2)] unfolding fr
    by (auto simp: ts' frees_append split: if_splits)
  have til: "tiled HEAP_START ts' (HEAP_START + HEAP_SIZE)"
    using heap_relD(1)[OF rel] n block_for_simps(1,2)[of v] unfolding ts ts'
    by (auto simp: tiled_append dvd_diff_nat)
  have coal: "coalesced ts'"
    using heap_relD(2)[OF rel] unfolding ts ts' by (cases vs) (auto simp: coalesced_append)
  have keep: "keeps_used ts h ?h" by (rule keeps_usedI[OF heap_relD(1)[OF rel] c(3)])
  have "hp_mem ?h x = t" if "(x, t, f) \<in> set ts'" for x t f
  proof (cases f)
    case True
    with that lseg_mem[OF c(1)] show ?thesis by (auto simp: frees_mem)
  next
    case False
    with that c(2) consider "x = b" "hp_mem ?h b = t" | "(x, t, False) \<in> set ts"
      unfolding ts ts' by (auto split: if_splits)
    then show ?thesis
    proof cases
      case 2
      moreover have "0 < t" using tiled_bounds[OF heap_relD(1)[OF rel] 2] by simp
      ultimately show ?thesis using keep heap_relD(5)[OF rel 2] by (fastforce simp: keeps_used_def)
    qed simp
  qed
  with til coal c(1) have "heap_rel ?h ts'" by (auto simp: heap_rel_def)
  with al keep Some r show ?thesis by auto
qed

subsection \<open>Release implements complete coalescing\<close>

lemma merge_head_cases:
  "merge_head (b, s, f) ts =
     (if f \<and> ts \<noteq> [] \<and> snd (snd (hd ts)) then (b, s + fst (snd (hd ts)), True) # tl ts else (b, s, f) # ts)"
  by (cases "((b, s, f), ts)" rule: merge_head.cases) auto

lemma coalesced_Cons:
  "coalesced (t # ts) \<longleftrightarrow> coalesced ts \<and> (ts \<noteq> [] \<longrightarrow> \<not> (snd (snd t) \<and> snd (snd (hd ts))))"
  using coalesced_append[of "[t]" ts] by (cases t) auto

lemma coalesced_coalesce: "coalesced (coalesce ts)"
proof (induction ts)
  case (Cons t ts)
  obtain b s f where t: "t = (b, s, f)" by (cases t)
  from Cons show ?case
    by (cases "coalesce ts") (auto simp: t merge_head_cases coalesced_Cons)
qed simp

lemma coalesce_id: "coalesced ts \<Longrightarrow> coalesce ts = ts"
proof (induction ts)
  case (Cons t ts)
  then show ?case by (cases t) (auto simp: merge_head_cases coalesced_Cons)
qed simp

lemma tiled_coalesce: "tiled a ts e \<Longrightarrow> tiled a (coalesce ts) e"
proof (induction ts arbitrary: a)
  case (Cons t ts)
  obtain b s f where t: "t = (b, s, f)" by (cases t)
  with Cons have c: "b = a" "32 \<le> s" "16 dvd s" "tiled (a + s) (coalesce ts) e" by auto
  then show ?case
    by (cases "coalesce ts") (auto simp: t merge_head_cases add.assoc)
qed simp

lemma used_coalesce: "(x, t, False) \<in> set (coalesce ts) \<longleftrightarrow> (x, t, False) \<in> set ts"
proof (induction ts)
  case (Cons u ts)
  obtain b s f where u: "u = (b, s, f)" by (cases u)
  from Cons show ?case
    by (cases "coalesce ts") (auto simp: u merge_head_cases)
qed simp

lemma coalesce_append:
  assumes "coalesced us" "coalesce vs = (b, s, True) # ws" "us \<noteq> []"
  shows "coalesce (us @ vs) =
    (case last us of (x, t, f) \<Rightarrow> if f then butlast us @ (x, t + s, True) # ws else us @ (b, s, True) # ws)"
  using assms
proof (induction us)
  case (Cons u us)
  obtain x t f where u: "u = (x, t, f)" by (cases u)
  show ?case
  proof (cases "us = []")
    case True
    with Cons.prems u show ?thesis by (simp add: merge_head_cases)
  next
    case False
    obtain y r g where hd: "hd us = (y, r, g)" by (cases "hd us")
    obtain z q k where la: "last us = (z, q, k)" by (cases "last us")
    have ih: "coalesce (us @ vs) =
      (case last us of (x, t, f) \<Rightarrow> if f then butlast us @ (x, t + s, True) # ws else us @ (b, s, True) # ws)"
      using Cons False by (simp add: coalesced_Cons)
    have "\<not> (f \<and> g)" using Cons.prems(1) False u hd by (simp add: coalesced_Cons)
    moreover have "snd (snd (hd (coalesce (us @ vs)))) = g"
      using ih la hd False by (cases us rule: rev_cases) (auto simp: hd_append split: if_splits)
    ultimately have "merge_head u (coalesce (us @ vs)) = u # coalesce (us @ vs)"
      unfolding u merge_head_cases by (metis (full_types))
    with ih False la show ?thesis by simp
  qed
qed simp

lemma frees_merge_head:
  assumes "tiled (b + s) vs e"
  shows "frees (merge_head (b, s, True) vs) = join_next (b, s) (frees vs)"
proof (cases vs)
  case (Cons v vs')
  obtain x t f where v: "v = (x, t, f)" by (cases v)
  have x: "x = b + s" "32 \<le> t" "tiled (b + s + t) vs' e" using assms Cons v by auto
  show ?thesis
  proof (cases f)
    case False
    have "frees vs' = [] \<or> (\<exists>y r zs. frees vs' = (y, r) # zs \<and> b + s + t \<le> y)"
      using tiled_bounds[OF x(3)] frees_mem[of _ _ vs'] by (cases "frees vs'") (auto, force)
    then show ?thesis using False Cons v x(2) by (auto simp: merge_head_cases)
  qed (use Cons v x in \<open>simp add: merge_head_cases\<close>)
qed (simp add: merge_head_cases)

lemma frees_last:
  assumes "tiled a us m" "us \<noteq> []" "last us = (x, t, f)"
  shows "x + t = m"
    and "f \<Longrightarrow> frees us = frees (butlast us) @ [(x, t)]"
    and "\<not> f \<Longrightarrow> frees us \<noteq> [] \<Longrightarrow> last_addr (frees us) + snd (last (frees us)) < m"
proof -
  have us: "us = butlast us @ [(x, t, f)]" using assms by (metis append_butlast_last_id)
  with assms(1) have til: "tiled a (butlast us @ [(x, t, f)]) m" by simp
  then have x: "x + t = m" "tiled a (butlast us) x" "32 \<le> t" by (auto simp: tiled_append)
  show "x + t = m" by (rule x(1))
  show "f \<Longrightarrow> frees us = frees (butlast us) @ [(x, t)]" by (subst us) (simp add: frees_append)
  assume f: "\<not> f" "frees us \<noteq> []"
  have fr: "frees us = frees (butlast us)" using f(1) by (subst us) (simp add: frees_append)
  then have "last (frees us) \<in> set (frees (butlast us))" using f(2) by auto
  then have "fst (last (frees us)) + snd (last (frees us)) \<le> x"
    using tiled_bounds[OF x(2)] frees_mem by (metis prod.collapse)
  then show "last_addr (frees us) + snd (last (frees us)) < m" using x f(2) by (simp add: last_addr_def)
qed

lemma merge_head_free: "\<exists>s' ws. merge_head (b, s, True) vs = (b, s', True) # ws"
  by (simp add: merge_head_cases)

lemma frees_tile_free:
  assumes til: "tiled a (us @ (b, s, True) # vs) e" and co: "coalesced us" "coalesced vs"
  shows "frees (coalesce (us @ (b, s, True) # vs)) = join_prev (frees us) (join_next (b, s) (frees vs))"
proof -
  have us: "tiled a us b" and vs: "tiled (b + s) vs e" using til by (auto simp: tiled_append)
  obtain s' ws where ws: "merge_head (b, s, True) vs = (b, s', True) # ws" using merge_head_free by blast
  then have c: "coalesce ((b, s, True) # vs) = (b, s', True) # ws" using coalesce_id[OF co(2)] by simp
  have j: "join_next (b, s) (frees vs) = (b, s') # frees ws" using frees_merge_head[OF vs] ws by simp
  show ?thesis
  proof (cases "us = []")
    case True
    with c j show ?thesis by (simp add: join_prev_def)
  next
    case False
    obtain x t f where la: "last us = (x, t, f)" by (cases "last us")
    note fl = frees_last[OF us False la]
    note ca = coalesce_append[OF co(1) c False, unfolded la, simplified]
    show ?thesis
    proof (cases f)
      case True
      with ca have "frees (coalesce (us @ (b, s, True) # vs)) = frees (butlast us) @ (x, t + s') # frees ws"
        by (simp add: frees_append)
      moreover have "join_prev (frees us) (join_next (b, s) (frees vs)) = frees (butlast us) @ (x, t + s') # frees ws"
        using fl(1) fl(2)[OF True] j by (simp add: join_prev_def)
      ultimately show ?thesis by simp
    next
      case False
      with ca have "frees (coalesce (us @ (b, s, True) # vs)) = frees us @ (b, s') # frees ws"
        by (simp add: frees_append)
      with fl(3)[OF False] j show ?thesis by (auto simp: join_prev_def)
    qed
  qed
qed

lemma tile_split:
  assumes "tiled a ts e" "(b, s, False) \<in> set ts"
  shows "\<exists>us vs. ts = us @ (b, s, False) # vs \<and> mark_free b ts = us @ (b, s, True) # vs \<and>
    (\<forall>t\<in>set us. fst t < b) \<and> (\<forall>t\<in>set vs. b < fst t)"
proof -
  obtain us vs where ts: "ts = us @ (b, s, False) # vs" using assms(2) by (meson split_list)
  with assms(1) have t: "tiled a us b" "tiled (b + s) vs e" "32 \<le> s" by (auto simp: tiled_append)
  have 1: "\<forall>t\<in>set us. fst t < b" using tiled_bounds[OF t(1)] by fastforce
  have 2: "\<forall>t\<in>set vs. b < fst t" using tiled_bounds[OF t(2)] t(3) by fastforce
  have "map (\<lambda>(b', s', f). (b', s', f \<or> b' = b)) us = us" "map (\<lambda>(b', s', f). (b', s', f \<or> b' = b)) vs = vs"
    using 1 2 by (auto intro!: map_idI)
  with ts 1 2 show ?thesis by (auto simp: mark_free_def)
qed

lemma heap_dealloc_refines_gen:
  assumes rel: "heap_rel h ts" and live: "(b, s, False) \<in> set ts"
  shows "\<exists>h'. heap_dealloc (b + HEADER_SIZE) h = Some h' \<and> heap_rel h' (tile_free b ts) \<and>
    keeps_used (filter (\<lambda>t. fst t \<noteq> b) ts) h h'"
proof -
  note til = heap_relD(1)[OF rel]
  obtain us vs where ts: "ts = us @ (b, s, False) # vs" and mk: "mark_free b ts = us @ (b, s, True) # vs"
    using tile_split[OF til live] by blast
  have til': "tiled HEAP_START (us @ (b, s, True) # vs) (HEAP_START + HEAP_SIZE)"
    using til ts by (auto simp: tiled_append)
  have fr: "frees ts = frees us @ frees vs" by (simp add: ts frees_append)
  have fr': "frees (us @ (b, s, True) # vs) = frees us @ (b, s) # frees vs" by (simp add: frees_append)
  have sp: "spaced (frees us @ (b, s) # frees vs)"
    using spaced_frees[OF til'] heap_window fr' by simp
  have co: "coalesced us" "coalesced vs" using heap_relD(2)[OF rel] by (auto simp: ts coalesced_append coalesced_Cons)
  obtain h' where h': "heap_dealloc (b + HEADER_SIZE) h = Some h'"
    "lseg (hp_mem h') (hp_free_head h') (join_prev (frees us) (join_next (b, s) (frees vs))) 0"
    "\<And>c. outside c (frees us @ (b, s) # frees vs) \<Longrightarrow> hp_mem h' c = hp_mem h c"
    using dealloc_chain[OF heap_relD(3)[OF rel, unfolded fr] sp heap_relD(5)[OF rel live]] by blast
  have chain: "lseg (hp_mem h') (hp_free_head h') (frees (tile_free b ts)) 0"
    using h'(2) frees_tile_free[OF til' co] mk by (simp add: tile_free_def)
  have keep0: "keeps_used (us @ (b, s, True) # vs) h h'"
    using keeps_usedI[OF til'] h'(3) fr' by simp
  then have keep: "keeps_used (filter (\<lambda>t. fst t \<noteq> b) ts) h h'"
    unfolding ts keeps_used_iff by auto
  have "hp_mem h' x = t" if "(x, t, f) \<in> set (tile_free b ts)" for x t f
  proof (cases f)
    case True
    with that lseg_mem[OF chain] show ?thesis by (auto simp: frees_mem)
  next
    case False
    then have u: "(x, t, False) \<in> set (us @ (b, s, True) # vs)"
      using that mk by (simp add: tile_free_def used_coalesce)
    moreover have "0 < t" using tiled_bounds[OF til' u] by simp
    moreover have "hp_mem h x = t" using u heap_relD(5)[OF rel, of x t False] ts by auto
    ultimately show ?thesis using keep0[unfolded keeps_used_iff, rule_format, of x t x] by simp
  qed
  moreover have "tiled HEAP_START (tile_free b ts) (HEAP_START + HEAP_SIZE)"
    using tiled_coalesce[OF til'] mk by (simp add: tile_free_def)
  moreover have "coalesced (tile_free b ts)" by (simp add: tile_free_def coalesced_coalesce)
  ultimately have "heap_rel h' (tile_free b ts)" using chain by (auto simp: heap_rel_def)
  with h'(1) keep show ?thesis by blast
qed

subsection \<open>Runs of the allocator and its clients\<close>

text \<open>
  The clients own the pointers they were given: \<open>live\<close> records the requested sizes.  A client may
  release a pointer it owns and write the cells of its payloads, and nothing else.
\<close>

datatype heap_op = HAlloc nat nat | HFree nat | HWrite nat nat

fun heap_exec :: "heap_op \<Rightarrow> heap \<times> (nat \<rightharpoonup> nat) \<Rightarrow> (heap \<times> (nat \<rightharpoonup> nat)) option" where
  "heap_exec (HAlloc v al) (h, live) =
     (case heap_alloc v al h of None \<Rightarrow> None
      | Some (p, h') \<Rightarrow> Some (h', if p = 0 then live else live(p \<mapsto> v)))"
| "heap_exec (HFree p) (h, live) =
     (case heap_dealloc p h of None \<Rightarrow> None | Some h' \<Rightarrow> Some (h', live(p := None)))"
| "heap_exec (HWrite c x) (h, live) = Some (h\<lparr>hp_mem := (hp_mem h)(c := x)\<rparr>, live)"

text \<open>The caller's side of \<open>GlobalAlloc\<close>.\<close>

fun heap_op_ok :: "heap_op \<Rightarrow> (nat \<rightharpoonup> nat) \<Rightarrow> bool" where
  "heap_op_ok (HAlloc v al) live = (v < 2 ^ 63)"
| "heap_op_ok (HFree p) live = (live p \<noteq> None)"
| "heap_op_ok (HWrite c x) live = (\<exists>p v. live p = Some v \<and> p \<le> c \<and> c < p + v)"

inductive heap_reach :: "heap \<times> (nat \<rightharpoonup> nat) \<Rightarrow> bool" where
  heap_start: "heap_reach (init_free_list h, Map.empty)"
| heap_step: "heap_reach (h, live) \<Longrightarrow> heap_op_ok op live \<Longrightarrow> heap_exec op (h, live) = Some (h', live') \<Longrightarrow>
    heap_reach (h', live')"

definition owns :: "(nat \<rightharpoonup> nat) \<Rightarrow> tile list \<Rightarrow> bool" where
  "owns live ts \<longleftrightarrow>
     (\<forall>p v. live p = Some v \<longrightarrow> (\<exists>b s. p = b + HEADER_SIZE \<and> (b, s, False) \<in> set ts \<and> v + 16 \<le> s)) \<and>
     (\<forall>b s. (b, s, False) \<in> set ts \<longrightarrow> live (b + HEADER_SIZE) \<noteq> None)"

lemma ownsE:
  assumes "owns live ts" "live p = Some v"
  obtains b s where "p = b + HEADER_SIZE" "(b, s, False) \<in> set ts" "v + 16 \<le> s"
  using assms unfolding owns_def by blast

lemma init_free_list_rel: "heap_rel (init_free_list h) [(HEAP_START, HEAP_SIZE, True)]"
  using heap_window(2)
  by (simp add: heap_rel_def init_free_list_def set_next_def set_size_def) (simp add: HEAP_SIZE_def)

text \<open>Writing a cell of a live payload leaves every header alone.\<close>

lemma write_payload_rel:
  assumes rel: "heap_rel h ts" and used: "(b, s, False) \<in> set ts" "b + 16 \<le> c" "c < b + s"
  shows "heap_rel (h\<lparr>hp_mem := (hp_mem h)(c := x)\<rparr>) ts"
proof -
  have "lseg ((hp_mem h)(c := x)) (hp_free_head h) (frees ts) 0"
  proof (rule lseg_outside[OF heap_relD(3,4)[OF rel]])
    fix d assume "\<not> outside d (frees ts)"
    moreover have "outside c (frees ts)" using used_outside_frees[OF heap_relD(1)[OF rel] used(1)] used by simp
    ultimately show "((hp_mem h)(c := x)) d = hp_mem h d" by auto
  qed
  moreover have "((hp_mem h)(c := x)) b' = s'" if m: "(b', s', f) \<in> set ts" for b' s' f
  proof -
    have "32 \<le> s'" using tiled_bounds[OF heap_relD(1)[OF rel] m] by simp
    then have "b' \<noteq> c" using tiled_disjoint[OF heap_relD(1)[OF rel] used(1) m] used by auto
    then show ?thesis using heap_relD(5)[OF rel m] by simp
  qed
  ultimately show ?thesis using rel by (auto simp: heap_rel_def)
qed

lemma tile_alloc_used:
  assumes "tile_alloc n ts = Some (b, ts')" "tiled a ts e"
  shows "(b, n, False) \<in> set ts' \<or> (\<exists>s\<ge>n. (b, s, False) \<in> set ts')"
    and "(x, t, False) \<in> set ts' \<Longrightarrow> x = b \<or> (x, t, False) \<in> set ts"
    and "(x, t, False) \<in> set ts \<Longrightarrow> (x, t, False) \<in> set ts' \<and> x \<noteq> b"
proof -
  obtain us s vs where ts: "ts = us @ (b, s, True) # vs" "n \<le> s"
    "ts' = us @ (if 32 \<le> s - n then (b, n, False) # (b + n, s - n, True) # vs else (b, s, False) # vs)"
    using tile_alloc_Some[OF assms(1)] by blast
  then show "(b, n, False) \<in> set ts' \<or> (\<exists>s\<ge>n. (b, s, False) \<in> set ts')"
    and "(x, t, False) \<in> set ts' \<Longrightarrow> x = b \<or> (x, t, False) \<in> set ts"
    by (auto split: if_splits)
  assume x: "(x, t, False) \<in> set ts"
  have "32 \<le> s" "32 \<le> t" using tiled_bounds[OF assms(2)] x ts(1) by auto
  then have "x \<noteq> b" using tiled_disjoint[OF assms(2) x, of b s True] ts(1) by auto
  with x ts show "(x, t, False) \<in> set ts' \<and> x \<noteq> b" by (auto split: if_splits)
qed

lemma heap_exec_alloc:
  assumes rel: "heap_rel h ts" and own: "owns live ts" and ok: "heap_op_ok (HAlloc v al) live"
  shows "\<exists>h' live' ts'. heap_exec (HAlloc v al) (h, live) = Some (h', live') \<and> heap_rel h' ts' \<and> owns live' ts' \<and>
    keeps_used ts h h' \<and> (\<forall>p w. live p = Some w \<longrightarrow> live' p = Some w)"
proof (cases "al \<le> 16 \<and> tile_alloc (block_for v) ts \<noteq> None")
  case False
  have "heap_alloc v al h = Some (0, h)"
  proof (cases "al \<le> 16")
    case True
    with False have "tile_alloc (block_for v) ts = None" by blast
    with heap_alloc_refines_gen[OF rel, of v al] True ok show ?thesis by simp
  qed (simp add: heap_alloc_def BLOCK_ALIGN_def)
  then show ?thesis using rel own by (intro exI[of _ h] exI[of _ live] exI[of _ ts]) (simp add: keeps_used_def split: prod.splits)
next
  case True
  then obtain b ts' where t: "tile_alloc (block_for v) ts = Some (b, ts')" by auto
  with heap_alloc_refines_gen[OF rel, of v al] ok True obtain h' where
    h': "heap_alloc v al h = Some (b + HEADER_SIZE, h')" "heap_rel h' ts'" "keeps_used ts h h'" by auto
  note tu = tile_alloc_used[OF t heap_relD(1)[OF rel]]
  have new: "live (b + HEADER_SIZE) = None"
  proof (rule ccontr)
    assume "live (b + HEADER_SIZE) \<noteq> None"
    then obtain s where "(b, s, False) \<in> set ts" using own unfolding owns_def by fastforce
    then show False using tu(3) by blast
  qed
  obtain s where s: "(b, s, False) \<in> set ts'" "block_for v \<le> s" using tu(1) by auto
  have "owns (live(b + HEADER_SIZE \<mapsto> v)) ts'"
    unfolding owns_def
  proof (intro conjI allI impI)
    fix p w assume pw: "(live(b + HEADER_SIZE \<mapsto> v)) p = Some w"
    show "\<exists>b s. p = b + HEADER_SIZE \<and> (b, s, False) \<in> set ts' \<and> w + 16 \<le> s"
    proof (cases "p = b + HEADER_SIZE")
      case True
      with pw s block_for_simps(3)[of v] show ?thesis by (intro exI[of _ b] exI[of _ s]) simp
    next
      case False
      with pw have "live p = Some w" by simp
      with own obtain x t where "p = x + HEADER_SIZE" "(x, t, False) \<in> set ts" "w + 16 \<le> t" by (rule ownsE)
      with tu(3) show ?thesis by blast
    qed
  next
    fix x t assume "(x, t, False) \<in> set ts'"
    then show "(live(b + HEADER_SIZE \<mapsto> v)) (x + HEADER_SIZE) \<noteq> None"
      using own tu(2)[of x t] unfolding owns_def by auto
  qed
  with h' new show ?thesis
    by (intro exI[of _ h'] exI[of _ "live(b + HEADER_SIZE \<mapsto> v)"] exI[of _ ts']) (auto simp: HEADER_SIZE_def)
qed

lemma heap_exec_free:
  assumes rel: "heap_rel h ts" and own: "owns live ts" and ok: "heap_op_ok (HFree p) live"
  shows "\<exists>h' ts'. heap_exec (HFree p) (h, live) = Some (h', live(p := None)) \<and> heap_rel h' ts' \<and>
    owns (live(p := None)) ts' \<and> keeps_used (filter (\<lambda>t. fst t + HEADER_SIZE \<noteq> p) ts) h h'"
proof -
  from ok obtain v where "live p = Some v" by auto
  with own obtain b s where b: "p = b + HEADER_SIZE" "(b, s, False) \<in> set ts" by (rule ownsE)
  from heap_dealloc_refines_gen[OF rel b(2)] obtain h' where
    h': "heap_dealloc p h = Some h'" "heap_rel h' (tile_free b ts)" "keeps_used (filter (\<lambda>t. fst t \<noteq> b) ts) h h'"
    using b(1) by blast
  have used: "(x, t, False) \<in> set (tile_free b ts) \<longleftrightarrow> (x, t, False) \<in> set ts \<and> x \<noteq> b" for x t
    by (force simp: tile_free_def used_coalesce mark_free_def image_iff)
  have "owns (live(p := None)) (tile_free b ts)"
    unfolding owns_def used
  proof (intro conjI allI impI)
    fix q w assume "(live(p := None)) q = Some w"
    then have q: "live q = Some w" "q \<noteq> p" by (auto split: if_splits)
    from own q(1) obtain x t where "q = x + HEADER_SIZE" "(x, t, False) \<in> set ts" "w + 16 \<le> t" by (rule ownsE)
    with q b show "\<exists>x t. q = x + HEADER_SIZE \<and> ((x, t, False) \<in> set ts \<and> x \<noteq> b) \<and> w + 16 \<le> t" by blast
  next
    fix x t assume "(x, t, False) \<in> set ts \<and> x \<noteq> b"
    then show "(live(p := None)) (x + HEADER_SIZE) \<noteq> None" using own b unfolding owns_def by auto
  qed
  with h' b show ?thesis by (auto simp: keeps_used_iff)
qed

lemma heap_exec_write:
  assumes rel: "heap_rel h ts" and own: "owns live ts" and ok: "heap_op_ok (HWrite c x) live"
  shows "heap_rel (h\<lparr>hp_mem := (hp_mem h)(c := x)\<rparr>) ts"
proof -
  from ok obtain p v where pv: "live p = Some v" "p \<le> c" "c < p + v" by auto
  from own pv(1) obtain b s where b: "p = b + HEADER_SIZE" "(b, s, False) \<in> set ts" "v + 16 \<le> s" by (rule ownsE)
  with pv show ?thesis by (intro write_payload_rel[OF rel b(2)]) (simp_all add: HEADER_SIZE_def)
qed

lemma heap_reach_rel:
  assumes "heap_reach st"
  shows "\<exists>ts. heap_rel (fst st) ts \<and> owns (snd st) ts"
  using assms
proof (induction rule: heap_reach.induct)
  case (heap_start h)
  then show ?case
    using init_free_list_rel[of h] by (intro exI[of _ "[(HEAP_START, HEAP_SIZE, True)]"]) (auto simp: owns_def)
next
  case (heap_step h live op h' live')
  then obtain ts where ts: "heap_rel h ts" "owns live ts" by auto
  show ?case
  proof (cases op)
    case (HAlloc v al)
    from heap_exec_alloc[OF ts heap_step.hyps(2)[unfolded HAlloc]] heap_step.hyps(3) HAlloc show ?thesis by auto
  next
    case (HFree p)
    from heap_exec_free[OF ts heap_step.hyps(2)[unfolded HFree]] obtain h'' ts' where
      "heap_exec (HFree p) (h, live) = Some (h'', live(p := None))" "heap_rel h'' ts'" "owns (live(p := None)) ts'"
      by blast
    with heap_step.hyps(3) HFree show ?thesis by (simp del: fun_upd_apply heap_exec.simps) blast
  next
    case (HWrite c x)
    from heap_exec_write[OF ts heap_step.hyps(2)[unfolded HWrite]] heap_step.hyps(3) HWrite ts(2) show ?thesis by auto
  qed
qed

lemma owned_apart:
  assumes rel: "heap_rel h ts" and own: "owns live ts" "live p = Some v" "live q = Some w" "p \<noteq> q"
  shows "p + v \<le> q - HEADER_SIZE \<or> q + w \<le> p - HEADER_SIZE"
proof -
  from own(1,2) obtain b s where b: "p = b + HEADER_SIZE" "(b, s, False) \<in> set ts" "v + 16 \<le> s" by (rule ownsE)
  from own(1,3) obtain b' s' where b': "q = b' + HEADER_SIZE" "(b', s', False) \<in> set ts" "w + 16 \<le> s'" by (rule ownsE)
  from tiled_disjoint[OF heap_relD(1)[OF rel] b(2) b'(2)] b b' own(4) show ?thesis
    by (auto simp: HEADER_SIZE_def)
qed

lemma owned_inside:
  assumes rel: "heap_rel h ts" and own: "owns live ts" "live p = Some v"
  shows "16 dvd p \<and> HEAP_START + HEADER_SIZE \<le> p \<and> p + v \<le> HEAP_START + HEAP_SIZE"
proof -
  from own obtain b s where b: "p = b + HEADER_SIZE" "(b, s, False) \<in> set ts" "v + 16 \<le> s" by (rule ownsE)
  from tiled_bounds[OF heap_relD(1)[OF rel] b(2)] b heap_window(1) show ?thesis by (auto simp: HEADER_SIZE_def)
qed

lemma keeps_used_payload:
  assumes "keeps_used ts h h'" "owns live ts'" "live p = Some v" "p \<le> c" "c < p + v"
    "\<And>b s. p = b + HEADER_SIZE \<Longrightarrow> (b, s, False) \<in> set ts' \<Longrightarrow> (b, s, False) \<in> set ts"
  shows "hp_mem h' c = hp_mem h c"
proof -
  from assms(2,3) obtain b s where b: "p = b + HEADER_SIZE" "(b, s, False) \<in> set ts'" "v + 16 \<le> s" by (rule ownsE)
  with assms(6) have "(b, s, False) \<in> set ts" by blast
  moreover have "b \<le> c" "c < b + s" using b assms(4,5) by (simp_all add: HEADER_SIZE_def)
  ultimately show ?thesis using assms(1) unfolding keeps_used_iff by blast
qed

lemma heap_exec_keeps:
  assumes rel: "heap_rel h ts" "owns live ts" and ok: "heap_op_ok op live"
  shows "\<exists>h' live'. heap_exec op (h, live) = Some (h', live') \<and>
    (\<forall>p v c. live p = Some v \<and> live' p \<noteq> None \<and> p \<le> c \<and> c < p + v \<and> (\<forall>x. op \<noteq> HWrite c x) \<longrightarrow>
       hp_mem h' c = hp_mem h c)"
proof (cases op)
  case (HAlloc v al)
  from heap_exec_alloc[OF rel ok[unfolded HAlloc]] HAlloc keeps_used_payload[OF _ rel(2)] show ?thesis by blast
next
  case (HFree q)
  from heap_exec_free[OF rel ok[unfolded HFree]] obtain h' where
    h': "heap_exec (HFree q) (h, live) = Some (h', live(q := None))"
    "keeps_used (filter (\<lambda>t. fst t + HEADER_SIZE \<noteq> q) ts) h h'" by blast
  have "hp_mem h' c = hp_mem h c" if "live p = Some v" "(live(q := None)) p \<noteq> None" "p \<le> c" "c < p + v" for p v c
    by (rule keeps_used_payload[OF h'(2) rel(2) that(1,3,4)]) (use that(2) in \<open>auto split: if_splits\<close>)
  with h'(1) HFree show ?thesis by blast
qed auto

text \<open>
  C5: In every state reached by allocations, releases of owned pointers and writes to owned
  payloads, starting from a freshly prepared heap: every owned payload is 16-byte aligned and lies
  inside the heap window behind its header, two owned payloads are disjoint with room for a header
  between them, and the next such operation returns and changes no cell of any payload that stays
  owned, unless it is the write to that cell.
\<close>

theorem kernel_heap_safe:
  assumes "heap_reach (h, live)"
  shows "(\<forall>p v. live p = Some v \<longrightarrow>
      16 dvd p \<and> HEAP_START + HEADER_SIZE \<le> p \<and> p + v \<le> HEAP_START + HEAP_SIZE) \<and>
    (\<forall>p v q w. live p = Some v \<and> live q = Some w \<and> p \<noteq> q \<longrightarrow> p + v \<le> q - HEADER_SIZE \<or> q + w \<le> p - HEADER_SIZE) \<and>
    (\<forall>op. heap_op_ok op live \<longrightarrow> (\<exists>h' live'. heap_exec op (h, live) = Some (h', live') \<and>
      (\<forall>p v c. live p = Some v \<and> live' p \<noteq> None \<and> p \<le> c \<and> c < p + v \<and> (\<forall>x. op \<noteq> HWrite c x) \<longrightarrow>
         hp_mem h' c = hp_mem h c)))"
proof -
  from heap_reach_rel[OF assms] obtain ts where ts: "heap_rel h ts" "owns live ts" by auto
  show ?thesis
    using owned_inside[OF ts] owned_apart[OF ts] heap_exec_keeps[OF ts] by blast
qed

text \<open>
  C26: Once every owned pointer has been released, in whatever order, the whole heap is one
  free block again: an allocation of any size that fits the window succeeds at its start.
\<close>

theorem kernel_heap_no_leak:
  assumes "heap_reach (h, Map.empty)" "block_for v \<le> HEAP_SIZE" "al \<le> BLOCK_ALIGN"
  shows "lseg (hp_mem h) (hp_free_head h) [(HEAP_START, HEAP_SIZE)] 0 \<and>
    (\<exists>h'. heap_alloc v al h = Some (HEAP_START + HEADER_SIZE, h'))"
proof -
  from heap_reach_rel[OF assms(1)] obtain ts where ts: "heap_rel h ts" "owns Map.empty ts" by auto
  have free: "f" if "(b, s, f) \<in> set ts" for b s f
    using that ts(2) by (cases f) (auto simp: owns_def)
  have one: "ts = [(HEAP_START, HEAP_SIZE, True)]"
  proof (cases ts)
    case Nil
    then show ?thesis using heap_relD(1)[OF ts(1)] by (simp add: HEAP_SIZE_def)
  next
    case (Cons t us)
    have all: "snd (snd u)" if "u \<in> set ts" for u using free[of "fst u" "fst (snd u)" "snd (snd u)"] that by simp
    have "us = []"
    proof (rule ccontr)
      assume ne: "us \<noteq> []"
      then have "snd (snd t)" "snd (snd (hd us))" using all Cons by auto
      with heap_relD(2)[OF ts(1)] ne show False by (simp add: Cons coalesced_Cons)
    qed
    moreover obtain b s f where "t = (b, s, f)" by (cases t)
    ultimately show ?thesis using Cons heap_relD(1)[OF ts(1)] free by auto
  qed
  have "v < 2 ^ 63" using assms(2) block_for_simps(3)[of v] by (simp add: HEAP_SIZE_def)
  from heap_alloc_refines_gen[OF ts(1) this] assms(2,3) heap_relD(3)[OF ts(1)] show ?thesis
    unfolding one by (fastforce simp: BLOCK_ALIGN_def split: if_splits)
qed

text \<open>
  C13: On a heap that represents a coalesced tiling of the window, allocation is first fit on
  the tiling (a null pointer with the heap unchanged exactly when no free tile is large enough), and
  releasing a used tile marks it free and merges it with both neighbours; the free list again
  represents the resulting tiling, and the other used tiles keep their contents.
\<close>

theorem kernel_heap_refines:
  assumes "heap_rel h ts" "v < 2 ^ 63" "al \<le> BLOCK_ALIGN"
  shows "(case tile_alloc (block_for v) ts of
      None \<Rightarrow> heap_alloc v al h = Some (0, h)
    | Some (b, ts') \<Rightarrow> \<exists>h'. heap_alloc v al h = Some (b + HEADER_SIZE, h') \<and> heap_rel h' ts' \<and> keeps_used ts h h') \<and>
    (\<forall>b s. (b, s, False) \<in> set ts \<longrightarrow> (\<exists>h'. heap_dealloc (b + HEADER_SIZE) h = Some h' \<and>
      heap_rel h' (tile_free b ts) \<and> keeps_used (filter (\<lambda>t. fst t \<noteq> b) ts) h h'))"
  using heap_alloc_refines_gen[OF assms(1,2)] heap_dealloc_refines_gen[OF assms(1)] assms(3)
  by (simp add: BLOCK_ALIGN_def)

text \<open>A heap with one allocation of 100 bytes, which takes a block of 128.\<close>

definition heap0 :: heap where
  "heap0 = init_free_list \<lparr>hp_mem = (\<lambda>_. 0), hp_free_head = 0\<rparr>"

lemma heap0_rel: "heap_rel heap0 [(HEAP_START, HEAP_SIZE, True)]"
  unfolding heap0_def by (rule init_free_list_rel)

lemma heap0_alloc: "\<exists>h. heap_exec (HAlloc 100 8) (heap0, Map.empty) = Some (h, [HEAP_START + HEADER_SIZE \<mapsto> 100])"
  using heap_alloc_refines_gen[OF heap0_rel, of 100 8]
  by (auto simp: block_for_def HEAP_SIZE_def HEADER_SIZE_def)

theorem kernel_heap_safe_witness:
  "\<exists>h. heap_reach (h, [HEAP_START + HEADER_SIZE \<mapsto> 100]) \<and>
     HEAP_START + HEADER_SIZE + 100 \<le> HEAP_START + HEAP_SIZE \<and>
     (\<exists>h' live'. heap_exec (HFree (HEAP_START + HEADER_SIZE)) (h, [HEAP_START + HEADER_SIZE \<mapsto> 100]) = Some (h', live'))"
proof -
  obtain h where h: "heap_exec (HAlloc 100 8) (heap0, Map.empty) = Some (h, [HEAP_START + HEADER_SIZE \<mapsto> 100])"
    using heap0_alloc by blast
  have r: "heap_reach (h, [HEAP_START + HEADER_SIZE \<mapsto> 100])"
    by (rule heap_step[OF _ _ h]) (simp_all add: heap0_def heap_start)
  have "heap_op_ok (HFree (HEAP_START + HEADER_SIZE)) [HEAP_START + HEADER_SIZE \<mapsto> 100]" by simp
  with kernel_heap_safe[OF r] r show ?thesis by (metis fun_upd_same)
qed

theorem kernel_heap_no_leak_witness:
  "heap_reach (heap0, Map.empty) \<and> (\<exists>h'. heap_alloc 4000000 16 heap0 = Some (HEAP_START + HEADER_SIZE, h'))"
proof -
  have r: "heap_reach (heap0, Map.empty)" by (simp add: heap0_def heap_start)
  with kernel_heap_no_leak[OF r, of 4000000 16] show ?thesis
    by (simp add: block_for_def HEAP_SIZE_def BLOCK_ALIGN_def)
qed

theorem kernel_heap_refines_witness:
  "heap_rel heap0 [(HEAP_START, HEAP_SIZE, True)] \<and>
   (\<exists>h'. heap_alloc 100 8 heap0 = Some (HEAP_START + HEADER_SIZE, h') \<and>
      heap_rel h' [(HEAP_START, 128, False), (HEAP_START + 128, HEAP_SIZE - 128, True)])"
  using kernel_heap_refines[OF heap0_rel, of 100 8] heap0_rel
  by (simp add: block_for_def HEAP_SIZE_def BLOCK_ALIGN_def) blast

end
