(* ===== verification/Kernel_Boot.thy ===== *)
theory Kernel_Boot
  imports Kernel_Paging Kernel_Heap
begin

text \<open>
  Memory after boot: the frames handed out from the bootloader's memory map, and the kernel heap
  mapped frame by frame (\<open>memory::init\<close>, \<open>memory::alloc_frame\<close> and \<open>heap::init_heap\<close> of
  \<open>aios-kernel\<close>).
\<close>

subsection \<open>Frames after boot\<close>

fun alloc_frames :: "nat \<Rightarrow> machine \<Rightarrow> u64 list \<times> machine" where
  "alloc_frames 0 s = ([], s)"
| "alloc_frames (Suc n) s =
     (case alloc_frame s of
        (None, s1) \<Rightarrow> ([], s1)
      | (Some f, s1) \<Rightarrow> (let (fs, s2) = alloc_frames n s1 in (f # fs, s2)))"

definition clip :: "mem_region \<Rightarrow> mem_region" where
  "clip r = \<lparr>mr_start = addr_align_up (mr_start r) PAGE_SIZE, mr_end = addr_align_down (mr_end r) PAGE_SIZE\<rparr>"

text \<open>A usable memory map: physical addresses below 52 bits, regions disjoint.\<close>

definition memmap_ok :: "mem_region list \<Rightarrow> bool" where
  "memmap_ok rs \<longleftrightarrow> (\<forall>r\<in>set rs. mr_start r \<le> mr_end r \<and> unat (mr_end r) < 2 ^ 52) \<and>
     sorted_wrt (\<lambda>r r'. mr_end r \<le> mr_start r' \<or> mr_end r' \<le> mr_start r) rs"

lemma init_regions_eq:
  assumes "length arr = MAX_FRAME_REGIONS" "cnt \<le> MAX_FRAME_REGIONS" "init_regions rs cnt arr = (arr', cnt')"
  shows "cnt' \<le> MAX_FRAME_REGIONS \<and> length arr' = MAX_FRAME_REGIONS \<and>
    take cnt' arr' = take cnt arr @ take (MAX_FRAME_REGIONS - cnt) (filter (\<lambda>r. mr_start r < mr_end r) (map clip rs))"
  using assms
proof (induction rs cnt arr rule: init_regions.induct)
  case (2 r rs cnt arr)
  show ?case
  proof (cases "MAX_FRAME_REGIONS \<le> cnt")
    case False
    have "take (Suc cnt) (arr[cnt := x]) = take cnt arr @ [x]" for x
      using "2.prems" False by (simp add: take_Suc_conv_app_nth)
    moreover have "MAX_FRAME_REGIONS - cnt = Suc (MAX_FRAME_REGIONS - Suc cnt)" using False by simp
    ultimately show ?thesis
      using 2 False by (auto simp: Let_def clip_def split: if_splits)
  qed (use 2 in auto)
qed auto

lemma round_page: "unat (x AND NOT (PAGE_SIZE - 1)) = unat x div 4096 * 4096"
proof -
  have "PAGE_SIZE - 1 = mask 12" by (simp add: PAGE_SIZE_def mask_eq_exp_minus_1)
  then show ?thesis using unat_round_down[of x 12] by simp
qed

lemma clip_ok:
  assumes "unat (mr_end r) < 2 ^ 52" "mr_start r \<le> mr_end r" "mr_start (clip r) < mr_end (clip r)"
  shows "frame_ok (mr_start (clip r)) \<and> frame_ok (mr_end (clip r)) \<and>
    mr_start r \<le> mr_start (clip r) \<and> mr_end (clip r) \<le> mr_end r"
proof -
  have e: "unat (mr_end (clip r)) = unat (mr_end r) div 4096 * 4096"
    by (simp add: clip_def addr_align_down_def round_page)
  have s: "unat (mr_start (clip r)) = (unat (mr_start r) + 4095) div 4096 * 4096"
  proof -
    have "unat (mr_start r) < 2 ^ 52" using assms(1,2) by (simp add: word_le_nat_alt)
    then have "unat (mr_start r + 4095) = unat (mr_start r) + 4095"
      unfolding unat_word_ariths by (subst mod_less) simp_all
    moreover have "mr_start r + PAGE_SIZE - 1 = mr_start r + 4095" by (simp add: PAGE_SIZE_def)
    ultimately show ?thesis unfolding clip_def addr_align_up_def mem_region.simps round_page by metis
  qed
  have le: "unat (mr_end r) div 4096 * 4096 \<le> unat (mr_end r)" by (rule div_times_less_eq_dividend)
  have ge: "unat (mr_start r) \<le> (unat (mr_start r) + 4095) div 4096 * 4096"
    using div_mult_mod_eq[of "unat (mr_start r) + 4095" 4096] mod_less_divisor[of 4096 "unat (mr_start r) + 4095"]
    by linarith
  have lt: "(unat (mr_start r) + 4095) div 4096 * 4096 < unat (mr_end r) div 4096 * 4096"
    using assms(3) unfolding word_less_nat_alt e s .
  show ?thesis
    unfolding frame_ok_iff word_le_nat_alt e s
    using ge le lt assms(1) by (intro conjI dvd_triv_right) linarith+
qed

lemma memory_init_alloc_ok:
  assumes mm: "memmap_ok rs" and st: "length (pg_frame_regions s) = MAX_FRAME_REGIONS" "pg_frame_region s = 0"
    and s'_def: "s' = memory_init off rs s"
  shows "alloc_ok s' \<and> (\<forall>f\<in>avail s'. frame_ok f \<and> (\<exists>r\<in>set rs. mr_start r \<le> f \<and> f < mr_end r))"
proof -
  obtain arr cnt where i: "init_regions rs 0 (pg_frame_regions s) = (arr, cnt)"
    by (cases "init_regions rs 0 (pg_frame_regions s)")
  let ?fs = "filter (\<lambda>r. mr_start r < mr_end r) (map clip rs)"
  have ie: "cnt \<le> length arr" "take cnt arr = take MAX_FRAME_REGIONS ?fs"
    using init_regions_eq[OF st(1) _ i] by auto
  have mem: "\<exists>r\<in>set rs. arr ! k = clip r \<and> mr_start (clip r) < mr_end (clip r)" if "k < cnt" for k
  proof -
    have "arr ! k \<in> set (take cnt arr)" using that ie(1) by (metis in_set_conv_nth length_take min.absorb2 nth_take)
    then have "arr ! k \<in> set ?fs" unfolding ie(2) by (rule in_set_takeD)
    then show ?thesis by auto
  qed
  have ok: "frame_ok (mr_start (arr ! k)) \<and> frame_ok (mr_end (arr ! k)) \<and>
      (\<exists>r\<in>set rs. mr_start r \<le> mr_start (arr ! k) \<and> mr_end (arr ! k) \<le> mr_end r)" if "k < cnt" for k
    using mem[OF that] clip_ok mm unfolding memmap_ok_def by fastforce
  have fields: "pg_frame_regions s' = arr" "pg_frame_region_count s' = cnt" "pg_frame_region s' = 0"
    "0 < cnt \<Longrightarrow> pg_frame_next s' = mr_start (arr ! 0)"
    using st(2) by (simp_all add: s'_def memory_init_def i Let_def)
  have "sorted_wrt (\<lambda>r r'. mr_end r \<le> mr_start r' \<or> mr_end r' \<le> mr_start r) ?fs"
  proof -
    have "sorted_wrt (\<lambda>r r'. mr_start (clip r) < mr_end (clip r) \<and> mr_start (clip r') < mr_end (clip r') \<longrightarrow>
        mr_end (clip r) \<le> mr_start (clip r') \<or> mr_end (clip r') \<le> mr_start (clip r)) rs"
    proof (rule sorted_wrt_mono_rel)
      show "sorted_wrt (\<lambda>r r'. mr_end r \<le> mr_start r' \<or> mr_end r' \<le> mr_start r) rs"
        using mm unfolding memmap_ok_def by (rule conjunct2)
      fix r r' assume r: "r \<in> set rs" "r' \<in> set rs" and d: "mr_end r \<le> mr_start r' \<or> mr_end r' \<le> mr_start r"
      show "mr_start (clip r) < mr_end (clip r) \<and> mr_start (clip r') < mr_end (clip r') \<longrightarrow>
        mr_end (clip r) \<le> mr_start (clip r') \<or> mr_end (clip r') \<le> mr_start (clip r)"
        using clip_ok[of r] clip_ok[of r'] r d mm unfolding memmap_ok_def by (meson order_trans)
    qed
    then show ?thesis by (induction rs) auto
  qed
  then have srt: "sorted_wrt (\<lambda>r r'. mr_end r \<le> mr_start r' \<or> mr_end r' \<le> mr_start r) (take cnt arr)"
    unfolding ie(2) by (rule sorted_wrt_take)
  have dis: "mr_end (arr ! k) \<le> mr_start (arr ! k') \<or> mr_end (arr ! k') \<le> mr_start (arr ! k)"
    if "k < cnt" "k' < cnt" "k \<noteq> k'" for k k'
    using sorted_wrt_nth_less[OF srt, of k k'] sorted_wrt_nth_less[OF srt, of k' k] that ie(1)
    by (cases "k < k'") auto
  have "alloc_ok s'" using ok dis fields by (auto simp: alloc_ok_def region_ok_def)
  moreover have "frame_ok f \<and> (\<exists>r\<in>set rs. mr_start r \<le> f \<and> f < mr_end r)" if "f \<in> avail s'" for f
  proof -
    from that obtain k where "frame_ok f" "k < cnt" "mr_start (arr ! k) \<le> f" "f < mr_end (arr ! k)"
      using fields by (auto simp: avail_def)
    then show ?thesis using ok[of k] by (meson order_trans order_less_le_trans)
  qed
  ultimately show ?thesis by blast
qed

lemma alloc_frames_gen:
  assumes "alloc_ok s" "alloc_frames n s = (fs, s')"
  shows "distinct fs \<and> set fs \<subseteq> avail s \<and> alloc_ok s' \<and> avail s' = avail s - set fs \<and>
    (length fs = n \<or> avail s' = {})"
  using assms
proof (induction n arbitrary: s fs)
  case (Suc n)
  obtain r s1 where af: "alloc_frame s = (r, s1)" by (cases "alloc_frame s")
  note spec = alloc_frame_spec[OF Suc.prems(1), unfolded af, simplified]
  show ?case
  proof (cases r)
    case None
    then show ?thesis using Suc.prems af spec by simp
  next
    case (Some f)
    obtain gs where gs: "alloc_frames n s1 = (gs, s')" "fs = f # gs"
      using Suc.prems(2) af Some by (auto split: prod.splits)
    with Suc.IH[OF _ gs(1)] spec Some show ?thesis by auto
  qed
qed simp

text \<open>
  C28: Frames handed out after boot from a memory map of disjoint usable regions are page aligned,
  pairwise distinct and inside the usable regions, and a request fails only when no whole page of
  the tracked regions is left.
\<close>

theorem frames_unique:
  assumes "memmap_ok regions" "length (pg_frame_regions s) = MAX_FRAME_REGIONS" "pg_frame_region s = 0"
    and "alloc_frames n (memory_init offset regions s) = (fs, s')"
  shows "distinct fs \<and> (\<forall>f\<in>set fs. is_page_aligned f \<and> (\<exists>r\<in>set regions. mr_start r \<le> f \<and> f < mr_end r)) \<and>
    (length fs < n \<longrightarrow> avail (memory_init offset regions s) = set fs)"
proof -
  let ?s = "memory_init offset regions s"
  have i: "alloc_ok ?s" "\<And>f. f \<in> avail ?s \<Longrightarrow> frame_ok f \<and> (\<exists>r\<in>set regions. mr_start r \<le> f \<and> f < mr_end r)"
    using memory_init_alloc_ok[OF assms(1-3) refl] by auto
  from alloc_frames_gen[OF i(1) assms(4)] i(2) frame_ok_aligned show ?thesis by blast
qed

subsection \<open>A small machine\<close>

definition demo_machine :: machine where
  "demo_machine = \<lparr>pg_mem = (\<lambda>_. 0), pg_cr3 = 0x1000, pg_phys_offset = 0, pg_frame_next = 0, pg_frame_region = 0,
     pg_frames_alloc = 0, pg_frame_regions = replicate 16 \<lparr>mr_start = 0, mr_end = 0\<rparr>,
     pg_frame_region_count = 0, pg_mmio_next = MMIO_BASE\<rparr>"

definition demo_regions :: "mem_region list" where
  "demo_regions = [\<lparr>mr_start = 0x2000, mr_end = 0x3000\<rparr>, \<lparr>mr_start = 0x4800, mr_end = 0x1007800\<rparr>]"

definition demo_boot :: machine where
  "demo_boot = memory_init 0 demo_regions demo_machine"

lemma demo_memmap: "memmap_ok demo_regions"
  by (simp add: memmap_ok_def demo_regions_def)

subsection \<open>Mapping the heap\<close>

fun map_heap :: "nat \<Rightarrow> nat \<Rightarrow> machine \<Rightarrow> machine option" where
  "map_heap 0 i s = Some s"
| "map_heap (Suc n) i s =
     (case alloc_frame s of
        (None, _) \<Rightarrow> None
      | (Some frame, s1) \<Rightarrow>
          (case map_page (word_of_nat HEAP_START + word_of_nat i * PAGE_SIZE) frame False s1 of
             (Err _, _) \<Rightarrow> None
           | (Ok _, s2) \<Rightarrow> map_heap n (i + 1) s2))"

definition init_heap :: "machine \<Rightarrow> heap \<Rightarrow> (machine \<times> heap) option" where
  "init_heap s h =
     map_option (\<lambda>s'. (s', init_free_list h)) (map_heap (HEAP_SIZE div unat PAGE_SIZE) 0 s)"

definition heap_page :: "nat \<Rightarrow> u64" where
  "heap_page i = word_of_nat HEAP_START + word_of_nat i * PAGE_SIZE"

lemma unat_heap_page:
  assumes "i < 1024"
  shows "unat (heap_page i) = HEAP_START + i * 4096"
proof -
  have "heap_page i = word_of_nat (HEAP_START + i * 4096)" by (simp add: heap_page_def PAGE_SIZE_def)
  moreover have "unat (word_of_nat (HEAP_START + i * 4096) :: u64) = HEAP_START + i * 4096"
    unfolding unat_of_nat by (rule mod_less) (use assms in \<open>simp add: HEAP_START_def\<close>)
  ultimately show ?thesis by (simp only:)
qed

lemma index_unat: "unat (drop_bit n a AND INDEX_MASK) = unat a div 2 ^ n mod 512"
proof -
  have "INDEX_MASK = mask 9" by (simp add: INDEX_MASK_def mask_eq_exp_minus_1)
  then have "drop_bit n a AND INDEX_MASK = take_bit 9 (drop_bit n a)" by (simp add: take_bit_eq_mask)
  moreover have "unat a mod 18446744073709551616 = unat a" using unat_64_less[of a] by (intro mod_less) simp
  ultimately show ?thesis
    by (simp only: unsigned_take_bit_eq unsigned_drop_bit_eq) (simp add: take_bit_eq_mod drop_bit_eq_div)
qed

lemma heap_page_path:
  assumes "i < 1024" "j < 1024" "table_path (heap_page i) = table_path (heap_page j)"
  shows "i = j"
proof -
  obtain c where HS: "HEAP_START = 4096 * (512 * (512 * c))"
    by (rule that[of "0x3FFFFFC00"]) (simp add: HEAP_START_def)
  have dv: "(HEAP_START + k * 4096) div 2 ^ 12 = k + 512 * (512 * c)" for k
    unfolding HS by (simp add: mult.commute)
  have lo: "(HEAP_START + k * 4096) div 2 ^ 12 mod 512 = k mod 512" for k
    unfolding dv by (rule mod_mult_self2)
  have hi: "(HEAP_START + k * 4096) div 2 ^ 21 mod 512 = k div 512 mod 512" for k
  proof -
    have "(HEAP_START + k * 4096) div 2 ^ 21 = (HEAP_START + k * 4096) div 2 ^ 12 div 512"
      unfolding div_mult2_eq[symmetric] by simp
    also have "\<dots> = 512 * c + k div 512" unfolding dv by simp
    finally show ?thesis by simp
  qed
  from assms(3) have "unat (drop_bit 12 (heap_page i) AND INDEX_MASK) = unat (drop_bit 12 (heap_page j) AND INDEX_MASK)"
    "unat (drop_bit 21 (heap_page i) AND INDEX_MASK) = unat (drop_bit 21 (heap_page j) AND INDEX_MASK)"
    by (simp_all add: table_path_def)
  then have "i mod 512 = j mod 512" "i div 512 mod 512 = j div 512 mod 512"
    unfolding index_unat unat_heap_page[OF assms(1)] unat_heap_page[OF assms(2)] lo hi by simp_all
  moreover have "i div 512 mod 512 = i div 512" "j div 512 mod 512 = j div 512" using assms(1,2) by auto
  ultimately show ?thesis by (metis div_mult_mod_eq)
qed

text \<open>The translation after mapping the pages \<open>i\<close>, \<open>i + 1\<close>, \<dots> to the frames of a list.\<close>

fun mapped_to :: "u64 list \<Rightarrow> nat \<Rightarrow> (u64 \<Rightarrow> u64 option) \<Rightarrow> u64 \<Rightarrow> u64 option" where
  "mapped_to [] i tr a = tr a"
| "mapped_to (f # fs) i tr a =
     (if table_path a = table_path (heap_page i) then Some (f OR (a AND 0xFFF)) else mapped_to fs (i + 1) tr a)"

lemma mapped_to_None:
  "(\<And>k. k < length fs \<Longrightarrow> table_path a \<noteq> table_path (heap_page (i + k))) \<Longrightarrow> mapped_to fs i tr a = tr a"
proof (induction fs arbitrary: i)
  case (Cons f fs)
  from Cons.prems[of 0] Cons.IH[of "i + 1"] Cons.prems[of "Suc k" for k] show ?case by simp
qed simp

lemma mapped_to_nth:
  assumes "k < length fs" "i + length fs \<le> 1024" "table_path a = table_path (heap_page (i + k))"
  shows "mapped_to fs i tr a = Some (fs ! k OR (a AND 0xFFF))"
  using assms
proof (induction fs arbitrary: i k)
  case (Cons f fs)
  show ?case
  proof (cases k)
    case 0
    then show ?thesis using Cons.prems by simp
  next
    case (Suc m)
    have "table_path a \<noteq> table_path (heap_page i)"
      using heap_page_path[of i "i + k"] Cons.prems Suc by auto
    then show ?thesis using Cons.IH[of m "i + 1"] Cons.prems Suc by simp
  qed
qed simp

lemma map_heap_spec:
  assumes "pt_ok X s" "i + n \<le> 1024" "map_heap n i s = Some s'"
  shows "\<exists>fs. length fs = n \<and> distinct fs \<and> set fs \<subseteq> avail s \<and> pt_ok (X \<union> set fs) s' \<and>
    (\<forall>a. translate a s' = mapped_to fs i (\<lambda>a. translate a s) a)"
  using assms
proof (induction n arbitrary: i s X)
  case (Suc n)
  from Suc.prems(3) obtain f s1 s2 where af: "alloc_frame s = (Some f, s1)"
    and mp: "map_page (heap_page i) f False s1 = (Ok (), s2)" and mh: "map_heap n (i + 1) s2 = Some s'"
    by (auto simp: heap_page_def split: prod.splits option.splits sum.splits)
  have s1: "quiet_step (insert f X) s s1" "frame_ok f" "f \<in> avail s" "f \<notin> X"
    using alloc_frame_data[OF Suc.prems(1) af] by auto
  have av: "avail s1 = avail s - {f}" using alloc_frame_spec[of s] Suc.prems(1) af by (auto simp: pt_ok_def)
  have ok1: "pt_ok (insert f X) s1" using s1(1) by (simp add: quiet_step_def)
  have s2: "pt_ok (insert f X) s2" "avail s2 \<subseteq> avail s1"
    "\<And>a. translate a s2 = (if table_path a = table_path (heap_page i) then Some (f OR (a AND 0xFFF)) else translate a s)"
    using map_page_spec[OF ok1 s1(2) mp] s1(1) by (auto simp: map_result_def quiet_step_def)
  from Suc.IH[OF s2(1) _ mh] Suc.prems(2) obtain fs where fs: "length fs = n" "distinct fs" "set fs \<subseteq> avail s2"
    "pt_ok (insert f X \<union> set fs) s'" "\<And>a. translate a s' = mapped_to fs (i + 1) (\<lambda>a. translate a s2) a" by auto
  have "translate a s' = mapped_to (f # fs) i (\<lambda>a. translate a s) a" for a
  proof (cases "table_path a = table_path (heap_page i)")
    case True
    have "table_path a \<noteq> table_path (heap_page (i + 1 + k))" if "k < length fs" for k
      using heap_page_path[of i "i + 1 + k"] True that fs(1) Suc.prems(2) by auto
    from mapped_to_None[OF this] True fs(5) s2(3) show ?thesis by simp
  next
    case False
    have "mapped_to gs j (\<lambda>a. translate a s2) a = mapped_to gs j (\<lambda>a. translate a s) a" for gs j
      using False s2(3) by (induction gs arbitrary: j) auto
    then show ?thesis using False fs(5) by simp
  qed
  moreover have "f \<notin> set fs" using fs(3) s2(2) av by auto
  ultimately show ?case
    using fs s1(3) s2(2) av by (intro exI[of _ "f # fs"]) auto
qed simp

lemma heap_page_aligned: "i < 1024 \<Longrightarrow> is_page_aligned (heap_page i)"
proof -
  assume i: "i < 1024"
  have "heap_page i AND (PAGE_SIZE - 1) = take_bit 12 (heap_page i)"
    by (simp add: PAGE_SIZE_def take_bit_eq_mask mask_eq_exp_minus_1)
  then have "unat (heap_page i AND (PAGE_SIZE - 1)) = (HEAP_START + i * 4096) mod 4096"
    by (simp only: unsigned_take_bit_eq unat_heap_page[OF i]) (simp add: take_bit_eq_mod)
  then show ?thesis by (simp add: is_page_aligned_def HEAP_START_def word_unat_eq_iff)
qed

text \<open>Four frames per page always suffice.\<close>

lemma map_heap_succeeds:
  assumes "pt_ok X s" "i + n \<le> 1024" "4 * n \<le> card (avail s)" "\<And>k. k < 1024 \<Longrightarrow> no_huge (heap_page k) s"
  shows "map_heap n i s \<noteq> None"
  using assms
proof (induction n arbitrary: i s X)
  case (Suc n)
  have al: "alloc_ok s" using Suc.prems(1) by (simp add: pt_ok_def)
  obtain f s1 where af: "alloc_frame s = (Some f, s1)"
    using alloc_frame_spec[OF al] Suc.prems(3) by (cases "alloc_frame s"; cases "fst (alloc_frame s)") auto
  have s1: "quiet_step (insert f X) s s1" "frame_ok f" "f \<in> avail s"
    using alloc_frame_data[OF Suc.prems(1) af] by auto
  have av: "avail s1 = avail s - {f}" using alloc_frame_spec[OF al] af by auto
  have ok1: "pt_ok (insert f X) s1" using s1(1) by (simp add: quiet_step_def)
  have nh: "no_huge (heap_page k) s1" if "k < 1024" for k by (rule quiet_no_huge[OF s1(1) Suc.prems(4)[OF that]])
  have c: "4 * n + 3 \<le> card (avail s1)" using av s1(3) Suc.prems(3) by simp
  have i: "i < 1024" "3 \<le> card (avail s1)" using Suc.prems(2) c by auto
  obtain s2 where mp: "map_page (heap_page i) f False s1 = (Ok (), s2)"
    using map_page_succeeds[OF ok1 heap_page_aligned[OF i(1)] frame_ok_aligned[OF s1(2)] i(2) nh[OF i(1)]]
    by (metis prod.collapse)
  have s2: "pt_ok (insert f X) s2" "4 * n \<le> card (avail s2)" "\<And>k. k < 1024 \<Longrightarrow> no_huge (heap_page k) s2"
    using map_page_spec[OF ok1 s1(2) mp] c nh by (auto simp: map_result_def)
  have "map_heap n (i + 1) s2 \<noteq> None" using Suc.IH[OF s2(1) _ s2(2,3)] Suc.prems(2) by simp
  then show ?case using af mp by (simp add: heap_page_def)
qed simp

text \<open>
  C27: Setting up the heap on tables in order, with enough free frames and no huge page over the
  heap window, does not panic; afterwards every byte of the window translates to the frame of its
  page, the frames of different pages are different and were free before, no address outside the
  window translates differently, and the allocator starts with the whole window as its only free
  block.
\<close>

theorem heap_pages_mapped:
  assumes "pt_ok X s" "4096 \<le> card (avail s)" "\<forall>k<1024. no_huge (heap_page k) s"
  shows "\<exists>s' h' fs. init_heap s h = Some (s', h') \<and> length fs = 1024 \<and> distinct fs \<and> set fs \<subseteq> avail s \<and>
    (\<forall>k<1024. \<forall>a. table_path a = table_path (heap_page k) \<longrightarrow> translate a s' = Some (fs ! k OR (a AND 0xFFF))) \<and>
    (\<forall>a. (\<forall>k<1024. table_path a \<noteq> table_path (heap_page k)) \<longrightarrow> translate a s' = translate a s) \<and>
    heap_rel h' [(HEAP_START, HEAP_SIZE, True)]"
proof -
  have n: "HEAP_SIZE div unat PAGE_SIZE = 1024" by (simp add: HEAP_SIZE_def PAGE_SIZE_def)
  obtain s' where mh: "map_heap 1024 0 s = Some s'"
    using map_heap_succeeds[OF assms(1), of 0 1024] assms(2,3) by auto
  then have ih: "init_heap s h = Some (s', init_free_list h)" unfolding init_heap_def n by simp
  from map_heap_spec[OF assms(1) _ mh] obtain fs where fs: "length fs = 1024" "distinct fs" "set fs \<subseteq> avail s"
    "\<And>a. translate a s' = mapped_to fs 0 (\<lambda>a. translate a s) a" by auto
  have "\<forall>k<1024. \<forall>a. table_path a = table_path (heap_page k) \<longrightarrow> translate a s' = Some (fs ! k OR (a AND 0xFFF))"
    using mapped_to_nth[of _ fs 0] fs(1,4) by simp
  moreover have "\<forall>a. (\<forall>k<1024. table_path a \<noteq> table_path (heap_page k)) \<longrightarrow> translate a s' = translate a s"
    using mapped_to_None[of fs _ 0] fs(1,4) by simp
  ultimately show ?thesis using ih fs(1-3) init_free_list_rel[of h] by blast
qed

subsection \<open>A machine after boot\<close>

text \<open>Empty page tables at frame 1 and a memory map with one large and one small region.\<close>

lemma zero_memory_tables:
  assumes "pg_mem s = (\<lambda>_. 0)"
  shows "table_at s p = Some f \<Longrightarrow> p = [] \<and> f = pg_cr3 s AND PTE_FRAME" "slot s q = 0"
proof -
  have r: "read_entry t i s = 0" for t i by (simp add: read_entry_def assms)
  show "table_at s p = Some f \<Longrightarrow> p = [] \<and> f = pg_cr3 s AND PTE_FRAME"
    by (cases p) (auto simp: r split: option.splits)
  show "slot s q = 0" by (cases q) (simp_all add: r split: option.splits)
qed

lemma boot_pt_ok:
  assumes "memmap_ok rs" "length (pg_frame_regions s) = MAX_FRAME_REGIONS" "pg_frame_region s = 0"
    and "pg_mem s = (\<lambda>_. 0)" "\<forall>r\<in>set rs. pg_cr3 s AND PTE_FRAME < mr_start r"
  shows "pt_ok {} (memory_init off rs s)" "no_huge v (memory_init off rs s)" "translate a (memory_init off rs s) = None"
proof -
  let ?s = "memory_init off rs s"
  have f: "pg_mem ?s = (\<lambda>_. 0)" "pg_cr3 ?s = pg_cr3 s"
    using assms(4) by (simp_all add: memory_init_def Let_def split: prod.splits)
  note zt = zero_memory_tables[OF f(1)]
  have i: "alloc_ok ?s" "\<And>g. g \<in> avail ?s \<Longrightarrow> \<exists>r\<in>set rs. mr_start r \<le> g"
    using memory_init_alloc_ok[OF assms(1-3) refl] by blast+
  have "tree ?s" unfolding tree_def using zt(1) by blast
  moreover have "g \<notin> avail ?s" if "table_at ?s p = Some g" for p g
    using zt(1)[OF that] i(2)[of g] assms(5) f(2) by force
  ultimately show "pt_ok {} ?s" using i(1) by (auto simp: pt_ok_def)
  show "no_huge v ?s" by (simp add: no_huge_def zt del: slot.simps)
  show "translate a ?s = None" by (simp add: translate_view trans_view_def zt Let_def del: slot.simps)
qed

lemma demo_machine_ok:
  "length (pg_frame_regions demo_machine) = MAX_FRAME_REGIONS" "pg_frame_region demo_machine = 0"
  "pg_mem demo_machine = (\<lambda>_. 0)" "\<forall>r\<in>set demo_regions. pg_cr3 demo_machine AND PTE_FRAME < mr_start r"
  by (simp_all add: demo_machine_def demo_regions_def MAX_FRAME_REGIONS_def PTE_FRAME_def)

lemmas demo_boot_ok = boot_pt_ok[OF demo_memmap demo_machine_ok, where off = 0, folded demo_boot_def]

lemma demo_boot_fields:
  "pg_frame_region_count demo_boot = 2" "pg_frame_region demo_boot = 0" "pg_frame_next demo_boot = 0x2000"
  "pg_frame_regions demo_boot ! 0 = \<lparr>mr_start = 0x2000, mr_end = 0x3000\<rparr>"
  "pg_frame_regions demo_boot ! Suc 0 = \<lparr>mr_start = 0x5000, mr_end = 0x1007000\<rparr>"
  by (simp_all add: demo_boot_def memory_init_def demo_regions_def demo_machine_def MAX_FRAME_REGIONS_def Let_def
      addr_align_up_def addr_align_down_def PAGE_SIZE_def)

lemma demo_avail: "4096 \<le> card (avail demo_boot)"
proof -
  let ?f = "\<lambda>k. word_of_nat (0x5000 + k * 4096) :: u64"
  have u: "unat (?f k) = 0x5000 + k * 4096" if "k < 4096" for k
    unfolding unat_of_nat by (rule mod_less) (use that in simp)
  have "inj_on ?f {..<4096}"
  proof (rule inj_onI)
    fix k l assume kl: "k \<in> {..<4096}" "l \<in> {..<4096}" and eq: "?f k = ?f l"
    have "0x5000 + k * 4096 = 0x5000 + l * 4096" using u[of k] u[of l] kl arg_cong[OF eq, of unat] by simp
    then show "k = l" by simp
  qed
  then have "card (?f ` {..<4096}) = 4096" by (simp add: card_image)
  moreover have "?f ` {..<4096} \<subseteq> avail demo_boot"
  proof (rule image_subsetI)
    fix k :: nat assume k: "k \<in> {..<4096}"
    have "unat (?f k) < 2 ^ 52" "4096 dvd unat (?f k)" using u[of k] k by (simp_all add: dvd_add)
    moreover have "0x5000 \<le> ?f k" "?f k < 0x1007000"
      unfolding word_le_nat_alt word_less_nat_alt using u[of k] k by simp_all
    ultimately show "?f k \<in> avail demo_boot"
      unfolding avail_def frame_ok_iff mem_Collect_eq
      by (intro conjI disjI2 exI[of _ "Suc 0"]) (simp_all add: demo_boot_fields)
  qed
  ultimately show ?thesis by (metis card_mono finite)
qed

theorem frames_unique_witness:
  "memmap_ok demo_regions \<and> fst (alloc_frames 3 (memory_init 0 demo_regions demo_machine)) = [0x2000, 0x5000, 0x6000] \<and>
   distinct [0x2000, 0x5000, 0x6000 :: u64]"
proof -
  obtain fs s' where a: "alloc_frames 3 (memory_init 0 demo_regions demo_machine) = (fs, s')"
    by (cases "alloc_frames 3 (memory_init 0 demo_regions demo_machine)")
  have "fs = [0x2000, 0x5000, 0x6000]"
    using a unfolding demo_boot_def[symmetric]
    by (simp add: numeral_3_eq_3 alloc_frame.simps demo_boot_fields Let_def PAGE_SIZE_def)
  with frames_unique[OF demo_memmap _ _ a] a demo_memmap show ?thesis
    by (simp add: demo_machine_def MAX_FRAME_REGIONS_def)
qed

theorem paging_map_unmap_witness:
  "\<exists>s'. map_page 0x40000000 0x2000000 True demo_boot = (Ok (), s') \<and> translate 0x40000123 s' = Some 0x2000123 \<and>
     translate 0x40000123 (unmap_page 0x40000000 s') = None"
proof -
  have fk: "frame_ok 0x2000000" by (simp add: frame_ok_def PTE_FRAME_def)
  have c: "3 \<le> card (avail demo_boot)" using demo_avail by simp
  have "fst (map_page 0x40000000 0x2000000 True demo_boot) = Ok ()"
    by (rule map_page_succeeds[OF demo_boot_ok(1) _ _ c demo_boot_ok(2)])
      (simp_all add: is_page_aligned_def PAGE_SIZE_def)
  then obtain s' where mp: "map_page 0x40000000 0x2000000 True demo_boot = (Ok (), s')"
    by (cases "map_page 0x40000000 0x2000000 True demo_boot") auto
  have "table_path 0x40000123 = table_path 0x40000000" by (simp add: table_path_def INDEX_MASK_def)
  with paging_map_unmap[OF demo_boot_ok(1) fk, of "0x40000000" True] mp show ?thesis by simp
qed

theorem paging_selftest_passes_witness:
  "\<exists>s'. paging_selftest demo_boot = Some (Ok (), s') \<and> translate SELFTEST_ADDR s' = None"
  using paging_selftest_passes[OF demo_boot_ok(1) demo_boot_ok(3) demo_boot_ok(2)] demo_avail demo_boot_ok(3) by auto

theorem heap_pages_mapped_witness:
  "\<exists>s' h' fs. init_heap demo_boot heap0 = Some (s', h') \<and> distinct fs \<and>
     translate (heap_page 5) s' = Some (fs ! 5 OR (heap_page 5 AND 0xFFF)) \<and> heap_rel h' [(HEAP_START, HEAP_SIZE, True)]"
proof -
  from heap_pages_mapped[OF demo_boot_ok(1) demo_avail, of heap0] demo_boot_ok(2)
  obtain s' h' fs where "init_heap demo_boot heap0 = Some (s', h')" "distinct fs" "heap_rel h' [(HEAP_START, HEAP_SIZE, True)]"
    "\<forall>k<1024. \<forall>a. table_path a = table_path (heap_page k) \<longrightarrow> translate a s' = Some (fs ! k OR (a AND 0xFFF))" by blast
  then show ?thesis by (intro exI[of _ s'] exI[of _ h'] exI[of _ fs]) simp
qed

end
