(* ===== verification/Kernel_Net.thy ===== *)
theory Kernel_Net
  imports Prelude
begin

text \<open>
  The IPv4 layer below the kernel sockets (\<open>aios-kernel/src/net.rs\<close>): byte order, the Internet
  checksum, the ARP cache, routing, sending with its loopback queue, and the demultiplexing of
  received frames down to the DHCP and DNS replies.  The static variables are fields of one record.
  The network adapter is the field \<open>nt_uplink\<close> (the error it answers, if any); frames handed to it are
  kept in \<open>nt_out\<close>, the newest last.  Deliveries to the sockets are returned as values.
\<close>

type_synonym ip4 = bytes
type_synonym mac = bytes

abbreviation ETHERTYPE_IPV4 :: u16 where "ETHERTYPE_IPV4 \<equiv> 0x0800"
abbreviation ETHERTYPE_ARP :: u16 where "ETHERTYPE_ARP \<equiv> 0x0806"
abbreviation PROTO_ICMP :: u8 where "PROTO_ICMP \<equiv> 1"
definition PROTO_TCP :: u8 where "PROTO_TCP = 6"
abbreviation PROTO_UDP :: u8 where "PROTO_UDP \<equiv> 17"
abbreviation ICMP_REPLY :: u8 where "ICMP_REPLY \<equiv> 0"
abbreviation DHCP_OFFER :: u8 where "DHCP_OFFER \<equiv> 2"
abbreviation DHCP_ACK :: u8 where "DHCP_ACK \<equiv> 5"
abbreviation DHCP_NAK :: u8 where "DHCP_NAK \<equiv> 6"
abbreviation DNS_PORT :: u16 where "DNS_PORT \<equiv> 53"
abbreviation DHCP_CLIENT_PORT :: u16 where "DHCP_CLIENT_PORT \<equiv> 68"
abbreviation DHCP_SERVER_PORT :: u16 where "DHCP_SERVER_PORT \<equiv> 67"
abbreviation DNS_SRC_PORT :: u16 where "DNS_SRC_PORT \<equiv> 40000"
abbreviation ICMP_PROBE_ID :: u16 where "ICMP_PROBE_ID \<equiv> 0xA105"
definition NO_IP :: ip4 where "NO_IP = [0, 0, 0, 0]"
abbreviation BROADCAST_IP :: ip4 where "BROADCAST_IP \<equiv> [255, 255, 255, 255]"
definition BROADCAST_MAC :: mac where "BROADCAST_MAC = [0xFF, 0xFF, 0xFF, 0xFF, 0xFF, 0xFF]"
definition ARP_SLOTS :: nat where "ARP_SLOTS = 8"
definition LOOP_L4MAX :: nat where "LOOP_L4MAX = 1472"
definition LOOP_SLOTS :: nat where "LOOP_SLOTS = 16"
abbreviation TIMER_HZ :: u64 where "TIMER_HZ \<equiv> 100"
abbreviation ARP_TTL :: u64 where "ARP_TTL \<equiv> 300 * TIMER_HZ"

subsection \<open>Byte order and slices\<close>

definition be16 :: "u16 \<Rightarrow> bytes" where
  "be16 w = [ucast (drop_bit 8 w), ucast w]"

definition be32 :: "u32 \<Rightarrow> bytes" where
  "be32 w = [ucast (drop_bit 24 w), ucast (drop_bit 16 w), ucast (drop_bit 8 w), ucast w]"

definition from_be16 :: "u8 \<Rightarrow> u8 \<Rightarrow> u16" where
  "from_be16 a b = push_bit 8 (ucast a) OR ucast b"

fun from_be32 :: "bytes \<Rightarrow> u32" where
  "from_be32 [a, b, c, d] = push_bit 24 (ucast a) OR push_bit 16 (ucast b) OR push_bit 8 (ucast c) OR ucast d"
| "from_be32 _ = 0"

fun from_le32 :: "bytes \<Rightarrow> u32" where
  "from_le32 [a, b, c, d] = from_be32 [d, c, b, a]"
| "from_le32 _ = 0"

text \<open>\<open>arr[off..off + n].copy_from_slice(bs)\<close> and \<open>arr[off..off + n]\<close>.\<close>

definition blit :: "nat \<Rightarrow> 'a list \<Rightarrow> 'a list \<Rightarrow> 'a list" where
  "blit off bs arr = take off arr @ bs @ drop (off + length bs) arr"

definition sub_bytes :: "nat \<Rightarrow> nat \<Rightarrow> 'a list \<Rightarrow> 'a list" where
  "sub_bytes off n bs = take n (drop off bs)"

subsection \<open>The Internet checksum\<close>

fun csum_add :: "u32 \<Rightarrow> bytes \<Rightarrow> u32" where
  "csum_add acc (a # b # bs) = csum_add (acc + ucast (from_be16 a b)) bs"
| "csum_add acc [a] = acc + ucast (from_be16 a 0)"
| "csum_add acc [] = acc"

lemma fold_carry_less:
  assumes "drop_bit 16 (acc :: u32) \<noteq> 0"
  shows "unat ((acc AND 0xFFFF) + drop_bit 16 acc) = unat acc mod 2 ^ 16 + unat acc div 2 ^ 16"
    and "unat ((acc AND 0xFFFF) + drop_bit 16 acc) < unat acc"
proof -
  have lo: "unat (acc AND 0xFFFF) = unat acc mod 2 ^ 16"
  proof -
    have "(0xFFFF :: u32) = mask 16" by (simp add: mask_eq_exp_minus_1)
    then have "acc AND 0xFFFF = take_bit 16 acc" by (simp only: take_bit_eq_mask)
    then show ?thesis by (simp only: unsigned_take_bit_eq) (simp only: take_bit_eq_mod)
  qed
  have hi: "unat (drop_bit 16 acc) = unat acc div 2 ^ 16"
    unfolding unsigned_drop_bit_eq by (simp add: take_bit_eq_mod drop_bit_eq_div unat_32_less[simplified])
  have "unat acc div 2 ^ 16 < 2 ^ 16" using unat_32_less[of acc] by (simp add: less_mult_imp_div_less)
  moreover have "unat acc mod 2 ^ 16 < 2 ^ 16" by simp
  ultimately show eq: "unat ((acc AND 0xFFFF) + drop_bit 16 acc) = unat acc mod 2 ^ 16 + unat acc div 2 ^ 16"
    unfolding unat_word_ariths(1) lo hi by (intro mod_less) simp
  have "unat (drop_bit 16 acc) \<noteq> 0" using assms unat_eq_0 by blast
  then have "0 < unat acc div 2 ^ 16" unfolding hi by simp
  then have "unat acc div 2 ^ 16 < unat acc div 2 ^ 16 * 2 ^ 16" by simp
  then show "unat ((acc AND 0xFFFF) + drop_bit 16 acc) < unat acc"
    unfolding eq using div_mult_mod_eq[of "unat acc" "2 ^ 16"] by linarith
qed

function csum_finish :: "u32 \<Rightarrow> u16" where
  "csum_finish acc =
     (if drop_bit 16 acc \<noteq> 0 then csum_finish ((acc AND 0xFFFF) + drop_bit 16 acc) else NOT (ucast acc))"
  by auto
termination
  by (relation "measure unat") (auto intro: fold_carry_less(2))

declare csum_finish.simps [simp del]

definition l4_checksum :: "ip4 \<Rightarrow> ip4 \<Rightarrow> u8 \<Rightarrow> bytes \<Rightarrow> u16" where
  "l4_checksum src dst proto dat =
     (let sum1 = csum_add 0 src; sum2 = csum_add sum1 dst;
          sum3 = sum2 + (ucast proto + word_of_nat (length dat))
      in csum_finish (csum_add sum3 dat))"

subsection \<open>State\<close>

record lease =
  ls_ip :: ip4
  ls_mask :: ip4
  ls_gw :: ip4
  ls_dns1 :: ip4
  ls_dns2 :: ip4
  ls_server :: ip4
  ls_secs :: u32

definition lease_empty :: lease where
  "lease_empty = \<lparr>ls_ip = NO_IP, ls_mask = NO_IP, ls_gw = NO_IP, ls_dns1 = NO_IP, ls_dns2 = NO_IP,
     ls_server = NO_IP, ls_secs = 0\<rparr>"

definition lease_bound :: "lease \<Rightarrow> bool" where
  "lease_bound l = (ls_ip l \<noteq> NO_IP)"

record arp_entry =
  ar_ip :: ip4
  ar_mac :: mac
  ar_age :: u64

record loop_slot =
  lp_proto :: u8
  lp_len :: nat
  lp_data :: bytes
  lp_dst :: ip4

record net =
  nt_ticks :: u64
  nt_mac :: mac
  nt_uplink :: "string option"
  nt_out :: "bytes list"
  nt_bound :: lease
  nt_offer :: lease
  nt_xid :: u32
  nt_dns_xid :: u16
  nt_got_offer :: bool
  nt_got_ack :: bool
  nt_got_nak :: bool
  nt_got_arp :: bool
  nt_got_icmp :: bool
  nt_got_dns :: bool
  nt_arp :: "arp_entry list"
  nt_arp_count :: nat
  nt_loop :: "loop_slot list"
  nt_loop_head :: nat
  nt_loop_count :: nat

text \<open>The statics at boot, with an adapter that works and a bound address.\<close>

definition net_boot :: "mac \<Rightarrow> lease \<Rightarrow> net" where
  "net_boot hw l = \<lparr>nt_ticks = 0, nt_mac = hw, nt_uplink = None, nt_out = [], nt_bound = l, nt_offer = lease_empty,
     nt_xid = 0, nt_dns_xid = 0, nt_got_offer = False, nt_got_ack = False, nt_got_nak = False, nt_got_arp = False,
     nt_got_icmp = False, nt_got_dns = False,
     nt_arp = replicate ARP_SLOTS \<lparr>ar_ip = NO_IP, ar_mac = replicate 6 0, ar_age = 0\<rparr>, nt_arp_count = 0,
     nt_loop = replicate LOOP_SLOTS \<lparr>lp_proto = 0, lp_len = 0, lp_data = replicate LOOP_L4MAX 0, lp_dst = NO_IP\<rparr>,
     nt_loop_head = 0, nt_loop_count = 0\<rparr>"

definition bound_ip :: "net \<Rightarrow> ip4" where
  "bound_ip n = ls_ip (nt_bound n)"

definition uplink_send :: "bytes \<Rightarrow> net \<Rightarrow> (string + unit) \<times> net" where
  "uplink_send frame n =
     (case nt_uplink n of Some e \<Rightarrow> (Err e, n) | None \<Rightarrow> (Ok (), n\<lparr>nt_out := nt_out n @ [frame]\<rparr>))"

subsection \<open>ARP cache\<close>

fun arp_find :: "ip4 \<Rightarrow> u64 \<Rightarrow> arp_entry list \<Rightarrow> mac option" where
  "arp_find ip now [] = None"
| "arp_find ip now (e # es) =
     (if ar_ip e = ip then if now - ar_age e \<le> ARP_TTL then Some (ar_mac e) else None
      else arp_find ip now es)"

definition arp_lookup :: "ip4 \<Rightarrow> net \<Rightarrow> mac option" where
  "arp_lookup ip n = arp_find ip (nt_ticks n) (take (nt_arp_count n) (nt_arp n))"

definition arp_insert :: "ip4 \<Rightarrow> mac \<Rightarrow> net \<Rightarrow> net" where
  "arp_insert ip hw n =
     (if ip = NO_IP then n
      else case position (\<lambda>e. ar_ip e = ip) (take (nt_arp_count n) (nt_arp n)) of
          Some i \<Rightarrow> n\<lparr>nt_arp := (nt_arp n)[i := (nt_arp n ! i)\<lparr>ar_mac := hw, ar_age := nt_ticks n\<rparr>]\<rparr>
        | None \<Rightarrow>
            if nt_arp_count n < ARP_SLOTS
            then n\<lparr>nt_arp := (nt_arp n)[nt_arp_count n := \<lparr>ar_ip = ip, ar_mac = hw, ar_age = nt_ticks n\<rparr>],
                   nt_arp_count := nt_arp_count n + 1\<rparr>
            else n)"

function arp_expire_loop :: "u64 \<Rightarrow> nat \<Rightarrow> arp_entry list \<Rightarrow> nat \<Rightarrow> arp_entry list \<times> nat" where
  "arp_expire_loop now i table cnt =
     (if i < cnt
      then if now - ar_age (table ! i) > ARP_TTL
        then arp_expire_loop now i (table[i := table ! (cnt - 1)]) (cnt - 1)
        else arp_expire_loop now (i + 1) table cnt
      else (table, cnt))"
  by auto
termination
  by (relation "measure (\<lambda>(now, i, table, cnt). cnt - i)") auto

declare arp_expire_loop.simps [simp del]

definition arp_expire :: "u64 \<Rightarrow> net \<Rightarrow> net" where
  "arp_expire now n =
     (let (table, cnt) = arp_expire_loop now 0 (nt_arp n) (nt_arp_count n) in
      n\<lparr>nt_arp := table, nt_arp_count := cnt\<rparr>)"

definition reset_arp :: "net \<Rightarrow> net" where
  "reset_arp n = n\<lparr>nt_arp_count := 0\<rparr>"

definition send_arp_request :: "ip4 \<Rightarrow> net \<Rightarrow> net" where
  "send_arp_request target n =
     snd (uplink_send (BROADCAST_MAC @ nt_mac n @ be16 ETHERTYPE_ARP @ be16 1 @ be16 ETHERTYPE_IPV4 @ [6, 4] @
       be16 1 @ nt_mac n @ bound_ip n @ replicate 6 0 @ target) n)"

subsection \<open>Routing and sending\<close>

definition is_multicast :: "ip4 \<Rightarrow> bool" where
  "is_multicast dst = ((dst ! 0) AND 0xF0 = 0xE0)"

definition is_subnet_broadcast :: "ip4 \<Rightarrow> net \<Rightarrow> bool" where
  "is_subnet_broadcast dst n =
     (let mask = from_be32 (ls_mask (nt_bound n)) in
      if mask = 0 then False
      else let our = from_be32 (ls_ip (nt_bound n)); d = from_be32 dst in
        d AND mask = our AND mask \<and> d OR mask = 0xFFFFFFFF)"

definition next_hop :: "ip4 \<Rightarrow> net \<Rightarrow> ip4" where
  "next_hop dst n =
     (let b = nt_bound n in
      if \<not> lease_bound b then dst
      else let mask = from_be32 (ls_mask b) in
        if mask = 0 then if ls_gw b \<noteq> NO_IP then ls_gw b else dst
        else if from_be32 dst AND mask = from_be32 (ls_ip b) AND mask then dst
        else if ls_gw b \<noteq> NO_IP then ls_gw b
        else dst)"

definition arp_resolve :: "ip4 \<Rightarrow> net \<Rightarrow> net" where
  "arp_resolve dst n =
     (let hop = next_hop dst n in
      if hop \<noteq> NO_IP \<and> hop \<noteq> BROADCAST_IP \<and> arp_lookup hop n = None then send_arp_request hop n else n)"

text \<open>\<open>start_frame\<close>: the Ethernet and IPv4 headers of a frame.\<close>

definition ip_header :: "ip4 \<Rightarrow> ip4 \<Rightarrow> u8 \<Rightarrow> nat \<Rightarrow> u16 \<Rightarrow> bytes" where
  "ip_header src dst proto payload_len ck =
     [0x45, 0] @ be16 (word_of_nat (20 + payload_len)) @ be16 0 @ be16 0x4000 @ [64, proto] @ be16 ck @ src @ dst"

definition start_frame :: "mac \<Rightarrow> ip4 \<Rightarrow> u8 \<Rightarrow> nat \<Rightarrow> net \<Rightarrow> bytes" where
  "start_frame dst_mac dst_ip proto payload_len n =
     (let ck = csum_finish (csum_add 0 (ip_header (bound_ip n) dst_ip proto payload_len 0)) in
      dst_mac @ nt_mac n @ be16 ETHERTYPE_IPV4 @ ip_header (bound_ip n) dst_ip proto payload_len ck)"

definition loop_enqueue :: "ip4 \<Rightarrow> u8 \<Rightarrow> bytes \<Rightarrow> net \<Rightarrow> net" where
  "loop_enqueue dst proto l4 n =
     (let head = nt_loop_head n; cnt = nt_loop_count n; idx = (head + cnt) mod LOOP_SLOTS;
          k = min (length l4) LOOP_L4MAX;
          slot = \<lparr>lp_proto = proto, lp_len = k, lp_data = blit 0 (take k l4) (lp_data (nt_loop n ! idx)), lp_dst = dst\<rparr>;
          n1 = n\<lparr>nt_loop := (nt_loop n)[idx := slot]\<rparr>
      in if cnt < LOOP_SLOTS then n1\<lparr>nt_loop_count := cnt + 1\<rparr>
         else n1\<lparr>nt_loop_head := (head + 1) mod LOOP_SLOTS\<rparr>)"

definition loops_back :: "ip4 \<Rightarrow> net \<Rightarrow> bool" where
  "loops_back dst n =
     (bound_ip n \<noteq> NO_IP \<and>
      (dst = bound_ip n \<or> dst = [127, 0, 0, 1] \<or> dst = BROADCAST_IP \<or> is_multicast dst \<or> is_subnet_broadcast dst n))"

definition emit_ipv4 :: "ip4 \<Rightarrow> u8 \<Rightarrow> bytes \<Rightarrow> net \<Rightarrow> (string + unit) \<times> net" where
  "emit_ipv4 dst proto l4 n =
     (if length l4 + 20 > 1480 then (Err ''net: l4 too large'', n)
      else if loops_back dst n then (Ok (), loop_enqueue dst proto l4 n)
      else let hop = next_hop dst n;
               dst_mac = (case arp_lookup hop n of Some hw \<Rightarrow> hw | None \<Rightarrow> BROADCAST_MAC)
           in uplink_send (start_frame dst_mac dst proto (length l4) n @ l4) n)"

subsection \<open>DHCP and DNS replies\<close>

function walk_options_loop :: "bytes \<Rightarrow> u8 \<Rightarrow> nat \<Rightarrow> nat \<Rightarrow> bytes option" where
  "walk_options_loop pkt want cap i =
     (if i + 1 < length pkt
      then let tag = pkt ! i in
        if tag = 0xFF then None
        else if tag = 0 then walk_options_loop pkt want cap (i + 1)
        else let len = unat (pkt ! (i + 1)) in
          if i + 2 + len > length pkt then None
          else if tag = want then Some (sub_bytes (i + 2) (min len cap) pkt)
          else walk_options_loop pkt want cap (i + 2 + len)
      else None)"
  by auto
termination
  by (relation "measure (\<lambda>(pkt, want, cap, i). length pkt - i)") auto

declare walk_options_loop.simps [simp del]

text \<open>The bytes of an option, at most \<open>cap\<close> of them.\<close>

definition walk_options :: "bytes \<Rightarrow> u8 \<Rightarrow> nat \<Rightarrow> bytes option" where
  "walk_options pkt want cap = walk_options_loop pkt want cap 240"

definition dhcp_option :: "bytes \<Rightarrow> u8 \<Rightarrow> u8 option" where
  "dhcp_option pkt code =
     map_option (\<lambda>b. if b = [] then 0 else b ! 0) (walk_options pkt code 1)"

definition dhcp_ip_option :: "bytes \<Rightarrow> u8 \<Rightarrow> ip4 option" where
  "dhcp_ip_option pkt code =
     (case walk_options pkt code 4 of None \<Rightarrow> None | Some b \<Rightarrow> if length b \<ge> 4 then Some b else None)"

definition dhcp_u32_option :: "bytes \<Rightarrow> u8 \<Rightarrow> u32 option" where
  "dhcp_u32_option pkt code = map_option from_be32 (dhcp_ip_option pkt code)"

definition dhcp_dns_option :: "bytes \<Rightarrow> (ip4 \<times> ip4) option" where
  "dhcp_dns_option pkt =
     (case walk_options pkt 6 8 of
        None \<Rightarrow> None
      | Some b \<Rightarrow>
          if length b \<ge> 4
          then Some (take 4 b, if length b \<ge> 8 then sub_bytes 4 4 b else take 4 b)
          else None)"

definition parse_lease_options :: "bytes \<Rightarrow> lease \<Rightarrow> lease" where
  "parse_lease_options pkt l =
     (let l1 = (case dhcp_ip_option pkt 1 of Some ip \<Rightarrow> l\<lparr>ls_mask := ip\<rparr> | None \<Rightarrow> l);
          l2 = (case dhcp_ip_option pkt 3 of Some ip \<Rightarrow> l1\<lparr>ls_gw := ip\<rparr> | None \<Rightarrow> l1);
          l3 = (case dhcp_u32_option pkt 51 of Some s \<Rightarrow> l2\<lparr>ls_secs := s\<rparr> | None \<Rightarrow> l2)
      in case dhcp_dns_option pkt of
          Some (d1, d2) \<Rightarrow> l3\<lparr>ls_dns1 := d1, ls_dns2 := d2\<rparr>
        | None \<Rightarrow> if ls_dns1 l3 = NO_IP then l3\<lparr>ls_dns1 := ls_server l3\<rparr> else l3)"

definition handle_dhcp :: "bytes \<Rightarrow> net \<Rightarrow> net" where
  "handle_dhcp pkt n =
     (if length pkt < 240 \<or> pkt ! 0 \<noteq> 2 then n
      else if from_le32 (sub_bytes 4 4 pkt) \<noteq> nt_xid n then n
      else case dhcp_option pkt 53 of
          Some t \<Rightarrow>
            if t = DHCP_OFFER then
              let yiaddr = sub_bytes 16 4 pkt in
              if yiaddr = NO_IP then n
              else let l = lease_empty\<lparr>ls_ip := yiaddr, ls_mask := [255, 255, 255, 0]\<rparr>;
                       srv = (case dhcp_ip_option pkt 54 of Some ip \<Rightarrow> ip | None \<Rightarrow> sub_bytes 20 4 pkt)
                   in n\<lparr>nt_offer := parse_lease_options pkt (l\<lparr>ls_server := srv\<rparr>), nt_got_offer := True\<rparr>
            else if t = DHCP_ACK then
              let l = nt_offer n;
                  l1 = (if ls_ip l = NO_IP then l\<lparr>ls_ip := sub_bytes 16 4 pkt\<rparr> else l)
              in n\<lparr>nt_offer := parse_lease_options pkt l1, nt_got_ack := True\<rparr>
            else if t = DHCP_NAK then n\<lparr>nt_got_offer := False, nt_got_ack := False, nt_got_nak := True\<rparr>
            else n
        | None \<Rightarrow> n)"

definition handle_dns :: "bytes \<Rightarrow> net \<Rightarrow> net" where
  "handle_dns pkt n =
     (if length pkt < 12 then n
      else if from_be16 (pkt ! 0) (pkt ! 1) \<noteq> nt_dns_xid n then n
      else let rcode = from_be16 (pkt ! 2) (pkt ! 3) AND 0xF; ancount = from_be16 (pkt ! 6) (pkt ! 7) in
        if rcode = 0 \<and> ancount > 0 then n\<lparr>nt_got_dns := True\<rparr> else n)"

subsection \<open>Received frames\<close>

datatype delivery =
    DNothing
  | DTcp ip4 bytes
  | DUdp ip4 ip4 u16 u16 bytes

definition handle_arp :: "bytes \<Rightarrow> net \<Rightarrow> net" where
  "handle_arp frame n =
     (if length frame < 42 then n
      else let op = from_be16 (frame ! 20) (frame ! 21);
               sha = sub_bytes 22 6 frame; spa = sub_bytes 28 4 frame; tpa = sub_bytes 38 4 frame in
        if op = 1 then
          let ours = bound_ip n in
          if ours \<noteq> NO_IP \<and> tpa = ours
          then snd (uplink_send (sha @ nt_mac n @ be16 ETHERTYPE_ARP @ be16 1 @ be16 ETHERTYPE_IPV4 @ [6, 4] @
                 be16 2 @ nt_mac n @ ours @ sha @ spa) n)
          else n
        else if op = 2 then
          let n1 = arp_insert spa sha n in
          if spa = ls_gw (nt_bound n1) then n1\<lparr>nt_got_arp := True\<rparr> else n1
        else n)"

definition handle_udp :: "bytes \<Rightarrow> nat \<Rightarrow> ip4 \<Rightarrow> ip4 \<Rightarrow> net \<Rightarrow> delivery \<times> net" where
  "handle_udp frame l4 src dst n =
     (if length frame < l4 + 8 then (DNothing, n)
      else let sport = from_be16 (frame ! l4) (frame ! (l4 + 1));
               dport = from_be16 (frame ! (l4 + 2)) (frame ! (l4 + 3));
               ulen = unat (from_be16 (frame ! (l4 + 4)) (frame ! (l4 + 5))) in
        if ulen < 8 then (DNothing, n)
        else let payload_len = ulen - 8 in
          if length frame < l4 + 8 + payload_len then (DNothing, n)
          else let payload = sub_bytes (l4 + 8) payload_len frame in
            if sport = DHCP_SERVER_PORT \<and> dport = DHCP_CLIENT_PORT then (DNothing, handle_dhcp payload n)
            else if sport = DNS_PORT \<and> dport = DNS_SRC_PORT then (DNothing, handle_dns payload n)
            else (DUdp src dst sport dport payload, n))"

definition handle_ipv4 :: "bytes \<Rightarrow> net \<Rightarrow> delivery \<times> net" where
  "handle_ipv4 frame n =
     (if length frame < 34 \<or> drop_bit 4 (frame ! 14) \<noteq> 4 then (DNothing, n)
      else let ihl = unat ((frame ! 14 AND 0xF) * 4) in
        if ihl < 20 \<or> length frame < 14 + ihl then (DNothing, n)
        else let proto = frame ! 23; src = sub_bytes 26 4 frame; dst = sub_bytes 30 4 frame; l4 = 14 + ihl in
          if proto = PROTO_ICMP then
            if length frame < l4 + 8 then (DNothing, n)
            else if frame ! l4 = ICMP_REPLY \<and>
                from_be16 (frame ! (l4 + 4)) (frame ! (l4 + 5)) = ICMP_PROBE_ID \<and>
                (dst = bound_ip n \<or> dst = BROADCAST_IP)
              then (DNothing, n\<lparr>nt_got_icmp := True\<rparr>)
            else (DNothing, n)
          else if proto = PROTO_TCP then
            if length frame \<ge> l4 + 20 then (DTcp src (drop l4 frame), n) else (DNothing, n)
          else if proto = PROTO_UDP then handle_udp frame l4 src dst n
          else (DNothing, n))"

definition handle_frame :: "bytes \<Rightarrow> net \<Rightarrow> delivery \<times> net" where
  "handle_frame frame n =
     (if length frame < 14 then (DNothing, n)
      else let ethertype = from_be16 (frame ! 12) (frame ! 13) in
        if ethertype = ETHERTYPE_ARP then (DNothing, handle_arp frame n)
        else if ethertype = ETHERTYPE_IPV4 then handle_ipv4 frame n
        else (DNothing, n))"

subsection \<open>Byte order is invertible\<close>

lemma from_be16_be16 [simp]: "from_be16 (ucast (drop_bit 8 w)) (ucast w) = w"
  unfolding from_be16_def by (rule bit_word_eqI) (auto simp: bit_simps)

lemma from_be32_be32 [simp]: "from_be32 (be32 w) = w"
proof (rule bit_word_eqI)
  fix n
  assume n: "n < LENGTH(32)"
  consider "n < 8" | "8 \<le> n" "n < 16" | "16 \<le> n" "n < 24" | "24 \<le> n" by linarith
  then show "bit (from_be32 (be32 w)) n = bit w n"
    using n by cases (auto simp: be32_def bit_simps)
qed

lemma length_be16 [simp]: "length (be16 w) = 2" and length_be32 [simp]: "length (be32 v) = 4"
  by (simp_all add: be16_def be32_def)

lemma unat_from_be16: "unat (from_be16 a b) = unat a * 256 + unat b"
proof -
  have disj: "push_bit 8 (ucast a) OR ucast b = push_bit 8 (ucast a) + (ucast b :: u16)"
    by (subst disjunctive_add) (auto simp: bit_simps dest: bit_imp_le_length)
  have a: "unat a < 256" and b: "unat b < 256" using unsigned_less[of a] unsigned_less[of b] by simp_all
  have "unat (push_bit 8 (ucast a :: u16)) = unat a * 256"
    unfolding unsigned_push_bit_eq unsigned_ucast_eq using a by (simp add: push_bit_eq_mult take_bit_eq_mod)
  moreover have "unat (ucast b :: u16) = unat b"
    using b by (simp add: unsigned_ucast_eq take_bit_eq_mod)
  ultimately show ?thesis
    unfolding from_be16_def disj using a b by (simp add: unat_word_ariths)
qed

subsection \<open>The checksum verifies\<close>

text \<open>The one's-complement sum over the integers, and its residue.\<close>

fun csum_nat :: "bytes \<Rightarrow> nat" where
  "csum_nat (a # b # bs) = unat a * 256 + unat b + csum_nat bs"
| "csum_nat [a] = unat a * 256"
| "csum_nat [] = 0"

definition fold16 :: "nat \<Rightarrow> nat" where
  "fold16 m = (if m = 0 then 0 else Suc ((m - 1) mod 65535))"

lemma csum_nat_append: "even (length xs) \<Longrightarrow> csum_nat (xs @ ys) = csum_nat xs + csum_nat ys"
  by (induction xs rule: csum_nat.induct) auto

lemma csum_nat_be16: "csum_nat (be16 c @ ys) = unat c + csum_nat ys"
proof -
  have "unat (ucast (drop_bit 8 c) :: u8) * 256 + unat (ucast c :: u8) = unat c"
    using unat_from_be16[of "ucast (drop_bit 8 c)" "ucast c"] by simp
  then show ?thesis by (simp add: be16_def)
qed

lemma csum_nat_bound: "csum_nat bs \<le> 65535 * length bs"
proof (induction bs rule: csum_nat.induct)
  case (1 a b bs)
  have "unat a < 256" "unat b < 256" using unsigned_less[of a] unsigned_less[of b] by simp_all
  then show ?case using 1 by simp
next
  case (2 a)
  have "unat a < 256" using unsigned_less[of a] by simp
  then show ?case by simp
qed simp

lemma unat_ucast_16_32: "unat (ucast (w :: u16) :: u32) = unat w"
proof -
  have "unat w < 65536" using unsigned_less[of w] by simp
  then show ?thesis by (simp add: unsigned_ucast_eq take_bit_eq_mod)
qed

lemma unat_csum_add:
  "unat acc + csum_nat bs < 2 ^ 32 \<Longrightarrow> unat (csum_add acc bs) = unat acc + csum_nat bs"
proof (induction acc bs rule: csum_add.induct)
  case (1 acc a b bs)
  then have "unat (acc + ucast (from_be16 a b)) = unat acc + (unat a * 256 + unat b)"
    by (simp add: unat_add_no_wrap unat_ucast_16_32 unat_from_be16)
  then show ?case using 1 by simp
next
  case (2 acc a)
  then show ?case by (simp add: unat_add_no_wrap unat_ucast_16_32 unat_from_be16)
qed simp

lemma fold16_small: "m < 65536 \<Longrightarrow> fold16 m = m"
  by (auto simp: fold16_def)

lemma fold16_cong: "m mod 65535 = k mod 65535 \<Longrightarrow> 0 < m \<Longrightarrow> 0 < k \<Longrightarrow> fold16 m = fold16 k"
proof -
  assume eq: "m mod 65535 = k mod 65535" and pos: "0 < m" "0 < k"
  then have "(m + 65534) mod 65535 = (k + 65534) mod 65535" by (intro mod_add_cong) simp_all
  moreover have "m + 65534 = (m - 1) + 65535" "k + 65534 = (k - 1) + 65535" using pos by simp_all
  ultimately have "(m - 1) mod 65535 = (k - 1) mod 65535" by (simp only: mod_add_self2)
  then show ?thesis using pos by (simp add: fold16_def)
qed

lemma fold16_bound: "fold16 m \<le> 65535"
  using mod_less_divisor[of 65535 "m - 1"] by (simp add: fold16_def Suc_le_eq del: mod_less_divisor)

lemma unat_not_16: "unat (NOT (w :: u16)) = 65535 - unat w"
proof -
  have "NOT w = - 1 - w" by (simp add: not_eq_complement)
  moreover have "unat (- 1 - w) = unat (- 1 :: u16) - unat w" by (rule unat_sub) simp
  ultimately show ?thesis by (simp add: unsigned_minus_1_eq_mask mask_eq_exp_minus_1)
qed

lemma unat_csum_finish: "unat (csum_finish acc) = 65535 - fold16 (unat acc)"
proof (induction acc rule: csum_finish.induct)
  case (1 acc)
  show ?case
  proof (cases "drop_bit 16 acc = 0")
    case True
    then have "unat (drop_bit 16 acc) = 0" by simp
    then have "unat acc div 2 ^ 16 = 0"
      unfolding unsigned_drop_bit_eq by (simp add: take_bit_eq_mod drop_bit_eq_div unat_32_less[simplified])
    then have small: "unat acc < 65536" by (simp add: div_eq_0_iff)
    then have "unat (ucast acc :: u16) = unat acc" by (simp add: unsigned_ucast_eq take_bit_eq_mod)
    then have "unat (NOT (ucast acc :: u16)) = 65535 - unat acc" by (simp add: unat_not_16)
    then show ?thesis using True small by (simp add: csum_finish.simps[of acc] fold16_small)
  next
    case False
    let ?m = "unat acc mod 2 ^ 16 + unat acc div 2 ^ 16"
    have less: "?m < unat acc" using fold_carry_less[OF False] by simp
    have pos: "unat acc div 2 ^ 16 > 0" "unat acc > 0"
    proof -
      show "unat acc > 0" using less by linarith
      show "unat acc div 2 ^ 16 > 0"
      proof (rule ccontr)
        assume "\<not> 0 < unat acc div 2 ^ 16"
        then have "unat acc div 2 ^ 16 = 0" by simp
        then have "?m = unat acc" using div_mult_mod_eq[of "unat acc" "2 ^ 16"] by simp
        then show False using less by simp
      qed
    qed
    have "fold16 ?m = fold16 (unat acc)"
    proof (rule fold16_cong)
      have "unat acc = ?m + 65535 * (unat acc div 2 ^ 16)"
        using div_mult_mod_eq[of "unat acc" "2 ^ 16"] by simp
      then show "?m mod 65535 = unat acc mod 65535" by (metis mod_mult_self2)
    qed (use pos in simp_all)
    then show ?thesis
      using 1 False fold_carry_less(1)[OF False] by (simp add: csum_finish.simps[of acc])
  qed
qed

text \<open>
  Writing the complemented sum into the (zero) checksum field makes the sum over the same bytes
  verify: the checksum of the finished packet is 0.
\<close>

definition pseudo_nat :: "ip4 \<Rightarrow> ip4 \<Rightarrow> u8 \<Rightarrow> bytes \<Rightarrow> nat" where
  "pseudo_nat src dst proto dat = csum_nat src + csum_nat dst + unat proto + length dat + csum_nat dat"

lemma unat_l4_checksum:
  assumes "length src = 4" "length dst = 4" "length dat \<le> 2000"
  shows "unat (l4_checksum src dst proto dat) = 65535 - fold16 (pseudo_nat src dst proto dat)"
proof -
  have b: "csum_nat src \<le> 65535 * 4" "csum_nat dst \<le> 65535 * 4" "csum_nat dat \<le> 65535 * 2000"
    using csum_nat_bound[of src] csum_nat_bound[of dst] csum_nat_bound[of dat] assms by simp_all
  have p2: "unat proto < 256" using unsigned_less[of proto] by simp
  then have p: "unat (ucast proto :: u32) = unat proto" "unat proto < 256"
    by (simp_all add: unsigned_ucast_eq take_bit_eq_mod)
  have l: "unat (word_of_nat (length dat) :: u32) = length dat"
    using assms(3) unfolding unat_of_nat by (intro mod_less) simp
  have pl: "unat (ucast proto + word_of_nat (length dat) :: u32) = unat proto + length dat"
    using p assms(3) by (subst unat_add_no_wrap) (simp_all add: l)
  have s1: "unat (csum_add 0 src) = csum_nat src" using b by (subst unat_csum_add) simp_all
  have s2: "unat (csum_add (csum_add 0 src) dst) = csum_nat src + csum_nat dst"
    using b by (subst unat_csum_add) (simp_all add: s1)
  have s3: "unat (csum_add (csum_add 0 src) dst + (ucast proto + word_of_nat (length dat)))
      = csum_nat src + csum_nat dst + (unat proto + length dat)"
    using b p assms(3) by (subst unat_add_no_wrap) (simp_all only: s2 pl, simp)
  show ?thesis
    unfolding l4_checksum_def Let_def unat_csum_finish pseudo_nat_def
    using b p assms(3) by (subst unat_csum_add) (simp_all only: s3, simp_all add: add.assoc)
qed

lemma complement_verifies:
  assumes "0 < s" "unat (c :: u16) = 65535 - fold16 s"
  shows "fold16 (s + unat c) = 65535"
proof -
  have "fold16 s mod 65535 = s mod 65535"
    using assms(1) unfolding fold16_def by (simp add: mod_Suc_eq)
  then have "(s + unat c) mod 65535 = (fold16 s + unat c) mod 65535" by (metis mod_add_left_eq)
  also have "fold16 s + unat c = 65535" using assms(2) fold16_bound[of s] by simp
  finally have "(s + unat c) mod 65535 = 65535 mod 65535" .
  then have "fold16 (s + unat c) = fold16 65535" using assms(1) by (intro fold16_cong) simp_all
  then show ?thesis by (simp add: fold16_small)
qed

lemma l4_checksum_verifies:
  assumes "length src = 4" "length dst = 4" "even (length pre)" "length pre + length post \<le> 1990"
  shows "l4_checksum src dst proto (pre @ be16 (l4_checksum src dst proto (pre @ be16 0 @ post)) @ post) = 0"
proof -
  let ?c = "l4_checksum src dst proto (pre @ be16 0 @ post)"
  let ?s = "pseudo_nat src dst proto (pre @ be16 0 @ post)"
  have c: "unat ?c = 65535 - fold16 ?s" using assms by (subst unat_l4_checksum) simp_all
  have eq: "pseudo_nat src dst proto (pre @ be16 ?c @ post) = ?s + unat ?c"
    using assms(3) unfolding pseudo_nat_def by (simp add: csum_nat_append csum_nat_be16)
  have "0 < ?s" by (simp add: pseudo_nat_def)
  then have "fold16 (?s + unat ?c) = 65535" using c by (rule complement_verifies)
  then have "unat (l4_checksum src dst proto (pre @ be16 ?c @ post)) = 0"
    using assms by (subst unat_l4_checksum) (simp_all only: eq, simp_all)
  then show ?thesis by (simp only: unat_eq_0)
qed

lemma ip_header_verifies:
  assumes "length src = 4" "length dst = 4"
  shows "csum_finish (csum_add 0 (ip_header src dst proto n (csum_finish (csum_add 0 (ip_header src dst proto n 0))))) = 0"
proof -
  let ?pre = "[0x45, 0] @ be16 (word_of_nat (20 + n)) @ be16 0 @ be16 0x4000 @ [64, proto]"
  have split: "ip_header src dst proto n w = ?pre @ be16 w @ (src @ dst)" for w
    by (simp add: ip_header_def)
  have even: "even (length ?pre)" by simp
  have len: "length (ip_header src dst proto n w) = 20" for w using assms by (simp add: ip_header_def)
  have sum: "unat (csum_add 0 (ip_header src dst proto n w)) = csum_nat (ip_header src dst proto n w)" for w
    using csum_nat_bound[of "ip_header src dst proto n w"] unfolding len by (subst unat_csum_add) simp_all
  let ?s = "csum_nat (ip_header src dst proto n 0)"
  let ?c = "csum_finish (csum_add 0 (ip_header src dst proto n 0))"
  have add: "csum_nat (ip_header src dst proto n w) = ?s + unat w" for w
    unfolding split csum_nat_append[OF even] csum_nat_be16 by simp
  have "unat (csum_add 0 (ip_header src dst proto n ?c)) = ?s + unat ?c" unfolding sum by (rule add)
  moreover have "fold16 (?s + unat ?c) = 65535"
  proof (rule complement_verifies)
    have "?s = csum_nat (0x45 # 0 # tl (tl (ip_header src dst proto n 0)))" by (simp only: ip_header_def append.simps list.sel)
    then show "0 < ?s" by (simp only: csum_nat.simps) simp
    show "unat ?c = 65535 - fold16 ?s" unfolding unat_csum_finish sum ..
  qed
  ultimately have "unat (csum_finish (csum_add 0 (ip_header src dst proto n ?c))) = 0"
    by (simp only: unat_csum_finish)
  then show ?thesis by (simp only: unat_eq_0)
qed

subsection \<open>A sent TCP frame is received as the segment it carries\<close>

definition net_wf :: "net \<Rightarrow> bool" where
  "net_wf n \<longleftrightarrow> length (nt_mac n) = 6 \<and> length (bound_ip n) = 4 \<and>
     (\<forall>e\<in>set (nt_arp n). length (ar_mac e) = 6) \<and> length (nt_arp n) = ARP_SLOTS \<and> nt_arp_count n \<le> ARP_SLOTS \<and>
     length (nt_loop n) = LOOP_SLOTS \<and> nt_loop_head n < LOOP_SLOTS \<and> nt_loop_count n \<le> LOOP_SLOTS \<and>
     (\<forall>s\<in>set (nt_loop n). length (lp_data s) = LOOP_L4MAX \<and> lp_len s \<le> LOOP_L4MAX)"

lemma net_boot_wf: "length hw = 6 \<Longrightarrow> length (ls_ip l) = 4 \<Longrightarrow> net_wf (net_boot hw l)"
  by (simp add: net_wf_def net_boot_def bound_ip_def LOOP_SLOTS_def LOOP_L4MAX_def)

lemma arp_find_length: "arp_find ip now es = Some hw \<Longrightarrow> \<forall>e\<in>set es. length (ar_mac e) = 6 \<Longrightarrow> length hw = 6"
  by (induction es) (auto split: if_splits)

lemma arp_lookup_length: "net_wf n \<Longrightarrow> arp_lookup ip n = Some hw \<Longrightarrow> length hw = 6"
  unfolding arp_lookup_def net_wf_def by (blast intro: arp_find_length dest: in_set_takeD)

lemma handle_sent_tcp:
  assumes "length hw = 6" "length (nt_mac n) = 6" "length (bound_ip n) = 4" "length dst = 4" "20 \<le> length l4"
  shows "handle_frame (start_frame hw dst PROTO_TCP k n @ l4) m = (DTcp (bound_ip n) l4, m)"
proof -
  obtain ck where fr: "start_frame hw dst PROTO_TCP k n = hw @ nt_mac n @ be16 ETHERTYPE_IPV4 @ ip_header (bound_ip n) dst PROTO_TCP k ck"
    by (simp add: start_frame_def Let_def)
  let ?f = "start_frame hw dst PROTO_TCP k n @ l4"
  let ?h = "drop_bit 8 (word_of_nat (20 + k) :: u16)"
  have f: "?f = (hw @ nt_mac n) @ [ucast (drop_bit 8 ETHERTYPE_IPV4), ucast ETHERTYPE_IPV4, 0x45, 0, ucast ?h,
      ucast (word_of_nat (20 + k) :: u16), ucast (drop_bit 8 (0 :: u16)), ucast (0 :: u16),
      ucast (drop_bit 8 (0x4000 :: u16)), ucast (0x4000 :: u16), 64, PROTO_TCP, ucast (drop_bit 8 ck), ucast ck]
      @ bound_ip n @ dst @ l4"
    unfolding fr ip_header_def be16_def by simp
  have len12: "length (hw @ nt_mac n) = 12" using assms by simp
  have nth: "(hw @ nt_mac n) @ ys = zs \<Longrightarrow> zs ! (12 + i) = ys ! i" for ys zs i
    using len12 by (metis nth_append_length_plus)
  have b12: "?f ! 12 = ucast (drop_bit 8 ETHERTYPE_IPV4)" and b13: "?f ! 13 = ucast ETHERTYPE_IPV4"
    and b14: "?f ! 14 = 0x45" and b23: "?f ! 23 = PROTO_TCP"
    using nth[OF f[symmetric], of 0] nth[OF f[symmetric], of 1] nth[OF f[symmetric], of 2]
      nth[OF f[symmetric], of 11] by simp_all
  have len: "length ?f = 34 + length l4" unfolding f using assms by simp
  have src: "sub_bytes 26 4 ?f = bound_ip n" unfolding f sub_bytes_def using assms by simp
  have l4: "drop 34 ?f = l4" unfolding f using assms by simp
  have eth: "from_be16 (?f ! 12) (?f ! 13) = ETHERTYPE_IPV4" unfolding b12 b13 by (rule from_be16_be16)
  have ip: "handle_ipv4 ?f m = (DTcp (bound_ip n) l4, m)"
    unfolding handle_ipv4_def Let_def b14 b23 len
    using assms(5) src l4 by (simp add: PROTO_TCP_def)
  show ?thesis
    unfolding handle_frame_def Let_def eth using ip len
    by simp
qed

end
