(* ===== verification/Kernel_Socket.thy ===== *)
theory Kernel_Socket
  imports Kernel_Net
begin

text \<open>
  The kernel socket layer (\<open>aios-kernel/src/sock.rs\<close>): the table of sockets, the calls a task makes on
  a descriptor, the timer, and the processing of UDP datagrams and TCP segments.  A socket record has
  the fields of \<open>struct Socket\<close>; every operation that emits a segment threads the network state of
  \<open>Kernel_Net\<close>.  An operation on one slot (\<open>kick\<close>, one turn of the \<open>tick\<close> loop, the body of the
  matching loop of \<open>deliver_tcp\<close>) is a function on the socket and the network.
\<close>

definition MAX_SOCKS :: nat where "MAX_SOCKS = 16"
definition TCP_RXCAP :: nat where "TCP_RXCAP = 8192"
definition TCP_MSS :: nat where "TCP_MSS = 1460"
definition TX_QCAP :: nat where "TX_QCAP = 8192"
abbreviation UDP_MTU :: nat where "UDP_MTU \<equiv> 1024"
definition UDP_SLOTS :: nat where "UDP_SLOTS = 3"
abbreviation REXMIT_TICKS :: u64 where "REXMIT_TICKS \<equiv> 50"
abbreviation REXMIT_MAX :: u8 where "REXMIT_MAX \<equiv> 4"
abbreviation TIME_WAIT_TICKS :: u64 where "TIME_WAIT_TICKS \<equiv> 400"
abbreviation TCP_WINDOW :: u16 where "TCP_WINDOW \<equiv> 64240"
definition WSCALE_SHIFT :: u8 where "WSCALE_SHIFT = 4"
definition FIN :: u8 where "FIN = 0x01"
definition SYN :: u8 where "SYN = 0x02"
definition RST :: u8 where "RST = 0x04"
definition PSH :: u8 where "PSH = 0x08"
definition ACK :: u8 where "ACK = 0x10"

definition NO_PARENT :: nat where "NO_PARENT = 2 ^ 64 - 1"

datatype kind = Udp | Tcp

datatype tcp_state =
    Closed | Listen | SynRecv | SynSent | Established | CloseWait | FinWait1 | FinWait2 | LastAck | TimeWait

record udp_dgram =
  dg_len :: nat
  dg_src_ip :: ip4
  dg_src_port :: u16
  dg_data :: bytes

definition udp_dgram_empty :: udp_dgram where
  "udp_dgram_empty = \<lparr>dg_len = 0, dg_src_ip = NO_IP, dg_src_port = 0, dg_data = replicate UDP_MTU 0\<rparr>"

record sock =
  so_used :: bool
  so_kind :: kind
  so_pid :: u32
  so_port :: u16
  so_rip :: ip4
  so_rport :: u16
  so_eof :: bool
  so_udp_head :: nat
  so_udp_len :: nat
  so_udp_rx :: "udp_dgram list"
  so_state :: tcp_state
  so_parent :: nat
  so_iss :: u32
  so_snd_una :: u32
  so_snd_nxt :: u32
  so_rcv_nxt :: u32
  so_rx_head :: nat
  so_rx_count :: nat
  so_rx_buf :: bytes
  so_tx_pending :: bool
  so_tx_len :: nat
  so_tx_seq :: u32
  so_tx_buf :: bytes
  so_tx_q_head :: nat
  so_tx_q_len :: nat
  so_tx_q :: bytes
  so_sent_at :: u64
  so_retries :: u8
  so_time_at :: u64
  so_broadcast :: bool
  so_cwnd :: u32
  so_ssthresh :: u32
  so_wscale :: u8
  so_peer_wscale :: u8

definition sock_empty :: sock where
  "sock_empty = \<lparr>so_used = False, so_kind = Udp, so_pid = 0, so_port = 0, so_rip = NO_IP, so_rport = 0,
     so_eof = False, so_udp_head = 0, so_udp_len = 0, so_udp_rx = replicate UDP_SLOTS udp_dgram_empty,
     so_state = Closed, so_parent = NO_PARENT, so_iss = 0, so_snd_una = 0, so_snd_nxt = 0, so_rcv_nxt = 0,
     so_rx_head = 0, so_rx_count = 0, so_rx_buf = replicate TCP_RXCAP 0, so_tx_pending = False, so_tx_len = 0,
     so_tx_seq = 0, so_tx_buf = replicate TCP_MSS 0, so_tx_q_head = 0, so_tx_q_len = 0,
     so_tx_q = replicate TX_QCAP 0, so_sent_at = 0, so_retries = 0, so_time_at = 0, so_broadcast = False,
     so_cwnd = word_of_nat TCP_MSS, so_ssthresh = 10 * word_of_nat TCP_MSS, so_wscale = WSCALE_SHIFT,
     so_peer_wscale = 0\<rparr>"

record socks =
  ss_tab :: "sock list"
  ss_next_port :: u16
  ss_net :: net

subsection \<open>Segments\<close>

definition tcp_header :: "sock \<Rightarrow> u32 \<Rightarrow> u8 \<Rightarrow> u16 \<Rightarrow> bytes" where
  "tcp_header sk seq flags ck =
     (let with_opts = flags AND SYN \<noteq> 0; hdr = (if with_opts then 24 else 20 :: nat) in
      be16 (so_port sk) @ be16 (so_rport sk) @ be32 seq @ be32 (if flags AND ACK \<noteq> 0 then so_rcv_nxt sk else 0) @
      [push_bit 4 (word_of_nat (hdr div 4)), flags] @ be16 (drop_bit (unat (so_wscale sk)) TCP_WINDOW) @
      be16 ck @ be16 0 @ (if with_opts then [3, 3, so_wscale sk, 1] else []))"

definition tcp_segment :: "sock \<Rightarrow> u32 \<Rightarrow> u8 \<Rightarrow> bytes \<Rightarrow> net \<Rightarrow> bytes" where
  "tcp_segment sk seq flags payload n =
     (let body = take (min (length payload) TCP_MSS) payload;
          c = l4_checksum (bound_ip n) (so_rip sk) 6 (tcp_header sk seq flags 0 @ body)
      in tcp_header sk seq flags c @ body)"

definition send_segment :: "sock \<Rightarrow> u32 \<Rightarrow> u8 \<Rightarrow> bytes \<Rightarrow> net \<Rightarrow> net" where
  "send_segment sk seq flags payload n = snd (emit_ipv4 (so_rip sk) 6 (tcp_segment sk seq flags payload n) n)"

text \<open>The byte loops of the rings: writing from an index on, and reading a run of bytes.\<close>

fun ring_put :: "nat \<Rightarrow> nat \<Rightarrow> bytes \<Rightarrow> bytes \<Rightarrow> bytes" where
  "ring_put cap w [] buf = buf"
| "ring_put cap w (b # bs) buf = ring_put cap ((w + 1) mod cap) bs (buf[w := b])"

definition ring_bytes :: "nat \<Rightarrow> nat \<Rightarrow> nat \<Rightarrow> bytes \<Rightarrow> bytes" where
  "ring_bytes cap h k buf = map (\<lambda>i. buf ! ((h + i) mod cap)) [0..<k]"

definition append_rx :: "sock \<Rightarrow> bytes \<Rightarrow> bool \<times> sock" where
  "append_rx sk dat =
     (if so_rx_count sk + length dat > TCP_RXCAP then (False, sk)
      else (True, sk\<lparr>so_rx_buf := ring_put TCP_RXCAP ((so_rx_head sk + so_rx_count sk) mod TCP_RXCAP) dat (so_rx_buf sk),
                     so_rx_count := so_rx_count sk + length dat\<rparr>))"

definition kick :: "sock \<Rightarrow> net \<Rightarrow> sock \<times> net" where
  "kick sk n =
     (if so_tx_pending sk \<or> so_tx_q_len sk = 0 then (sk, n)
      else let k = min (so_tx_q_len sk) TCP_MSS in
        if word_of_nat k > so_cwnd sk then (sk, n)
        else let dat = ring_bytes TX_QCAP (so_tx_q_head sk) k (so_tx_q sk);
                 sk1 = sk\<lparr>so_tx_buf := blit 0 dat (so_tx_buf sk), so_tx_q_head := (so_tx_q_head sk + k) mod TX_QCAP,
                   so_tx_q_len := so_tx_q_len sk - k, so_tx_len := k, so_tx_seq := so_snd_nxt sk,
                   so_snd_nxt := so_snd_nxt sk + word_of_nat k, so_tx_pending := True, so_retries := 0,
                   so_sent_at := nt_ticks n\<rparr>
             in (sk1, send_segment sk1 (so_tx_seq sk1) (PSH OR ACK) (take k (so_tx_buf sk1)) n))"

subsection \<open>Calls on a descriptor\<close>

definition alloc_port :: "socks \<Rightarrow> u16 \<times> socks" where
  "alloc_port s =
     (ss_next_port s, s\<lparr>ss_next_port := (if ss_next_port s \<ge> 60000 then 49152 else ss_next_port s + 1)\<rparr>)"

definition get_sock :: "nat \<Rightarrow> socks \<Rightarrow> sock option" where
  "get_sock fd s =
     (if fd \<ge> MAX_SOCKS then None else if so_used (ss_tab s ! fd) then Some (ss_tab s ! fd) else None)"

definition put_sock :: "nat \<Rightarrow> sock \<Rightarrow> socks \<Rightarrow> socks" where
  "put_sock fd sk s = s\<lparr>ss_tab := (ss_tab s)[fd := sk]\<rparr>"

definition sock_open :: "u32 \<Rightarrow> kind \<Rightarrow> socks \<Rightarrow> nat option \<times> socks" where
  "sock_open pid k s =
     (case position (\<lambda>sk. \<not> so_used sk) (ss_tab s) of
        None \<Rightarrow> (None, s)
      | Some fd \<Rightarrow>
          let (port, s1) = alloc_port s in
          (Some fd, put_sock fd (sock_empty\<lparr>so_state := Closed, so_used := True, so_kind := k, so_pid := pid, so_port := port\<rparr>) s1))"

definition sock_bind :: "nat \<Rightarrow> u16 \<Rightarrow> socks \<Rightarrow> bool \<times> socks" where
  "sock_bind fd port s =
     (case get_sock fd s of None \<Rightarrow> (False, s) | Some sk \<Rightarrow> (True, put_sock fd (sk\<lparr>so_port := port\<rparr>) s))"

definition sock_listen :: "nat \<Rightarrow> socks \<Rightarrow> bool \<times> socks" where
  "sock_listen fd s =
     (case get_sock fd s of
        None \<Rightarrow> (False, s)
      | Some sk \<Rightarrow> if so_kind sk \<noteq> Tcp then (False, s) else (True, put_sock fd (sk\<lparr>so_state := Listen, so_eof := False\<rparr>) s))"

definition sock_accept :: "nat \<Rightarrow> socks \<Rightarrow> nat option \<times> socks" where
  "sock_accept fd s =
     (case get_sock fd s of
        None \<Rightarrow> (None, s)
      | Some l \<Rightarrow>
          if so_kind l \<noteq> Tcp \<or> so_state l \<noteq> Listen then (None, s)
          else case position (\<lambda>sk. so_used sk \<and> so_kind sk = Tcp \<and> so_parent sk = fd \<and> so_state sk = Established) (ss_tab s) of
              None \<Rightarrow> (None, s)
            | Some i \<Rightarrow> (Some i, put_sock i ((ss_tab s ! i)\<lparr>so_parent := NO_PARENT\<rparr>) s))"

definition seed :: "u64 \<Rightarrow> nat \<Rightarrow> u32" where
  "seed now fd =
     (let x = now * 2654435761 + (word_of_nat fd + 1) * 40503 in ucast (x XOR drop_bit 17 x))"

definition sock_connect :: "nat \<Rightarrow> ip4 \<Rightarrow> u16 \<Rightarrow> socks \<Rightarrow> bool \<times> socks" where
  "sock_connect fd ip port s =
     (case get_sock fd s of
        None \<Rightarrow> (False, s)
      | Some sk0 \<Rightarrow>
          let now = nt_ticks (ss_net s); sk = sk0\<lparr>so_rip := ip, so_rport := port\<rparr> in
          if so_kind sk = Udp
          then (True, put_sock fd (sk\<lparr>so_broadcast := (ip = BROADCAST_IP), so_state := Established\<rparr>) s)
          else if so_state sk = Listen then (False, put_sock fd sk s)
          else if bound_ip (ss_net s) = NO_IP then (False, put_sock fd sk s)
          else let n1 = arp_resolve ip (ss_net s); iss = seed now fd;
                   sk1 = sk\<lparr>so_iss := iss, so_snd_una := iss, so_snd_nxt := iss + 1, so_retries := 0,
                     so_sent_at := now, so_state := SynSent\<rparr>
               in (True, put_sock fd sk1 (s\<lparr>ss_net := send_segment sk1 iss SYN [] n1\<rparr>)))"

definition sock_status :: "nat \<Rightarrow> socks \<Rightarrow> u8" where
  "sock_status fd s =
     (case get_sock fd s of
        None \<Rightarrow> 4
      | Some sk \<Rightarrow> (case so_kind sk of
            Udp \<Rightarrow> 2
          | Tcp \<Rightarrow> (case so_state sk of
                Closed \<Rightarrow> 4 | Listen \<Rightarrow> 6 | SynSent \<Rightarrow> 1 | SynRecv \<Rightarrow> 1 | Established \<Rightarrow> 2
              | CloseWait \<Rightarrow> 3 | FinWait1 \<Rightarrow> 3 | FinWait2 \<Rightarrow> 3 | LastAck \<Rightarrow> 3 | TimeWait \<Rightarrow> 5)))"

definition cc_info :: "nat \<Rightarrow> socks \<Rightarrow> (u32 \<times> u32 \<times> u8 \<times> u8) option" where
  "cc_info fd s =
     (case get_sock fd s of
        None \<Rightarrow> None
      | Some sk \<Rightarrow> if so_kind sk \<noteq> Tcp then None
                   else Some (so_cwnd sk, so_ssthresh sk, so_wscale sk, so_peer_wscale sk))"

definition sock_owner :: "nat \<Rightarrow> socks \<Rightarrow> u32" where
  "sock_owner fd s =
     (if fd \<ge> MAX_SOCKS then 0 else if so_used (ss_tab s ! fd) then so_pid (ss_tab s ! fd) else 0)"

definition udp_segment :: "sock \<Rightarrow> bytes \<Rightarrow> net \<Rightarrow> bytes" where
  "udp_segment sk dat n =
     (let hdr = (\<lambda>ck. be16 (so_port sk) @ be16 (so_rport sk) @ be16 (word_of_nat (8 + length dat)) @ be16 ck);
          c = l4_checksum (bound_ip n) (so_rip sk) 17 (hdr 0 @ dat)
      in hdr c @ dat)"

definition sock_send :: "nat \<Rightarrow> bytes \<Rightarrow> socks \<Rightarrow> nat option \<times> socks" where
  "sock_send fd dat s =
     (case get_sock fd s of
        None \<Rightarrow> (None, s)
      | Some sk \<Rightarrow> (case so_kind sk of
            Udp \<Rightarrow>
              if so_rip sk = NO_IP then (None, s)
              else let k = min (length dat) UDP_MTU;
                       (r, n1) = emit_ipv4 (so_rip sk) 17 (udp_segment sk (take k dat) (ss_net s)) (ss_net s)
                   in (case r of Err _ \<Rightarrow> None | Ok _ \<Rightarrow> Some k, s\<lparr>ss_net := n1\<rparr>)
          | Tcp \<Rightarrow>
              if so_state sk \<noteq> Established then (None, s)
              else let free = TX_QCAP - so_tx_q_len sk in
                if free = 0 then (None, s)
                else let k = min (length dat) free;
                         w = (so_tx_q_head sk + so_tx_q_len sk) mod TX_QCAP;
                         sk1 = sk\<lparr>so_tx_q := ring_put TX_QCAP w (take k dat) (so_tx_q sk), so_tx_q_len := so_tx_q_len sk + k\<rparr>;
                         (sk2, n1) = kick sk1 (ss_net s)
                     in (Some k, put_sock fd sk2 (s\<lparr>ss_net := n1\<rparr>))))"

text \<open>\<open>recv\<close> with a buffer of \<open>cap\<close> bytes returns the bytes it wrote there.\<close>

definition sock_recv :: "nat \<Rightarrow> nat \<Rightarrow> socks \<Rightarrow> bytes option \<times> socks" where
  "sock_recv fd cap s =
     (case get_sock fd s of
        None \<Rightarrow> (None, s)
      | Some sk \<Rightarrow> (case so_kind sk of
            Udp \<Rightarrow>
              if so_udp_len sk = 0 then (None, s)
              else let d = so_udp_rx sk ! so_udp_head sk; k = min cap (dg_len d) in
                (Some (take k (dg_data d)),
                 put_sock fd (sk\<lparr>so_udp_head := (so_udp_head sk + 1) mod UDP_SLOTS, so_udp_len := so_udp_len sk - 1\<rparr>) s)
          | Tcp \<Rightarrow>
              if so_rx_count sk = 0 then (if so_eof sk then Some [] else None, s)
              else let k = min cap (so_rx_count sk) in
                (Some (ring_bytes TCP_RXCAP (so_rx_head sk) k (so_rx_buf sk)),
                 put_sock fd (sk\<lparr>so_rx_head := (so_rx_head sk + k) mod TCP_RXCAP, so_rx_count := so_rx_count sk - k\<rparr>) s)))"

definition sock_close :: "nat \<Rightarrow> socks \<Rightarrow> socks" where
  "sock_close fd s =
     (case get_sock fd s of
        None \<Rightarrow> s
      | Some sk \<Rightarrow>
          if so_kind sk \<noteq> Tcp then put_sock fd (sk\<lparr>so_used := False\<rparr>) s
          else (case so_state sk of
              Listen \<Rightarrow>
                s\<lparr>ss_tab := (map (\<lambda>c. if so_used c \<and> so_parent c = fd then c\<lparr>so_used := False\<rparr> else c) (ss_tab s))
                    [fd := sk\<lparr>so_used := False\<rparr>]\<rparr>
            | Established \<Rightarrow>
                let sk1 = sk\<lparr>so_snd_nxt := so_snd_nxt sk + 1, so_state := FinWait1\<rparr> in
                put_sock fd sk1 (s\<lparr>ss_net := send_segment sk1 (so_snd_nxt sk) (FIN OR ACK) [] (ss_net s)\<rparr>)
            | CloseWait \<Rightarrow>
                let sk1 = sk\<lparr>so_snd_nxt := so_snd_nxt sk + 1, so_state := LastAck\<rparr> in
                put_sock fd sk1 (s\<lparr>ss_net := send_segment sk1 (so_snd_nxt sk) (FIN OR ACK) [] (ss_net s)\<rparr>)
            | _ \<Rightarrow> put_sock fd (sk\<lparr>so_used := False\<rparr>) s))"

subsection \<open>Timers\<close>

definition sock_tick :: "u64 \<Rightarrow> sock \<Rightarrow> net \<Rightarrow> sock \<times> net" where
  "sock_tick now sk n =
     (if \<not> so_used sk \<or> so_kind sk \<noteq> Tcp then (sk, n)
      else (case so_state sk of
          SynSent \<Rightarrow>
            if now - so_sent_at sk \<ge> REXMIT_TICKS then
              if so_retries sk < REXMIT_MAX
              then let sk1 = sk\<lparr>so_retries := so_retries sk + 1, so_sent_at := now\<rparr> in
                (sk1, send_segment sk1 (so_iss sk1) SYN [] n)
              else (sk\<lparr>so_state := Closed, so_eof := True\<rparr>, n)
            else (sk, n)
        | SynRecv \<Rightarrow>
            if now - so_sent_at sk \<ge> REXMIT_TICKS then
              if so_retries sk < REXMIT_MAX
              then let sk1 = sk\<lparr>so_retries := so_retries sk + 1, so_sent_at := now\<rparr> in
                (sk1, send_segment sk1 (so_iss sk1) (SYN OR ACK) [] n)
              else (sk\<lparr>so_used := False\<rparr>, n)
            else (sk, n)
        | Established \<Rightarrow>
            if so_tx_pending sk \<and> now - so_sent_at sk \<ge> REXMIT_TICKS then
              if so_retries sk < REXMIT_MAX
              then let sk1 = (if so_retries sk = 0
                     then let t = max (so_cwnd sk div 2) (2 * word_of_nat TCP_MSS) in sk\<lparr>so_ssthresh := t, so_cwnd := t\<rparr>
                     else sk);
                   sk2 = sk1\<lparr>so_retries := so_retries sk1 + 1, so_sent_at := now\<rparr>
                in (sk2, send_segment sk2 (so_tx_seq sk2) (PSH OR ACK) (take (so_tx_len sk2) (so_tx_buf sk2)) n)
              else (sk\<lparr>so_tx_pending := False, so_state := Closed, so_eof := True\<rparr>, n)
            else (sk, n)
        | TimeWait \<Rightarrow> if now - so_time_at sk \<ge> TIME_WAIT_TICKS then (sk\<lparr>so_used := False\<rparr>, n) else (sk, n)
        | _ \<Rightarrow> (sk, n)))"

fun tick_all :: "u64 \<Rightarrow> sock list \<Rightarrow> net \<Rightarrow> sock list \<times> net" where
  "tick_all now [] n = ([], n)"
| "tick_all now (sk # sks) n =
     (let (sk1, n1) = sock_tick now sk n; (sks1, n2) = tick_all now sks n1 in (sk1 # sks1, n2))"

definition tick :: "u64 \<Rightarrow> socks \<Rightarrow> socks" where
  "tick now s = (let (tab, n) = tick_all now (ss_tab s) (ss_net s) in s\<lparr>ss_tab := tab, ss_net := n\<rparr>)"

subsection \<open>Datagrams\<close>

definition udp_accepts :: "ip4 \<Rightarrow> ip4 \<Rightarrow> u16 \<Rightarrow> u16 \<Rightarrow> sock \<Rightarrow> bool" where
  "udp_accepts src dst sport dport sk =
     (so_used sk \<and> so_kind sk = Udp \<and> so_port sk = dport \<and>
      (if dst = BROADCAST_IP \<or> (dst ! 0) AND 0xF0 = 0xE0
       then so_broadcast sk \<or> so_rip sk = NO_IP \<or> so_rip sk = dst
       else so_rip sk = NO_IP \<or> so_rip sk = src \<and> so_rport sk = sport) \<and>
      so_udp_len sk < UDP_SLOTS)"

definition udp_enqueue :: "ip4 \<Rightarrow> u16 \<Rightarrow> bytes \<Rightarrow> sock \<Rightarrow> sock" where
  "udp_enqueue src sport payload sk =
     (let idx = (so_udp_head sk + so_udp_len sk) mod UDP_SLOTS; d = so_udp_rx sk ! idx in
      sk\<lparr>so_udp_rx := (so_udp_rx sk)[idx := d\<lparr>dg_len := length payload, dg_src_ip := src, dg_src_port := sport,
           dg_data := blit 0 payload (dg_data d)\<rparr>],
         so_udp_len := so_udp_len sk + 1\<rparr>)"

fun deliver_udp_all :: "ip4 \<Rightarrow> ip4 \<Rightarrow> u16 \<Rightarrow> u16 \<Rightarrow> bytes \<Rightarrow> sock list \<Rightarrow> sock list" where
  "deliver_udp_all src dst sport dport payload [] = []"
| "deliver_udp_all src dst sport dport payload (sk # sks) =
     (if udp_accepts src dst sport dport sk
      then udp_enqueue src sport payload sk #
        (if dst = BROADCAST_IP \<or> (dst ! 0) AND 0xF0 = 0xE0
         then deliver_udp_all src dst sport dport payload sks else sks)
      else sk # deliver_udp_all src dst sport dport payload sks)"

definition deliver_udp :: "ip4 \<Rightarrow> ip4 \<Rightarrow> u16 \<Rightarrow> u16 \<Rightarrow> bytes \<Rightarrow> socks \<Rightarrow> socks" where
  "deliver_udp src dst sport dport payload s =
     (if length payload > UDP_MTU then s
      else s\<lparr>ss_tab := deliver_udp_all src dst sport dport payload (ss_tab s)\<rparr>)"

subsection \<open>Segments received\<close>

function wscale_loop :: "bytes \<Rightarrow> nat \<Rightarrow> nat \<Rightarrow> u8" where
  "wscale_loop seg doff i =
     (if i + 2 \<le> doff then
        if seg ! i = 3 \<and> seg ! (i + 1) = 3 \<and> i + 2 < doff then seg ! (i + 2)
        else if seg ! i = 0 then 0
        else if seg ! i = 1 then wscale_loop seg doff (i + 1)
        else if unat (seg ! (i + 1)) \<ge> 2 then wscale_loop seg doff (i + unat (seg ! (i + 1)))
        else 0
      else 0)"
  by auto
termination
  by (relation "measure (\<lambda>(seg, doff, i). doff - i)") auto

declare wscale_loop.simps [simp del]

definition wscale_opt :: "bytes \<Rightarrow> nat \<Rightarrow> u8" where
  "wscale_opt seg doff = wscale_loop seg doff 20"

definition spawn_child :: "nat \<Rightarrow> ip4 \<Rightarrow> u16 \<Rightarrow> u32 \<Rightarrow> u8 \<Rightarrow> socks \<Rightarrow> socks" where
  "spawn_child listener src sport seq peer_ws s =
     (let l = ss_tab s ! listener in
      case position (\<lambda>sk. \<not> so_used sk) (ss_tab s) of
        None \<Rightarrow> s
      | Some i \<Rightarrow>
          let now = nt_ticks (ss_net s); iss = seed now i;
              c = sock_empty\<lparr>so_used := True, so_kind := Tcp, so_pid := so_pid l, so_port := so_port l, so_rip := src,
                so_rport := sport, so_parent := listener, so_iss := iss, so_snd_una := iss, so_snd_nxt := iss + 1,
                so_rcv_nxt := seq + 1, so_state := SynRecv, so_peer_wscale := peer_ws, so_retries := 0, so_sent_at := now\<rparr>
          in put_sock i c (s\<lparr>ss_net := send_segment c iss (SYN OR ACK) [] (arp_resolve src (ss_net s))\<rparr>))"

definition sat_add32 :: "u32 \<Rightarrow> u32 \<Rightarrow> u32" where
  "sat_add32 a b = (if unat a + unat b \<ge> 2 ^ 32 then - 1 else a + b)"

definition grow_cwnd :: "sock \<Rightarrow> sock" where
  "grow_cwnd sk =
     (if so_cwnd sk \<le> so_ssthresh sk
      then sk\<lparr>so_cwnd := sat_add32 (so_cwnd sk) (word_of_nat TCP_MSS)\<rparr>
      else sk\<lparr>so_cwnd := sat_add32 (so_cwnd sk) (max ((word_of_nat TCP_MSS * word_of_nat TCP_MSS) div so_cwnd sk) 1)\<rparr>)"

text \<open>The acknowledgement, payload and FIN parts of the body of \<open>deliver_tcp\<close>, in its order.\<close>

definition segment_ack :: "u8 \<Rightarrow> u32 \<Rightarrow> sock \<Rightarrow> net \<Rightarrow> sock \<times> net" where
  "segment_ack flags ack sk n =
     (if flags AND ACK \<noteq> 0
      then let (sk1, n1) =
             (if so_tx_pending sk \<and> ack = so_tx_seq sk + word_of_nat (so_tx_len sk)
              then kick (grow_cwnd (sk\<lparr>so_tx_pending := False, so_snd_una := ack\<rparr>)) n
              else (sk, n))
           in (case so_state sk1 of
                 FinWait1 \<Rightarrow> (sk1\<lparr>so_state := FinWait2\<rparr>, n1)
               | LastAck \<Rightarrow> (sk1\<lparr>so_state := Closed\<rparr>, n1)
               | _ \<Rightarrow> (sk1, n1))
      else (sk, n))"

definition segment_payload :: "u32 \<Rightarrow> bytes \<Rightarrow> sock \<Rightarrow> net \<Rightarrow> sock \<times> net" where
  "segment_payload seq payload sk n =
     (if payload \<noteq> [] \<and> so_state sk = Established
      then let sk1 = (if seq = so_rcv_nxt sk
             then let sk' = snd (append_rx sk payload) in sk'\<lparr>so_rcv_nxt := so_rcv_nxt sk' + word_of_nat (length payload)\<rparr>
             else sk)
           in (sk1, send_segment sk1 (so_snd_nxt sk1) ACK [] n)
      else (sk, n))"

definition segment_fin :: "u8 \<Rightarrow> u64 \<Rightarrow> sock \<Rightarrow> net \<Rightarrow> sock \<times> net" where
  "segment_fin flags now sk n =
     (if flags AND FIN \<noteq> 0
      then let sk1 = sk\<lparr>so_rcv_nxt := so_rcv_nxt sk + 1, so_eof := True\<rparr>;
               n1 = send_segment sk1 (so_snd_nxt sk1) ACK [] n
           in (case so_state sk1 of
                 Established \<Rightarrow> (sk1\<lparr>so_state := CloseWait\<rparr>, n1)
               | FinWait2 \<Rightarrow> (sk1\<lparr>so_state := TimeWait, so_time_at := now\<rparr>, n1)
               | _ \<Rightarrow> (sk1, n1))
      else (sk, n))"

definition segment_data :: "u8 \<Rightarrow> u32 \<Rightarrow> u32 \<Rightarrow> bytes \<Rightarrow> u64 \<Rightarrow> sock \<Rightarrow> net \<Rightarrow> sock \<times> net" where
  "segment_data flags seq ack payload now sk n =
     (let (sk1, n1) = segment_ack flags ack sk n; (sk2, n2) = segment_payload seq payload sk1 n1
      in segment_fin flags now sk2 n2)"

text \<open>The body of the loop of \<open>deliver_tcp\<close> for the socket that matched.\<close>

definition sock_segment :: "u8 \<Rightarrow> u32 \<Rightarrow> u32 \<Rightarrow> u8 \<Rightarrow> bytes \<Rightarrow> u64 \<Rightarrow> sock \<Rightarrow> net \<Rightarrow> sock \<times> net" where
  "sock_segment flags seq ack peer_ws payload now sk n =
     (if flags AND RST \<noteq> 0 then (sk\<lparr>so_state := Closed, so_eof := True, so_tx_pending := False\<rparr>, n)
      else case so_state sk of
          SynSent \<Rightarrow>
            if flags AND SYN \<noteq> 0 \<and> flags AND ACK \<noteq> 0 \<and> ack = so_snd_nxt sk
            then let sk1 = sk\<lparr>so_rcv_nxt := seq + 1, so_snd_una := ack, so_snd_nxt := ack, so_peer_wscale := peer_ws,
                       so_state := Established\<rparr>
                 in (sk1, send_segment sk1 (so_snd_nxt sk1) ACK [] n)
            else (sk, n)
        | SynRecv \<Rightarrow>
            if flags AND ACK \<noteq> 0 \<and> ack = so_snd_nxt sk
            then segment_data flags seq ack payload now (sk\<lparr>so_snd_una := ack, so_state := Established\<rparr>) n
            else (sk, n)
        | Closed \<Rightarrow> (sk, n)
        | _ \<Rightarrow> segment_data flags seq ack payload now sk n)"

definition sock_matches :: "ip4 \<Rightarrow> u16 \<Rightarrow> u16 \<Rightarrow> sock \<Rightarrow> bool" where
  "sock_matches src sport dport sk =
     (so_used sk \<and> so_kind sk = Tcp \<and> so_port sk = dport \<and> so_rport sk = sport \<and> so_rip sk = src)"

definition deliver_tcp :: "ip4 \<Rightarrow> bytes \<Rightarrow> socks \<Rightarrow> socks" where
  "deliver_tcp src seg s =
     (if length seg < 20 then s
      else let sport = from_be16 (seg ! 0) (seg ! 1); dport = from_be16 (seg ! 2) (seg ! 3);
               seq = from_be32 (sub_bytes 4 4 seg); ack = from_be32 (sub_bytes 8 4 seg);
               doff = unat (drop_bit 4 (seg ! 12)) * 4; flags = seg ! 13 in
        if doff < 20 \<or> length seg < doff then s
        else let payload = drop doff seg;
                 listener = (if flags AND SYN \<noteq> 0 \<and> flags AND ACK = 0
                   then position (\<lambda>sk. so_used sk \<and> so_kind sk = Tcp \<and> so_state sk = Listen \<and> so_port sk = dport) (ss_tab s)
                   else None)
          in case listener of
              Some fd \<Rightarrow> spawn_child fd src sport seq (wscale_opt seg doff) s
            | None \<Rightarrow>
                case position (sock_matches src sport dport) (ss_tab s) of
                  None \<Rightarrow> s
                | Some i \<Rightarrow>
                    let (sk, n) = sock_segment flags seq ack (wscale_opt seg doff) payload (nt_ticks (ss_net s)) (ss_tab s ! i) (ss_net s)
                    in put_sock i sk (s\<lparr>ss_net := n\<rparr>))"

subsection \<open>The receive path of the network poll\<close>

definition deliver :: "delivery \<Rightarrow> socks \<Rightarrow> socks" where
  "deliver d s =
     (case d of
        DNothing \<Rightarrow> s
      | DTcp src seg \<Rightarrow> deliver_tcp src seg s
      | DUdp src dst sport dport payload \<Rightarrow> deliver_udp src dst sport dport payload s)"

definition rx_frame :: "bytes \<Rightarrow> socks \<Rightarrow> socks" where
  "rx_frame frame s = (let (d, n) = handle_frame frame (ss_net s) in deliver d (s\<lparr>ss_net := n\<rparr>))"

abbreviation MAX_DRAIN :: nat where "MAX_DRAIN \<equiv> 16"

text \<open>\<open>drain_rx\<close>: the frames waiting in the adapter, at most \<open>MAX_DRAIN\<close> of them.\<close>

definition drain_rx :: "bytes list \<Rightarrow> socks \<Rightarrow> socks" where
  "drain_rx frames s = fold rx_frame (take MAX_DRAIN frames) s"

definition loop_step :: "socks \<Rightarrow> socks" where
  "loop_step s =
     (let n = ss_net s; slot = nt_loop n ! nt_loop_head n;
          n1 = n\<lparr>nt_loop_head := (nt_loop_head n + 1) mod LOOP_SLOTS, nt_loop_count := nt_loop_count n - 1\<rparr>;
          s1 = s\<lparr>ss_net := n1\<rparr>; src = bound_ip n1; dat = take (lp_len slot) (lp_data slot)
      in if lp_proto slot = PROTO_TCP \<and> lp_len slot \<ge> 20 then deliver_tcp src dat s1
         else if lp_proto slot = PROTO_UDP \<and> lp_len slot \<ge> 8
         then deliver_udp src (lp_dst slot) (from_be16 (dat ! 0) (dat ! 1)) (from_be16 (dat ! 2) (dat ! 3)) (drop 8 dat) s1
         else s1)"

partial_function (option) drain_loopback :: "socks \<Rightarrow> socks option" where
  "drain_loopback s = (if nt_loop_count (ss_net s) > 0 then drain_loopback (loop_step s) else Some s)"

subsection \<open>The byte rings\<close>

lemma length_blit [simp]: "off + length bs \<le> length arr \<Longrightarrow> length (blit off bs arr) = length arr"
  by (simp add: blit_def)

lemma take_blit [simp]: "take (length bs) (blit 0 bs arr) = bs"
  by (simp add: blit_def)

lemma length_ring_put [simp]: "length (ring_put cap w bs buf) = length buf"
  by (induction cap w bs buf rule: ring_put.induct) simp_all

lemma length_ring_bytes [simp]: "length (ring_bytes cap h k buf) = k"
  by (simp add: ring_bytes_def)

lemma ring_bytes_0 [simp]: "ring_bytes cap h 0 buf = []"
  by (simp add: ring_bytes_def)

lemma map_upt_shift: "map f [k..<k + m] = map (\<lambda>i. f (k + i)) [0..<m]"
  by (rule nth_equalityI) simp_all

lemma ring_bytes_split:
  "ring_bytes cap h (k + m) buf = ring_bytes cap h k buf @ ring_bytes cap ((h + k) mod cap) m buf"
proof -
  have idx: "((h + k) mod cap + i) mod cap = (h + (k + i)) mod cap" for i
    by (metis add.assoc mod_add_left_eq)
  have "map (\<lambda>i. buf ! ((h + i) mod cap)) [k..<k + m] = map (\<lambda>i. buf ! (((h + k) mod cap + i) mod cap)) [0..<m]"
    unfolding idx by (rule map_upt_shift)
  then show ?thesis unfolding ring_bytes_def upt_add_eq_append[OF le0] map_append by simp
qed

lemma ring_bytes_take: "k \<le> m \<Longrightarrow> ring_bytes cap h k buf = take k (ring_bytes cap h m buf)"
  by (simp add: ring_bytes_def take_map)

lemma ring_bytes_drop: "k \<le> m \<Longrightarrow> ring_bytes cap ((h + k) mod cap) (m - k) buf = drop k (ring_bytes cap h m buf)"
  using ring_bytes_split[of cap h k "m - k" buf] by simp

lemma ring_put_nth:
  "length buf = cap \<Longrightarrow> w < cap \<Longrightarrow> length bs \<le> cap \<Longrightarrow> i < cap \<Longrightarrow>
   ring_put cap w bs buf ! i =
     (if (i + cap - w) mod cap < length bs then bs ! ((i + cap - w) mod cap) else buf ! i)"
proof (induction cap w bs buf rule: ring_put.induct)
  case (2 cap w b bs buf)
  let ?w = "(w + 1) mod cap"
  have cap: "0 < cap" "?w < cap" using 2 by simp_all
  have IH: "ring_put cap ?w bs (buf[w := b]) ! i =
      (if (i + cap - ?w) mod cap < length bs then bs ! ((i + cap - ?w) mod cap) else (buf[w := b]) ! i)"
    using 2 cap by simp
  show ?case
  proof (cases "i = w")
    case True
    have "(w + cap - ?w) mod cap = cap - 1"
    proof (cases "w + 1 = cap")
      case False
      then have "w + cap - ?w = cap - 1" using 2(3) by simp
      then show ?thesis using cap by simp
    qed (use cap in simp)
    moreover have "\<not> cap - 1 < length bs" using 2(4) by simp
    ultimately have "ring_put cap ?w bs (buf[w := b]) ! w = b" using IH True 2(2,3) by simp
    then show ?thesis using True by simp
  next
    case False
    have "(i + cap - w) mod cap = Suc ((i + cap - ?w) mod cap)"
    proof (cases "w + 1 = cap")
      case True
      then have "i + cap - w = Suc i" by linarith
      then have "(i + cap - w) mod cap = Suc i mod cap" by simp
      also have "Suc i mod cap = Suc i" using False True 2(5) by simp
      finally show ?thesis using True 2(5) by simp
    next
      case last: False
      then have w: "?w = w + 1" using 2(3) by simp
      show ?thesis
      proof (cases "w < i")
        case True
        then have "i + cap - w = (i - w) + cap" "i + cap - ?w = (i - w - 1) + cap" using w by simp_all
        then have "(i + cap - w) mod cap = i - w" "(i + cap - ?w) mod cap = i - w - 1"
          using 2(5) by (simp_all only: mod_add_self2 mod_less)
        then show ?thesis using True by simp
      next
        case lt: False
        then have "i < w" using False by simp
        then have "i + cap - w < cap" "i + cap - ?w < cap" "i + cap - w = Suc (i + cap - ?w)"
          unfolding w using 2(3) by linarith+
        then show ?thesis by (simp only: mod_less)
      qed
    qed
    then show ?thesis using IH False by simp
  qed
qed simp

lemma ring_bytes_put:
  assumes "length buf = cap" "h < cap" "k + length bs \<le> cap"
  shows "ring_bytes cap h (k + length bs) (ring_put cap ((h + k) mod cap) bs buf) = ring_bytes cap h k buf @ bs"
proof (rule nth_equalityI)
  fix i
  assume "i < length (ring_bytes cap h (k + length bs) (ring_put cap ((h + k) mod cap) bs buf))"
  then have i: "i < k + length bs" by simp
  have cap: "0 < cap" using assms(2) by simp
  let ?w = "(h + k) mod cap" and ?j = "(h + i) mod cap"
  have dist: "(?j + cap - ?w) mod cap = (i + cap - k) mod cap"
  proof -
    have "int ((?j + cap - ?w) mod cap) = ((int ?j + int cap) - int ?w) mod int cap"
      using cap by (simp add: zmod_int of_nat_diff less_imp_le trans_le_add2)
    also have "\<dots> = ((int h + int i + int cap) - (int h + int k)) mod int cap"
      by (intro mod_diff_cong mod_add_cong) (simp_all add: zmod_int)
    also have "\<dots> = (int i + int cap - int k) mod int cap" by (simp add: algebra_simps)
    also have "\<dots> = int ((i + cap - k) mod cap)"
      using assms(3) by (simp add: zmod_int of_nat_diff)
    finally show ?thesis by simp
  qed
  have nth: "ring_put cap ?w bs buf ! ?j =
      (if (i + cap - k) mod cap < length bs then bs ! ((i + cap - k) mod cap) else buf ! ?j)"
    using ring_put_nth[of buf cap ?w bs ?j] assms cap by (simp add: dist)
  have "ring_put cap ?w bs buf ! ?j = (ring_bytes cap h k buf @ bs) ! i"
  proof (cases "i < k")
    case True
    then have "(i + cap - k) mod cap = i + cap - k" using assms(3) by simp
    then have "\<not> (i + cap - k) mod cap < length bs" using assms(3) by simp
    then show ?thesis using nth True by (simp add: ring_bytes_def nth_append)
  next
    case False
    then have "i + cap - k = (i - k) + cap" by simp
    moreover have "i - k < cap" using i assms(3) False by linarith
    ultimately have "(i + cap - k) mod cap = i - k" by (simp only: mod_add_self2 mod_less)
    moreover have "i - k < length bs" using i False by linarith
    ultimately show ?thesis using False unfolding nth by (simp add: nth_append)
  qed
  then show "ring_bytes cap h (k + length bs) (ring_put cap ?w bs buf) ! i = (ring_bytes cap h k buf @ bs) ! i"
    using i by (simp add: ring_bytes_def)
qed simp

subsection \<open>Checksums\<close>

lemma length_tcp_header: "length (tcp_header sk seq flags ck) = (if flags AND SYN \<noteq> 0 then 24 else 20)"
  by (simp add: tcp_header_def Let_def)

lemma tcp_segment_checksum:
  assumes "length (bound_ip n) = 4" "length (so_rip sk) = 4"
  shows "l4_checksum (bound_ip n) (so_rip sk) 6 (tcp_segment sk seq flags payload n) = 0"
proof -
  let ?body = "take (min (length payload) TCP_MSS) payload"
  obtain pre post where h: "\<And>ck. tcp_header sk seq flags ck = pre @ be16 ck @ post" "length pre = 16" "length post \<le> 8"
    by (rule that[of "be16 (so_port sk) @ be16 (so_rport sk) @ be32 seq @ be32 (if flags AND ACK \<noteq> 0 then so_rcv_nxt sk else 0) @
          [push_bit 4 (word_of_nat ((if flags AND SYN \<noteq> 0 then 24 else 20) div 4)), flags] @
          be16 (drop_bit (unat (so_wscale sk)) TCP_WINDOW)"
          "be16 0 @ (if flags AND SYN \<noteq> 0 then [3, 3, so_wscale sk, 1] else [])"])
      (simp_all add: tcp_header_def Let_def)
  have "length pre + length (post @ ?body) \<le> 1990" using h by (simp add: TCP_MSS_def)
  then show ?thesis
    using l4_checksum_verifies[OF assms, of pre "post @ ?body" 6] h by (simp add: tcp_segment_def Let_def)
qed

text \<open>
  C22: both checksums of every TCP frame the kernel builds verify at the receiver: the
  one's-complement sum over the IPv4 header, and the one over the pseudo-header and the segment (any flags, any
  payload, also one longer than a segment, which is cut), come out as zero.
\<close>

theorem frame_checksums_verify:
  assumes "net_wf n" "length hw = 6" "length (so_rip sk) = 4"
  shows "csum_finish (csum_add 0 (drop 14 (start_frame hw (so_rip sk) 6 (length (tcp_segment sk seq flags payload n)) n))) = 0 \<and>
    l4_checksum (bound_ip n) (so_rip sk) 6 (tcp_segment sk seq flags payload n) = 0"
proof -
  have "length (bound_ip n) = 4" "length (nt_mac n) = 6" using assms(1) by (simp_all add: net_wf_def)
  then show ?thesis
    using assms ip_header_verifies[of "bound_ip n" "so_rip sk" 6] tcp_segment_checksum[of n sk seq flags payload]
    by (simp add: start_frame_def Let_def)
qed

end
