(* ===== verification/Socket_Invariant.thy ===== *)
theory Socket_Invariant
  imports Kernel_Socket
begin

text \<open>
  The type invariant of the socket layer.  Every ring index stays inside its buffer, every counter
  below its capacity, the congestion window never falls under one segment, and the network state
  keeps its tables well formed, whatever a task calls and whatever frames arrive.
\<close>

definition dgram_ok :: "udp_dgram \<Rightarrow> bool" where
  "dgram_ok d \<longleftrightarrow> length (dg_data d) = UDP_MTU \<and> dg_len d \<le> UDP_MTU"

definition sock_ok :: "sock \<Rightarrow> bool" where
  "sock_ok sk \<longleftrightarrow>
     length (so_rx_buf sk) = TCP_RXCAP \<and> so_rx_head sk < TCP_RXCAP \<and> so_rx_count sk \<le> TCP_RXCAP \<and>
     length (so_tx_q sk) = TX_QCAP \<and> so_tx_q_head sk < TX_QCAP \<and> so_tx_q_len sk \<le> TX_QCAP \<and>
     length (so_tx_buf sk) = TCP_MSS \<and> so_tx_len sk \<le> TCP_MSS \<and>
     length (so_udp_rx sk) = UDP_SLOTS \<and> so_udp_head sk < UDP_SLOTS \<and> so_udp_len sk \<le> UDP_SLOTS \<and>
     list_all dgram_ok (so_udp_rx sk) \<and>
     word_of_nat TCP_MSS \<le> so_cwnd sk \<and> so_wscale sk = WSCALE_SHIFT"

definition socks_ok :: "socks \<Rightarrow> bool" where
  "socks_ok s \<longleftrightarrow> length (ss_tab s) = MAX_SOCKS \<and> list_all sock_ok (ss_tab s) \<and>
     49152 \<le> ss_next_port s \<and> ss_next_port s \<le> 60000 \<and> net_wf (ss_net s)"

lemmas cap_defs = TCP_RXCAP_def TX_QCAP_def TCP_MSS_def UDP_SLOTS_def

subsection \<open>The network state\<close>

lemma net_wf_uplink_send [simp]: "net_wf n \<Longrightarrow> net_wf (snd (uplink_send f n))"
  by (simp add: uplink_send_def net_wf_def bound_ip_def split: option.split)

lemma net_wf_loop_enqueue: "net_wf n \<Longrightarrow> net_wf (loop_enqueue dst proto l4 n)"
  unfolding loop_enqueue_def net_wf_def Let_def
  by (auto simp: LOOP_SLOTS_def LOOP_L4MAX_def bound_ip_def blit_def dest!: subsetD[OF set_update_subset_insert])

lemma net_wf_emit [simp]: "net_wf n \<Longrightarrow> net_wf (snd (emit_ipv4 dst proto l4 n))"
  by (simp add: emit_ipv4_def Let_def net_wf_loop_enqueue)

lemma net_wf_send_segment [simp]: "net_wf n \<Longrightarrow> net_wf (send_segment sk seq flags payload n)"
  by (simp add: send_segment_def)

lemma net_wf_arp_resolve [simp]: "net_wf n \<Longrightarrow> net_wf (arp_resolve dst n)"
  by (simp add: arp_resolve_def send_arp_request_def Let_def)

lemma net_wf_arp_insert: "net_wf n \<Longrightarrow> length hw = 6 \<Longrightarrow> net_wf (arp_insert ip hw n)"
  unfolding arp_insert_def net_wf_def
  by (auto simp: bound_ip_def ARP_SLOTS_def split: option.split dest!: subsetD[OF set_update_subset_insert])

lemma net_wf_handle_dhcp [simp]: "net_wf (handle_dhcp pkt n) = net_wf n"
  by (simp add: handle_dhcp_def net_wf_def bound_ip_def Let_def split: option.split)

lemma net_wf_handle_dns [simp]: "net_wf (handle_dns pkt n) = net_wf n"
  by (simp add: handle_dns_def net_wf_def bound_ip_def Let_def)

lemma net_wf_handle_arp: "net_wf n \<Longrightarrow> net_wf (handle_arp frame n)"
proof -
  assume n: "net_wf n"
  have len: "42 \<le> length frame \<Longrightarrow> length (sub_bytes 22 6 frame) = 6" by (simp add: sub_bytes_def)
  have got: "net_wf (m\<lparr>nt_got_arp := b\<rparr>) = net_wf m" for m b by (simp add: net_wf_def bound_ip_def)
  show ?thesis
    using n len net_wf_arp_insert[OF n, of "sub_bytes 22 6 frame" "sub_bytes 28 4 frame"]
    by (simp add: handle_arp_def Let_def got)
qed

lemma net_wf_handle_udp: "net_wf n \<Longrightarrow> net_wf (snd (handle_udp frame l4 src dst n))"
  by (simp add: handle_udp_def Let_def)

lemma net_wf_handle_frame: "net_wf n \<Longrightarrow> net_wf (snd (handle_frame frame n))"
proof -
  assume n: "net_wf n"
  have got: "net_wf (m\<lparr>nt_got_icmp := b\<rparr>) = net_wf m" for m b by (simp add: net_wf_def bound_ip_def)
  have "net_wf (snd (handle_ipv4 frame n))"
    using n by (simp add: handle_ipv4_def Let_def got net_wf_handle_udp)
  then show ?thesis using n by (simp add: handle_frame_def Let_def net_wf_handle_arp)
qed

subsection \<open>One socket\<close>

lemma sock_ok_empty: "sock_ok sock_empty"
  by (simp add: sock_ok_def sock_empty_def cap_defs WSCALE_SHIFT_def dgram_ok_def udp_dgram_empty_def list_all_iff)

text \<open>The fields the invariant does not read may change freely.\<close>

lemma sock_ok_frame [simp]:
  "sock_ok (sk\<lparr>so_used := b\<rparr>) = sock_ok sk" "sock_ok (sk\<lparr>so_kind := k\<rparr>) = sock_ok sk"
  "sock_ok (sk\<lparr>so_pid := p\<rparr>) = sock_ok sk" "sock_ok (sk\<lparr>so_port := po\<rparr>) = sock_ok sk"
  "sock_ok (sk\<lparr>so_rip := ip\<rparr>) = sock_ok sk" "sock_ok (sk\<lparr>so_rport := po\<rparr>) = sock_ok sk"
  "sock_ok (sk\<lparr>so_eof := b\<rparr>) = sock_ok sk" "sock_ok (sk\<lparr>so_state := st\<rparr>) = sock_ok sk"
  "sock_ok (sk\<lparr>so_parent := q\<rparr>) = sock_ok sk" "sock_ok (sk\<lparr>so_iss := w\<rparr>) = sock_ok sk"
  "sock_ok (sk\<lparr>so_snd_una := w\<rparr>) = sock_ok sk" "sock_ok (sk\<lparr>so_snd_nxt := w\<rparr>) = sock_ok sk"
  "sock_ok (sk\<lparr>so_rcv_nxt := w\<rparr>) = sock_ok sk" "sock_ok (sk\<lparr>so_tx_pending := b\<rparr>) = sock_ok sk"
  "sock_ok (sk\<lparr>so_tx_seq := w\<rparr>) = sock_ok sk" "sock_ok (sk\<lparr>so_sent_at := t\<rparr>) = sock_ok sk"
  "sock_ok (sk\<lparr>so_retries := r\<rparr>) = sock_ok sk" "sock_ok (sk\<lparr>so_time_at := t\<rparr>) = sock_ok sk"
  "sock_ok (sk\<lparr>so_broadcast := b\<rparr>) = sock_ok sk" "sock_ok (sk\<lparr>so_ssthresh := w\<rparr>) = sock_ok sk"
  "sock_ok (sk\<lparr>so_peer_wscale := ws\<rparr>) = sock_ok sk"
  by (simp_all add: sock_ok_def)

lemma sock_ok_append_rx: "sock_ok sk \<Longrightarrow> sock_ok (snd (append_rx sk dat))"
  by (simp add: append_rx_def sock_ok_def)

lemma sock_ok_kick: "sock_ok sk \<Longrightarrow> sock_ok (fst (kick sk n))"
  by (auto simp: kick_def sock_ok_def Let_def cap_defs)

lemma net_wf_kick: "net_wf n \<Longrightarrow> net_wf (snd (kick sk n))"
  by (simp add: kick_def Let_def)

lemma sat_add32_ge: "a \<le> sat_add32 a b"
proof (cases "unat a + unat b \<ge> 2 ^ 32")
  case False
  then have "unat (a + b) = unat a + unat b" by (intro unat_add_no_wrap) simp
  then show ?thesis using False by (simp add: sat_add32_def word_le_nat_alt)
qed (simp add: sat_add32_def)

lemma sock_ok_cwnd: "sock_ok sk \<Longrightarrow> word_of_nat TCP_MSS \<le> w \<Longrightarrow> sock_ok (sk\<lparr>so_cwnd := w\<rparr>)"
  by (simp add: sock_ok_def)

lemma sock_ok_grow_cwnd: "sock_ok sk \<Longrightarrow> sock_ok (grow_cwnd sk)"
proof -
  assume sk: "sock_ok sk"
  then have "word_of_nat TCP_MSS \<le> so_cwnd sk" by (simp add: sock_ok_def)
  then have "word_of_nat TCP_MSS \<le> sat_add32 (so_cwnd sk) w" for w
    using sat_add32_ge order_trans by blast
  then show ?thesis using sk by (simp add: grow_cwnd_def sock_ok_cwnd)
qed

lemma sock_ok_tick: "sock_ok sk \<Longrightarrow> sock_ok (fst (sock_tick now sk n))"
proof -
  assume sk: "sock_ok sk"
  have "(word_of_nat TCP_MSS :: u32) \<le> max (so_cwnd sk div 2) (2 * word_of_nat TCP_MSS)"
    by (simp add: TCP_MSS_def le_max_iff_disj)
  then show ?thesis
    using sk by (simp add: sock_tick_def Let_def sock_ok_cwnd split: tcp_state.split)
qed

lemma net_wf_tick: "net_wf n \<Longrightarrow> net_wf (snd (sock_tick now sk n))"
  by (simp add: sock_tick_def Let_def split: tcp_state.split)

lemma segment_ack_ok:
  assumes "sock_ok sk" "net_wf n"
  shows "sock_ok (fst (segment_ack flags ack sk n)) \<and> net_wf (snd (segment_ack flags ack sk n))"
proof -
  let ?k = "kick (grow_cwnd (sk\<lparr>so_tx_pending := False, so_snd_una := ack\<rparr>)) n"
  have "sock_ok (fst ?k)" "net_wf (snd ?k)"
    using assms by (auto intro!: sock_ok_kick net_wf_kick sock_ok_grow_cwnd)
  then show ?thesis
    using assms by (auto simp: segment_ack_def Let_def split: prod.split tcp_state.split if_split_asm)
qed

lemma segment_payload_ok:
  assumes "sock_ok sk" "net_wf n"
  shows "sock_ok (fst (segment_payload seq payload sk n)) \<and> net_wf (snd (segment_payload seq payload sk n))"
  using assms sock_ok_append_rx[of sk payload] by (simp add: segment_payload_def Let_def)

lemma segment_fin_ok:
  assumes "sock_ok sk" "net_wf n"
  shows "sock_ok (fst (segment_fin flags now sk n)) \<and> net_wf (snd (segment_fin flags now sk n))"
  using assms by (simp add: segment_fin_def Let_def split: tcp_state.split)

lemma segment_data_ok:
  assumes "sock_ok sk" "net_wf n"
  shows "sock_ok (fst (segment_data flags seq ack payload now sk n)) \<and>
         net_wf (snd (segment_data flags seq ack payload now sk n))"
proof -
  obtain sk1 n1 where 1: "segment_ack flags ack sk n = (sk1, n1)" by fastforce
  obtain sk2 n2 where 2: "segment_payload seq payload sk1 n1 = (sk2, n2)" by fastforce
  have "sock_ok sk1 \<and> net_wf n1" using segment_ack_ok[OF assms, of flags ack] 1 by simp
  then have "sock_ok sk2 \<and> net_wf n2" using segment_payload_ok[of sk1 n1 seq payload] 2 by simp
  then show ?thesis using segment_fin_ok[of sk2 n2 flags now] 1 2 by (simp add: segment_data_def)
qed

lemma sock_segment_ok:
  assumes "sock_ok sk" "net_wf n"
  shows "sock_ok (fst (sock_segment flags seq ack ws payload now sk n)) \<and>
         net_wf (snd (sock_segment flags seq ack ws payload now sk n))"
proof -
  have "sock_ok (sk\<lparr>so_snd_una := w, so_state := Established\<rparr>)" for w using assms by simp
  note this = segment_data_ok[OF this assms(2)] segment_data_ok[OF assms]
  then show ?thesis
    using assms by (simp add: sock_segment_def Let_def split: tcp_state.split)
qed

subsection \<open>The table\<close>

lemma put_sock_ok: "socks_ok s \<Longrightarrow> sock_ok sk \<Longrightarrow> socks_ok (put_sock fd sk s)"
  by (auto simp: socks_ok_def put_sock_def list_all_iff dest!: subsetD[OF set_update_subset_insert])

lemma set_net_ok: "socks_ok s \<Longrightarrow> net_wf n \<Longrightarrow> socks_ok (s\<lparr>ss_net := n\<rparr>)"
  by (simp add: socks_ok_def)

lemma socks_ok_nth: "socks_ok s \<Longrightarrow> i < MAX_SOCKS \<Longrightarrow> sock_ok (ss_tab s ! i)"
  by (simp add: socks_ok_def list_all_length)

lemma get_sock_ok: "socks_ok s \<Longrightarrow> get_sock fd s = Some sk \<Longrightarrow> sock_ok sk"
  by (auto simp: get_sock_def socks_ok_nth not_le split: if_splits)

lemma position_table_ok: "socks_ok s \<Longrightarrow> position P (ss_tab s) = Some i \<Longrightarrow> sock_ok (ss_tab s ! i)"
  by (drule position_SomeD) (simp add: socks_ok_def list_all_length)

lemma socks_ok_net [dest]: "socks_ok s \<Longrightarrow> net_wf (ss_net s)"
  by (simp add: socks_ok_def)

lemma open_ok: "socks_ok s \<Longrightarrow> socks_ok (snd (sock_open pid k s))"
proof -
  assume s: "socks_ok s"
  have "49152 \<le> ss_next_port s + 1 \<and> ss_next_port s + 1 \<le> 60000"
    if "\<not> 60000 \<le> ss_next_port s" "49152 \<le> ss_next_port s"
  proof -
    have "unat (ss_next_port s) < 60000" "49152 \<le> unat (ss_next_port s)"
      using that by (simp_all add: word_le_nat_alt)
    moreover from this have "unat (ss_next_port s + 1) = unat (ss_next_port s) + 1"
      by (subst unat_add_no_wrap) simp_all
    ultimately show ?thesis by (simp add: word_le_nat_alt)
  qed
  then have "socks_ok (snd (alloc_port s))"
    using s by (auto simp: socks_ok_def alloc_port_def)
  then have "socks_ok (put_sock fd sk (snd (alloc_port s)))" if "sock_ok sk" for fd sk
    using that by (rule put_sock_ok)
  then show ?thesis
    using s sock_ok_empty by (simp add: sock_open_def split: option.split prod.split) (metis snd_conv sock_ok_frame)
qed

lemma bind_ok: "socks_ok s \<Longrightarrow> socks_ok (snd (sock_bind fd port s))"
  by (simp add: sock_bind_def put_sock_ok get_sock_ok split: option.split)

lemma listen_ok: "socks_ok s \<Longrightarrow> socks_ok (snd (sock_listen fd s))"
  by (simp add: sock_listen_def put_sock_ok get_sock_ok split: option.split)

lemma accept_ok: "socks_ok s \<Longrightarrow> socks_ok (snd (sock_accept fd s))"
  by (simp add: sock_accept_def put_sock_ok position_table_ok split: option.split)

lemma connect_ok: "socks_ok s \<Longrightarrow> socks_ok (snd (sock_connect fd ip port s))"
  by (auto simp: sock_connect_def Let_def get_sock_ok split: option.split intro!: put_sock_ok set_net_ok)

lemma send_ok: "socks_ok s \<Longrightarrow> socks_ok (snd (sock_send fd dat s))"
proof -
  assume s: "socks_ok s"
  show ?thesis
  proof (cases "get_sock fd s")
    case (Some sk)
    then have sk: "sock_ok sk" using s by (rule get_sock_ok[rotated])
    show ?thesis
    proof (cases "so_kind sk")
      case Udp
      then show ?thesis
        using s Some by (auto simp: sock_send_def Let_def split: prod.split intro!: set_net_ok)
          (metis net_wf_emit snd_conv socks_ok_net)
    next
      case Tcp
      let ?k = "min (length dat) (TX_QCAP - so_tx_q_len sk)"
      let ?sk = "sk\<lparr>so_tx_q := ring_put TX_QCAP ((so_tx_q_head sk + so_tx_q_len sk) mod TX_QCAP) (take ?k dat) (so_tx_q sk),
        so_tx_q_len := so_tx_q_len sk + ?k\<rparr>"
      have "sock_ok ?sk" using sk by (auto simp: sock_ok_def)
      then have "sock_ok (fst (kick ?sk (ss_net s)))" "net_wf (snd (kick ?sk (ss_net s)))"
        using s by (auto intro: sock_ok_kick net_wf_kick)
      then have "socks_ok (put_sock fd (fst (kick ?sk (ss_net s))) (s\<lparr>ss_net := snd (kick ?sk (ss_net s))\<rparr>))"
        using s by (intro put_sock_ok set_net_ok)
      then show ?thesis
        using s Some Tcp by (simp add: sock_send_def Let_def case_prod_beta)
    qed
  qed (simp add: sock_send_def s)
qed

lemma recv_ok: "socks_ok s \<Longrightarrow> socks_ok (snd (sock_recv fd cap s))"
proof -
  assume s: "socks_ok s"
  show ?thesis
  proof (cases "get_sock fd s")
    case (Some sk)
    then have sk: "sock_ok sk" using s by (rule get_sock_ok[rotated])
    then have "sock_ok (sk\<lparr>so_udp_head := (so_udp_head sk + 1) mod UDP_SLOTS, so_udp_len := so_udp_len sk - 1\<rparr>)"
      "sock_ok (sk\<lparr>so_rx_head := (so_rx_head sk + k) mod TCP_RXCAP, so_rx_count := so_rx_count sk - k\<rparr>)" for k
      by (auto simp: sock_ok_def cap_defs)
    then show ?thesis
      using s Some by (simp add: sock_recv_def Let_def put_sock_ok split: kind.split)
  qed (simp add: sock_recv_def s)
qed

lemma close_ok: "socks_ok s \<Longrightarrow> socks_ok (sock_close fd s)"
proof -
  assume s: "socks_ok s"
  show ?thesis
  proof (cases "get_sock fd s")
    case (Some sk)
    then have sk: "sock_ok sk" using s by (rule get_sock_ok[rotated])
    let ?tab = "map (\<lambda>c. if so_used c \<and> so_parent c = fd then c\<lparr>so_used := False\<rparr> else c) (ss_tab s)"
    have "socks_ok (s\<lparr>ss_tab := ?tab\<rparr>)" using s by (auto simp: socks_ok_def list_all_iff)
    then have "socks_ok (put_sock fd (sk\<lparr>so_used := False\<rparr>) (s\<lparr>ss_tab := ?tab\<rparr>))"
      using sk by (intro put_sock_ok) simp_all
    then have "socks_ok (s\<lparr>ss_tab := ?tab[fd := sk\<lparr>so_used := False\<rparr>]\<rparr>)" by (simp add: put_sock_def)
    then show ?thesis
      using s sk Some
      by (auto simp: sock_close_def Let_def split: tcp_state.split intro!: put_sock_ok set_net_ok)
  qed (simp add: sock_close_def s)
qed

lemma tick_all_ok:
  "list_all sock_ok sks \<Longrightarrow> net_wf n \<Longrightarrow>
   length (fst (tick_all now sks n)) = length sks \<and> list_all sock_ok (fst (tick_all now sks n)) \<and> net_wf (snd (tick_all now sks n))"
proof (induction sks arbitrary: n)
  case (Cons sk sks)
  obtain sk1 n1 where 1: "sock_tick now sk n = (sk1, n1)" by fastforce
  then have "sock_ok sk1" "net_wf n1"
    using sock_ok_tick[of sk now n] net_wf_tick[of n now sk] Cons.prems by simp_all
  then show ?case using Cons 1 by (simp add: case_prod_beta)
qed simp

lemma tick_ok: "socks_ok s \<Longrightarrow> socks_ok (tick now s)"
  using tick_all_ok[of "ss_tab s" "ss_net s" now] by (simp add: tick_def socks_ok_def case_prod_beta)

lemma udp_enqueue_ok:
  assumes "sock_ok sk" "length payload \<le> UDP_MTU" "so_udp_len sk < UDP_SLOTS"
  shows "sock_ok (udp_enqueue src sport payload sk)"
proof -
  let ?i = "(so_udp_head sk + so_udp_len sk) mod UDP_SLOTS"
  let ?d = "(so_udp_rx sk ! ?i)\<lparr>dg_len := length payload, dg_src_ip := src, dg_src_port := sport,
    dg_data := blit 0 payload (dg_data (so_udp_rx sk ! ?i))\<rparr>"
  have "?i < length (so_udp_rx sk)" using assms by (simp add: sock_ok_def UDP_SLOTS_def)
  then have "dgram_ok (so_udp_rx sk ! ?i)" using assms(1) by (simp add: sock_ok_def list_all_length)
  then have "dgram_ok ?d" using assms(2) by (simp add: dgram_ok_def)
  then have "list_all dgram_ok ((so_udp_rx sk)[?i := ?d])"
    using assms(1) by (auto simp: sock_ok_def list_all_iff dest!: subsetD[OF set_update_subset_insert])
  then show ?thesis using assms by (simp add: udp_enqueue_def Let_def sock_ok_def)
qed

lemma deliver_udp_all_ok:
  "list_all sock_ok sks \<Longrightarrow> length payload \<le> UDP_MTU \<Longrightarrow>
   length (deliver_udp_all src dst sport dport payload sks) = length sks \<and>
   list_all sock_ok (deliver_udp_all src dst sport dport payload sks)"
  by (induction sks) (auto simp: udp_enqueue_ok udp_accepts_def)

lemma deliver_udp_ok: "socks_ok s \<Longrightarrow> socks_ok (deliver_udp src dst sport dport payload s)"
  using deliver_udp_all_ok[of "ss_tab s" payload src dst sport dport] by (auto simp: deliver_udp_def socks_ok_def)

lemma spawn_child_ok: "socks_ok s \<Longrightarrow> socks_ok (spawn_child l src sport seq ws s)"
  using sock_ok_empty
  by (auto simp: spawn_child_def Let_def split: option.split intro!: put_sock_ok set_net_ok)

lemma deliver_tcp_ok: "socks_ok s \<Longrightarrow> socks_ok (deliver_tcp src seg s)"
proof -
  assume s: "socks_ok s"
  have "socks_ok (put_sock i (fst (sock_segment flags seq ack ws payload now (ss_tab s ! i) (ss_net s)))
      (s\<lparr>ss_net := snd (sock_segment flags seq ack ws payload now (ss_tab s ! i) (ss_net s))\<rparr>))"
    if "position P (ss_tab s) = Some i" for P i flags seq ack ws payload now
    using sock_segment_ok[OF position_table_ok[OF s that] socks_ok_net[OF s]] s
    by (intro put_sock_ok set_net_ok) simp_all
  then show ?thesis
    using s by (simp add: deliver_tcp_def Let_def case_prod_beta spawn_child_ok split: option.split)
qed

lemma rx_frame_ok: "socks_ok s \<Longrightarrow> socks_ok (rx_frame frame s)"
proof -
  assume s: "socks_ok s"
  then have "socks_ok (s\<lparr>ss_net := snd (handle_frame frame (ss_net s))\<rparr>)"
    by (intro set_net_ok net_wf_handle_frame) auto
  then show ?thesis
    by (simp add: rx_frame_def deliver_def case_prod_beta deliver_tcp_ok deliver_udp_ok split: delivery.split)
qed

lemma loop_step_ok: "socks_ok s \<Longrightarrow> socks_ok (loop_step s)"
proof -
  assume s: "socks_ok s"
  let ?n = "(ss_net s)\<lparr>nt_loop_head := (nt_loop_head (ss_net s) + 1) mod LOOP_SLOTS, nt_loop_count := nt_loop_count (ss_net s) - 1\<rparr>"
  have "net_wf ?n" using socks_ok_net[OF s] by (auto simp: net_wf_def bound_ip_def LOOP_SLOTS_def)
  then have "socks_ok (s\<lparr>ss_net := ?n\<rparr>)" using s by (intro set_net_ok)
  then show ?thesis by (simp add: loop_step_def Let_def deliver_tcp_ok deliver_udp_ok)
qed

subsection \<open>Runs\<close>

datatype sock_op =
    OOpen u32 kind | OBind nat u16 | OListen nat | OAccept nat | OConnect nat ip4 u16 | OSend nat bytes
  | ORecv nat nat | OClose nat | OTick u64 | OFrame bytes | OLoop | OClock u64

fun sock_exec :: "sock_op \<Rightarrow> socks \<Rightarrow> socks" where
  "sock_exec (OOpen pid k) s = snd (sock_open pid k s)"
| "sock_exec (OBind fd port) s = snd (sock_bind fd port s)"
| "sock_exec (OListen fd) s = snd (sock_listen fd s)"
| "sock_exec (OAccept fd) s = snd (sock_accept fd s)"
| "sock_exec (OConnect fd ip port) s = snd (sock_connect fd ip port s)"
| "sock_exec (OSend fd dat) s = snd (sock_send fd dat s)"
| "sock_exec (ORecv fd cap) s = snd (sock_recv fd cap s)"
| "sock_exec (OClose fd) s = sock_close fd s"
| "sock_exec (OTick now) s = tick now s"
| "sock_exec (OFrame frame) s = rx_frame frame s"
| "sock_exec OLoop s = (if nt_loop_count (ss_net s) > 0 then loop_step s else s)"
| "sock_exec (OClock t) s = s\<lparr>ss_net := (ss_net s)\<lparr>nt_ticks := t\<rparr>\<rparr>"

text \<open>The static tables at boot, above a network state.\<close>

definition socks_init :: "net \<Rightarrow> socks" where
  "socks_init n = \<lparr>ss_tab = replicate MAX_SOCKS sock_empty, ss_next_port = 49152, ss_net = n\<rparr>"

lemma sock_exec_ok: "socks_ok s \<Longrightarrow> socks_ok (sock_exec op s)"
  by (cases op) (simp_all add: open_ok bind_ok listen_ok accept_ok connect_ok send_ok recv_ok close_ok
      tick_ok rx_frame_ok loop_step_ok, simp add: socks_ok_def net_wf_def bound_ip_def)

lemma fold_exec_ok: "socks_ok s \<Longrightarrow> socks_ok (fold sock_exec ops s)"
  by (induction ops arbitrary: s) (simp_all add: sock_exec_ok)

lemma socks_init_ok: "net_wf n \<Longrightarrow> socks_ok (socks_init n)"
  by (simp add: socks_init_def socks_ok_def sock_ok_empty list_all_iff)

text \<open>With the invariant, the congestion gate of \<open>kick\<close> never holds a segment back.\<close>

lemma kick_sends:
  assumes "sock_ok sk" "\<not> so_tx_pending sk" "0 < so_tx_q_len sk"
  shows "so_tx_pending (fst (kick sk n)) \<and> so_tx_len (fst (kick sk n)) = min (so_tx_q_len sk) TCP_MSS"
proof -
  let ?k = "min (so_tx_q_len sk) TCP_MSS"
  have "unat (word_of_nat ?k :: u32) \<le> unat (word_of_nat TCP_MSS :: u32)"
    unfolding unat_of_nat by (simp add: TCP_MSS_def)
  then have "(word_of_nat ?k :: u32) \<le> so_cwnd sk"
    using assms(1) by (simp add: sock_ok_def word_le_nat_alt)
  then show ?thesis using assms(2,3) by (simp add: kick_def Let_def not_less)
qed

text \<open>
  C21: from boot, no sequence of socket calls, timer ticks, clock changes and received frames
  (any bytes) breaks the invariant: all ring heads and counts of the sixteen slots stay inside their
  buffers, no in-flight segment exceeds one MSS, the congestion window stays at one MSS or more (so the
  division in congestion avoidance never divides by zero and the gate of \<open>kick\<close> never stalls), the
  ephemeral port stays in its range and the ARP and loopback tables keep their shape.
\<close>

theorem socks_run_ok: "net_wf n \<Longrightarrow> socks_ok (fold sock_exec ops (socks_init n))"
  by (rule fold_exec_ok[OF socks_init_ok])

end
