(* ===== verification/Kernel_Tcp.thy ===== *)
theory Kernel_Tcp
  imports Socket_Invariant "HOL-Library.Sublist"
begin

text \<open>
  Two hosts of \<open>Kernel_Socket\<close> with an established connection between them, over a network that may
  lose, delay, reorder and duplicate frames: every frame a host ever handed to its adapter may reach the
  other host at any time, any number of times, or never.  The applications send and receive, the clocks
  jump and the retransmission timers run.  The data transfer is shown to be a reliable byte stream in both
  directions.
\<close>

subsection \<open>Segments on the wire\<close>

definition plain_flags :: "u8 \<Rightarrow> bool" where
  "plain_flags flags \<longleftrightarrow> flags = ACK \<or> flags = PSH OR ACK"

lemmas flag_defs = FIN_def SYN_def RST_def PSH_def ACK_def

lemma plain_flags_bits:
  "plain_flags flags \<Longrightarrow> flags AND SYN = 0 \<and> flags AND RST = 0 \<and> flags AND FIN = 0 \<and> flags AND ACK \<noteq> 0"
  by (auto simp: plain_flags_def flag_defs)

definition deliver_segment :: "ip4 \<Rightarrow> u16 \<Rightarrow> u16 \<Rightarrow> u8 \<Rightarrow> u32 \<Rightarrow> u32 \<Rightarrow> bytes \<Rightarrow> socks \<Rightarrow> socks" where
  "deliver_segment src sport dport flags seq ack payload s =
     (case position (sock_matches src sport dport) (ss_tab s) of
        None \<Rightarrow> s
      | Some i \<Rightarrow>
          let (sk, n) = sock_segment flags seq ack 0 payload (nt_ticks (ss_net s)) (ss_tab s ! i) (ss_net s)
          in put_sock i sk (s\<lparr>ss_net := n\<rparr>))"

lemma tcp_segment_bytes:
  assumes "plain_flags flags" "length payload \<le> TCP_MSS"
  shows "\<exists>w1 w2 c1 c2. tcp_segment sk seq flags payload n =
    be16 (so_port sk) @ be16 (so_rport sk) @ be32 seq @ be32 (so_rcv_nxt sk) @
    [0x50, flags, w1, w2, c1, c2] @ be16 0 @ payload"
  using plain_flags_bits[OF assms(1)] assms(2)
  by (simp add: tcp_segment_def tcp_header_def Let_def be16_def)

lemma deliver_tcp_bytes:
  assumes "plain_flags flags"
    "seg = be16 sport @ be16 dport @ be32 seq @ be32 ack @ [0x50, flags, w1, w2, c1, c2] @ be16 0 @ payload"
  shows "deliver_tcp src seg s = deliver_segment src sport dport flags seq ack payload s"
proof -
  have len: "length seg = 20 + length payload" unfolding assms(2) by simp
  have b: "seg ! 0 = ucast (drop_bit 8 sport)" "seg ! 1 = ucast sport"
    "seg ! 2 = ucast (drop_bit 8 dport)" "seg ! 3 = ucast dport" "seg ! 12 = 0x50" "seg ! 13 = flags"
    unfolding assms(2) be16_def be32_def by simp_all
  have w: "sub_bytes 4 4 seg = be32 seq" "sub_bytes 8 4 seg = be32 ack" "drop 20 seg = payload"
    unfolding assms(2) sub_bytes_def by (simp_all add: be16_def be32_def)
  have doff: "unat (drop_bit 4 (0x50 :: u8)) * 4 = 20" by simp
  have ws: "wscale_opt seg 20 = 0" by (simp add: wscale_opt_def wscale_loop.simps)
  show ?thesis
    unfolding deliver_tcp_def Let_def b w len doff from_be16_be16 from_be32_be32 ws deliver_segment_def
    using plain_flags_bits[OF assms(1)] by (simp add: doff w ws)
qed

lemma deliver_tcp_segment:
  assumes "plain_flags flags" "length payload \<le> TCP_MSS"
  shows "deliver_tcp src (tcp_segment sk seq flags payload n) s =
    deliver_segment src (so_port sk) (so_rport sk) flags seq (so_rcv_nxt sk) payload s"
  using tcp_segment_bytes[OF assms, of sk seq n] deliver_tcp_bytes[OF assms(1)] by metis

definition carries :: "bytes \<Rightarrow> ip4 \<Rightarrow> u16 \<Rightarrow> u16 \<Rightarrow> u8 \<Rightarrow> u32 \<Rightarrow> u32 \<Rightarrow> bytes \<Rightarrow> bool" where
  "carries f src sport dport flags seq ack payload \<longleftrightarrow>
     (\<forall>s. rx_frame f s = deliver_segment src sport dport flags seq ack payload s)"

lemma send_segment_cases:
  assumes "\<not> loops_back (so_rip sk) n" "net_wf n" "length (so_rip sk) = 4" "plain_flags flags" "length payload \<le> TCP_MSS"
  shows "send_segment sk seq flags payload n = n \<or>
    (\<exists>f. send_segment sk seq flags payload n = n\<lparr>nt_out := nt_out n @ [f]\<rparr> \<and>
         carries f (bound_ip n) (so_port sk) (so_rport sk) flags seq (so_rcv_nxt sk) payload)"
proof -
  let ?l4 = "tcp_segment sk seq flags payload n"
  define hw where "hw = (case arp_lookup (next_hop (so_rip sk) n) n of Some hw \<Rightarrow> hw | None \<Rightarrow> BROADCAST_MAC)"
  define f where "f = start_frame hw (so_rip sk) PROTO_TCP (length ?l4) n @ ?l4"
  have "length hw = 6"
    using arp_lookup_length[OF assms(2)] by (auto simp: hw_def BROADCAST_MAC_def split: option.split)
  moreover have "20 \<le> length ?l4" using tcp_segment_bytes[OF assms(4,5), of sk seq n] by force
  ultimately have "handle_frame f m = (DTcp (bound_ip n) ?l4, m)" for m
    using assms(2,3) unfolding f_def by (intro handle_sent_tcp) (simp_all add: net_wf_def)
  then have "carries f (bound_ip n) (so_port sk) (so_rport sk) flags seq (so_rcv_nxt sk) payload"
    by (simp add: carries_def rx_frame_def deliver_def deliver_tcp_segment[OF assms(4,5)])
  moreover have "send_segment sk seq flags payload n = n \<or> send_segment sk seq flags payload n = n\<lparr>nt_out := nt_out n @ [f]\<rparr>"
    using assms(1) unfolding f_def hw_def PROTO_TCP_def
    by (auto simp: send_segment_def emit_ipv4_def uplink_send_def Let_def split: option.split)
  ultimately show ?thesis by blast
qed

subsection \<open>One end of the connection\<close>

text \<open>
  The fixed data of one end: its own address and port, the peer's, and the sequence numbers of the first
  byte in each direction.
\<close>

record link =
  li_ip :: ip4
  li_port :: u16
  li_rip :: ip4
  li_rport :: u16
  li_s0 :: u32
  li_t0 :: u32
  li_gap :: bool

text \<open>
  Of the stream \<open>S\<close> accepted from the application, \<open>u\<close> bytes are acknowledged and \<open>L\<close> more are in
  flight; the segment in flight and the queue hold exactly the rest.
\<close>

definition snd_ok :: "link \<Rightarrow> bytes \<Rightarrow> nat \<Rightarrow> nat \<Rightarrow> sock \<Rightarrow> bool" where
  "snd_ok c S u L sk \<longleftrightarrow> u + L \<le> length S \<and> L \<le> TCP_MSS \<and>
     (so_state sk = Established \<longrightarrow>
        (so_tx_pending sk \<longleftrightarrow> 0 < L) \<and> so_snd_nxt sk = li_s0 c + word_of_nat (u + L) \<and>
        ring_bytes TX_QCAP (so_tx_q_head sk) (so_tx_q_len sk) (so_tx_q sk) = drop (u + L) S \<and>
        (0 < L \<longrightarrow> so_tx_seq sk = li_s0 c + word_of_nat u \<and> so_tx_len sk = L \<and>
           take L (so_tx_buf sk) = take L (drop u S)))"

text \<open>
  Of the peer's stream \<open>T\<close>, \<open>r\<close> bytes are acknowledged: \<open>R\<close> of them read, the others in the receive ring, up to
  the segments that were acknowledged without being stored (\<open>li_gap\<close>).
\<close>

definition kept :: "bool \<Rightarrow> bytes \<Rightarrow> bytes \<Rightarrow> bool" where
  "kept gap xs ys \<longleftrightarrow> (if gap then subseq xs ys else xs = ys)"

definition rcv_ok :: "link \<Rightarrow> bytes \<Rightarrow> nat \<Rightarrow> bytes \<Rightarrow> sock \<Rightarrow> bool" where
  "rcv_ok c T r R sk \<longleftrightarrow> r \<le> length T \<and> so_rcv_nxt sk = li_t0 c + word_of_nat r \<and>
     kept (li_gap c) (R @ ring_bytes TCP_RXCAP (so_rx_head sk) (so_rx_count sk) (so_rx_buf sk)) (take r T)"

text \<open>What a segment ever sent may carry.\<close>

definition seg_ok :: "u32 \<Rightarrow> bytes \<Rightarrow> nat \<Rightarrow> nat \<Rightarrow> u32 \<Rightarrow> bytes \<Rightarrow> bool" where
  "seg_ok s0 S u L seq pl \<longleftrightarrow> pl = [] \<or>
     (\<exists>k. seq = s0 + word_of_nat k \<and> k + length pl \<le> length S \<and> pl = take (length pl) (drop k S) \<and>
          (k + length pl \<le> u \<or> k = u \<and> length pl = L))"

definition ack_ok :: "u32 \<Rightarrow> nat \<Rightarrow> u32 \<Rightarrow> bool" where
  "ack_ok t0 r ack \<longleftrightarrow> (\<exists>j\<le>r. ack = t0 + word_of_nat j)"

definition frame_ok :: "link \<Rightarrow> bytes \<Rightarrow> nat \<Rightarrow> nat \<Rightarrow> nat \<Rightarrow> bytes \<Rightarrow> bool" where
  "frame_ok c S u L r f \<longleftrightarrow>
     (\<exists>flags seq ack pl. plain_flags flags \<and> carries f (li_ip c) (li_port c) (li_rport c) flags seq ack pl \<and>
        seg_ok (li_s0 c) S u L seq pl \<and> ack_ok (li_t0 c) r ack \<and> length pl \<le> TCP_MSS)"

definition net_end :: "link \<Rightarrow> net \<Rightarrow> bool" where
  "net_end c n \<longleftrightarrow> net_wf n \<and> bound_ip n = li_ip c \<and> \<not> loops_back (li_rip c) n"

definition sock_end :: "link \<Rightarrow> sock \<Rightarrow> bool" where
  "sock_end c sk \<longleftrightarrow> sock_ok sk \<and> so_used sk \<and> so_kind sk = Tcp \<and> so_port sk = li_port c \<and> so_rport sk = li_rport c \<and>
     so_rip sk = li_rip c \<and> length (li_rip c) = 4 \<and> (so_state sk = Established \<or> so_state sk = Closed)"

definition side :: "link \<Rightarrow> bytes \<Rightarrow> nat \<Rightarrow> nat \<Rightarrow> bytes \<Rightarrow> nat \<Rightarrow> bytes \<Rightarrow> sock \<Rightarrow> net \<Rightarrow> bool" where
  "side c S u L T r R sk n \<longleftrightarrow> sock_end c sk \<and> net_end c n \<and> snd_ok c S u L sk \<and> rcv_ok c T r R sk \<and>
     (\<forall>f\<in>set (nt_out n). frame_ok c S u L r f)"

lemma kept_append: "kept gap xs ys \<Longrightarrow> kept gap (xs @ zs) (ys @ zs)"
  by (simp add: kept_def list_emb_append_mono)

lemma kept_skip: "kept gap xs ys \<Longrightarrow> kept True xs (ys @ zs)"
  by (cases gap) (auto simp: kept_def intro: subseq_order.order_trans prefix_imp_subseq)

lemma link_gap [simp]:
  "sock_end (c\<lparr>li_gap := g\<rparr>) sk = sock_end c sk" "net_end (c\<lparr>li_gap := g\<rparr>) n = net_end c n"
  "snd_ok (c\<lparr>li_gap := g\<rparr>) S u L sk = snd_ok c S u L sk" "frame_ok (c\<lparr>li_gap := g\<rparr>) S u L r f = frame_ok c S u L r f"
  by (simp_all add: sock_end_def net_end_def snd_ok_def frame_ok_def)

text \<open>The receiver acknowledged bytes without storing them.\<close>

definition drops :: "sock \<Rightarrow> sock \<Rightarrow> bool" where
  "drops sk sk' \<longleftrightarrow> so_rcv_nxt sk' \<noteq> so_rcv_nxt sk \<and> so_rx_count sk' = so_rx_count sk"

lemma drops_refl [simp]: "\<not> drops sk sk"
  by (simp add: drops_def)

lemma seg_ok_mono: "seg_ok s0 S u L seq pl \<Longrightarrow> seg_ok s0 (S @ d) u L seq pl"
  unfolding seg_ok_def by auto

lemma seg_ok_start: "seg_ok s0 S u 0 seq pl \<Longrightarrow> seg_ok s0 S u L seq pl"
  unfolding seg_ok_def by auto

lemma seg_ok_acked: "seg_ok s0 S u L seq pl \<Longrightarrow> seg_ok s0 S (u + L) 0 seq pl"
  unfolding seg_ok_def by (force simp: trans_le_add1)

lemma seg_ok_current: "u + L \<le> length S \<Longrightarrow> seg_ok s0 S u L (s0 + word_of_nat u) (take L (drop u S))"
  unfolding seg_ok_def by (intro disjI2 exI[of _ u]) auto

lemma ack_ok_mono: "ack_ok t0 r ack \<Longrightarrow> r \<le> r' \<Longrightarrow> ack_ok t0 r' ack"
  unfolding ack_ok_def using order_trans by blast

lemma frame_ok_weaken:
  assumes "frame_ok c S u L r f" "\<And>seq pl. seg_ok (li_s0 c) S u L seq pl \<Longrightarrow> seg_ok (li_s0 c) S' u' L' seq pl" "r \<le> r'"
  shows "frame_ok c S' u' L' r' f"
  using assms ack_ok_mono unfolding frame_ok_def by blast

text \<open>Sequence offsets below \<open>2 ^ 32\<close> are told apart by the 32-bit numbers.\<close>

lemma seq_inject:
  assumes "s0 + word_of_nat i = (s0 + word_of_nat j :: u32)" "i < 2 ^ 32" "j < 2 ^ 32"
  shows "i = j"
proof -
  have "(word_of_nat i :: u32) = word_of_nat j" using assms(1) by simp
  then have "unat (word_of_nat i :: u32) = unat (word_of_nat j :: u32)" by simp
  then show ?thesis using assms(2,3) unfolding unat_of_nat by simp
qed

subsection \<open>Emitting keeps the invariant of the wire\<close>

lemma emit_wire:
  assumes "net_end c n" "\<forall>f\<in>set (nt_out n). frame_ok c S u L r f" "plain_flags flags" "length pl \<le> TCP_MSS"
    "seg_ok (li_s0 c) S u L seq pl" "so_port sk = li_port c" "so_rport sk = li_rport c" "so_rip sk = li_rip c"
    "length (li_rip c) = 4" "ack_ok (li_t0 c) r (so_rcv_nxt sk)"
  shows "net_end c (send_segment sk seq flags pl n) \<and>
    (\<forall>f\<in>set (nt_out (send_segment sk seq flags pl n)). frame_ok c S u L r f)"
proof -
  have st: "net_wf n" "bound_ip n = li_ip c" "\<not> loops_back (li_rip c) n" using assms(1) by (simp_all add: net_end_def)
  have loop: "loops_back d (n\<lparr>nt_out := x\<rparr>) = loops_back d n" for d x
    by (simp add: loops_back_def bound_ip_def is_subnet_broadcast_def)
  consider "send_segment sk seq flags pl n = n"
    | f where "send_segment sk seq flags pl n = n\<lparr>nt_out := nt_out n @ [f]\<rparr>"
        "carries f (li_ip c) (li_port c) (li_rport c) flags seq (so_rcv_nxt sk) pl"
    using send_segment_cases[of sk n flags pl seq] st assms by auto
  then show ?thesis
  proof cases
    case (2 f)
    have "frame_ok c S u L r f" using 2(2) assms unfolding frame_ok_def by blast
    moreover have "net_end c (n\<lparr>nt_out := nt_out n @ [f]\<rparr>)"
      using st net_wf_send_segment[OF st(1), of sk seq flags pl] 2(1) by (simp add: net_end_def loop bound_ip_def)
    ultimately show ?thesis using 2(1) assms(2) by simp
  qed (use assms in simp)
qed

subsection \<open>The steps of one end\<close>

text \<open>The facts of one end that no step of the data transfer changes.\<close>

lemma sock_end_fields:
  "sock_end c sk \<Longrightarrow> so_port sk = li_port c \<and> so_rport sk = li_rport c \<and> so_rip sk = li_rip c \<and> length (li_rip c) = 4"
  by (simp add: sock_end_def)

lemma plain_flags_simps [simp]: "plain_flags ACK" "plain_flags (PSH OR ACK)"
  by (simp_all add: plain_flags_def)

lemma kick_sock_end: "sock_end c sk \<Longrightarrow> sock_end c (fst (kick sk n))"
  using sock_ok_kick[of sk n] by (simp add: sock_end_def kick_def Let_def)

lemma rcv_ok_ack: "rcv_ok c T r R sk \<Longrightarrow> ack_ok (li_t0 c) r (so_rcv_nxt sk)"
  by (auto simp: rcv_ok_def ack_ok_def)

lemma kick_rcv_ok: "rcv_ok c T r R sk \<Longrightarrow> rcv_ok c T r R (fst (kick sk n))"
  by (simp add: rcv_ok_def kick_def Let_def)

lemma kick_pending: "so_tx_pending sk \<Longrightarrow> kick sk n = (sk, n)"
  by (simp add: kick_def)

text \<open>With nothing in flight, \<open>kick\<close> puts the head of the queue in flight.\<close>

lemma kick_side:
  assumes "side c S u 0 T r R sk n" "so_state sk = Established"
  shows "\<exists>L. side c S u L T r R (fst (kick sk n)) (snd (kick sk n))"
proof (cases "so_tx_q_len sk = 0 \<or> so_cwnd sk < word_of_nat (min (so_tx_q_len sk) TCP_MSS)")
  case True
  then have "kick sk n = (sk, n)" by (auto simp: kick_def)
  then show ?thesis using assms(1) by auto
next
  case False
  let ?k = "min (so_tx_q_len sk) TCP_MSS"
  let ?d = "ring_bytes TX_QCAP (so_tx_q_head sk) ?k (so_tx_q sk)"
  let ?sk = "fst (kick sk n)"
  have e: "sock_end c sk" "net_end c n" "rcv_ok c T r R sk" and so: "sock_ok sk"
    and wire: "\<forall>f\<in>set (nt_out n). frame_ok c S u 0 r f"
    and q: "ring_bytes TX_QCAP (so_tx_q_head sk) (so_tx_q_len sk) (so_tx_q sk) = drop u S"
    and nxt: "so_snd_nxt sk = li_s0 c + word_of_nat u" and np: "\<not> so_tx_pending sk"
    using assms by (simp_all add: side_def snd_ok_def sock_end_def)
  have qlen: "so_tx_q_len sk = length S - u" using arg_cong[OF q, of length] by simp
  have d: "?d = take ?k (drop u S)" unfolding q[symmetric] by (rule ring_bytes_take) simp
  have k: "0 < ?k" "?k \<le> TCP_MSS" "u + ?k \<le> length S"
    using False qlen by (auto simp: TCP_MSS_def min_def)
  have sk: "?sk = sk\<lparr>so_tx_buf := blit 0 ?d (so_tx_buf sk), so_tx_q_head := (so_tx_q_head sk + ?k) mod TX_QCAP,
      so_tx_q_len := so_tx_q_len sk - ?k, so_tx_len := ?k, so_tx_seq := so_snd_nxt sk,
      so_snd_nxt := so_snd_nxt sk + word_of_nat ?k, so_tx_pending := True, so_retries := 0, so_sent_at := nt_ticks n\<rparr>"
    and n: "snd (kick sk n) = send_segment ?sk (so_tx_seq ?sk) (PSH OR ACK) (take ?k (so_tx_buf ?sk)) n"
    using False np by (simp_all add: kick_def Let_def)
  have buf: "take ?k (so_tx_buf ?sk) = take ?k (drop u S)"
  proof -
    have "take ?k (blit 0 ?d (so_tx_buf sk)) = ?d" using take_blit[of ?d "so_tx_buf sk"] by simp
    then show ?thesis unfolding sk using d by simp
  qed
  have snd: "snd_ok c S u ?k ?sk"
  proof -
    have "ring_bytes TX_QCAP ((so_tx_q_head sk + ?k) mod TX_QCAP) (so_tx_q_len sk - ?k) (so_tx_q sk) = drop (u + ?k) S"
      using ring_bytes_drop[of ?k "so_tx_q_len sk" TX_QCAP "so_tx_q_head sk" "so_tx_q sk"] q by (simp add: add.commute)
    then show ?thesis using buf k nxt unfolding snd_ok_def by (simp add: sk add.assoc)
  qed
  have seg: "seg_ok (li_s0 c) S u ?k (so_tx_seq ?sk) (take ?k (so_tx_buf ?sk))"
    unfolding buf using seg_ok_current[OF k(3)] nxt by (simp add: sk)
  have wire': "\<forall>f\<in>set (nt_out n). frame_ok c S u ?k r f"
    using wire by (blast intro: frame_ok_weaken seg_ok_start)
  have e': "sock_end c ?sk" "rcv_ok c T r R ?sk" using kick_sock_end kick_rcv_ok e by blast+
  have "net_end c (snd (kick sk n)) \<and> (\<forall>f\<in>set (nt_out (snd (kick sk n))). frame_ok c S u ?k r f)"
    unfolding n using e e' wire' seg sock_end_fields[OF e'(1)] rcv_ok_ack[OF e'(2)]
    by (intro emit_wire) simp_all
  then show ?thesis using snd e' unfolding side_def by blast
qed

lemma send_side:
  assumes "side c S u L T r R sk n" "so_state sk = Established" "length d \<le> TX_QCAP - so_tx_q_len sk"
    "sk1 = sk\<lparr>so_tx_q := ring_put TX_QCAP ((so_tx_q_head sk + so_tx_q_len sk) mod TX_QCAP) d (so_tx_q sk),
       so_tx_q_len := so_tx_q_len sk + length d\<rparr>"
  shows "\<exists>L'. side c (S @ d) u L' T r R (fst (kick sk1 n)) (snd (kick sk1 n)) \<and> (0 < L \<longrightarrow> L' = L)"
proof -
  have so: "sock_ok sk" using assms(1) by (simp add: side_def sock_end_def)
  have room: "so_tx_q_len sk + length d \<le> TX_QCAP" using so assms(3) by (auto simp: sock_ok_def)
  have "ring_bytes TX_QCAP (so_tx_q_head sk) (so_tx_q_len sk) (so_tx_q sk) = drop (u + L) S" "u + L \<le> length S"
    using assms(1,2) by (simp_all add: side_def snd_ok_def)
  then have "ring_bytes TX_QCAP (so_tx_q_head sk1) (so_tx_q_len sk1) (so_tx_q sk1) = drop (u + L) (S @ d)"
    using ring_bytes_put[OF _ _ room, of "so_tx_q sk" "so_tx_q_head sk"] so by (simp add: sock_ok_def assms(4))
  then have snd: "snd_ok c (S @ d) u L sk1"
    using assms by (simp add: side_def snd_ok_def)
  have "sock_ok sk1" using so room assms(4) by (simp add: sock_ok_def)
  then have e: "sock_end c sk1" using assms by (simp add: side_def sock_end_def)
  have rcv: "rcv_ok c T r R sk1" using assms by (simp add: side_def rcv_ok_def)
  have "\<forall>f\<in>set (nt_out n). frame_ok c (S @ d) u L r f"
    using assms(1) unfolding side_def by (blast intro: frame_ok_weaken seg_ok_mono)
  then have side1: "side c (S @ d) u L T r R sk1 n"
    using assms(1) snd e rcv by (simp add: side_def)
  show ?thesis
  proof (cases "L = 0")
    case True
    then show ?thesis using kick_side[of c "S @ d" u T r R sk1 n] side1 assms(2,4) by simp
  next
    case False
    then have "so_tx_pending sk1" using snd assms(2,4) by (simp add: snd_ok_def)
    then show ?thesis using side1 kick_pending by auto
  qed
qed

lemma resend_side:
  assumes "side c S u L T r R sk n" "so_state sk = Established" "so_tx_pending sk" "sock_end c sk'"
    "snd_ok c S u L sk'" "rcv_ok c T r R sk'" "so_tx_seq sk' = so_tx_seq sk" "so_tx_len sk' = so_tx_len sk"
    "so_tx_buf sk' = so_tx_buf sk"
  shows "side c S u L T r R sk' (send_segment sk' (so_tx_seq sk') (PSH OR ACK) (take (so_tx_len sk') (so_tx_buf sk')) n)"
proof -
  have p: "0 < L" "so_tx_seq sk = li_s0 c + word_of_nat u" "so_tx_len sk = L" "take L (so_tx_buf sk) = take L (drop u S)"
    "u + L \<le> length S" "L \<le> TCP_MSS"
    using assms(1-3) by (auto simp: side_def snd_ok_def)
  have "seg_ok (li_s0 c) S u L (so_tx_seq sk') (take (so_tx_len sk') (so_tx_buf sk'))"
    using seg_ok_current[OF p(5)] p assms(7-9) by simp
  then have "net_end c (send_segment sk' (so_tx_seq sk') (PSH OR ACK) (take (so_tx_len sk') (so_tx_buf sk')) n) \<and>
    (\<forall>f\<in>set (nt_out (send_segment sk' (so_tx_seq sk') (PSH OR ACK) (take (so_tx_len sk') (so_tx_buf sk')) n)). frame_ok c S u L r f)"
    using assms p sock_end_fields[OF assms(4)] rcv_ok_ack[OF assms(6)]
    by (intro emit_wire) (simp_all add: side_def)
  then show ?thesis using assms(4-6) by (simp add: side_def)
qed

lemma tick_side:
  assumes "side c S u L T r R sk n"
  shows "side c S u L T r R (fst (sock_tick now sk n)) (snd (sock_tick now sk n))"
proof (cases "so_state sk = Established \<and> so_tx_pending sk \<and> now - so_sent_at sk \<ge> REXMIT_TICKS")
  case False
  then have "sock_tick now sk n = (sk, n)"
    using assms by (auto simp: sock_tick_def side_def sock_end_def split: tcp_state.split)
  then show ?thesis using assms by simp
next
  case True
  have e: "so_used sk" "so_kind sk = Tcp" "sock_ok (fst (sock_tick now sk n))"
    using assms by (auto simp: side_def sock_end_def intro: sock_ok_tick)
  show ?thesis
  proof (cases "so_retries sk < REXMIT_MAX")
    case False
    then have "sock_tick now sk n = (sk\<lparr>so_tx_pending := False, so_state := Closed, so_eof := True\<rparr>, n)"
      using True e by (simp add: sock_tick_def)
    then show ?thesis
      using assms e by (simp add: side_def sock_end_def snd_ok_def rcv_ok_def)
  next
    case retry: True
    let ?sk1 = "if so_retries sk = 0
      then let t = max (so_cwnd sk div 2) (2 * word_of_nat TCP_MSS) in sk\<lparr>so_ssthresh := t, so_cwnd := t\<rparr> else sk"
    let ?sk = "?sk1\<lparr>so_retries := so_retries ?sk1 + 1, so_sent_at := now\<rparr>"
    have t: "sock_tick now sk n = (?sk, send_segment ?sk (so_tx_seq ?sk) (PSH OR ACK) (take (so_tx_len ?sk) (so_tx_buf ?sk)) n)"
      using True retry e by (simp add: sock_tick_def Let_def)
    have "sock_ok ?sk" using e(3) unfolding t fst_conv .
    then have "sock_end c ?sk" "snd_ok c S u L ?sk" "rcv_ok c T r R ?sk"
      using assms by (simp_all add: side_def sock_end_def snd_ok_def rcv_ok_def Let_def)
    then show ?thesis
      unfolding t fst_conv snd_conv using assms True by (intro resend_side[where sk = sk]) (simp_all add: Let_def)
  qed
qed

lemma ack_side:
  assumes "side c S u L T r R sk n" "so_state sk = Established" "length S < 2 ^ 32" "plain_flags flags"
    "ack_ok (li_s0 c) rp ack" "rp = u \<or> rp = u + L"
  shows "\<exists>u' L'. side c S u' L' T r R (fst (segment_ack flags ack sk n)) (snd (segment_ack flags ack sk n)) \<and>
    (rp = u' \<or> rp = u' + L') \<and> so_state (fst (segment_ack flags ack sk n)) = Established"
proof (cases "so_tx_pending sk \<and> ack = so_tx_seq sk + word_of_nat (so_tx_len sk)")
  case False
  then have "segment_ack flags ack sk n = (sk, n)" using assms(2) by (auto simp: segment_ack_def)
  then show ?thesis using assms by auto
next
  case True
  then have p: "0 < L" "so_tx_seq sk = li_s0 c + word_of_nat u" "so_tx_len sk = L" "u + L \<le> length S"
    using assms(1,2) by (auto simp: side_def snd_ok_def)
  obtain j where j: "j \<le> rp" "ack = li_s0 c + word_of_nat j" using assms(5) by (auto simp: ack_ok_def)
  have "li_s0 c + word_of_nat j = li_s0 c + word_of_nat (u + L)" using True j p by (simp add: add.assoc)
  then have "j = u + L" by (rule seq_inject) (use j p assms(3,6) in auto)
  then have rp: "rp = u + L" using j assms(6) by auto
  let ?sk = "grow_cwnd (sk\<lparr>so_tx_pending := False, so_snd_una := ack\<rparr>)"
  have "sock_end c ?sk"
    using assms(1) sock_ok_grow_cwnd[of "sk\<lparr>so_tx_pending := False, so_snd_una := ack\<rparr>"]
    by (simp add: side_def sock_end_def grow_cwnd_def)
  moreover have "snd_ok c S (u + L) 0 ?sk" "rcv_ok c T r R ?sk"
    using assms(1,2) by (auto simp: side_def snd_ok_def rcv_ok_def grow_cwnd_def)
  moreover have "\<forall>f\<in>set (nt_out n). frame_ok c S (u + L) 0 r f"
    using assms(1) unfolding side_def by (blast intro: frame_ok_weaken seg_ok_acked)
  ultimately have "side c S (u + L) 0 T r R ?sk n" using assms(1) by (simp add: side_def)
  moreover have st: "so_state ?sk = Established" using assms(2) by (simp add: grow_cwnd_def)
  ultimately obtain L' where "side c S (u + L) L' T r R (fst (kick ?sk n)) (snd (kick ?sk n))"
    using kick_side by blast
  moreover have "so_state (fst (kick ?sk n)) = Established" using st by (simp add: kick_def Let_def)
  moreover from this have "segment_ack flags ack sk n = kick ?sk n"
    using True plain_flags_bits[OF assms(4)] by (simp add: segment_ack_def case_prod_beta)
  ultimately show ?thesis using rp by auto
qed

lemma payload_side:
  assumes "side c S u L T r R sk n" "length T < 2 ^ 32" "seg_ok (li_t0 c) T ut Lt seq pl" "length pl \<le> TCP_MSS"
    "r = ut \<or> r = ut + Lt" "sk' = fst (segment_payload seq pl sk n)"
  shows "\<exists>r'. side (c\<lparr>li_gap := li_gap c \<or> drops sk sk'\<rparr>) S u L T r' R sk' (snd (segment_payload seq pl sk n)) \<and>
    (r' = ut \<or> r' = ut + Lt)"
proof (cases "pl \<noteq> [] \<and> so_state sk = Established")
  case False
  then have "segment_payload seq pl sk n = (sk, n)" by (auto simp: segment_payload_def)
  then show ?thesis using assms by auto
next
  case True
  have sk': "sk' = (if seq = so_rcv_nxt sk
    then let sk' = snd (append_rx sk pl) in sk'\<lparr>so_rcv_nxt := so_rcv_nxt sk' + word_of_nat (length pl)\<rparr> else sk)"
    using True assms(6) by (simp add: segment_payload_def Let_def)
  have step: "segment_payload seq pl sk n = (sk', send_segment sk' (so_snd_nxt sk') ACK [] n)"
    using True assms(6) by (simp add: segment_payload_def Let_def)
  have so: "sock_ok sk" and rcv: "rcv_ok c T r R sk" using assms(1) by (simp_all add: side_def sock_end_def)
  have e: "sock_end c sk'" "snd_ok c S u L sk'"
    using assms(1) sock_ok_append_rx[OF so, of pl]
    by (auto simp: sk' Let_def side_def sock_end_def snd_ok_def append_rx_def)
  let ?c = "c\<lparr>li_gap := li_gap c \<or> drops sk sk'\<rparr>"
  have "\<exists>r'. rcv_ok ?c T r' R sk' \<and> r \<le> r' \<and> (r' = ut \<or> r' = ut + Lt)"
  proof (cases "seq = so_rcv_nxt sk")
    case False
    then show ?thesis using rcv assms(5) by (auto simp: sk')
  next
    case seq: True
    obtain k where k: "seq = li_t0 c + word_of_nat k" "k + length pl \<le> length T" "pl = take (length pl) (drop k T)"
      "k + length pl \<le> ut \<or> k = ut \<and> length pl = Lt"
      using assms(3) True by (auto simp: seg_ok_def)
    let ?ring = "ring_bytes TCP_RXCAP (so_rx_head sk) (so_rx_count sk) (so_rx_buf sk)"
    have r: "so_rcv_nxt sk = li_t0 c + word_of_nat r" "r \<le> length T" "kept (li_gap c) (R @ ?ring) (take r T)"
      using rcv by (simp_all add: rcv_ok_def)
    have "li_t0 c + word_of_nat k = li_t0 c + word_of_nat r" using seq k(1) r(1) by simp
    then have kr: "k = r" by (rule seq_inject) (use k(2) r(2) assms(2) in auto)
    then have r': "r = ut" "length pl = Lt" using k(4) assms(5) True by auto
    have more: "take (r + length pl) T = take r T @ pl" using k(3) kr by (metis take_add)
    have nxt: "so_rcv_nxt sk' = li_t0 c + word_of_nat (r + length pl)"
      using seq r(1) by (simp add: sk' append_rx_def Let_def add.assoc)
    have moved: "so_rcv_nxt sk' \<noteq> so_rcv_nxt sk"
    proof
      assume "so_rcv_nxt sk' = so_rcv_nxt sk"
      then have "li_t0 c + word_of_nat (r + length pl) = li_t0 c + word_of_nat r" using nxt r(1) by simp
      then have "r + length pl = r" by (rule seq_inject) (use k(2) kr assms(2) in auto)
      then show False using True by simp
    qed
    have "kept (li_gap ?c) (R @ ring_bytes TCP_RXCAP (so_rx_head sk') (so_rx_count sk') (so_rx_buf sk')) (take (r + length pl) T)"
    proof (cases "so_rx_count sk + length pl \<le> TCP_RXCAP")
      case room: True
      have "ring_bytes TCP_RXCAP (so_rx_head sk') (so_rx_count sk') (so_rx_buf sk') = ?ring @ pl"
        using ring_bytes_put[OF _ _ room, of "so_rx_buf sk" "so_rx_head sk"] so room seq
        by (simp add: sk' append_rx_def Let_def sock_ok_def)
      moreover have "\<not> drops sk sk'" using room seq True by (simp add: drops_def sk' append_rx_def Let_def)
      ultimately show ?thesis using kept_append[OF r(3), of pl] by (simp add: more)
    next
      case False
      have "so_rx_count sk' = so_rx_count sk" "so_rx_head sk' = so_rx_head sk" "so_rx_buf sk' = so_rx_buf sk"
        using False seq by (simp_all add: sk' append_rx_def Let_def)
      then show ?thesis using kept_skip[OF r(3), of pl] moved by (simp add: more drops_def)
    qed
    then have "rcv_ok ?c T (r + length pl) R sk'" using nxt k(2) kr by (simp add: rcv_ok_def)
    then show ?thesis using r' by auto
  qed
  then obtain r' where r': "rcv_ok ?c T r' R sk'" "r \<le> r'" "r' = ut \<or> r' = ut + Lt" by blast
  have "\<forall>f\<in>set (nt_out n). frame_ok c S u L r' f"
    using assms(1) r'(2) unfolding side_def by (blast intro: frame_ok_weaken)
  then have "net_end c (send_segment sk' (so_snd_nxt sk') ACK [] n) \<and>
      (\<forall>f\<in>set (nt_out (send_segment sk' (so_snd_nxt sk') ACK [] n)). frame_ok c S u L r' f)"
    using assms(1) sock_end_fields[OF e(1)] rcv_ok_ack[OF r'(1)]
    by (intro emit_wire) (simp_all add: side_def seg_ok_def)
  then show ?thesis using step e r' by (auto simp: side_def)
qed

lemma segment_side:
  assumes "side c S u L T r R sk n" "length S < 2 ^ 32" "length T < 2 ^ 32" "plain_flags flags"
    "ack_ok (li_s0 c) rp ack" "rp = u \<or> rp = u + L" "seg_ok (li_t0 c) T ut Lt seq pl" "length pl \<le> TCP_MSS"
    "r = ut \<or> r = ut + Lt" "sk' = fst (sock_segment flags seq ack ws pl now sk n)"
  shows "\<exists>u' L' r'. side (c\<lparr>li_gap := li_gap c \<or> drops sk sk'\<rparr>) S u' L' T r' R sk'
      (snd (sock_segment flags seq ack ws pl now sk n)) \<and> (rp = u' \<or> rp = u' + L') \<and> (r' = ut \<or> r' = ut + Lt)"
proof (cases "so_state sk = Closed")
  case True
  then have "sock_segment flags seq ack ws pl now sk n = (sk, n)"
    using plain_flags_bits[OF assms(4)] by (simp add: sock_segment_def)
  then show ?thesis using assms by auto
next
  case False
  then have st: "so_state sk = Established" using assms(1) by (auto simp: side_def sock_end_def)
  obtain sk1 n1 where 1: "segment_ack flags ack sk n = (sk1, n1)" by fastforce
  obtain u' L' where side1: "side c S u' L' T r R sk1 n1" "rp = u' \<or> rp = u' + L'"
    using ack_side[OF assms(1) st assms(2,4,5,6)] 1 by auto
  have same: "so_rx_count sk1 = so_rx_count sk" "so_rcv_nxt sk1 = so_rcv_nxt sk"
    using 1 by (auto simp: segment_ack_def kick_def grow_cwnd_def Let_def split: if_splits tcp_state.splits)
  have st1: "sock_segment flags seq ack ws pl now sk n = segment_payload seq pl sk1 n1"
    using st plain_flags_bits[OF assms(4)] 1
    by (simp add: sock_segment_def segment_data_def segment_fin_def case_prod_beta)
  obtain r' where "side (c\<lparr>li_gap := li_gap c \<or> drops sk1 sk'\<rparr>) S u' L' T r' R sk' (snd (segment_payload seq pl sk1 n1))"
    "r' = ut \<or> r' = ut + Lt"
    using payload_side[OF side1(1) assms(3,7,8,9)] assms(10) st1 by auto
  moreover have "drops sk1 sk' = drops sk sk'" using same by (simp add: drops_def)
  ultimately show ?thesis using side1(2) st1 by auto
qed

lemma recv_side:
  assumes "side c S u L T r R sk n" "k \<le> so_rx_count sk"
  shows "side c S u L T r (R @ ring_bytes TCP_RXCAP (so_rx_head sk) k (so_rx_buf sk))
    (sk\<lparr>so_rx_head := (so_rx_head sk + k) mod TCP_RXCAP, so_rx_count := so_rx_count sk - k\<rparr>) n"
proof -
  have "ring_bytes TCP_RXCAP (so_rx_head sk) (k + (so_rx_count sk - k)) (so_rx_buf sk) =
      ring_bytes TCP_RXCAP (so_rx_head sk) k (so_rx_buf sk) @
      ring_bytes TCP_RXCAP ((so_rx_head sk + k) mod TCP_RXCAP) (so_rx_count sk - k) (so_rx_buf sk)"
    by (rule ring_bytes_split)
  then have "rcv_ok c T r (R @ ring_bytes TCP_RXCAP (so_rx_head sk) k (so_rx_buf sk))
      (sk\<lparr>so_rx_head := (so_rx_head sk + k) mod TCP_RXCAP, so_rx_count := so_rx_count sk - k\<rparr>)"
    using assms by (simp add: side_def rcv_ok_def)
  moreover have "sock_ok (sk\<lparr>so_rx_head := (so_rx_head sk + k) mod TCP_RXCAP, so_rx_count := so_rx_count sk - k\<rparr>)"
    using assms(1) by (auto simp: side_def sock_end_def sock_ok_def TCP_RXCAP_def)
  ultimately show ?thesis using assms(1) by (simp add: side_def sock_end_def snd_ok_def)
qed

subsection \<open>Hosts\<close>

text \<open>
  The other slots of the table: free, UDP sockets, or listeners that do not match the segments of the
  connection (peer address, peer port, own port).
\<close>

definition bystander :: "ip4 \<Rightarrow> u16 \<Rightarrow> u16 \<Rightarrow> sock \<Rightarrow> bool" where
  "bystander rip rport port sk \<longleftrightarrow>
     \<not> so_used sk \<or> so_kind sk = Udp \<or> so_state sk = Listen \<and> \<not> sock_matches rip rport port sk"

definition bystanders :: "ip4 \<Rightarrow> u16 \<Rightarrow> u16 \<Rightarrow> nat \<Rightarrow> sock list \<Rightarrow> bool" where
  "bystanders rip rport port fd tab \<longleftrightarrow> list_all (\<lambda>i. i = fd \<or> bystander rip rport port (tab ! i)) [0..<length tab]"

lemma bystanders_nth:
  "bystanders rip rport port fd tab \<longleftrightarrow> (\<forall>i<length tab. i = fd \<or> bystander rip rport port (tab ! i))"
  by (auto simp: bystanders_def list_all_iff)

lemma bystanders_update [simp]: "bystanders rip rport port fd (tab[fd := sk]) = bystanders rip rport port fd tab"
  unfolding bystanders_nth length_list_update by (metis nth_list_update_neq)

lemma bystander_tick: "bystander rip rport port sk \<Longrightarrow> sock_tick now sk n = (sk, n)"
  by (auto simp: bystander_def sock_tick_def)

lemma bystander_no_match: "bystander rip rport port sk \<Longrightarrow> \<not> sock_matches rip rport port sk"
  by (auto simp: bystander_def sock_matches_def)

lemma bystanders_position:
  assumes "bystanders rip rport port fd tab" "position (sock_matches rip rport port) tab = Some i"
  shows "i = fd"
  using assms position_SomeD[OF assms(2)] bystander_no_match unfolding bystanders_nth by blast

definition host :: "link \<Rightarrow> nat \<Rightarrow> bytes \<Rightarrow> nat \<Rightarrow> nat \<Rightarrow> bytes \<Rightarrow> nat \<Rightarrow> bytes \<Rightarrow> socks \<Rightarrow> bool" where
  "host c fd S u L T r R s \<longleftrightarrow> fd < MAX_SOCKS \<and> socks_ok s \<and> bystanders (li_rip c) (li_rport c) (li_port c) fd (ss_tab s) \<and>
     side c S u L T r R (ss_tab s ! fd) (ss_net s)"

lemma host_update:
  assumes "fd < MAX_SOCKS" "socks_ok s" "bystanders (li_rip c) (li_rport c) (li_port c) fd (ss_tab s)" "side c S u L T r R sk n"
  shows "host c fd S u L T r R (put_sock fd sk (s\<lparr>ss_net := n\<rparr>))"
proof -
  have "sock_ok sk" "net_wf n" using assms(4) by (simp_all add: side_def sock_end_def net_end_def)
  then have "socks_ok (put_sock fd sk (s\<lparr>ss_net := n\<rparr>))" using assms(2) by (intro put_sock_ok set_net_ok)
  moreover have "fd < length (ss_tab s)" using assms(1,2) by (simp add: socks_ok_def)
  ultimately show ?thesis using assms by (simp add: host_def put_sock_def)
qed

lemma host_get:
  assumes "host c fd S u L T r R s"
  shows "get_sock fd s = Some (ss_tab s ! fd)" "so_kind (ss_tab s ! fd) = Tcp"
  using assms by (simp_all add: host_def get_sock_def side_def sock_end_def)

lemma host_put_same_net:
  assumes "host c fd S u L T r R s" "side c S' u' L' T' r' R' sk (ss_net s)"
  shows "host c fd S' u' L' T' r' R' (put_sock fd sk s)"
  using host_update[of fd s c S' u' L' T' r' R' sk "ss_net s"] assms by (simp add: host_def)

lemma host_send:
  assumes "host c fd S u L T r R s"
  shows "\<exists>L'. host c fd (S @ (case fst (sock_send fd d s) of None \<Rightarrow> [] | Some k \<Rightarrow> take k d)) u L' T r R (snd (sock_send fd d s)) \<and>
    (0 < L \<longrightarrow> L' = L)"
proof -
  let ?sk = "ss_tab s ! fd"
  let ?k = "min (length d) (TX_QCAP - so_tx_q_len ?sk)"
  show ?thesis
  proof (cases "so_state ?sk = Established \<and> TX_QCAP - so_tx_q_len ?sk \<noteq> 0")
    case False
    then have "sock_send fd d s = (None, s)"
      using host_get[OF assms] by (auto simp: sock_send_def Let_def)
    then show ?thesis using assms by auto
  next
    case True
    let ?sk1 = "?sk\<lparr>so_tx_q := ring_put TX_QCAP ((so_tx_q_head ?sk + so_tx_q_len ?sk) mod TX_QCAP) (take ?k d) (so_tx_q ?sk),
       so_tx_q_len := so_tx_q_len ?sk + ?k\<rparr>"
    have len: "length (take ?k d) = ?k" by simp
    have side: "side c S u L T r R ?sk (ss_net s)" using assms by (simp add: host_def)
    obtain L' where L': "side c (S @ take ?k d) u L' T r R (fst (kick ?sk1 (ss_net s))) (snd (kick ?sk1 (ss_net s)))" "0 < L \<longrightarrow> L' = L"
      using send_side[OF side, of "take ?k d"] True unfolding len by auto
    have "sock_send fd d s = (Some ?k, put_sock fd (fst (kick ?sk1 (ss_net s))) (s\<lparr>ss_net := snd (kick ?sk1 (ss_net s))\<rparr>))"
      using host_get[OF assms] True by (simp add: sock_send_def Let_def case_prod_beta)
    then show ?thesis using L' host_update[OF _ _ _ L'(1), of fd s] assms by (auto simp: host_def)
  qed
qed

lemma host_recv:
  assumes "host c fd S u L T r R s"
  shows "host c fd S u L T r (R @ (case fst (sock_recv fd cap s) of None \<Rightarrow> [] | Some bs \<Rightarrow> bs)) (snd (sock_recv fd cap s))"
proof -
  let ?sk = "ss_tab s ! fd"
  have side: "side c S u L T r R ?sk (ss_net s)" using assms by (simp add: host_def)
  show ?thesis
  proof (cases "so_rx_count ?sk = 0")
    case True
    then show ?thesis using host_get[OF assms] assms by (simp add: sock_recv_def)
  next
    case False
    then show ?thesis
      using host_get[OF assms] host_put_same_net[OF assms recv_side[OF side, of "min cap (so_rx_count ?sk)"]]
      by (simp add: sock_recv_def Let_def)
  qed
qed

lemma tick_all_none: "\<forall>sk\<in>set sks. bystander rip rport port sk \<Longrightarrow> tick_all now sks n = (sks, n)"
  by (induction sks) (auto simp: bystander_tick)

lemma tick_all_one:
  "bystanders rip rport port fd sks \<Longrightarrow> fd < length sks \<Longrightarrow>
   tick_all now sks n = (sks[fd := fst (sock_tick now (sks ! fd) n)], snd (sock_tick now (sks ! fd) n))"
proof (induction sks arbitrary: fd n)
  case (Cons sk sks)
  show ?case
  proof (cases fd)
    case 0
    have "\<forall>x\<in>set sks. bystander rip rport port x"
      using Cons.prems(1) 0 unfolding bystanders_nth
      by (metis Suc_less_eq in_set_conv_nth length_Cons nat.distinct(1) nth_Cons_Suc)
    then show ?thesis using 0 tick_all_none[of sks rip rport port now] by (simp add: case_prod_beta)
  next
    case (Suc fd')
    have "bystanders rip rport port fd' sks"
      using Cons.prems(1) Suc unfolding bystanders_nth by (metis Suc_less_eq length_Cons nth_Cons_Suc old.nat.inject)
    moreover have "bystander rip rport port sk"
      using Cons.prems(1) Suc unfolding bystanders_nth by (auto dest: spec[of _ 0])
    ultimately show ?thesis using Cons Suc by (simp add: case_prod_beta bystander_tick)
  qed
qed simp

lemma side_clock: "side c S u L T r R sk (n\<lparr>nt_ticks := t\<rparr>) = side c S u L T r R sk n"
  by (simp add: side_def net_end_def net_wf_def bound_ip_def loops_back_def is_subnet_broadcast_def)

definition set_clock :: "u64 \<Rightarrow> socks \<Rightarrow> socks" where
  "set_clock t s = s\<lparr>ss_net := (ss_net s)\<lparr>nt_ticks := t\<rparr>\<rparr>"

lemma host_tick:
  assumes "host c fd S u L T r R s"
  shows "host c fd S u L T r R (tick t (set_clock t s))"
proof -
  let ?n = "(ss_net s)\<lparr>nt_ticks := t\<rparr>"
  have "side c S u L T r R (ss_tab s ! fd) ?n" using assms by (simp add: host_def side_clock)
  note side = tick_side[OF this, of t]
  have "fd < length (ss_tab s)" using assms by (simp add: host_def socks_ok_def)
  then have "tick t (set_clock t s) =
      put_sock fd (fst (sock_tick t (ss_tab s ! fd) ?n)) (s\<lparr>ss_net := snd (sock_tick t (ss_tab s ! fd) ?n)\<rparr>)"
    using assms tick_all_one[of "li_rip c" "li_rport c" "li_port c" fd "ss_tab s" t ?n] by (simp add: tick_def set_clock_def put_sock_def host_def)
  then show ?thesis using host_update[OF _ _ _ side] assms by (simp add: host_def)
qed

lemma host_deliver:
  assumes "host c fd S u L T r R s" "length S < 2 ^ 32" "length T < 2 ^ 32" "frame_ok d T ut Lt rp f"
    "li_s0 d = li_t0 c" "li_t0 d = li_s0 c" "li_ip d = li_rip c" "li_port d = li_rport c" "li_rport d = li_port c"
    "rp = u \<or> rp = u + L" "r = ut \<or> r = ut + Lt"
  shows "\<exists>u' L' r'. host (c\<lparr>li_gap := li_gap c \<or> drops (ss_tab s ! fd) (ss_tab (rx_frame f s) ! fd)\<rparr>) fd S u' L' T r' R (rx_frame f s) \<and> (rp = u' \<or> rp = u' + L') \<and> (r' = ut \<or> r' = ut + Lt)"
proof -
  obtain flags seq ack pl where f: "plain_flags flags" "carries f (li_rip c) (li_rport c) (li_port c) flags seq ack pl"
    "seg_ok (li_t0 c) T ut Lt seq pl" "ack_ok (li_s0 c) rp ack" "length pl \<le> TCP_MSS"
    using assms(4) unfolding frame_ok_def assms(5-9) by blast
  let ?P = "sock_matches (li_rip c) (li_rport c) (li_port c)"
  have rx: "rx_frame f s = deliver_segment (li_rip c) (li_rport c) (li_port c) flags seq ack pl s"
    using f(2) by (simp add: carries_def)
  show ?thesis
  proof (cases "position ?P (ss_tab s)")
    case None
    then show ?thesis using assms rx by (auto simp: deliver_segment_def)
  next
    case (Some i)
    then have i: "i = fd" using assms(1) bystanders_position by (auto simp: host_def)
    have side: "side c S u L T r R (ss_tab s ! fd) (ss_net s)" using assms(1) by (simp add: host_def)
    let ?st = "sock_segment flags seq ack 0 pl (nt_ticks (ss_net s)) (ss_tab s ! fd) (ss_net s)"
    let ?c = "c\<lparr>li_gap := li_gap c \<or> drops (ss_tab s ! fd) (fst ?st)\<rparr>"
    obtain u' L' r' where s': "side ?c S u' L' T r' R (fst ?st) (snd ?st)" "rp = u' \<or> rp = u' + L'" "r' = ut \<or> r' = ut + Lt"
      using segment_side[OF side assms(2,3) f(1) f(4) assms(10) f(3) f(5) assms(11) refl, of 0 "nt_ticks (ss_net s)"] by blast
    have st: "rx_frame f s = put_sock fd (fst ?st) (s\<lparr>ss_net := snd ?st\<rparr>)"
      using rx Some i by (simp add: deliver_segment_def case_prod_beta)
    have "fd < length (ss_tab s)" using assms(1) by (simp add: host_def socks_ok_def)
    then have "ss_tab (rx_frame f s) ! fd = fst ?st" unfolding st by (simp add: put_sock_def)
    then show ?thesis using host_update[OF _ _ _ s'(1), of fd s] assms(1) s'(2,3) st by (auto simp: host_def)
  qed
qed

subsection \<open>Two hosts\<close>

text \<open>
  A host with the bytes its application sent and read so far, and whether its socket ever acknowledged bytes that it
  did not store.
\<close>

record endpoint =
  ep_socks :: socks
  ep_sent :: bytes
  ep_read :: bytes
  ep_dropped :: bool

definition ep_sock :: "nat \<Rightarrow> endpoint \<Rightarrow> sock" where
  "ep_sock fd a = ss_tab (ep_socks a) ! fd"

definition ep_out :: "endpoint \<Rightarrow> bytes list" where
  "ep_out a = nt_out (ss_net (ep_socks a))"

definition ep_unread :: "nat \<Rightarrow> endpoint \<Rightarrow> bytes" where
  "ep_unread fd a = (let sk = ep_sock fd a in ring_bytes TCP_RXCAP (so_rx_head sk) (so_rx_count sk) (so_rx_buf sk))"

datatype action = ASend bytes | ARecv nat | ATick u64 | AFrame bytes

fun ep_act :: "nat \<Rightarrow> action \<Rightarrow> endpoint \<Rightarrow> endpoint" where
  "ep_act fd (ASend d) a =
     (let (r, s) = sock_send fd d (ep_socks a) in
      a\<lparr>ep_socks := s, ep_sent := ep_sent a @ (case r of None \<Rightarrow> [] | Some k \<Rightarrow> take k d)\<rparr>)"
| "ep_act fd (ARecv cap) a =
     (let (r, s) = sock_recv fd cap (ep_socks a) in
      a\<lparr>ep_socks := s, ep_read := ep_read a @ (case r of None \<Rightarrow> [] | Some bs \<Rightarrow> bs)\<rparr>)"
| "ep_act fd (ATick t) a = a\<lparr>ep_socks := tick t (set_clock t (ep_socks a))\<rparr>"
| "ep_act fd (AFrame f) a =
     (let s = rx_frame f (ep_socks a) in
      a\<lparr>ep_socks := s, ep_dropped := ep_dropped a \<or> drops (ep_sock fd a) (ss_tab s ! fd)\<rparr>)"

text \<open>A frame that arrives is one the peer has sent at some time.\<close>

fun may_act :: "endpoint \<Rightarrow> action \<Rightarrow> bool" where
  "may_act b (AFrame f) \<longleftrightarrow> f \<in> set (ep_out b)"
| "may_act b _ \<longleftrightarrow> True"

inductive conn_run :: "nat \<Rightarrow> nat \<Rightarrow> endpoint \<times> endpoint \<Rightarrow> endpoint \<times> endpoint \<Rightarrow> bool" for fa fb p where
  start: "conn_run fa fb p p"
| left: "conn_run fa fb p (a, b) \<Longrightarrow> may_act b x \<Longrightarrow> conn_run fa fb p (ep_act fa x a, b)"
| right: "conn_run fa fb p (a, b) \<Longrightarrow> may_act a x \<Longrightarrow> conn_run fa fb p (a, ep_act fb x b)"

text \<open>An established connection before its first byte.\<close>

definition fresh_end :: "nat \<Rightarrow> endpoint \<Rightarrow> bool" where
  "fresh_end fd a \<longleftrightarrow> (let s = ep_socks a; sk = ep_sock fd a in
     fd < MAX_SOCKS \<and> socks_ok s \<and> bystanders (so_rip sk) (so_rport sk) (so_port sk) fd (ss_tab s) \<and>
     so_used sk \<and> so_kind sk = Tcp \<and> so_state sk = Established \<and> \<not> so_tx_pending sk \<and> so_tx_q_len sk = 0 \<and>
     so_rx_count sk = 0 \<and> length (so_rip sk) = 4 \<and> \<not> loops_back (so_rip sk) (ss_net s) \<and>
     ep_out a = [] \<and> ep_sent a = [] \<and> ep_read a = [] \<and> \<not> ep_dropped a)"

definition connected :: "nat \<Rightarrow> endpoint \<Rightarrow> nat \<Rightarrow> endpoint \<Rightarrow> bool" where
  "connected fa a fb b \<longleftrightarrow> fresh_end fa a \<and> fresh_end fb b \<and>
     so_rip (ep_sock fa a) = bound_ip (ss_net (ep_socks b)) \<and> so_rip (ep_sock fb b) = bound_ip (ss_net (ep_socks a)) \<and>
     so_rport (ep_sock fa a) = so_port (ep_sock fb b) \<and> so_rport (ep_sock fb b) = so_port (ep_sock fa a) \<and>
     so_rcv_nxt (ep_sock fa a) = so_snd_nxt (ep_sock fb b) \<and> so_rcv_nxt (ep_sock fb b) = so_snd_nxt (ep_sock fa a)"

definition mirror :: "link \<Rightarrow> link \<Rightarrow> bool" where
  "mirror c d \<longleftrightarrow> li_s0 d = li_t0 c \<and> li_t0 d = li_s0 c \<and> li_ip d = li_rip c \<and> li_rip d = li_ip c \<and>
     li_port d = li_rport c \<and> li_rport d = li_port c"

lemma mirror_sym: "mirror c d = mirror d c"
  by (auto simp: mirror_def)

definition conn_inv :: "nat \<Rightarrow> nat \<Rightarrow> endpoint \<Rightarrow> endpoint \<Rightarrow> bool" where
  "conn_inv fa fb a b \<longleftrightarrow> (\<exists>c d u L r u' L' r'. mirror c d \<and>
     host c fa (ep_sent a) u L (ep_sent b) r (ep_read a) (ep_socks a) \<and>
     host d fb (ep_sent b) u' L' (ep_sent a) r' (ep_read b) (ep_socks b) \<and>
     (r' = u \<or> r' = u + L) \<and> (r = u' \<or> r = u' + L') \<and> li_gap c = ep_dropped a \<and> li_gap d = ep_dropped b)"

lemma mirror_gap [simp]: "mirror (c\<lparr>li_gap := g\<rparr>) d = mirror c d"
  by (simp add: mirror_def)

lemma conn_inv_sym: "conn_inv fa fb a b \<Longrightarrow> conn_inv fb fa b a"
  unfolding conn_inv_def using mirror_sym by blast

lemma host_peer_grows: "host c fd S u L T r R s \<Longrightarrow> host c fd S u L (T @ x) r R s"
  by (simp add: host_def side_def rcv_ok_def)

lemma conn_inv_act:
  assumes "conn_inv fa fb a b" "may_act b x" "length (ep_sent a) < 2 ^ 32" "length (ep_sent b) < 2 ^ 32"
  shows "conn_inv fa fb (ep_act fa x a) b"
proof -
  obtain c d u L r u' L' r' where m: "mirror c d"
    and ha: "host c fa (ep_sent a) u L (ep_sent b) r (ep_read a) (ep_socks a)"
    and hb: "host d fb (ep_sent b) u' L' (ep_sent a) r' (ep_read b) (ep_socks b)"
    and r: "r' = u \<or> r' = u + L" "r = u' \<or> r = u' + L'" and g: "li_gap c = ep_dropped a" "li_gap d = ep_dropped b"
    using assms(1) unfolding conn_inv_def by blast
  show ?thesis
  proof (cases x)
    case (ASend dat)
    obtain L2 where "host c fa (ep_sent (ep_act fa x a)) u L2 (ep_sent b) r (ep_read a) (ep_socks (ep_act fa x a))"
      "0 < L \<longrightarrow> L2 = L"
      using host_send[OF ha, of dat] ASend by (auto simp: case_prod_beta)
    moreover have "host d fb (ep_sent b) u' L' (ep_sent (ep_act fa x a)) r' (ep_read b) (ep_socks b)"
      using host_peer_grows[OF hb] ASend by (simp add: case_prod_beta)
    moreover have "ep_read (ep_act fa x a) = ep_read a" "ep_dropped (ep_act fa x a) = ep_dropped a"
      using ASend by (simp_all add: case_prod_beta)
    moreover have "r' = u \<or> r' = u + L2" using r(1) \<open>0 < L \<longrightarrow> L2 = L\<close> by (cases "L = 0") auto
    ultimately show ?thesis using m r(2) g unfolding conn_inv_def by metis
  next
    case (ARecv cap)
    then show ?thesis
      using host_recv[OF ha, of cap] hb m r g unfolding conn_inv_def by (simp add: case_prod_beta) blast
  next
    case (ATick t)
    then show ?thesis using host_tick[OF ha, of t] hb m r g unfolding conn_inv_def by simp blast
  next
    case (AFrame f)
    have "frame_ok d (ep_sent b) u' L' r' f"
      using hb assms(2) AFrame by (auto simp: host_def side_def ep_out_def)
    then obtain u2 L2 r2 where
      "host (c\<lparr>li_gap := li_gap c \<or> drops (ep_sock fa a) (ss_tab (rx_frame f (ep_socks a)) ! fa)\<rparr>) fa (ep_sent a) u2 L2 (ep_sent b) r2
        (ep_read a) (rx_frame f (ep_socks a))"
      "r' = u2 \<or> r' = u2 + L2" "r2 = u' \<or> r2 = u' + L'"
      using host_deliver[OF ha assms(3,4), of d u' L' r' f] m r unfolding mirror_def ep_sock_def by metis
    moreover have "mirror (c\<lparr>li_gap := li_gap c \<or> drops (ep_sock fa a) (ss_tab (rx_frame f (ep_socks a)) ! fa)\<rparr>) d" using m by simp
    moreover have "li_gap (c\<lparr>li_gap := li_gap c \<or> drops (ep_sock fa a) (ss_tab (rx_frame f (ep_socks a)) ! fa)\<rparr>) = ep_dropped (ep_act fa x a)"
      using AFrame g by (simp add: Let_def)
    moreover have "ep_sent (ep_act fa x a) = ep_sent a" "ep_read (ep_act fa x a) = ep_read a" "ep_socks (ep_act fa x a) = rx_frame f (ep_socks a)"
      using AFrame by (simp_all add: Let_def)
    ultimately show ?thesis using hb g(2) unfolding conn_inv_def by metis
  qed
qed

lemma connected_inv:
  assumes "connected fa a fb b"
  shows "conn_inv fa fb a b"
proof -
  let ?A = "ep_sock fa a" and ?B = "ep_sock fb b"
  let ?c = "\<lparr>li_ip = bound_ip (ss_net (ep_socks a)), li_port = so_port ?A, li_rip = so_rip ?A, li_rport = so_rport ?A,
    li_s0 = so_snd_nxt ?A, li_t0 = so_rcv_nxt ?A, li_gap = False\<rparr>"
  let ?d = "\<lparr>li_ip = bound_ip (ss_net (ep_socks b)), li_port = so_port ?B, li_rip = so_rip ?B, li_rport = so_rport ?B,
    li_s0 = so_snd_nxt ?B, li_t0 = so_rcv_nxt ?B, li_gap = False\<rparr>"
  have "mirror ?c ?d" using assms by (simp add: connected_def mirror_def)
  moreover have "host ?c fa [] 0 0 [] 0 [] (ep_socks a)" "host ?d fb [] 0 0 [] 0 [] (ep_socks b)"
    using assms
    by (auto simp: connected_def fresh_end_def host_def side_def sock_end_def net_end_def snd_ok_def rcv_ok_def kept_def
        socks_ok_nth socks_ok_net ep_sock_def ep_out_def Let_def)
  moreover have "ep_sent a = []" "ep_sent b = []" "ep_read a = []" "ep_read b = []" "\<not> ep_dropped a" "\<not> ep_dropped b"
    using assms by (simp_all add: connected_def fresh_end_def Let_def)
  ultimately show ?thesis unfolding conn_inv_def by fastforce
qed

lemma ep_act_sent_mono: "length (ep_sent a) \<le> length (ep_sent (ep_act fd x a))"
  by (cases x) (simp_all add: case_prod_beta Let_def)

lemma conn_run_inv:
  "conn_run fa fb p q \<Longrightarrow> conn_inv fa fb (fst p) (snd p) \<Longrightarrow>
   length (ep_sent (fst q)) < 2 ^ 32 \<Longrightarrow> length (ep_sent (snd q)) < 2 ^ 32 \<Longrightarrow> conn_inv fa fb (fst q) (snd q)"
proof (induction rule: conn_run.induct)
  case (left a b x)
  then have "length (ep_sent a) < 2 ^ 32" using ep_act_sent_mono[of a fa x] by (simp del: ep_act.simps)
  then show ?case using left conn_inv_act by (simp del: ep_act.simps)
next
  case (right a b x)
  then have "length (ep_sent b) < 2 ^ 32" using ep_act_sent_mono[of b fb x] by (simp del: ep_act.simps)
  then show ?case using right conn_inv_act[of fb fa b a x] conn_inv_sym by (simp del: ep_act.simps)
qed simp

lemma conn_inv_stream:
  assumes "conn_inv fa fb a b"
  shows "subseq (ep_read a @ ep_unread fa a) (ep_sent b) \<and>
    (\<not> ep_dropped a \<longrightarrow> prefix (ep_read a @ ep_unread fa a) (ep_sent b))"
proof -
  obtain r where "kept (ep_dropped a) (ep_read a @ ep_unread fa a) (take r (ep_sent b))"
    using assms by (auto simp: conn_inv_def host_def side_def rcv_ok_def ep_unread_def ep_sock_def Let_def)
  then show ?thesis
    using take_is_prefix[of r "ep_sent b"] prefix_imp_subseq[OF take_is_prefix[of r "ep_sent b"]]
    by (auto simp: kept_def split: if_splits intro: subseq_order.order_trans)
qed

lemma tcp_stream_gen:
  assumes "connected fa a fb b" "conn_run fa fb (a, b) (a', b')" "length (ep_sent a') < 2 ^ 32" "length (ep_sent b') < 2 ^ 32"
  shows "conn_inv fa fb a' b'"
  using conn_run_inv[OF assms(2)] connected_inv[OF assms(1)] assms(3,4) by simp

text \<open>
  C3: data transfer over an established connection is a byte stream in both directions, reliable
  up to the receive ring.  Whatever the network loses, repeats or reorders, whatever the applications send and read and
  however the timers fire, as long as less than 4 GiB are sent each way (so that sequence numbers do not repeat): the
  bytes an application has read followed by the bytes waiting in its receive ring are a subsequence of the bytes the
  peer's \<open>send\<close> accepted, so nothing is repeated, reordered or made up; and they are a prefix of them, so that
  nothing is missing either, unless the receiver has acknowledged a segment without storing it, which it does when the
  segment does not fit the receive ring.
\<close>

theorem tcp_stream_reliable:
  assumes "connected fa a fb b" "conn_run fa fb (a, b) (a', b')"
    "length (ep_sent a') < 2 ^ 32" "length (ep_sent b') < 2 ^ 32"
  shows "subseq (ep_read b' @ ep_unread fb b') (ep_sent a') \<and> subseq (ep_read a' @ ep_unread fa a') (ep_sent b') \<and>
    (\<not> ep_dropped b' \<longrightarrow> prefix (ep_read b' @ ep_unread fb b') (ep_sent a')) \<and>
    (\<not> ep_dropped a' \<longrightarrow> prefix (ep_read a' @ ep_unread fa a') (ep_sent b'))"
  using tcp_stream_gen[OF assms] conn_inv_stream conn_inv_sym by blast

end
