(* ===== verification/Tcp_Progress.thy ===== *)
theory Tcp_Progress
  imports Kernel_Tcp
begin

text \<open>
  Progress of the data transfer of \<open>Kernel_Tcp\<close>: a lost segment is recovered by one timeout, provided it
  fits the frame limit of \<open>emit_ipv4\<close>.  The theory also fixes the cases in which the layer does not keep a
  stream alive: the segment that \<open>emit_ipv4\<close> refuses, the full receive ring and the padded frame.
\<close>

subsection \<open>Segments that are certainly sent\<close>

lemma send_segment_emits:
  assumes "\<not> loops_back (so_rip sk) n" "net_wf n" "length (so_rip sk) = 4" "plain_flags flags"
    "length payload \<le> 1440" "nt_uplink n = None"
  shows "\<exists>f. send_segment sk seq flags payload n = n\<lparr>nt_out := nt_out n @ [f]\<rparr> \<and>
    carries f (bound_ip n) (so_port sk) (so_rport sk) flags seq (so_rcv_nxt sk) payload"
proof -
  have mss: "length payload \<le> TCP_MSS" using assms(5) by (simp add: TCP_MSS_def)
  obtain w1 w2 c1 c2 where seg: "tcp_segment sk seq flags payload n =
      be16 (so_port sk) @ be16 (so_rport sk) @ be32 seq @ be32 (so_rcv_nxt sk) @ [0x50, flags, w1, w2, c1, c2] @ be16 0 @ payload"
    using tcp_segment_bytes[OF assms(4) mss] by blast
  have "length (tcp_segment sk seq flags payload n) = 20 + length payload" unfolding seg by simp
  then have "length (nt_out (send_segment sk seq flags payload n)) = length (nt_out n) + 1"
    using assms(1,5,6) by (simp add: send_segment_def emit_ipv4_def uplink_send_def Let_def)
  then have "send_segment sk seq flags payload n \<noteq> n" by (metis add_cancel_right_right zero_neq_one)
  then show ?thesis using send_segment_cases[OF assms(1-4) mss, of seq] by blast
qed

lemma end_emits:
  assumes "sock_end c sk" "net_end c n" "plain_flags flags" "length payload \<le> 1440" "nt_uplink n = None"
  shows "\<exists>f. send_segment sk seq flags payload n = n\<lparr>nt_out := nt_out n @ [f]\<rparr> \<and>
    carries f (li_ip c) (li_port c) (li_rport c) flags seq (so_rcv_nxt sk) payload"
  using send_segment_emits[of sk n flags payload seq] assms by (simp add: sock_end_def net_end_def)

lemma position_unique:
  "i < length xs \<Longrightarrow> P (xs ! i) \<Longrightarrow> \<forall>j<length xs. j \<noteq> i \<longrightarrow> \<not> P (xs ! j) \<Longrightarrow> position P xs = Some i"
proof (induction xs arbitrary: i)
  case (Cons x xs)
  then show ?case
  proof (cases i)
    case (Suc k)
    have "\<not> P x" using Cons.prems(3) Suc by (auto dest: spec[of _ 0])
    moreover have "\<forall>j<length xs. j \<noteq> k \<longrightarrow> \<not> P (xs ! j)" using Cons.prems(3) Suc by (metis Suc_less_eq length_Cons nat.inject nth_Cons_Suc)
    ultimately show ?thesis using Cons Suc by simp
  qed simp
qed simp

lemma host_position:
  assumes "host c fd S u L T r R s"
  shows "position (sock_matches (li_rip c) (li_rport c) (li_port c)) (ss_tab s) = Some fd"
proof (rule position_unique)
  show "fd < length (ss_tab s)" using assms by (simp add: host_def socks_ok_def)
  show "sock_matches (li_rip c) (li_rport c) (li_port c) (ss_tab s ! fd)"
    using assms by (simp add: host_def side_def sock_end_def sock_matches_def)
  show "\<forall>j<length (ss_tab s). j \<noteq> fd \<longrightarrow> \<not> sock_matches (li_rip c) (li_rport c) (li_port c) (ss_tab s ! j)"
    using assms bystander_no_match unfolding host_def bystanders_nth by blast
qed

lemma host_rx:
  assumes "host c fd S u L T r R s" "carries f (li_rip c) (li_rport c) (li_port c) flags seq ack pl" "plain_flags flags"
    "so_state (ss_tab s ! fd) = Established"
  shows "rx_frame f s = (let (sk, n) = (let (sk1, n1) = segment_ack flags ack (ss_tab s ! fd) (ss_net s) in segment_payload seq pl sk1 n1)
    in put_sock fd sk (s\<lparr>ss_net := n\<rparr>))"
  using assms(2,4) host_position[OF assms(1)] plain_flags_bits[OF assms(3)]
  by (simp add: carries_def deliver_segment_def sock_segment_def segment_data_def segment_fin_def case_prod_beta)

subsection \<open>The three steps of a recovery\<close>

text \<open>The timer retransmits the segment in flight.\<close>

lemma tick_emits:
  assumes "host c fd S u L T r R s" "so_state (ss_tab s ! fd) = Established" "so_tx_pending (ss_tab s ! fd)"
    "so_tx_len (ss_tab s ! fd) \<le> 1440" "so_retries (ss_tab s ! fd) < REXMIT_MAX"
    "t - so_sent_at (ss_tab s ! fd) \<ge> REXMIT_TICKS" "nt_uplink (ss_net s) = None"
    "s' = tick t (set_clock t s)" "sk' = ss_tab s' ! fd"
  shows "carries (last (nt_out (ss_net s'))) (li_ip c) (li_port c) (li_rport c) (PSH OR ACK) (so_tx_seq (ss_tab s ! fd))
      (so_rcv_nxt (ss_tab s ! fd)) (take (so_tx_len (ss_tab s ! fd)) (so_tx_buf (ss_tab s ! fd)))"
    and "so_state sk' = Established" "so_tx_pending sk'" "so_tx_seq sk' = so_tx_seq (ss_tab s ! fd)"
    "so_tx_len sk' = so_tx_len (ss_tab s ! fd)" "so_tx_q_len sk' = so_tx_q_len (ss_tab s ! fd)"
proof -
  let ?sk = "ss_tab s ! fd" and ?n = "(ss_net s)\<lparr>nt_ticks := t\<rparr>"
  have len: "fd < length (ss_tab s)" using assms(1) by (simp add: host_def socks_ok_def)
  have e: "sock_end c ?sk" "so_used ?sk" "so_kind ?sk = Tcp" using assms(1) by (simp_all add: host_def side_def sock_end_def)
  have "side c S u L T r R ?sk ?n" using assms(1) by (simp add: host_def side_clock)
  then have e': "sock_end c (fst (sock_tick t ?sk ?n))" "net_end c ?n" using tick_side by (auto simp: side_def)
  have s': "s' = put_sock fd (fst (sock_tick t ?sk ?n)) (s\<lparr>ss_net := snd (sock_tick t ?sk ?n)\<rparr>)"
    using assms(1,8) len tick_all_one[of "li_rip c" "li_rport c" "li_port c" fd "ss_tab s" t ?n]
    by (simp add: tick_def set_clock_def put_sock_def host_def)
  then have sk': "sk' = fst (sock_tick t ?sk ?n)" using len assms(9) by (simp add: put_sock_def)
  have n': "snd (sock_tick t ?sk ?n) = send_segment sk' (so_tx_seq sk') (PSH OR ACK) (take (so_tx_len sk') (so_tx_buf sk')) ?n"
    unfolding sk' using assms(2,3,5,6) e by (simp add: sock_tick_def Let_def)
  have f: "so_tx_seq sk' = so_tx_seq ?sk" "so_tx_len sk' = so_tx_len ?sk" "so_tx_buf sk' = so_tx_buf ?sk"
    "so_rcv_nxt sk' = so_rcv_nxt ?sk" "so_state sk' = Established" "so_tx_pending sk'" "so_tx_q_len sk' = so_tx_q_len ?sk"
    unfolding sk' using assms(2,3,5,6) e by (simp_all add: sock_tick_def Let_def)
  have "length (take (so_tx_len sk') (so_tx_buf sk')) \<le> 1440" using assms(4) f by simp
  then show "carries (last (nt_out (ss_net s'))) (li_ip c) (li_port c) (li_rport c) (PSH OR ACK) (so_tx_seq ?sk)
      (so_rcv_nxt ?sk) (take (so_tx_len ?sk) (so_tx_buf ?sk))"
    using end_emits[OF e'[folded sk'], of "PSH OR ACK" "take (so_tx_len sk') (so_tx_buf sk')" "so_tx_seq sk'"] assms(7) f n'
    by (auto simp: s' put_sock_def)
  show "so_state sk' = Established" "so_tx_pending sk'" "so_tx_seq sk' = so_tx_seq ?sk"
    "so_tx_len sk' = so_tx_len ?sk" "so_tx_q_len sk' = so_tx_q_len ?sk" using f by simp_all
qed

lemma send_segment_uplink:
  assumes "sock_end c sk" "net_end c n" "plain_flags flags" "length payload \<le> TCP_MSS"
  shows "nt_uplink (send_segment sk seq flags payload n) = nt_uplink n"
  using send_segment_cases[of sk n flags payload seq] assms by (auto simp: sock_end_def net_end_def)

lemma kick_uplink:
  assumes "sock_end c sk" "net_end c n"
  shows "nt_uplink (snd (kick sk n)) = nt_uplink n"
proof -
  have "nt_uplink (send_segment (fst (kick sk n)) seq (PSH OR ACK) (take (min (so_tx_q_len sk) TCP_MSS) xs) n) = nt_uplink n" for seq xs
    using send_segment_uplink[OF kick_sock_end[OF assms(1)] assms(2)] by simp
  then show ?thesis by (auto simp: kick_def Let_def)
qed

lemma segment_ack_fields:
  assumes "sock_end c sk" "net_end c n" "so_state sk = Established" "segment_ack flags ack sk n = (sk1, n1)"
  shows "so_state sk1 = Established \<and> so_rcv_nxt sk1 = so_rcv_nxt sk \<and> so_rx_count sk1 = so_rx_count sk \<and> nt_uplink n1 = nt_uplink n"
proof -
  let ?sk = "grow_cwnd (sk\<lparr>so_tx_pending := False, so_snd_una := ack\<rparr>)"
  have "sock_end c ?sk"
    using assms(1) sock_ok_grow_cwnd[of "sk\<lparr>so_tx_pending := False, so_snd_una := ack\<rparr>"]
    by (simp add: sock_end_def grow_cwnd_def)
  then have "nt_uplink (snd (kick ?sk n)) = nt_uplink n" using assms(2) by (rule kick_uplink)
  moreover have "so_state (fst (kick ?sk n)) = Established" "so_rcv_nxt (fst (kick ?sk n)) = so_rcv_nxt sk"
    "so_rx_count (fst (kick ?sk n)) = so_rx_count sk"
    using assms(3) by (simp_all add: kick_def Let_def grow_cwnd_def)
  ultimately show ?thesis
    using assms(3,4) by (auto simp: segment_ack_def case_prod_beta split: if_splits)
qed

text \<open>The receiver takes the segment, unless it already has it, and acknowledges everything up to its end.\<close>

lemma rx_acknowledges:
  assumes "host d fd S u L T r R s" "so_state (ss_tab s ! fd) = Established" "nt_uplink (ss_net s) = None"
    "length S < 2 ^ 32" "ack_ok (li_s0 d) rp ack" "rp = u \<or> rp = u + L"
    "carries f (li_rip d) (li_rport d) (li_port d) flags (li_t0 d + word_of_nat v) ack pl" "plain_flags flags"
    "pl \<noteq> []" "v + length pl < 2 ^ 32" "r = v \<or> r = v + length pl"
    "so_rx_count (ss_tab s ! fd) + length pl \<le> TCP_RXCAP"
  shows "carries (last (nt_out (ss_net (rx_frame f s)))) (li_ip d) (li_port d) (li_rport d) ACK
      (so_snd_nxt (ss_tab (rx_frame f s) ! fd)) (li_t0 d + word_of_nat (v + length pl)) []"
    and "so_rcv_nxt (ss_tab (rx_frame f s) ! fd) = li_t0 d + word_of_nat (v + length pl)"
    and "\<not> drops (ss_tab s ! fd) (ss_tab (rx_frame f s) ! fd)"
proof -
  have len: "fd < length (ss_tab s)" using assms(1) by (simp add: host_def socks_ok_def)
  have side: "side d S u L T r R (ss_tab s ! fd) (ss_net s)" using assms(1) by (simp add: host_def)
  then have e: "sock_end d (ss_tab s ! fd)" "net_end d (ss_net s)" by (simp_all add: side_def)
  obtain sk1 n1 where 1: "segment_ack flags ack (ss_tab s ! fd) (ss_net s) = (sk1, n1)" by fastforce
  note fields = segment_ack_fields[OF e assms(2) 1]
  obtain u' L' where "side d S u' L' T r R sk1 n1"
    using ack_side[OF side assms(2,4,8,5,6)] 1 by auto
  then have e1: "sock_end d sk1" "net_end d n1" and rcv: "so_rcv_nxt sk1 = li_t0 d + word_of_nat r"
    by (simp_all add: side_def rcv_ok_def)
  define sk' where "sk' = (if li_t0 d + word_of_nat v = so_rcv_nxt sk1
    then let sk' = snd (append_rx sk1 pl) in sk'\<lparr>so_rcv_nxt := so_rcv_nxt sk' + word_of_nat (length pl)\<rparr> else sk1)"
  have step: "segment_payload (li_t0 d + word_of_nat v) pl sk1 n1 = (sk', send_segment sk' (so_snd_nxt sk') ACK [] n1)"
    using fields assms(9) by (simp add: segment_payload_def sk'_def Let_def)
  have rx: "rx_frame f s = put_sock fd sk' (s\<lparr>ss_net := send_segment sk' (so_snd_nxt sk') ACK [] n1\<rparr>)"
    using host_rx[OF assms(1,7,8,2)] 1 step by simp
  have nxt: "so_rcv_nxt sk' = li_t0 d + word_of_nat (v + length pl)"
  proof (cases "r = v")
    case True
    then show ?thesis using rcv assms(12) fields by (simp add: sk'_def append_rx_def Let_def add.assoc)
  next
    case False
    then have r: "r = v + length pl" using assms(11) by simp
    have "li_t0 d + word_of_nat v \<noteq> li_t0 d + word_of_nat r"
    proof
      assume "li_t0 d + word_of_nat v = li_t0 d + word_of_nat r"
      then have "v = r" by (rule seq_inject) (use assms(10) r in auto)
      then show False using False by simp
    qed
    then show ?thesis using rcv r by (simp add: sk'_def)
  qed
  have "sock_end d sk'"
    using e1(1) sock_ok_append_rx[of sk1 pl] by (auto simp: sk'_def Let_def sock_end_def append_rx_def)
  then obtain f2 where f2: "send_segment sk' (so_snd_nxt sk') ACK [] n1 = n1\<lparr>nt_out := nt_out n1 @ [f2]\<rparr>"
    "carries f2 (li_ip d) (li_port d) (li_rport d) ACK (so_snd_nxt sk') (so_rcv_nxt sk') []"
    using end_emits[of d sk' n1 ACK "[]" "so_snd_nxt sk'"] e1(2) fields assms(3) by auto
  show "carries (last (nt_out (ss_net (rx_frame f s)))) (li_ip d) (li_port d) (li_rport d) ACK
      (so_snd_nxt (ss_tab (rx_frame f s) ! fd)) (li_t0 d + word_of_nat (v + length pl)) []"
    using f2 nxt len by (simp add: rx put_sock_def)
  show "so_rcv_nxt (ss_tab (rx_frame f s) ! fd) = li_t0 d + word_of_nat (v + length pl)"
    using nxt len by (simp add: rx put_sock_def)
  have "\<not> drops (ss_tab s ! fd) sk'"
    using fields assms(9,12) by (simp add: drops_def sk'_def append_rx_def Let_def)
  then show "\<not> drops (ss_tab s ! fd) (ss_tab (rx_frame f s) ! fd)" using len by (simp add: rx put_sock_def)
qed

text \<open>The acknowledgement completes the segment and the next part of the queue goes out.\<close>

lemma kick_queue: "sock_ok sk \<Longrightarrow> \<not> so_tx_pending sk \<Longrightarrow> so_tx_q_len (fst (kick sk n)) = so_tx_q_len sk - TCP_MSS"
proof (cases "so_tx_q_len sk = 0")
  case False
  assume sk: "sock_ok sk" "\<not> so_tx_pending sk"
  then have "so_tx_pending (fst (kick sk n))" using False kick_sends by auto
  then have "so_tx_q_len (fst (kick sk n)) = so_tx_q_len sk - min (so_tx_q_len sk) TCP_MSS"
    using sk(2) by (auto simp: kick_def Let_def split: if_splits)
  then show ?thesis by simp
qed (simp add: kick_def)

lemma ack_completes:
  assumes "host c fd S u L T r R s" "so_state (ss_tab s ! fd) = Established" "so_tx_pending (ss_tab s ! fd)"
    "carries f (li_rip c) (li_rport c) (li_port c) flags seq (so_tx_seq (ss_tab s ! fd) + word_of_nat (so_tx_len (ss_tab s ! fd))) []"
    "plain_flags flags"
  shows "so_tx_q_len (ss_tab (rx_frame f s) ! fd) = so_tx_q_len (ss_tab s ! fd) - TCP_MSS"
proof -
  let ?sk = "ss_tab s ! fd"
  let ?ack = "so_tx_seq ?sk + word_of_nat (so_tx_len ?sk)"
  let ?sk1 = "grow_cwnd (?sk\<lparr>so_tx_pending := False, so_snd_una := ?ack\<rparr>)"
  have len: "fd < length (ss_tab s)" and ok: "sock_ok ?sk"
    using assms(1) by (simp_all add: host_def socks_ok_def list_all_length)
  then have "sock_ok ?sk1" by (intro sock_ok_grow_cwnd) simp
  then have q: "so_tx_q_len (fst (kick ?sk1 (ss_net s))) = so_tx_q_len ?sk - TCP_MSS"
    by (subst kick_queue) (simp_all add: grow_cwnd_def)
  have "so_state (fst (kick ?sk1 (ss_net s))) = Established" using assms(2) by (simp add: kick_def Let_def grow_cwnd_def)
  then have "segment_ack flags ?ack ?sk (ss_net s) = kick ?sk1 (ss_net s)"
    using assms(3) plain_flags_bits[OF assms(5)] by (simp add: segment_ack_def case_prod_beta)
  then have "rx_frame f s = put_sock fd (fst (kick ?sk1 (ss_net s))) (s\<lparr>ss_net := snd (kick ?sk1 (ss_net s))\<rparr>)"
    using host_rx[OF assms(1,4,5,2)] by (simp add: case_prod_beta segment_payload_def)
  then show ?thesis using q len by (simp add: put_sock_def)
qed

lemma tcp_recovers_gen:
  assumes inv: "conn_inv fa fb a b" "length (ep_sent a) < 2 ^ 32" "length (ep_sent b) < 2 ^ 32"
    and est: "so_state (ep_sock fa a) = Established" "so_state (ep_sock fb b) = Established"
    and up: "nt_uplink (ss_net (ep_socks a)) = None" "nt_uplink (ss_net (ep_socks b)) = None"
    and pend: "so_tx_pending (ep_sock fa a)" "so_tx_len (ep_sock fa a) \<le> 1440" "so_retries (ep_sock fa a) < REXMIT_MAX"
      "t - so_sent_at (ep_sock fa a) \<ge> REXMIT_TICKS"
    and room: "so_rx_count (ep_sock fb b) + so_tx_len (ep_sock fa a) \<le> TCP_RXCAP" and whole: "\<not> ep_dropped b"
    and steps: "a1 = ep_act fa (ATick t) a" "b1 = ep_act fb (AFrame (last (ep_out a1))) b"
      "a2 = ep_act fa (AFrame (last (ep_out b1))) a1"
  shows "ep_read b1 @ ep_unread fb b1 = take (length (ep_sent a) - so_tx_q_len (ep_sock fa a)) (ep_sent a) \<and>
    so_tx_q_len (ep_sock fa a2) = so_tx_q_len (ep_sock fa a) - TCP_MSS"
proof -
  obtain c d u L r u' L' r' where m: "mirror c d"
    and ha: "host c fa (ep_sent a) u L (ep_sent b) r (ep_read a) (ep_socks a)"
    and hb: "host d fb (ep_sent b) u' L' (ep_sent a) r' (ep_read b) (ep_socks b)"
    and r: "r' = u \<or> r' = u + L" "r = u' \<or> r = u' + L'" and g: "li_gap d = ep_dropped b"
    using inv(1) unfolding conn_inv_def by blast
  let ?sk = "ep_sock fa a"
  have p: "0 < L" "so_tx_seq ?sk = li_s0 c + word_of_nat u" "so_tx_len ?sk = L" "take L (so_tx_buf ?sk) = take L (drop u (ep_sent a))"
    "u + L \<le> length (ep_sent a)" "ring_bytes TX_QCAP (so_tx_q_head ?sk) (so_tx_q_len ?sk) (so_tx_q ?sk) = drop (u + L) (ep_sent a)"
    using ha est(1) pend(1) by (auto simp: host_def side_def snd_ok_def ep_sock_def)
  have uL: "length (ep_sent a) - so_tx_q_len ?sk = u + L" using arg_cong[OF p(6), of length] p(5) by simp
  let ?pl = "take L (drop u (ep_sent a))"
  have pl: "length ?pl = L" "?pl \<noteq> []" using p(1,5) by auto
  have plL: "L \<le> TCP_MSS" using pend(2) p(3) by (simp add: TCP_MSS_def)
  note tk = tick_emits[OF ha est(1)[unfolded ep_sock_def] pend[unfolded ep_sock_def] up(1) refl refl]
  let ?f = "last (ep_out a1)" and ?s = "ep_socks a1"
  have s: "?s = tick t (set_clock t (ep_socks a))" "ep_sent a1 = ep_sent a" "ep_read a1 = ep_read a"
    using steps(1) by simp_all
  have f: "carries ?f (li_rip d) (li_rport d) (li_port d) (PSH OR ACK) (li_t0 d + word_of_nat u) (so_rcv_nxt ?sk) ?pl"
    using tk(1) m p(2,3,4) by (simp add: s ep_out_def mirror_def ep_sock_def)
  have ackr: "ack_ok (li_s0 d) r (so_rcv_nxt ?sk)"
    using ha m rcv_ok_ack by (auto simp: host_def side_def ep_sock_def mirror_def)
  have roomL: "so_rx_count (ss_tab (ep_socks b) ! fb) + length ?pl \<le> TCP_RXCAP" using room p(3) pl(1) by (simp add: ep_sock_def)
  note rx = rx_acknowledges[OF hb est(2)[unfolded ep_sock_def] up(2) inv(3) ackr r(2) f _ pl(2) _ _ roomL]
  have bound: "u + length ?pl < 2 ^ 32" using p(5) inv(2) pl(1) by simp
  have rv: "r' = u \<or> r' = u + length ?pl" using r(1) pl(1) by simp
  note rx = rx[OF plain_flags_simps(2) bound rv]
  have b1: "ep_socks b1 = rx_frame ?f (ep_socks b)" "ep_read b1 = ep_read b" using steps(2) by (simp_all add: Let_def)
  have frame: "frame_ok c (ep_sent a) u L r ?f"
    unfolding frame_ok_def
    using f m p(5) plL ackr seg_ok_current[OF p(5), of "li_s0 c"] pl(1) unfolding mirror_def
    by (metis order_refl plain_flags_simps(2))
  have "d\<lparr>li_gap := li_gap d \<or> drops (ss_tab (ep_socks b) ! fb) (ss_tab (rx_frame ?f (ep_socks b)) ! fb)\<rparr> = d"
    using rx(3) by simp
  then obtain u2 L2 r2 where h2: "host d fb (ep_sent b) u2 L2 (ep_sent a) r2 (ep_read b) (rx_frame ?f (ep_socks b))"
    using host_deliver[OF hb inv(3,2) frame] m r unfolding mirror_def by metis
  have "li_t0 d + word_of_nat r2 = li_t0 d + word_of_nat (u + L)" "r2 \<le> length (ep_sent a)"
    using h2 rx(2) pl(1) by (simp_all add: host_def side_def rcv_ok_def)
  then have "r2 = u + L" using seq_inject[of "li_t0 d" r2 "u + L"] p(5) inv(2) by linarith
  then have "ep_read b1 @ ep_unread fb b1 = take (u + L) (ep_sent a)"
    using h2 g whole by (simp add: host_def side_def rcv_ok_def kept_def ep_unread_def ep_sock_def b1 Let_def)
  moreover have "so_tx_q_len (ep_sock fa a2) = so_tx_q_len ?sk - TCP_MSS"
  proof -
    have h1: "host c fa (ep_sent a) u L (ep_sent b) r (ep_read a) ?s" using host_tick[OF ha] by (simp add: s)
    have "carries (last (ep_out b1)) (li_rip c) (li_rport c) (li_port c) ACK (so_snd_nxt (ss_tab (rx_frame ?f (ep_socks b)) ! fb))
        (so_tx_seq (ss_tab ?s ! fa) + word_of_nat (so_tx_len (ss_tab ?s ! fa))) []"
      using rx(1) m tk(4,5) p(2,3) pl(1) by (simp add: s ep_out_def b1 mirror_def ep_sock_def add.assoc)
    then have "so_tx_q_len (ss_tab (rx_frame (last (ep_out b1)) ?s) ! fa) = so_tx_q_len (ss_tab ?s ! fa) - TCP_MSS"
      using ack_completes[OF h1] tk(2,3) s(1) plain_flags_simps(1) by metis
    then show ?thesis using steps(3) tk(6) s(1) by (simp add: ep_sock_def Let_def)
  qed
  ultimately show ?thesis by (simp add: uL)
qed

subsection \<open>Where the layer drops a stream\<close>

text \<open>
  A payload above 1440 bytes, which \<open>kick\<close> builds whenever more is queued (its limit is \<open>TCP_MSS = 1460\<close>), is
  refused by the size test of \<open>emit_ipv4\<close>; \<open>send_segment\<close> ignores the error, so the segment is never sent.
\<close>

lemma large_segment_never_sent:
  assumes "plain_flags flags" "1440 < length payload" "length payload \<le> TCP_MSS"
  shows "send_segment sk seq flags payload n = n"
proof -
  obtain w1 w2 c1 c2 where "tcp_segment sk seq flags payload n =
      be16 (so_port sk) @ be16 (so_rport sk) @ be32 seq @ be32 (so_rcv_nxt sk) @ [0x50, flags, w1, w2, c1, c2] @ be16 0 @ payload"
    using tcp_segment_bytes[OF assms(1,3)] by blast
  then have "length (tcp_segment sk seq flags payload n) = 20 + length payload" by simp
  then show ?thesis using assms(2) by (simp add: send_segment_def emit_ipv4_def)
qed

text \<open>A timeout does not help: the tick that should retransmit such a segment sends nothing.\<close>

lemma tick_large:
  assumes "host c fd S u L T r R s" "so_state (ss_tab s ! fd) = Established" "so_tx_pending (ss_tab s ! fd)"
    "1440 < so_tx_len (ss_tab s ! fd)"
  shows "nt_out (ss_net (tick t (set_clock t s))) = nt_out (ss_net s)"
proof -
  let ?sk = "ss_tab s ! fd" and ?n = "(ss_net s)\<lparr>nt_ticks := t\<rparr>"
  have len: "fd < length (ss_tab s)" using assms(1) by (simp add: host_def socks_ok_def)
  have e: "so_used ?sk" "so_kind ?sk = Tcp" "so_tx_len ?sk \<le> TCP_MSS" "length (so_tx_buf ?sk) = TCP_MSS"
    using assms(1) by (simp_all add: host_def side_def sock_end_def sock_ok_def)
  have "send_segment sk' seq (PSH OR ACK) (take (so_tx_len ?sk) (so_tx_buf ?sk)) ?n = ?n" for sk' seq
    using assms(4) e(3,4) by (intro large_segment_never_sent) simp_all
  then have "snd (sock_tick t ?sk ?n) = ?n"
    using assms(2,3) e by (simp add: sock_tick_def Let_def)
  then show ?thesis
    using assms(1) len tick_all_one[of "li_rip c" "li_rport c" "li_port c" fd "ss_tab s" t ?n]
    by (simp add: tick_def set_clock_def host_def)
qed

text \<open>
  C12: what one timeout does for a stream.  In every state of a run in which both ends are still
  established, both adapters work, less than 4 GiB were sent each way, a segment is in flight with retries left, and its
  timer has expired: if the segment has at most 1440 bytes, the receiver never acknowledged a segment it did not store and
  has room for this one, then the tick retransmits it; its arrival leaves the receiver with every byte the sender
  had accepted except those still queued; and the acknowledgement's arrival removes the next segment's worth of bytes from
  the queue.  If the segment is larger, up to the 1460 bytes that \<open>kick\<close> puts into a segment, the tick sends nothing.
\<close>

theorem tcp_recovers:
  assumes "connected fa a0 fb b0" "conn_run fa fb (a0, b0) (a, b)" "length (ep_sent a) < 2 ^ 32" "length (ep_sent b) < 2 ^ 32"
    and "so_state (ep_sock fa a) = Established" "so_state (ep_sock fb b) = Established"
    and "nt_uplink (ss_net (ep_socks a)) = None" "nt_uplink (ss_net (ep_socks b)) = None"
    and "so_tx_pending (ep_sock fa a)" "so_retries (ep_sock fa a) < REXMIT_MAX" "t - so_sent_at (ep_sock fa a) \<ge> REXMIT_TICKS"
    and "a1 = ep_act fa (ATick t) a" "b1 = ep_act fb (AFrame (last (ep_out a1))) b"
      "a2 = ep_act fa (AFrame (last (ep_out b1))) a1"
  shows "(so_tx_len (ep_sock fa a) \<le> 1440 \<and> \<not> ep_dropped b \<and>
        so_rx_count (ep_sock fb b) + so_tx_len (ep_sock fa a) \<le> TCP_RXCAP \<longrightarrow>
      ep_read b1 @ ep_unread fb b1 = take (length (ep_sent a) - so_tx_q_len (ep_sock fa a)) (ep_sent a) \<and>
      so_tx_q_len (ep_sock fa a2) = so_tx_q_len (ep_sock fa a) - TCP_MSS) \<and>
    (1440 < so_tx_len (ep_sock fa a) \<longrightarrow> ep_out a1 = ep_out a)"
proof (intro conjI[of "_ \<longrightarrow> _"] impI; (elim conjE)?)
  assume "so_tx_len (ep_sock fa a) \<le> 1440" "\<not> ep_dropped b"
    "so_rx_count (ep_sock fb b) + so_tx_len (ep_sock fa a) \<le> TCP_RXCAP"
  then show "ep_read b1 @ ep_unread fb b1 = take (length (ep_sent a) - so_tx_q_len (ep_sock fa a)) (ep_sent a) \<and>
      so_tx_q_len (ep_sock fa a2) = so_tx_q_len (ep_sock fa a) - TCP_MSS"
    using tcp_recovers_gen[OF tcp_stream_gen[OF assms(1-4)]] assms(3-) by blast
next
  assume large: "1440 < so_tx_len (ep_sock fa a)"
  obtain c u L r where "host c fa (ep_sent a) u L (ep_sent b) r (ep_read a) (ep_socks a)"
    using tcp_stream_gen[OF assms(1-4)] unfolding conn_inv_def by blast
  from tick_large[OF this] large assms(5,9,12) show "ep_out a1 = ep_out a" by (simp add: ep_out_def ep_sock_def)
qed

text \<open>So a queue of more than 1440 bytes stalls: \<open>kick\<close> marks the segment in flight and sends nothing.\<close>

lemma large_queue_stalls:
  assumes "sock_ok sk" "\<not> so_tx_pending sk" "1440 < so_tx_q_len sk"
  shows "so_tx_pending (fst (kick sk n)) \<and> snd (kick sk n) = n"
proof -
  let ?k = "min (so_tx_q_len sk) TCP_MSS"
  have p: "so_tx_pending (fst (kick sk n))" using kick_sends[OF assms(1,2)] assms(3) by simp
  have "length (take ?k (blit 0 (ring_bytes TX_QCAP (so_tx_q_head sk) ?k (so_tx_q sk)) (so_tx_buf sk))) = ?k"
    using take_blit[of "ring_bytes TX_QCAP (so_tx_q_head sk) ?k (so_tx_q sk)" "so_tx_buf sk"] by simp
  then have "send_segment sk' seq (PSH OR ACK) (take ?k (blit 0 (ring_bytes TX_QCAP (so_tx_q_head sk) ?k (so_tx_q sk)) (so_tx_buf sk))) n = n" for sk' seq
    using assms(3) by (intro large_segment_never_sent) (simp_all add: TCP_MSS_def)
  then show ?thesis using p assms(2) by (auto simp: kick_def Let_def split: if_splits)
qed

text \<open>A segment that does not fit the receive ring is dropped, but acknowledged.\<close>

lemma full_ring_acknowledges:
  assumes "so_state sk = Established" "pl \<noteq> []" "so_rx_count sk + length pl > TCP_RXCAP"
  shows "fst (segment_payload (so_rcv_nxt sk) pl sk n) = sk\<lparr>so_rcv_nxt := so_rcv_nxt sk + word_of_nat (length pl)\<rparr>"
  using assms by (simp add: segment_payload_def append_rx_def Let_def)

text \<open>
  \<open>handle_ipv4\<close> takes everything after the header as the segment, not the total length of the IP header: the
  padding of a short frame is delivered as payload, here behind a pure acknowledgement.
\<close>

lemma padding_becomes_payload:
  assumes "length hw = 6" "net_wf n" "length dst = 4" "length pad \<le> TCP_MSS"
  shows "rx_frame (start_frame hw dst PROTO_TCP 20 n @ (tcp_segment sk seq ACK [] m @ pad)) s =
    deliver_segment (bound_ip n) (so_port sk) (so_rport sk) ACK seq (so_rcv_nxt sk) pad s"
proof -
  obtain w1 w2 c1 c2 where seg: "tcp_segment sk seq ACK [] m =
      be16 (so_port sk) @ be16 (so_rport sk) @ be32 seq @ be32 (so_rcv_nxt sk) @ [0x50, ACK, w1, w2, c1, c2] @ be16 0 @ []"
    using tcp_segment_bytes[of ACK "[]"] by force
  let ?seg = "tcp_segment sk seq ACK [] m @ pad"
  have bytes: "?seg = be16 (so_port sk) @ be16 (so_rport sk) @ be32 seq @ be32 (so_rcv_nxt sk) @
      [0x50, ACK, w1, w2, c1, c2] @ be16 0 @ pad"
    unfolding seg by simp
  have len: "length ?seg = 20 + length pad" unfolding bytes by simp
  have "deliver_tcp src ?seg s = deliver_segment src (so_port sk) (so_rport sk) ACK seq (so_rcv_nxt sk) pad s" for src
    by (rule deliver_tcp_bytes[OF plain_flags_simps(1) bytes])
  moreover have "handle_frame (start_frame hw dst PROTO_TCP 20 n @ ?seg) k = (DTcp (bound_ip n) ?seg, k)" for k
    using assms len by (intro handle_sent_tcp) (simp_all add: net_wf_def)
  ultimately show ?thesis by (simp add: rx_frame_def deliver_def)
qed

text \<open>A repeated FIN advances the receive sequence number again, whatever its own sequence number is.\<close>

lemma repeated_fin_counts_twice:
  assumes "flags AND FIN \<noteq> 0" "segment_fin flags now sk n = (sk1, n1)" "segment_fin flags now' sk1 n1 = (sk2, n2)"
  shows "so_rcv_nxt sk2 = so_rcv_nxt sk + 2"
  using assms by (auto simp: segment_fin_def Let_def split: tcp_state.splits)

end
