(* ===== verification/Tcp_Handshake.thy ===== *)
theory Tcp_Handshake
  imports Tcp_Progress
begin

text \<open>
  The three-way handshake between \<open>connect\<close> on one host and a listener on another: it ends in the state
  from which \<open>Kernel_Tcp\<close> shows the data transfer correct, and \<open>accept\<close> hands out the new connection.
\<close>

subsection \<open>Segments with the SYN flag\<close>

lemma syn_segment_bytes:
  assumes "flags = SYN \<or> flags = SYN OR ACK"
  shows "\<exists>w1 w2 c1 c2. tcp_segment sk seq flags [] n =
    be16 (so_port sk) @ be16 (so_rport sk) @ be32 seq @ be32 (if flags = SYN then 0 else so_rcv_nxt sk) @
    [0x60, flags, w1, w2, c1, c2] @ be16 0 @ [3, 3, so_wscale sk, 1]"
  using assms by (auto simp: tcp_segment_def tcp_header_def Let_def be16_def flag_defs)

lemma deliver_tcp_syn:
  assumes "flags = SYN \<or> flags = SYN OR ACK"
  shows "deliver_tcp src (tcp_segment sk seq flags [] n) s =
    (case (if flags = SYN
           then position (\<lambda>k. so_used k \<and> so_kind k = Tcp \<and> so_state k = Listen \<and> so_port k = so_rport sk) (ss_tab s)
           else None) of
       Some fd \<Rightarrow> spawn_child fd src (so_port sk) seq (so_wscale sk) s
     | None \<Rightarrow> case position (sock_matches src (so_port sk) (so_rport sk)) (ss_tab s) of
         None \<Rightarrow> s
       | Some i \<Rightarrow> let (k, m) = sock_segment flags seq (if flags = SYN then 0 else so_rcv_nxt sk) (so_wscale sk) []
             (nt_ticks (ss_net s)) (ss_tab s ! i) (ss_net s) in put_sock i k (s\<lparr>ss_net := m\<rparr>))"
proof -
  let ?ack = "if flags = SYN then 0 else so_rcv_nxt sk"
  obtain w1 w2 c1 c2 where seg: "tcp_segment sk seq flags [] n =
      be16 (so_port sk) @ be16 (so_rport sk) @ be32 seq @ be32 ?ack @ [0x60, flags, w1, w2, c1, c2] @ be16 0 @ [3, 3, so_wscale sk, 1]"
    using syn_segment_bytes[OF assms] by blast
  let ?seg = "tcp_segment sk seq flags [] n"
  have len: "length ?seg = 24" unfolding seg by simp
  have b: "?seg ! 0 = ucast (drop_bit 8 (so_port sk))" "?seg ! 1 = ucast (so_port sk)"
    "?seg ! 2 = ucast (drop_bit 8 (so_rport sk))" "?seg ! 3 = ucast (so_rport sk)"
    "?seg ! 12 = 0x60" "?seg ! 13 = flags" "?seg ! 20 = 3" "?seg ! 21 = 3" "?seg ! 22 = so_wscale sk"
    unfolding seg be16_def be32_def by simp_all
  have w: "sub_bytes 4 4 ?seg = be32 seq" "sub_bytes 8 4 ?seg = be32 ?ack" "drop 24 ?seg = []"
    unfolding seg sub_bytes_def by (simp_all add: be16_def be32_def)
  have doff: "unat (drop_bit 4 (0x60 :: u8)) * 4 = 24" by simp
  have ws: "wscale_opt ?seg 24 = so_wscale sk" by (simp add: wscale_opt_def wscale_loop.simps b)
  have flags: "flags AND SYN \<noteq> 0" "flags AND ACK = 0 \<longleftrightarrow> flags = SYN" using assms by (auto simp: flag_defs)
  show ?thesis
    unfolding deliver_tcp_def Let_def b w len doff from_be16_be16 from_be32_be32 ws
    using flags by (simp add: doff w ws)
qed

lemma send_syn:
  assumes "flags = SYN \<or> flags = SYN OR ACK" "\<not> loops_back (so_rip sk) n" "net_wf n" "length (so_rip sk) = 4" "nt_uplink n = None"
  shows "\<exists>f. send_segment sk seq flags [] n = n\<lparr>nt_out := nt_out n @ [f]\<rparr> \<and>
    (\<forall>s. rx_frame f s = deliver_tcp (bound_ip n) (tcp_segment sk seq flags [] n) s)"
proof -
  let ?l4 = "tcp_segment sk seq flags [] n"
  obtain w1 w2 c1 c2 where seg: "?l4 =
      be16 (so_port sk) @ be16 (so_rport sk) @ be32 seq @ be32 (if flags = SYN then 0 else so_rcv_nxt sk) @
      [0x60, flags, w1, w2, c1, c2] @ be16 0 @ [3, 3, so_wscale sk, 1]"
    using syn_segment_bytes[OF assms(1)] by blast
  have len: "length ?l4 = 24" unfolding seg by simp
  define hw where "hw = (case arp_lookup (next_hop (so_rip sk) n) n of Some hw \<Rightarrow> hw | None \<Rightarrow> BROADCAST_MAC)"
  define f where "f = start_frame hw (so_rip sk) PROTO_TCP (length ?l4) n @ ?l4"
  have "length hw = 6"
    using arp_lookup_length[OF assms(3)] by (auto simp: hw_def BROADCAST_MAC_def split: option.split)
  then have "handle_frame f m = (DTcp (bound_ip n) ?l4, m)" for m
    using assms(3,4) len unfolding f_def by (intro handle_sent_tcp) (simp_all add: net_wf_def)
  then have "\<forall>s. rx_frame f s = deliver_tcp (bound_ip n) ?l4 s" by (simp add: rx_frame_def deliver_def)
  moreover have "send_segment sk seq flags [] n = n\<lparr>nt_out := nt_out n @ [f]\<rparr>"
    using assms(2,5) len unfolding f_def hw_def PROTO_TCP_def
    by (simp add: send_segment_def emit_ipv4_def uplink_send_def Let_def)
  ultimately show ?thesis by blast
qed

lemma arp_resolve_out: "\<exists>x. arp_resolve d n = n\<lparr>nt_out := x\<rparr>"
proof -
  have "\<exists>x. n = n\<lparr>nt_out := x\<rparr>" by (rule exI[of _ "nt_out n"]) simp
  then show ?thesis
    by (auto simp: arp_resolve_def send_arp_request_def uplink_send_def Let_def split: option.split)
qed

lemma net_out_simps [simp]:
  "bound_ip (n\<lparr>nt_out := x\<rparr>) = bound_ip n" "loops_back d (n\<lparr>nt_out := x\<rparr>) = loops_back d n"
  "net_wf (n\<lparr>nt_out := x\<rparr>) = net_wf n"
  by (simp_all add: loops_back_def is_subnet_broadcast_def net_wf_def bound_ip_def)

subsection \<open>The two hosts before the handshake\<close>

definition client_ready :: "nat \<Rightarrow> ip4 \<Rightarrow> u16 \<Rightarrow> socks \<Rightarrow> bool" where
  "client_ready fa rip rport s \<longleftrightarrow> (let sk = ss_tab s ! fa in
     fa < MAX_SOCKS \<and> socks_ok s \<and> so_used sk \<and> so_kind sk = Tcp \<and> so_state sk = Closed \<and> \<not> so_tx_pending sk \<and>
     so_tx_q_len sk = 0 \<and> so_rx_count sk = 0 \<and> bystanders rip rport (so_port sk) fa (ss_tab s) \<and>
     length rip = 4 \<and> bound_ip (ss_net s) \<noteq> NO_IP \<and> \<not> loops_back rip (ss_net s) \<and> nt_uplink (ss_net s) = None)"

definition server_ready :: "nat \<Rightarrow> nat \<Rightarrow> ip4 \<Rightarrow> u16 \<Rightarrow> u16 \<Rightarrow> socks \<Rightarrow> bool" where
  "server_ready fl i rip rport port s \<longleftrightarrow>
     socks_ok s \<and> bystanders rip rport port i (ss_tab s) \<and>
     position (\<lambda>k. so_used k \<and> so_kind k = Tcp \<and> so_state k = Listen \<and> so_port k = port) (ss_tab s) = Some fl \<and>
     position (\<lambda>k. \<not> so_used k) (ss_tab s) = Some i \<and>
     length rip = 4 \<and> \<not> loops_back rip (ss_net s) \<and> nt_uplink (ss_net s) = None"

text \<open>A host seen as one end of a connection that starts now: nothing sent, nothing read, no frame kept.\<close>

definition fresh :: "socks \<Rightarrow> endpoint" where
  "fresh s = \<lparr>ep_socks = s\<lparr>ss_net := (ss_net s)\<lparr>nt_out := []\<rparr>\<rparr>, ep_sent = [], ep_read = [], ep_dropped = False\<rparr>"

lemma client_connect:
  assumes "client_ready fa rip rport s" "iss = seed (nt_ticks (ss_net s)) fa"
    "sk1 = (ss_tab s ! fa)\<lparr>so_rip := rip, so_rport := rport, so_iss := iss, so_snd_una := iss, so_snd_nxt := iss + 1,
       so_retries := 0, so_sent_at := nt_ticks (ss_net s), so_state := SynSent\<rparr>"
  shows "\<exists>x f n0. sock_connect fa rip rport s = (True, put_sock fa sk1 (s\<lparr>ss_net := (ss_net s)\<lparr>nt_out := x @ [f]\<rparr>\<rparr>)) \<and>
    (\<forall>t. rx_frame f t = deliver_tcp (bound_ip (ss_net s)) (tcp_segment sk1 iss SYN [] n0) t)"
proof -
  obtain y where y: "arp_resolve rip (ss_net s) = (ss_net s)\<lparr>nt_out := y\<rparr>" using arp_resolve_out by blast
  have "length (so_rip sk1) = 4" "net_wf (ss_net s)" "so_rip sk1 = rip" using assms by (auto simp: client_ready_def Let_def)
  then obtain f where f: "send_segment sk1 iss SYN [] ((ss_net s)\<lparr>nt_out := y\<rparr>) = (ss_net s)\<lparr>nt_out := y @ [f]\<rparr>"
    "\<forall>t. rx_frame f t = deliver_tcp (bound_ip (ss_net s)) (tcp_segment sk1 iss SYN [] ((ss_net s)\<lparr>nt_out := y\<rparr>)) t"
    using send_syn[of SYN sk1 "(ss_net s)\<lparr>nt_out := y\<rparr>" iss] assms(1) by (auto simp: client_ready_def Let_def)
  have "get_sock fa s = Some (ss_tab s ! fa)" using assms(1) by (simp add: client_ready_def get_sock_def Let_def)
  then have "sock_connect fa rip rport s = (True, put_sock fa sk1 (s\<lparr>ss_net := (ss_net s)\<lparr>nt_out := y @ [f]\<rparr>\<rparr>))"
    using assms f(1) by (simp add: sock_connect_def client_ready_def Let_def y)
  then show ?thesis using f(2) by blast
qed

lemma server_child:
  assumes "server_ready fl i rip rport port s" "iss = seed (nt_ticks (ss_net s)) i"
    "c = sock_empty\<lparr>so_used := True, so_kind := Tcp, so_pid := so_pid (ss_tab s ! fl), so_port := port, so_rip := rip,
       so_rport := rport, so_parent := fl, so_iss := iss, so_snd_una := iss, so_snd_nxt := iss + 1, so_rcv_nxt := seq + 1,
       so_state := SynRecv, so_peer_wscale := ws, so_retries := 0, so_sent_at := nt_ticks (ss_net s)\<rparr>"
  shows "\<exists>x f n0. spawn_child fl rip rport seq ws s = put_sock i c (s\<lparr>ss_net := (ss_net s)\<lparr>nt_out := x @ [f]\<rparr>\<rparr>) \<and>
    (\<forall>t. rx_frame f t = deliver_tcp (bound_ip (ss_net s)) (tcp_segment c iss (SYN OR ACK) [] n0) t)"
proof -
  obtain y where y: "arp_resolve rip (ss_net s) = (ss_net s)\<lparr>nt_out := y\<rparr>" using arp_resolve_out by blast
  have "net_wf (ss_net s)" using assms(1) by (auto simp: server_ready_def)
  then obtain f where f: "send_segment c iss (SYN OR ACK) [] ((ss_net s)\<lparr>nt_out := y\<rparr>) = (ss_net s)\<lparr>nt_out := y @ [f]\<rparr>"
    "\<forall>t. rx_frame f t = deliver_tcp (bound_ip (ss_net s)) (tcp_segment c iss (SYN OR ACK) [] ((ss_net s)\<lparr>nt_out := y\<rparr>)) t"
    using send_syn[of "SYN OR ACK" c "(ss_net s)\<lparr>nt_out := y\<rparr>" iss] assms(1,3) by (auto simp: server_ready_def)
  have "so_port (ss_tab s ! fl) = port" using assms(1) by (auto simp: server_ready_def dest: position_SomeD)
  then have "spawn_child fl rip rport seq ws s = put_sock i c (s\<lparr>ss_net := (ss_net s)\<lparr>nt_out := y @ [f]\<rparr>\<rparr>)"
    using assms f(1) by (simp add: spawn_child_def server_ready_def Let_def y)
  then show ?thesis using f(2) by blast
qed

lemma bystanders_match:
  assumes "bystanders rip rport port fd tab" "fd < length tab" "sock_matches rip rport port sk"
  shows "position (sock_matches rip rport port) (tab[fd := sk]) = Some fd"
proof (rule position_unique)
  show "\<forall>j<length (tab[fd := sk]). j \<noteq> fd \<longrightarrow> \<not> sock_matches rip rport port (tab[fd := sk] ! j)"
    using assms(1) bystander_no_match unfolding bystanders_nth by auto
qed (use assms in auto)

lemma tcp_handshake_gen:
  assumes "client_ready fa ipb port sa" "server_ready fl i ipa porta port sb"
    "bound_ip (ss_net sa) = ipa" "bound_ip (ss_net sb) = ipb" "so_port (ss_tab sa ! fa) = porta"
    "(ok, a1) = sock_connect fa ipb port sa" "b1 = rx_frame (last (nt_out (ss_net a1))) sb"
    "a2 = rx_frame (last (nt_out (ss_net b1))) a1" "b2 = rx_frame (last (nt_out (ss_net a2))) b1"
  shows "ok \<and> connected fa (fresh a2) i (fresh b2) \<and> fst (sock_accept fl b2) = Some i"
proof -
  define isa where "isa = seed (nt_ticks (ss_net sa)) fa"
  define isb where "isb = seed (nt_ticks (ss_net sb)) i"
  define ka where "ka = (ss_tab sa ! fa)\<lparr>so_rip := ipb, so_rport := port, so_iss := isa, so_snd_una := isa, so_snd_nxt := isa + 1,
       so_retries := 0, so_sent_at := nt_ticks (ss_net sa), so_state := SynSent\<rparr>"
  define kb where "kb = sock_empty\<lparr>so_used := True, so_kind := Tcp, so_pid := so_pid (ss_tab sb ! fl), so_port := port, so_rip := ipa,
       so_rport := porta, so_parent := fl, so_iss := isb, so_snd_una := isb, so_snd_nxt := isb + 1, so_rcv_nxt := isa + 1,
       so_state := SynRecv, so_peer_wscale := so_wscale ka, so_retries := 0, so_sent_at := nt_ticks (ss_net sb)\<rparr>"
  define ka2 where "ka2 = ka\<lparr>so_rcv_nxt := isb + 1, so_snd_una := isa + 1, so_snd_nxt := isa + 1,
       so_peer_wscale := so_wscale kb, so_state := Established\<rparr>"
  define kb2 where "kb2 = kb\<lparr>so_snd_una := isb + 1, so_state := Established\<rparr>"
  have A: "fa < length (ss_tab sa)" "fa < MAX_SOCKS" "socks_ok sa" "bystanders ipb port porta fa (ss_tab sa)" "length ipb = 4"
    "\<not> loops_back ipb (ss_net sa)" "nt_uplink (ss_net sa) = None" "net_wf (ss_net sa)"
    and A': "so_used (ss_tab sa ! fa)" "so_kind (ss_tab sa ! fa) = Tcp" "\<not> so_tx_pending (ss_tab sa ! fa)"
    "so_tx_q_len (ss_tab sa ! fa) = 0" "so_rx_count (ss_tab sa ! fa) = 0"
    using assms(1,5) by (auto simp: client_ready_def socks_ok_def Let_def)
  have B: "i < length (ss_tab sb)" "i < MAX_SOCKS" "socks_ok sb" "bystanders ipa porta port i (ss_tab sb)" "length ipa = 4"
    "\<not> loops_back ipa (ss_net sb)" "nt_uplink (ss_net sb) = None"
    and free: "\<not> so_used (ss_tab sb ! i)"
    and fl: "position (\<lambda>k. so_used k \<and> so_kind k = Tcp \<and> so_state k = Listen \<and> so_port k = port) (ss_tab sb) = Some fl"
    using assms(2) by (auto simp: server_ready_def socks_ok_def dest: position_SomeD)
  obtain x1 f1 n1 where c1: "sock_connect fa ipb port sa = (True, put_sock fa ka (sa\<lparr>ss_net := (ss_net sa)\<lparr>nt_out := x1 @ [f1]\<rparr>\<rparr>))"
    "\<forall>t. rx_frame f1 t = deliver_tcp ipa (tcp_segment ka isa SYN [] n1) t"
    using client_connect[OF assms(1) isa_def ka_def] assms(3) by blast
  then have ok: ok and a1: "a1 = put_sock fa ka (sa\<lparr>ss_net := (ss_net sa)\<lparr>nt_out := x1 @ [f1]\<rparr>\<rparr>)" using assms(6) by simp_all
  have ports: "so_port ka = porta" "so_rport ka = port" using assms(5) by (simp_all add: ka_def)
  obtain x2 f2 n2 where c2: "spawn_child fl ipa porta isa (so_wscale ka) sb = put_sock i kb (sb\<lparr>ss_net := (ss_net sb)\<lparr>nt_out := x2 @ [f2]\<rparr>\<rparr>)"
    "\<forall>t. rx_frame f2 t = deliver_tcp ipb (tcp_segment kb isb (SYN OR ACK) [] n2) t"
    using server_child[OF assms(2) isb_def kb_def] assms(4) by blast
  have b1: "b1 = put_sock i kb (sb\<lparr>ss_net := (ss_net sb)\<lparr>nt_out := x2 @ [f2]\<rparr>\<rparr>)"
    using assms(7) c1(2) c2(1) fl unfolding a1 by (simp add: put_sock_def deliver_tcp_syn ports)
  have ma: "sock_matches ipb port porta ka" and mb: "sock_matches ipa porta port kb"
    using A' ports by (simp_all add: sock_matches_def ka_def kb_def)
  have flag: "SYN OR ACK \<noteq> SYN" "(SYN OR ACK) AND RST = 0" "(SYN OR ACK) AND SYN \<noteq> 0" "(SYN OR ACK) AND ACK \<noteq> 0"
    by (simp_all add: flag_defs)
  let ?na = "(ss_net sa)\<lparr>nt_out := x1 @ [f1]\<rparr>" and ?nb = "(ss_net sb)\<lparr>nt_out := x2 @ [f2]\<rparr>"
  have seg2: "sock_segment (SYN OR ACK) isb (so_rcv_nxt kb) (so_wscale kb) [] now ka ?na = (ka2, send_segment ka2 (so_snd_nxt ka2) ACK [] ?na)" for now
    using flag by (simp add: sock_segment_def ka2_def ka_def kb_def Let_def)
  have "so_rip ka2 = ipb" "so_port ka2 = porta" "so_rport ka2 = port" "so_rcv_nxt ka2 = isb + 1" "so_snd_nxt ka2 = isa + 1"
    using ports by (simp_all add: ka2_def ka_def)
  then obtain f3 where c3: "send_segment ka2 (so_snd_nxt ka2) ACK [] ?na = (ss_net sa)\<lparr>nt_out := x1 @ [f1, f3]\<rparr>"
    "carries f3 ipa porta port ACK (isa + 1) (isb + 1) []"
    using send_segment_emits[of ka2 ?na ACK "[]" "so_snd_nxt ka2"] A assms(3) by auto
  have a2: "a2 = put_sock fa ka2 (sa\<lparr>ss_net := (ss_net sa)\<lparr>nt_out := x1 @ [f1, f3]\<rparr>\<rparr>)"
  proof -
    have "so_port kb = port" "so_rport kb = porta" by (simp_all add: kb_def)
    then have "a2 = (let (k, m) = sock_segment (SYN OR ACK) isb (so_rcv_nxt kb) (so_wscale kb) [] (nt_ticks (ss_net sa)) ka ?na
        in put_sock fa k (a1\<lparr>ss_net := m\<rparr>))"
      using assms(8) c2(2) bystanders_match[OF A(4,1) ma] A(1) flag(1) unfolding b1 a1
      by (simp add: put_sock_def deliver_tcp_syn)
    then show ?thesis unfolding seg2 c3(1) a1 by (simp add: put_sock_def)
  qed
  have seg3: "sock_segment ACK (isa + 1) (isb + 1) 0 [] now kb ?nb = (kb2, ?nb)" for now
    by (simp add: sock_segment_def segment_data_def segment_ack_def segment_payload_def segment_fin_def kb2_def kb_def
        sock_empty_def flag_defs)
  have b2: "b2 = put_sock i kb2 b1"
    using assms(9) c3(2) bystanders_match[OF B(4,1) mb] B(1) unfolding a2 b1 carries_def
    by (simp add: put_sock_def deliver_segment_def seg3)
  have "fresh_end fa (fresh a2)"
  proof -
    have "socks_ok a2" using assms(6,8) rx_frame_ok connect_ok[OF A(3)] by (metis snd_conv)
    then have "socks_ok (ep_socks (fresh a2))" by (simp add: fresh_def socks_ok_def)
    then show ?thesis
      using A A' ports unfolding fresh_end_def
      by (simp add: fresh_def ep_sock_def ep_out_def a2 put_sock_def ka2_def ka_def Let_def)
  qed
  moreover have "fresh_end i (fresh b2)"
  proof -
    have "socks_ok b2" using assms(7,9) rx_frame_ok B(3) by simp
    then have "socks_ok (ep_socks (fresh b2))" by (simp add: fresh_def socks_ok_def)
    then show ?thesis
      using B unfolding fresh_end_def
      by (simp add: fresh_def ep_sock_def ep_out_def b2 b1 put_sock_def kb2_def kb_def Let_def sock_empty_def)
  qed
  ultimately have con: "connected fa (fresh a2) i (fresh b2)"
    using A B assms(3,4) ports unfolding connected_def
    by (simp add: fresh_def ep_sock_def a2 b2 b1 put_sock_def ka2_def ka_def kb2_def kb_def)
  have tab: "ss_tab b2 = (ss_tab sb)[i := kb2]" by (simp add: b2 b1 put_sock_def)
  have l: "fl < length (ss_tab sb)" "so_used (ss_tab sb ! fl)" "so_kind (ss_tab sb ! fl) = Tcp" "so_state (ss_tab sb ! fl) = Listen"
    using position_SomeD[OF fl] by simp_all
  then have "fl \<noteq> i" using free by auto
  then have get: "get_sock fl b2 = Some (ss_tab sb ! fl)"
    using l B(3) by (simp add: get_sock_def tab socks_ok_def)
  have pos: "position (\<lambda>sk. so_used sk \<and> so_kind sk = Tcp \<and> so_parent sk = fl \<and> so_state sk = Established) (ss_tab b2) = Some i"
  proof (rule position_unique)
    show "\<forall>j<length (ss_tab b2). j \<noteq> i \<longrightarrow>
        \<not> (so_used (ss_tab b2 ! j) \<and> so_kind (ss_tab b2 ! j) = Tcp \<and> so_parent (ss_tab b2 ! j) = fl \<and> so_state (ss_tab b2 ! j) = Established)"
      using B(4) unfolding tab bystanders_nth by (auto simp: bystander_def)
  qed (use B(1) in \<open>auto simp: tab kb2_def kb_def\<close>)
  have "fst (sock_accept fl b2) = Some i" using get l pos by (simp add: sock_accept_def)
  then show ?thesis using ok con by blast
qed

text \<open>
  C16: when the SYN, the SYN-ACK and the final ACK each arrive, \<open>connect\<close> succeeds and leaves two
  established sockets whose addresses, ports and sequence numbers mirror each other, with empty rings, that is,
  the state from which the data transfer is a reliable stream; and \<open>accept\<close> on the listener hands out exactly
  the new connection.
\<close>

theorem tcp_handshake:
  assumes "client_ready fa ipb port sa" "server_ready fl i ipa porta port sb"
    "bound_ip (ss_net sa) = ipa" "bound_ip (ss_net sb) = ipb" "so_port (ss_tab sa ! fa) = porta"
    "(ok, a1) = sock_connect fa ipb port sa" "b1 = rx_frame (last (nt_out (ss_net a1))) sb"
    "a2 = rx_frame (last (nt_out (ss_net b1))) a1" "b2 = rx_frame (last (nt_out (ss_net a2))) b1"
  shows "ok \<and> connected fa (fresh a2) i (fresh b2) \<and> fst (sock_accept fl b2) = Some i"
  using assms by (rule tcp_handshake_gen)

end
