(* ===== verification/Tcp_Example.thy ===== *)
theory Tcp_Example
  imports Tcp_Handshake
begin

text \<open>
  Two concrete hosts, 10.0.0.1 and 10.0.0.2: the handshake between them, a first segment, its
  retransmission and the received stream.  They show that the hypotheses of the theorems on the socket
  layer hold together.
\<close>

definition demo_net :: "u8 \<Rightarrow> net" where
  "demo_net k = net_boot [2, 0, 0, 0, 0, k] (lease_empty\<lparr>ls_ip := [10, 0, 0, k], ls_mask := [255, 255, 255, 0]\<rparr>)"

definition demo_client :: socks where
  "demo_client = sock_exec (OOpen 7 Tcp) (socks_init (demo_net 1))"

definition demo_server :: socks where
  "demo_server = fold sock_exec [OOpen 8 Tcp, OBind 0 80, OListen 0] (socks_init (demo_net 2))"

lemma demo_net_wf: "net_wf (demo_net k)"
  unfolding demo_net_def by (rule net_boot_wf) simp_all

lemma demo_net_simps:
  "bound_ip (demo_net k) = [10, 0, 0, k]" "nt_uplink (demo_net k) = None" "nt_out (demo_net k) = []" "nt_ticks (demo_net k) = 0"
  "\<not> loops_back [10, 0, 0, 2] (demo_net 1)" "\<not> loops_back [10, 0, 0, 1] (demo_net 2)"
  by (simp_all add: demo_net_def net_boot_def bound_ip_def loops_back_def NO_IP_def is_multicast_def
      is_subnet_broadcast_def Let_def)

lemma socks_init_tab: "ss_tab (socks_init n) = sock_empty # replicate 15 sock_empty"
  by (simp add: socks_init_def MAX_SOCKS_def flip: replicate_Suc)

lemma sock_empty_simps:
  "\<not> so_used sock_empty" "so_state sock_empty = Closed" "\<not> so_tx_pending sock_empty" "so_tx_q_len sock_empty = 0"
  "so_rx_count sock_empty = 0" "so_rip sock_empty = NO_IP" "so_eof sock_empty = False"
  by (simp_all add: sock_empty_def)

lemma bystanders_tail: "bystanders rip rport port 0 (sk # replicate k sock_empty)"
  by (auto simp: bystanders_nth bystander_def nth_Cons sock_empty_simps split: nat.split)

lemma demo_client_tab:
  "ss_tab demo_client = (sock_empty\<lparr>so_state := Closed, so_used := True, so_kind := Tcp, so_pid := 7, so_port := 49152\<rparr>) # replicate 15 sock_empty"
  "ss_net demo_client = demo_net 1"
  by (simp_all add: demo_client_def sock_open_def alloc_port_def put_sock_def socks_init_tab sock_empty_simps)
    (simp_all add: socks_init_def)

lemma demo_client_ready: "client_ready 0 [10, 0, 0, 2] 80 demo_client"
proof -
  have "socks_ok demo_client"
    unfolding demo_client_def by (intro sock_exec_ok socks_init_ok demo_net_wf)
  then show ?thesis
    by (simp add: client_ready_def Let_def demo_client_tab bystanders_tail demo_net_simps sock_empty_simps NO_IP_def MAX_SOCKS_def)
qed

lemma demo_server_tab:
  "ss_tab demo_server = (sock_empty\<lparr>so_used := True, so_kind := Tcp, so_pid := 8, so_port := 80, so_state := Listen, so_eof := False\<rparr>) # replicate 15 sock_empty"
  "ss_net demo_server = demo_net 2"
  by (simp_all add: demo_server_def sock_open_def sock_bind_def sock_listen_def get_sock_def alloc_port_def put_sock_def
      socks_init_tab sock_empty_simps MAX_SOCKS_def) (simp_all add: socks_init_def)

lemma demo_server_ready: "server_ready 0 1 [10, 0, 0, 1] 49152 80 demo_server"
proof -
  have "socks_ok demo_server"
    unfolding demo_server_def by (intro fold_exec_ok socks_init_ok demo_net_wf)
  moreover have "bystanders [10, 0, 0, 1] 49152 80 1 (ss_tab demo_server)"
    by (auto simp: demo_server_tab bystanders_nth bystander_def sock_matches_def nth_Cons sock_empty_simps NO_IP_def split: nat.split)
  moreover have "replicate 15 sock_empty = sock_empty # replicate 14 sock_empty" by (simp flip: replicate_Suc)
  ultimately show ?thesis
    by (simp add: server_ready_def demo_server_tab demo_net_simps sock_empty_simps)
qed

theorem socks_run_ok_witness:
  "net_wf (demo_net 2) \<and> socks_ok (fold sock_exec [OOpen 8 Tcp, OBind 0 80, OListen 0, OTick 50, OFrame [1, 2, 3]] (socks_init (demo_net 2)))"
  using socks_run_ok[OF demo_net_wf] demo_net_wf by blast

theorem frame_checksums_verify_witness:
  "l4_checksum [10, 0, 0, 1] [10, 0, 0, 2] 6
     (tcp_segment (sock_empty\<lparr>so_rip := [10, 0, 0, 2], so_port := 49152, so_rport := 80\<rparr>) 1000 (PSH OR ACK) [104, 105, 33] (demo_net 1)) = 0"
  using frame_checksums_verify[where n = "demo_net 1" and hw = "[2, 0, 0, 0, 0, 2]" and seq = 1000 and flags = "PSH OR ACK"
      and sk = "sock_empty\<lparr>so_rip := [10, 0, 0, 2], so_port := 49152, so_rport := 80\<rparr>" and payload = "[104, 105, 33]"]
  by (simp add: demo_net_wf demo_net_simps)

theorem tcp_handshake_witness:
  "let r = sock_connect 0 [10, 0, 0, 2] 80 demo_client; a1 = snd r;
       b1 = rx_frame (last (nt_out (ss_net a1))) demo_server;
       a2 = rx_frame (last (nt_out (ss_net b1))) a1;
       b2 = rx_frame (last (nt_out (ss_net a2))) b1
   in fst r \<and> connected 0 (fresh a2) 1 (fresh b2) \<and> fst (sock_accept 0 b2) = Some 1"
  unfolding Let_def
  by (rule tcp_handshake[OF demo_client_ready demo_server_ready _ _ _ surjective_pairing[symmetric] refl refl refl])
    (simp_all add: demo_client_tab demo_server_tab demo_net_simps)

subsection \<open>A first segment\<close>

definition demo_end :: "u8 \<Rightarrow> u8 \<Rightarrow> u16 \<Rightarrow> u16 \<Rightarrow> u32 \<Rightarrow> u32 \<Rightarrow> endpoint" where
  "demo_end k j port rport snd_seq rcv_seq =
     \<lparr>ep_socks = \<lparr>ss_tab = (sock_empty\<lparr>so_used := True, so_kind := Tcp, so_port := port, so_rip := [10, 0, 0, j], so_rport := rport,
          so_state := Established, so_snd_nxt := snd_seq, so_rcv_nxt := rcv_seq\<rparr>) # replicate 15 sock_empty,
        ss_next_port = 49153, ss_net = demo_net k\<rparr>, ep_sent = [], ep_read = [], ep_dropped = False\<rparr>"

definition demo_a :: endpoint where "demo_a = demo_end 1 2 49152 80 1000 2000"
definition demo_b :: endpoint where "demo_b = demo_end 2 1 80 49152 2000 1000"

lemma demo_end_ok: "socks_ok (ep_socks (demo_end k j port rport x y))"
  using sock_ok_empty by (simp add: demo_end_def socks_ok_def demo_net_wf MAX_SOCKS_def list_all_iff)

lemma demo_connected: "connected 0 demo_a 0 demo_b"
proof -
  note ok = demo_end_ok[of 1 2 49152 80 1000 2000] demo_end_ok[of 2 1 80 49152 2000 1000]
  then show ?thesis
    by (simp add: connected_def fresh_end_def demo_a_def demo_b_def demo_end_def ep_sock_def ep_out_def demo_net_simps
        bystanders_tail sock_empty_simps MAX_SOCKS_def Let_def)
qed

definition demo_sent :: endpoint where "demo_sent = ep_act 0 (ASend [104, 105, 33]) demo_a"

lemma demo_sent_fields:
  "ep_sent demo_sent = [104, 105, 33]" "so_state (ep_sock 0 demo_sent) = Established" "so_tx_pending (ep_sock 0 demo_sent)"
  "so_tx_len (ep_sock 0 demo_sent) = 3" "so_retries (ep_sock 0 demo_sent) = 0" "so_sent_at (ep_sock 0 demo_sent) = 0"
  "so_tx_q_len (ep_sock 0 demo_sent) = 0"
  by (simp_all add: demo_sent_def demo_a_def demo_end_def ep_sock_def sock_send_def get_sock_def MAX_SOCKS_def
      sock_empty_def TX_QCAP_def TCP_MSS_def kick_def put_sock_def demo_net_simps Let_def)

lemma emit_uplink: "nt_uplink (send_segment sk seq flags payload n) = nt_uplink n"
  by (simp add: send_segment_def emit_ipv4_def uplink_send_def loop_enqueue_def Let_def split: option.split)

lemma demo_sent_net: "nt_uplink (ss_net (ep_socks demo_sent)) = None" "ep_out demo_sent \<noteq> []"
proof -
  have loop: "loops_back [10, 0, 0, 2] (demo_net 1) = False" by (simp add: demo_net_simps)
  show "nt_uplink (ss_net (ep_socks demo_sent)) = None"
    by (simp add: demo_sent_def demo_a_def demo_end_def sock_send_def get_sock_def MAX_SOCKS_def
        sock_empty_def TX_QCAP_def TCP_MSS_def kick_def put_sock_def emit_uplink demo_net_simps(2) Let_def)
  show "ep_out demo_sent \<noteq> []"
    by (simp add: demo_sent_def demo_a_def demo_end_def ep_out_def sock_send_def get_sock_def MAX_SOCKS_def
        sock_empty_def TX_QCAP_def TCP_MSS_def kick_def put_sock_def send_segment_def emit_ipv4_def uplink_send_def
        demo_net_simps(2) loop tcp_segment_def length_tcp_header Let_def)
qed

lemma demo_b_fields:
  "ep_sent demo_b = []" "so_state (ep_sock 0 demo_b) = Established" "nt_uplink (ss_net (ep_socks demo_b)) = None"
  "so_rx_count (ep_sock 0 demo_b) = 0" "\<not> ep_dropped demo_b"
  by (simp_all add: demo_b_def demo_end_def ep_sock_def demo_net_simps sock_empty_simps)

lemma demo_sent_run: "conn_run 0 0 (demo_a, demo_b) (demo_sent, demo_b)"
  unfolding demo_sent_def by (rule conn_run.left[OF conn_run.start]) simp

theorem tcp_recovers_witness:
  "let a1 = ep_act 0 (ATick 50) demo_sent; b1 = ep_act 0 (AFrame (last (ep_out a1))) demo_b;
       a2 = ep_act 0 (AFrame (last (ep_out b1))) a1
   in ep_read b1 @ ep_unread 0 b1 = [104, 105, 33] \<and> so_tx_q_len (ep_sock 0 a2) = 0"
proof -
  have "ep_read b1 @ ep_unread 0 b1 = take (length (ep_sent demo_sent) - so_tx_q_len (ep_sock 0 demo_sent)) (ep_sent demo_sent) \<and>
      so_tx_q_len (ep_sock 0 a2) = so_tx_q_len (ep_sock 0 demo_sent) - TCP_MSS"
    if "a1 = ep_act 0 (ATick 50) demo_sent" "b1 = ep_act 0 (AFrame (last (ep_out a1))) demo_b"
      "a2 = ep_act 0 (AFrame (last (ep_out b1))) a1" for a1 b1 a2
  proof -
    have "so_tx_len (ep_sock 0 demo_sent) \<le> 1440 \<and> \<not> ep_dropped demo_b \<and>
        so_rx_count (ep_sock 0 demo_b) + so_tx_len (ep_sock 0 demo_sent) \<le> TCP_RXCAP"
      by (simp add: demo_sent_fields demo_b_fields TCP_RXCAP_def)
    moreover note tcp_recovers[OF demo_connected demo_sent_run _ _ _ _ _ _ _ _ _ that]
    ultimately show ?thesis
      by (simp add: demo_sent_fields demo_sent_net demo_b_fields)
  qed
  then show ?thesis unfolding Let_def by (simp add: demo_sent_fields)
qed

definition demo_received :: endpoint where
  "demo_received = ep_act 0 (AFrame (last (ep_out demo_sent))) demo_b"

theorem tcp_stream_reliable_witness:
  "let b = ep_act 0 (ARecv 2) demo_received in
   subseq (ep_read b @ ep_unread 0 b) [104, 105, 33] \<and> prefix (ep_read demo_sent @ ep_unread 0 demo_sent) []"
proof -
  have "may_act demo_sent (AFrame (last (ep_out demo_sent)))"
    using demo_sent_net(2) by simp
  then have "conn_run 0 0 (demo_a, demo_b) (demo_sent, demo_received)"
    unfolding demo_received_def by (rule conn_run.right[OF demo_sent_run])
  then have run: "conn_run 0 0 (demo_a, demo_b) (demo_sent, ep_act 0 (ARecv 2) demo_received)"
    by (rule conn_run.right) simp
  have sent: "ep_sent (ep_act 0 (ARecv 2) demo_received) = []"
    by (simp add: demo_received_def demo_b_fields case_prod_beta Let_def)
  have whole: "\<not> ep_dropped demo_sent"
    by (simp add: demo_sent_def demo_a_def demo_end_def case_prod_beta)
  show ?thesis
    using tcp_stream_reliable[OF demo_connected run] whole unfolding Let_def sent demo_sent_fields by simp
qed

end
