(* ===== verification/Kernel_Sched.thy ===== *)
theory Kernel_Sched
  imports Prelude
begin

text \<open>
  The kernel's preemptive scheduler and its fault interceptor (\<open>aios-kernel/src/sched.rs\<close> and
  \<open>aios-kernel/src/fault.rs\<close>), which call each other: the task table with saved trap frames, the rotation,
  the hang watchdog, the queue of faults that await a decision, and the recovery actions.  The statics of
  both modules are the fields of one record; the tick counter and the thermal state are fields too.

  A scheduler call either returns, so that the interrupted code goes on with the trap frame in memory, or
  resumes another task with its saved frame; the restore routines written in assembly never return.
\<close>

definition KERNEL_CS :: u64 where "KERNEL_CS = 0x08"
definition USER_CS :: u64 where "USER_CS = 0x1B"
abbreviation USER_DS :: u64 where "USER_DS \<equiv> 0x23"
abbreviation SCHED_HZ :: u64 where "SCHED_HZ \<equiv> 100"
abbreviation SWITCH_DIVIDER :: u64 where "SWITCH_DIVIDER \<equiv> SCHED_HZ div 4"
definition HANG_WATCHDOG_TICKS :: u64 where "HANG_WATCHDOG_TICKS = 10 * SCHED_HZ"
definition APIC_TIMER_VECTOR :: u64 where "APIC_TIMER_VECTOR = 0x90"
definition MAX_TASKS :: nat where "MAX_TASKS = 7"
definition MAX_FAULTS_PER_TASK :: u8 where "MAX_FAULTS_PER_TASK = 3"
abbreviation FAULT_HISTORY_LEN :: nat where "FAULT_HISTORY_LEN \<equiv> 8"
definition FAULT_EVENT_LEN :: nat where "FAULT_EVENT_LEN = 16"
definition FAULT_QUEUE_LEN :: nat where "FAULT_QUEUE_LEN = MAX_TASKS"

record interrupt_frame =
  fr_r15 :: u64  fr_r14 :: u64  fr_r13 :: u64  fr_r12 :: u64  fr_r11 :: u64  fr_r10 :: u64  fr_r9 :: u64  fr_r8 :: u64
  fr_rdi :: u64  fr_rsi :: u64  fr_rbp :: u64  fr_rbx :: u64  fr_rdx :: u64  fr_rcx :: u64  fr_ds :: u64  fr_rax :: u64
  fr_vector :: u64  fr_error_code :: u64  fr_rip :: u64  fr_cs :: u64  fr_rflags :: u64  fr_rsp :: u64  fr_ss :: u64

definition frame_zero :: interrupt_frame where
  "frame_zero = \<lparr>fr_r15 = 0, fr_r14 = 0, fr_r13 = 0, fr_r12 = 0, fr_r11 = 0, fr_r10 = 0, fr_r9 = 0, fr_r8 = 0,
     fr_rdi = 0, fr_rsi = 0, fr_rbp = 0, fr_rbx = 0, fr_rdx = 0, fr_rcx = 0, fr_ds = 0, fr_rax = 0,
     fr_vector = 0, fr_error_code = 0, fr_rip = 0, fr_cs = 0, fr_rflags = 0, fr_rsp = 0, fr_ss = 0\<rparr>"

record ktask =
  kt_present :: bool
  kt_valid_frame :: bool
  kt_sleep_until :: u64
  kt_frame :: interrupt_frame

definition ktask_empty :: ktask where
  "ktask_empty = \<lparr>kt_present = False, kt_valid_frame = False, kt_sleep_until = 0, kt_frame = frame_zero\<rparr>"

datatype fault_code = DivideError | InvalidOpcode | GeneralProtection | PageFault | Hang

fun fault_code_u16 :: "fault_code \<Rightarrow> u16" where
  "fault_code_u16 DivideError = 0"
| "fault_code_u16 InvalidOpcode = 6"
| "fault_code_u16 GeneralProtection = 13"
| "fault_code_u16 PageFault = 14"
| "fault_code_u16 Hang = 0x20"

record task_snapshot =
  sn_pid :: u32
  sn_rip :: u64  sn_cs :: u64  sn_rsp :: u64  sn_rflags :: u64  sn_ss :: u64
  sn_rax :: u64  sn_rbx :: u64  sn_rcx :: u64  sn_rdx :: u64  sn_rsi :: u64  sn_rdi :: u64  sn_rbp :: u64
  sn_r8 :: u64  sn_r9 :: u64  sn_r10 :: u64  sn_r11 :: u64  sn_r12 :: u64  sn_r13 :: u64  sn_r14 :: u64  sn_r15 :: u64
  sn_state_hash :: u64

text \<open>\<open>to_ne_bytes\<close> on the x86-64 target: least significant byte first.\<close>

definition ne_bytes :: "u64 \<Rightarrow> u64 list" where
  "ne_bytes v = map (\<lambda>i. drop_bit (8 * i) v AND 0xFF) [0..<8]"

definition fnv_step :: "u64 \<Rightarrow> u64 \<Rightarrow> u64" where
  "fnv_step b h = (h XOR b) * 0x00000100000001b3"

definition hash_of :: "task_snapshot \<Rightarrow> u64" where
  "hash_of s = fold fnv_step (concat (map ne_bytes
     [ucast (sn_pid s), sn_rip s, sn_cs s, sn_rsp s, sn_rflags s, sn_ss s, sn_rax s, sn_rbx s, sn_rcx s, sn_rdx s, sn_rsi s,
      sn_rdi s, sn_rbp s, sn_r8 s, sn_r9 s, sn_r10 s, sn_r11 s, sn_r12 s, sn_r13 s, sn_r14 s, sn_r15 s])) 0xcbf29ce484222325"

definition snapshot_capture :: "u32 \<Rightarrow> interrupt_frame \<Rightarrow> task_snapshot" where
  "snapshot_capture pid f =
     (let snap = \<lparr>sn_pid = pid, sn_rip = fr_rip f, sn_cs = fr_cs f, sn_rsp = fr_rsp f, sn_rflags = fr_rflags f,
        sn_ss = fr_ss f, sn_rax = fr_rax f, sn_rbx = fr_rbx f, sn_rcx = fr_rcx f, sn_rdx = fr_rdx f, sn_rsi = fr_rsi f,
        sn_rdi = fr_rdi f, sn_rbp = fr_rbp f, sn_r8 = fr_r8 f, sn_r9 = fr_r9 f, sn_r10 = fr_r10 f, sn_r11 = fr_r11 f,
        sn_r12 = fr_r12 f, sn_r13 = fr_r13 f, sn_r14 = fr_r14 f, sn_r15 = fr_r15 f, sn_state_hash = 0\<rparr>
      in snap\<lparr>sn_state_hash := hash_of snap\<rparr>)"

definition snapshot_verify :: "task_snapshot \<Rightarrow> bool" where
  "snapshot_verify s = (hash_of s = sn_state_hash s)"

record fault_record =
  fc_snapshot :: task_snapshot
  fc_kind :: fault_code
  fc_count :: u8

datatype recovery = Resume | Terminate | Rollback

fun recovery_index :: "recovery \<Rightarrow> nat" where
  "recovery_index Resume = 0"
| "recovery_index Terminate = 1"
| "recovery_index Rollback = 2"

record fault_event =
  fe_pid :: u32
  fe_kind :: u16
  fe_count :: u8
  fe_rip :: u64

record fault_statics =
  ks_pending :: bool
  ks_queue :: "fault_record option list"
  ks_queue_head :: nat
  ks_queue_len :: nat
  ks_counts :: "u8 list"
  ks_history :: "fault_record option list"
  ks_history_next :: nat
  ks_history_items :: nat
  ks_total :: u64
  ks_resolutions :: "u64 list"
  ks_events :: "fault_event option list"
  ks_ev_head :: nat
  ks_ev_len :: nat

text \<open>The statics of the scheduler, with the tick counter and the thermal alarm, which it reads.\<close>

record kst = fault_statics +
  ks_tasks :: "ktask list"
  ks_current :: int
  ks_last_switch :: u64
  ks_switch_count :: u64
  ks_stall_since :: "u64 list"
  ks_stall_rip :: "u64 list"
  ks_activity :: "u64 list"
  ks_boot_active :: bool
  ks_ticks :: u64
  ks_critical :: bool

definition kst_init :: kst where
  "kst_init = \<lparr>ks_pending = False, ks_queue = replicate FAULT_QUEUE_LEN None,
     ks_queue_head = 0, ks_queue_len = 0, ks_counts = replicate MAX_TASKS 0,
     ks_history = replicate FAULT_HISTORY_LEN None, ks_history_next = 0, ks_history_items = 0, ks_total = 0,
     ks_resolutions = replicate 3 0, ks_events = replicate FAULT_EVENT_LEN None, ks_ev_head = 0, ks_ev_len = 0,
     ks_tasks = replicate MAX_TASKS ktask_empty, ks_current = - 1, ks_last_switch = 0, ks_switch_count = 0,
     ks_stall_since = replicate MAX_TASKS 0, ks_stall_rip = replicate MAX_TASKS 0, ks_activity = replicate MAX_TASKS 0,
     ks_boot_active = True, ks_ticks = 0, ks_critical = False\<rparr>"

subsection \<open>The task table\<close>

definition set_task :: "nat \<Rightarrow> ktask \<Rightarrow> kst \<Rightarrow> kst" where
  "set_task i t s = s\<lparr>ks_tasks := (ks_tasks s)[i := t]\<rparr>"

definition reset_stall :: "nat \<Rightarrow> u64 \<Rightarrow> kst \<Rightarrow> kst" where
  "reset_stall i now s = s\<lparr>ks_stall_since := (ks_stall_since s)[i := now], ks_stall_rip := (ks_stall_rip s)[i := 0],
     ks_activity := (ks_activity s)[i := now]\<rparr>"

definition note_activity :: "u32 \<Rightarrow> kst \<Rightarrow> kst" where
  "note_activity pid s =
     (let i = unat pid in
      if i = 0 \<or> i \<ge> MAX_TASKS then s else s\<lparr>ks_activity := (ks_activity s)[i := ks_ticks s]\<rparr>)"

definition sched_init :: "kst \<Rightarrow> kst" where
  "sched_init s = set_task 0 ((ks_tasks s ! 0)\<lparr>kt_present := True, kt_valid_frame := False\<rparr>)
     (s\<lparr>ks_current := 0, ks_last_switch := 0\<rparr>)"

text \<open>The entry of \<open>idle_loop\<close> and the top of its stack are addresses of the image.\<close>

definition boot_finished :: "u64 \<Rightarrow> u64 \<Rightarrow> kst \<Rightarrow> kst" where
  "boot_finished idle_entry idle_top s =
     (let t = ks_tasks s ! 0;
          f = (kt_frame t)\<lparr>fr_rip := idle_entry, fr_cs := 0x08, fr_ss := 0x10, fr_ds := 0x10, fr_rsp := idle_top, fr_rflags := 0x202\<rparr>
      in set_task 0 (t\<lparr>kt_present := True, kt_valid_frame := True, kt_frame := f\<rparr>)
           (s\<lparr>ks_current := - 1, ks_boot_active := False\<rparr>))"

definition spawn_with :: "(interrupt_frame \<Rightarrow> interrupt_frame) \<Rightarrow> kst \<Rightarrow> nat option \<times> kst" where
  "spawn_with fill s =
     (case position (\<lambda>t. \<not> kt_present t) (tl (ks_tasks s)) of
        None \<Rightarrow> (None, s)
      | Some k \<Rightarrow>
          let slot = k + 1; t = ks_tasks s ! slot in
          (Some slot, reset_stall slot (ks_ticks s)
             (set_task slot (t\<lparr>kt_frame := fill (kt_frame t), kt_present := True, kt_valid_frame := True\<rparr>) s)))"

definition spawn_kernel :: "u64 \<Rightarrow> u64 \<Rightarrow> kst \<Rightarrow> nat option \<times> kst" where
  "spawn_kernel entry stack_top =
     spawn_with (\<lambda>f. f\<lparr>fr_rip := entry, fr_cs := 0x08, fr_ss := 0x10, fr_ds := 0x10, fr_rsp := stack_top, fr_rflags := 0x202\<rparr>)"

definition spawn_user :: "u64 \<Rightarrow> u64 \<Rightarrow> u64 \<Rightarrow> u64 \<Rightarrow> kst \<Rightarrow> nat option \<times> kst" where
  "spawn_user entry stack_top arg1 arg2 =
     spawn_with (\<lambda>f. f\<lparr>fr_rip := entry, fr_cs := USER_CS, fr_ss := USER_DS, fr_ds := USER_DS, fr_rsp := stack_top,
       fr_rflags := 0x202, fr_rdi := arg1, fr_rsi := arg2\<rparr>)"

definition current_pid :: "kst \<Rightarrow> u32" where
  "current_pid s = word_of_int (max (ks_current s) 0)"

definition task_present :: "u32 \<Rightarrow> kst \<Rightarrow> bool" where
  "task_present pid s = (let i = unat pid in i > 0 \<and> i < MAX_TASKS \<and> kt_present (ks_tasks s ! i))"

definition task_asleep :: "u32 \<Rightarrow> kst \<Rightarrow> bool" where
  "task_asleep pid s =
     (let i = unat pid in
      if i = 0 \<or> i \<ge> MAX_TASKS then False
      else let t = ks_tasks s ! i in kt_present t \<and> kt_sleep_until t \<noteq> 0 \<and> kt_sleep_until t > ks_ticks s)"

definition task_snapshot_of :: "u32 \<Rightarrow> kst \<Rightarrow> task_snapshot option" where
  "task_snapshot_of pid s =
     (let i = unat pid in
      if i = 0 \<or> i \<ge> MAX_TASKS then None
      else if \<not> kt_present (ks_tasks s ! i) then None
      else Some (snapshot_capture pid (kt_frame (ks_tasks s ! i))))"

definition freeze_task :: "u32 \<Rightarrow> kst \<Rightarrow> kst" where
  "freeze_task pid s =
     (let i = unat pid in
      if i = 0 \<or> i \<ge> MAX_TASKS then s
      else if kt_present (ks_tasks s ! i) then set_task i ((ks_tasks s ! i)\<lparr>kt_sleep_until := - 1\<rparr>) s
      else s)"

definition unfreeze_task :: "u32 \<Rightarrow> kst \<Rightarrow> kst" where
  "unfreeze_task pid s =
     (let i = unat pid in
      if i = 0 \<or> i \<ge> MAX_TASKS then s
      else if kt_present (ks_tasks s ! i)
      then reset_stall i (ks_ticks s) (set_task i ((ks_tasks s ! i)\<lparr>kt_sleep_until := 0\<rparr>) s)
      else s)"

definition remove_task :: "u32 \<Rightarrow> kst \<Rightarrow> kst" where
  "remove_task pid s =
     (let i = unat pid in
      if i = 0 \<or> i \<ge> MAX_TASKS then s
      else if kt_present (ks_tasks s ! i)
      then let s1 = reset_stall i 0
             (set_task i ((ks_tasks s ! i)\<lparr>kt_present := False, kt_valid_frame := False, kt_sleep_until := 0\<rparr>) s)
           in if ks_current s1 = int i then s1\<lparr>ks_current := - 1\<rparr> else s1
      else s)"

definition frame_restore :: "task_snapshot \<Rightarrow> interrupt_frame \<Rightarrow> interrupt_frame" where
  "frame_restore n f = f\<lparr>fr_rip := sn_rip n, fr_cs := sn_cs n, fr_rsp := sn_rsp n, fr_rflags := sn_rflags n, fr_ss := sn_ss n,
     fr_rax := sn_rax n, fr_rbx := sn_rbx n, fr_rcx := sn_rcx n, fr_rdx := sn_rdx n, fr_rsi := sn_rsi n, fr_rdi := sn_rdi n,
     fr_rbp := sn_rbp n, fr_r8 := sn_r8 n, fr_r9 := sn_r9 n, fr_r10 := sn_r10 n, fr_r11 := sn_r11 n, fr_r12 := sn_r12 n,
     fr_r13 := sn_r13 n, fr_r14 := sn_r14 n, fr_r15 := sn_r15 n\<rparr>"

definition restore_task :: "u32 \<Rightarrow> task_snapshot \<Rightarrow> kst \<Rightarrow> kst" where
  "restore_task pid n s =
     (let i = unat pid in
      if i = 0 \<or> i \<ge> MAX_TASKS then s
      else if kt_present (ks_tasks s ! i)
      then let t = ks_tasks s ! i in
        reset_stall i (ks_ticks s)
          (set_task i (t\<lparr>kt_frame := frame_restore n (kt_frame t), kt_valid_frame := True, kt_sleep_until := 0\<rparr>) s)
      else s)"

subsection \<open>Fault records and events\<close>

definition post_event :: "fault_event \<Rightarrow> kst \<Rightarrow> kst" where
  "post_event e s =
     (let len = ks_ev_len s; head = ks_ev_head s in
      if len \<ge> FAULT_EVENT_LEN
      then s\<lparr>ks_events := (ks_events s)[head := Some e], ks_ev_head := (head + 1) mod FAULT_EVENT_LEN\<rparr>
      else s\<lparr>ks_events := (ks_events s)[(head + len) mod FAULT_EVENT_LEN := Some e], ks_ev_len := len + 1\<rparr>)"

definition poll_event :: "kst \<Rightarrow> fault_event option \<times> kst" where
  "poll_event s =
     (if ks_ev_len s = 0 then (None, s)
      else let head = ks_ev_head s in
        (ks_events s ! head, s\<lparr>ks_events := (ks_events s)[head := None], ks_ev_head := (head + 1) mod FAULT_EVENT_LEN,
           ks_ev_len := ks_ev_len s - 1\<rparr>))"

definition sat_inc8 :: "u8 \<Rightarrow> u8" where
  "sat_inc8 c = (if c = - 1 then c else c + 1)"

definition publish :: "u32 \<Rightarrow> fault_code \<Rightarrow> task_snapshot \<Rightarrow> kst \<Rightarrow> kst" where
  "publish pid k snap s =
     (let i = unat pid; c = sat_inc8 (ks_counts s ! i);
          s1 = post_event \<lparr>fe_pid = pid, fe_kind = fault_code_u16 k, fe_count = c, fe_rip = sn_rip snap\<rparr>
                 (s\<lparr>ks_counts := (ks_counts s)[i := c]\<rparr>);
          len = ks_queue_len s1
      in if len \<ge> FAULT_QUEUE_LEN then s1
         else s1\<lparr>ks_queue := (ks_queue s1)[(ks_queue_head s1 + len) mod FAULT_QUEUE_LEN :=
                    Some \<lparr>fc_snapshot = snap, fc_kind = k, fc_count = c\<rparr>],
                ks_queue_len := len + 1, ks_pending := True\<rparr>)"

definition record_hang :: "task_snapshot \<Rightarrow> kst \<Rightarrow> kst" where
  "record_hang snap s = freeze_task (sn_pid snap) (publish (sn_pid snap) Hang snap s)"

definition fault_peek :: "kst \<Rightarrow> fault_record option" where
  "fault_peek s = (if ks_queue_len s = 0 then None else ks_queue s ! ks_queue_head s)"

definition pop_front :: "kst \<Rightarrow> kst" where
  "pop_front s =
     (if ks_queue_len s = 0 then s
      else let head = ks_queue_head s; remaining = ks_queue_len s - 1;
               s1 = s\<lparr>ks_queue := (ks_queue s)[head := None], ks_queue_len := remaining\<rparr>
        in if remaining = 0 then s1\<lparr>ks_queue_head := 0, ks_pending := False\<rparr>
           else s1\<lparr>ks_queue_head := (head + 1) mod FAULT_QUEUE_LEN\<rparr>)"

definition over_budget :: "fault_record \<Rightarrow> bool" where
  "over_budget r = (fc_count r > MAX_FAULTS_PER_TASK)"

definition over_budget_current :: "kst \<Rightarrow> bool" where
  "over_budget_current s = (case fault_peek s of None \<Rightarrow> False | Some r \<Rightarrow> over_budget r)"

definition history_records :: "kst \<Rightarrow> fault_record list" where
  "history_records s =
     (let oldest = (ks_history_next s + FAULT_HISTORY_LEN - ks_history_items s) mod FAULT_HISTORY_LEN in
      List.map_filter (\<lambda>k. ks_history s ! ((oldest + k) mod FAULT_HISTORY_LEN)) [0..<ks_history_items s])"

definition pending_records :: "kst \<Rightarrow> fault_record list" where
  "pending_records s =
     List.map_filter (\<lambda>k. ks_queue s ! ((ks_queue_head s + k) mod FAULT_QUEUE_LEN)) [0..<ks_queue_len s]"

text \<open>The match on the decision in \<open>resolve\<close>.\<close>

definition apply_recovery :: "recovery \<Rightarrow> fault_record \<Rightarrow> kst \<Rightarrow> kst" where
  "apply_recovery action r s =
     (let pid = sn_pid (fc_snapshot r) in
      case action of
        Resume \<Rightarrow>
          (let intact = (case task_snapshot_of pid s of
               None \<Rightarrow> False
             | Some live \<Rightarrow> snapshot_verify live \<and> sn_state_hash live = sn_state_hash (fc_snapshot r))
           in if intact then unfreeze_task pid s
              else (remove_task pid s)\<lparr>ks_counts := (ks_counts s)[unat pid := 0]\<rparr>)
      | Terminate \<Rightarrow> (remove_task pid s)\<lparr>ks_counts := (ks_counts s)[unat pid := 0]\<rparr>
      | Rollback \<Rightarrow> restore_task pid (fc_snapshot r) s)"

definition log_resolution :: "recovery \<Rightarrow> fault_record \<Rightarrow> kst \<Rightarrow> kst" where
  "log_resolution action r s =
     (let idx = ks_history_next s; a = recovery_index action in
      s\<lparr>ks_history := (ks_history s)[idx := Some r], ks_history_next := (idx + 1) mod FAULT_HISTORY_LEN,
        ks_history_items := min (ks_history_items s + 1) FAULT_HISTORY_LEN, ks_total := ks_total s + 1,
        ks_resolutions := (ks_resolutions s)[a := ks_resolutions s ! a + 1]\<rparr>)"

definition fault_resolve :: "recovery \<Rightarrow> kst \<Rightarrow> kst" where
  "fault_resolve action s =
     (case fault_peek s of
        None \<Rightarrow> s
      | Some r \<Rightarrow>
          if action \<noteq> Terminate \<and> over_budget r then s
          else pop_front (log_resolution action r (apply_recovery action r s)))"

subsection \<open>The switch\<close>

datatype outcome =
    Return
  | Restore interrupt_frame
  | Halt

text \<open>The refresh of the saved frame of a valid task: everything but \<open>ds\<close>, the vector and the error code.\<close>

definition frame_refresh :: "interrupt_frame \<Rightarrow> interrupt_frame \<Rightarrow> interrupt_frame" where
  "frame_refresh f saved = saved\<lparr>fr_r8 := fr_r8 f, fr_r9 := fr_r9 f, fr_r10 := fr_r10 f, fr_r11 := fr_r11 f,
     fr_r12 := fr_r12 f, fr_r13 := fr_r13 f, fr_r14 := fr_r14 f, fr_r15 := fr_r15 f, fr_rax := fr_rax f, fr_rcx := fr_rcx f,
     fr_rdx := fr_rdx f, fr_rbx := fr_rbx f, fr_rbp := fr_rbp f, fr_rsi := fr_rsi f, fr_rdi := fr_rdi f, fr_rip := fr_rip f,
     fr_rsp := fr_rsp f, fr_cs := fr_cs f, fr_ss := fr_ss f, fr_rflags := fr_rflags f\<rparr>"

text \<open>The hang watchdog on the current slot, after its frame was refreshed to \<open>saved\<close>.\<close>

definition watchdog :: "nat \<Rightarrow> interrupt_frame \<Rightarrow> kst \<Rightarrow> kst" where
  "watchdog slot saved s =
     (let s1 = (if ks_stall_rip s ! slot \<noteq> fr_rip saved
                then s\<lparr>ks_stall_rip := (ks_stall_rip s)[slot := fr_rip saved], ks_stall_since := (ks_stall_since s)[slot := ks_ticks s]\<rparr>
                else s);
          act = ks_activity s1 ! slot;
          s2 = (if act > ks_stall_since s1 ! slot then s1\<lparr>ks_stall_since := (ks_stall_since s1)[slot := act]\<rparr> else s1)
      in if ks_ticks s2 - ks_stall_since s2 ! slot \<ge> HANG_WATCHDOG_TICKS
         then let s3 = record_hang (snapshot_capture (word_of_nat slot) saved) s2 in
           s3\<lparr>ks_stall_since := (ks_stall_since s3)[slot := ks_ticks s3]\<rparr>
         else s2)"

definition save_outgoing :: "interrupt_frame \<Rightarrow> kst \<Rightarrow> kst" where
  "save_outgoing f s =
     (if ks_current s \<ge> 0
      then let slot = nat (ks_current s); t = ks_tasks s ! slot in
        if \<not> kt_valid_frame t then set_task slot (t\<lparr>kt_frame := f, kt_valid_frame := True\<rparr>) s
        else if kt_present t
        then let saved = frame_refresh f (kt_frame t); s1 = set_task slot (t\<lparr>kt_frame := saved\<rparr>) s in
          if fr_cs f = USER_CS then watchdog slot saved s1 else s1
        else s
      else s)"

text \<open>The rotation: the first slot after the current one that may run, waking sleepers on the way.\<close>

fun pick_next :: "int \<Rightarrow> u64 \<Rightarrow> bool \<Rightarrow> nat list \<Rightarrow> ktask list \<Rightarrow> nat option \<times> ktask list" where
  "pick_next cur now critical [] ts = (None, ts)"
| "pick_next cur now critical (st # sts) ts =
     (let cand = nat ((cur + int st) mod int MAX_TASKS); t = ts ! cand; deadline = kt_sleep_until t in
      if \<not> kt_present t \<or> int cand = cur then pick_next cur now critical sts ts
      else if deadline \<noteq> 0 \<and> deadline > now then pick_next cur now critical sts ts
      else let ts1 = (if deadline \<noteq> 0 then ts[cand := t\<lparr>kt_sleep_until := 0\<rparr>] else ts) in
        if critical \<and> fr_cs (kt_frame t) = USER_CS then pick_next cur now critical sts ts1
        else (Some cand, ts1))"

definition hw_tick :: "interrupt_frame \<Rightarrow> bool" where
  "hw_tick f = (32 \<le> fr_vector f \<and> fr_vector f \<le> 47 \<or> fr_vector f = APIC_TIMER_VECTOR)"

definition schedule :: "interrupt_frame \<Rightarrow> kst \<Rightarrow> outcome \<times> kst" where
  "schedule f s =
     (if ks_current s = 0 \<and> ks_boot_active s then (Return, s)
      else if hw_tick f \<and> fr_cs f = KERNEL_CS \<and> ks_current s \<noteq> - 1 then (Return, s)
      else let s1 = save_outgoing f s;
               (next, ts) = pick_next (ks_current s) (ks_ticks s) (ks_critical s) [1..<MAX_TASKS + 1] (ks_tasks s1);
               s2 = s1\<lparr>ks_tasks := ts\<rparr>
        in case next of
             None \<Rightarrow> (Return, s2)
           | Some i \<Rightarrow> (Restore (kt_frame (ts ! i)), s2\<lparr>ks_current := int i, ks_switch_count := ks_switch_count s2 + 1\<rparr>))"

definition sched_tick :: "interrupt_frame \<Rightarrow> kst \<Rightarrow> outcome \<times> kst" where
  "sched_tick f s =
     (if ks_ticks s - ks_last_switch s < SWITCH_DIVIDER then (Return, s)
      else schedule f (s\<lparr>ks_last_switch := ks_ticks s\<rparr>))"

definition sat_add64 :: "u64 \<Rightarrow> u64 \<Rightarrow> u64" where
  "sat_add64 a b = (if unat a + unat b \<ge> 2 ^ 64 then - 1 else a + b)"

definition sleep_current :: "interrupt_frame \<Rightarrow> u64 \<Rightarrow> kst \<Rightarrow> outcome \<times> kst" where
  "sleep_current f ticks s =
     (let cur = ks_current s;
          s1 = (if cur > 0 \<and> kt_present (ks_tasks s ! nat cur)
                then set_task (nat cur) ((ks_tasks s ! nat cur)\<lparr>kt_sleep_until := sat_add64 (ks_ticks s) (max ticks 1)\<rparr>) s
                else s)
      in schedule f s1)"

definition intercept :: "interrupt_frame \<Rightarrow> fault_code \<Rightarrow> kst \<Rightarrow> outcome \<times> kst" where
  "intercept f k s =
     (if fr_cs f = KERNEL_CS then (Halt, s)
      else let pid = current_pid s in
        schedule f (freeze_task pid (publish pid k (snapshot_capture pid f) s)))"

end
