(* ===== verification/Kernel_Switch.thy ===== *)
theory Kernel_Switch
  imports Kernel_Sched
begin

text \<open>
  Runs of the kernel scheduler: the boot sequence, spawned tasks, timer interrupts, voluntary switches, sleeps,
  faults and the decisions on them.  Every task is resumed with the registers it was interrupted with, and a
  ready task waits for at most six switches.
\<close>

subsection \<open>Registers of a frame\<close>

text \<open>The part of a frame that belongs to the interrupted code.\<close>

definition regs :: "interrupt_frame \<Rightarrow> u64 list" where
  "regs f = [fr_rip f, fr_cs f, fr_rsp f, fr_rflags f, fr_ss f, fr_rax f, fr_rbx f, fr_rcx f, fr_rdx f, fr_rsi f, fr_rdi f,
     fr_rbp f, fr_r8 f, fr_r9 f, fr_r10 f, fr_r11 f, fr_r12 f, fr_r13 f, fr_r14 f, fr_r15 f]"

definition snapshot_regs :: "task_snapshot \<Rightarrow> u64 list" where
  "snapshot_regs n = [sn_rip n, sn_cs n, sn_rsp n, sn_rflags n, sn_ss n, sn_rax n, sn_rbx n, sn_rcx n, sn_rdx n, sn_rsi n,
     sn_rdi n, sn_rbp n, sn_r8 n, sn_r9 n, sn_r10 n, sn_r11 n, sn_r12 n, sn_r13 n, sn_r14 n, sn_r15 n]"

lemma regs_refresh [simp]: "regs (frame_refresh f saved) = regs f"
  by (simp add: regs_def frame_refresh_def)

lemma regs_restore [simp]: "regs (frame_restore n f) = snapshot_regs n"
  by (simp add: regs_def snapshot_regs_def frame_restore_def)

lemma snapshot_regs_capture [simp]: "snapshot_regs (snapshot_capture pid f) = regs f"
  by (simp add: regs_def snapshot_regs_def snapshot_capture_def Let_def)

lemma hash_of_state_hash [simp]: "hash_of (s\<lparr>sn_state_hash := h\<rparr>) = hash_of s"
  by (simp add: hash_of_def)

lemma capture_verifies: "snapshot_verify (snapshot_capture pid f)"
  unfolding snapshot_verify_def snapshot_capture_def Let_def hash_of_state_hash by simp

lemma sn_pid_capture [simp]: "sn_pid (snapshot_capture pid f) = pid"
  by (simp add: snapshot_capture_def Let_def)

text \<open>Frames with the same registers have the same snapshot, hence the same hash.\<close>

lemma capture_cong: "regs f = regs g \<Longrightarrow> snapshot_capture pid f = snapshot_capture pid g"
  by (simp add: regs_def snapshot_capture_def)

subsection \<open>Runs\<close>

datatype kevent =
    EBoot u64 u64
  | ESpawnKernel u64 u64
  | ESpawnUser u64 u64 u64 u64
  | ETimer interrupt_frame
  | EYield interrupt_frame
  | ESleep interrupt_frame u64
  | EFault interrupt_frame fault_code
  | EActivity u32
  | EThermal bool
  | EResolve recovery

fun kstep :: "kevent \<Rightarrow> kst \<Rightarrow> outcome \<times> kst" where
  "kstep (EBoot entry stk) s = (Return, if ks_boot_active s then boot_finished entry stk s else s)"
| "kstep (ESpawnKernel entry stk) s = (Return, snd (spawn_kernel entry stk s))"
| "kstep (ESpawnUser entry stk a b) s = (Return, snd (spawn_user entry stk a b s))"
| "kstep (ETimer f) s = sched_tick f (s\<lparr>ks_ticks := ks_ticks s + 1\<rparr>)"
| "kstep (EYield f) s = schedule f s"
| "kstep (ESleep f n) s = sleep_current f n s"
| "kstep (EFault f k) s = intercept f k s"
| "kstep (EActivity pid) s = (Return, note_activity pid s)"
| "kstep (EThermal b) s = (Return, s\<lparr>ks_critical := b\<rparr>)"
| "kstep (EResolve a) s = (Return, fault_resolve a s)"

fun event_frame :: "kevent \<Rightarrow> interrupt_frame option" where
  "event_frame (ETimer f) = Some f"
| "event_frame (EYield f) = Some f"
| "event_frame (ESleep f n) = Some f"
| "event_frame (EFault f k) = Some f"
| "event_frame _ = None"

text \<open>
  The registers each task must be resumed with: those of the frame it was switched away with, those a new task is
  created with, or those of the snapshot it was rolled back to.
\<close>

definition owed :: "kevent \<Rightarrow> kst \<Rightarrow> (nat \<rightharpoonup> u64 list) \<Rightarrow> (nat \<rightharpoonup> u64 list)" where
  "owed ev s m =
     (case ev of
        EBoot entry stk \<Rightarrow> if ks_boot_active s then m(0 \<mapsto> regs (kt_frame (ks_tasks (snd (kstep ev s)) ! 0))) else m
      | ESpawnKernel entry stk \<Rightarrow>
          (case fst (spawn_kernel entry stk s) of None \<Rightarrow> m | Some i \<Rightarrow> m(i \<mapsto> regs (kt_frame (ks_tasks (snd (kstep ev s)) ! i))))
      | ESpawnUser entry stk a b \<Rightarrow>
          (case fst (spawn_user entry stk a b s) of None \<Rightarrow> m | Some i \<Rightarrow> m(i \<mapsto> regs (kt_frame (ks_tasks (snd (kstep ev s)) ! i))))
      | EResolve Rollback \<Rightarrow>
          (case fault_peek s of
             None \<Rightarrow> m
           | Some r \<Rightarrow> if over_budget r \<or> \<not> task_present (sn_pid (fc_snapshot r)) s then m else m(unat (sn_pid (fc_snapshot r)) \<mapsto> snapshot_regs (fc_snapshot r)))
      | _ \<Rightarrow> (case (event_frame ev, fst (kstep ev s)) of
             (Some f, Restore g) \<Rightarrow> if ks_current s \<ge> 0 then m(nat (ks_current s) \<mapsto> regs f) else m
           | _ \<Rightarrow> m))"

fun krun :: "kevent list \<Rightarrow> kst \<times> (nat \<rightharpoonup> u64 list) \<Rightarrow> kst \<times> (nat \<rightharpoonup> u64 list)" where
  "krun [] sm = sm"
| "krun (ev # evs) sm = krun evs (snd (kstep ev (fst sm)), owed ev (fst sm) (snd sm))"

subsection \<open>The invariant\<close>

definition kst_ok :: "kst \<Rightarrow> bool" where
  "kst_ok s \<longleftrightarrow> length (ks_tasks s) = MAX_TASKS \<and> - 1 \<le> ks_current s \<and> ks_current s < int MAX_TASKS \<and>
     (ks_boot_active s \<longrightarrow> ks_current s = 0) \<and>
     (0 \<le> ks_current s \<and> \<not> ks_boot_active s \<longrightarrow>
        kt_present (ks_tasks s ! nat (ks_current s)) \<and> kt_valid_frame (ks_tasks s ! nat (ks_current s)))"

definition saved_ok :: "kst \<Rightarrow> (nat \<rightharpoonup> u64 list) \<Rightarrow> bool" where
  "saved_ok s m \<longleftrightarrow> (\<forall>i<MAX_TASKS. int i \<noteq> ks_current s \<and> kt_present (ks_tasks s ! i) \<longrightarrow>
     kt_valid_frame (ks_tasks s ! i) \<and> m i = Some (regs (kt_frame (ks_tasks s ! i))))"

text \<open>Changes of a table that keep presence, validity and frames: only sleep deadlines move.\<close>

definition same_tasks :: "ktask list \<Rightarrow> ktask list \<Rightarrow> bool" where
  "same_tasks ts us \<longleftrightarrow> length us = length ts \<and> (\<forall>i<length ts. kt_present (us ! i) = kt_present (ts ! i) \<and>
     kt_valid_frame (us ! i) = kt_valid_frame (ts ! i) \<and> kt_frame (us ! i) = kt_frame (ts ! i))"

lemma same_tasks_refl [simp]: "same_tasks ts ts"
  by (simp add: same_tasks_def)

lemma same_tasks_trans: "same_tasks ts us \<Longrightarrow> same_tasks us vs \<Longrightarrow> same_tasks ts vs"
  by (simp add: same_tasks_def)

lemma nth_update_in: "j < length xs \<Longrightarrow> xs[i := x] ! j = (if i = j then x else xs ! j)"
  by (cases "i = j") simp_all

lemma same_tasks_sleep: "same_tasks ts (ts[i := (ts ! i)\<lparr>kt_sleep_until := d\<rparr>])"
  by (simp add: same_tasks_def nth_update_in)

lemma post_event_tasks [simp]: "ks_tasks (post_event e s) = ks_tasks s" "ks_current (post_event e s) = ks_current s"
  "ks_boot_active (post_event e s) = ks_boot_active s"
  by (simp_all add: post_event_def Let_def)

lemma publish_tasks [simp]: "ks_tasks (publish pid k n s) = ks_tasks s" "ks_current (publish pid k n s) = ks_current s"
  "ks_boot_active (publish pid k n s) = ks_boot_active s"
  by (simp_all add: publish_def Let_def)

lemma freeze_tasks: "same_tasks (ks_tasks s) (ks_tasks (freeze_task pid s)) \<and> ks_current (freeze_task pid s) = ks_current s \<and>
    ks_boot_active (freeze_task pid s) = ks_boot_active s"
  by (simp add: freeze_task_def set_task_def same_tasks_sleep Let_def)

lemma record_hang_tasks: "same_tasks (ks_tasks s) (ks_tasks (record_hang n s)) \<and> ks_current (record_hang n s) = ks_current s \<and>
    ks_boot_active (record_hang n s) = ks_boot_active s"
  using freeze_tasks[of "publish (sn_pid n) Hang n s" "sn_pid n"] by (simp add: record_hang_def)

lemma watchdog_tasks: "same_tasks (ks_tasks s) (ks_tasks (watchdog slot saved s)) \<and> ks_current (watchdog slot saved s) = ks_current s \<and>
    ks_boot_active (watchdog slot saved s) = ks_boot_active s"
proof -
  have "same_tasks (ks_tasks t) (ks_tasks (record_hang n t))" "ks_current (record_hang n t) = ks_current t"
    "ks_boot_active (record_hang n t) = ks_boot_active t" for n t
    using record_hang_tasks by blast+
  note h = this
  show ?thesis
    by (auto simp: watchdog_def Let_def h intro: same_tasks_trans[OF _ h(1)])
qed

subsection \<open>The rotation\<close>

definition runnable :: "u64 \<Rightarrow> bool \<Rightarrow> ktask \<Rightarrow> bool" where
  "runnable now critical t \<longleftrightarrow> kt_present t \<and> (kt_sleep_until t = 0 \<or> kt_sleep_until t \<le> now) \<and>
     \<not> (critical \<and> fr_cs (kt_frame t) = USER_CS)"

definition slot_at :: "int \<Rightarrow> nat \<Rightarrow> nat" where
  "slot_at cur st = nat ((cur + int st) mod int MAX_TASKS)"

lemma pick_next_Cons:
  "pick_next cur now critical (st # sts) ts =
     (let c = slot_at cur st; t = ts ! c; ts1 = (if kt_sleep_until t \<noteq> 0 then ts[c := t\<lparr>kt_sleep_until := 0\<rparr>] else ts) in
      if \<not> kt_present t \<or> int c = cur \<or> kt_sleep_until t \<noteq> 0 \<and> kt_sleep_until t > now then pick_next cur now critical sts ts
      else if critical \<and> fr_cs (kt_frame t) = USER_CS then pick_next cur now critical sts ts1
      else (Some c, ts1))"
  by (simp add: slot_at_def Let_def)

declare pick_next.simps(2) [simp del]

lemma pick_next_tasks: "same_tasks ts (snd (pick_next cur now critical sts ts))"
proof (induction sts arbitrary: ts)
  case (Cons st sts)
  let ?t = "ts ! slot_at cur st"
  define us where "us = (if kt_sleep_until ?t \<noteq> 0 then ts[slot_at cur st := ?t\<lparr>kt_sleep_until := 0\<rparr>] else ts)"
  have "same_tasks ts us" using same_tasks_sleep by (simp add: us_def)
  then have "same_tasks ts (snd (pick_next cur now critical sts us))" using Cons[of us] by (rule same_tasks_trans)
  then show ?case
    using Cons[of ts] \<open>same_tasks ts us\<close> unfolding pick_next_Cons Let_def us_def[symmetric] by (cases critical) (simp_all split: if_split)
qed simp

lemma pick_next_find:
  "distinct (map (slot_at cur) sts) \<Longrightarrow>
   fst (pick_next cur now critical sts ts) =
     List.find (\<lambda>c. int c \<noteq> cur \<and> runnable now critical (ts ! c)) (map (slot_at cur) sts)"
proof (induction sts arbitrary: ts)
  case (Cons st sts)
  let ?c = "slot_at cur st"
  let ?t = "ts ! ?c"
  let ?ts = "if kt_sleep_until ?t \<noteq> 0 then ts[?c := ?t\<lparr>kt_sleep_until := 0\<rparr>] else ts"
  have neq: "?ts ! c = ts ! c" if "c \<in> set (map (slot_at cur) sts)" for c
  proof -
    have "?c \<notin> set (map (slot_at cur) sts)" using Cons.prems by simp
    then have "c \<noteq> ?c" using that by blast
    then show ?thesis by simp
  qed
  have "List.find (\<lambda>c. int c \<noteq> cur \<and> runnable now critical (?ts ! c)) (map (slot_at cur) sts) =
      List.find (\<lambda>c. int c \<noteq> cur \<and> runnable now critical (ts ! c)) (map (slot_at cur) sts)"
    by (intro find_cong refl) (simp only: neq)
  then show ?case
    using Cons.IH[of ts] Cons.IH[of ?ts] Cons.prems unfolding pick_next_Cons Let_def
    by (auto simp: runnable_def not_less)
qed simp

lemma slots_distinct: "distinct (map (slot_at cur) [1..<MAX_TASKS + 1])"
proof -
  have "a = b" if "1 \<le> a" "a < 8" "1 \<le> b" "b < 8" "slot_at cur a = slot_at cur b" for a b
  proof -
    have "(cur + int a) mod 7 = (cur + int b) mod 7" using that(5) by (simp add: slot_at_def MAX_TASKS_def eq_nat_nat_iff)
    then have "(int a - 1) mod 7 = (int b - 1) mod 7"
      using mod_diff_cong[of "cur + int a" 7 "cur + int b" "cur + 1" "cur + 1"] by simp
    moreover have "(int a - 1) mod 7 = int a - 1" "(int b - 1) mod 7 = int b - 1"
      using that(1-4) by (auto intro!: mod_pos_pos_trivial)
    ultimately show "a = b" by simp
  qed
  then show ?thesis by (auto simp: distinct_map inj_on_def MAX_TASKS_def)
qed

lemma slot_at_less: "slot_at cur st < MAX_TASKS"
  by (simp add: slot_at_def MAX_TASKS_def nat_less_iff)

text \<open>A task's place in the rotation after the current one.\<close>

definition place :: "int \<Rightarrow> nat \<Rightarrow> nat" where
  "place cur i = nat ((int i - cur - 1) mod int MAX_TASKS) + 1"

lemma place_bound: "1 \<le> place cur i" "place cur i \<le> MAX_TASKS"
  using pos_mod_bound[of 7 "int i - cur - 1"] by (simp_all add: place_def MAX_TASKS_def nat_le_iff)

lemma slot_at_place: "i < MAX_TASKS \<Longrightarrow> slot_at cur (place cur i) = i"
proof -
  assume "i < MAX_TASKS"
  have "(cur + int (place cur i)) mod 7 = (cur + (1 + (int i - cur - 1) mod 7)) mod 7"
    by (simp add: place_def MAX_TASKS_def)
  also have "\<dots> = (cur + (1 + (int i - cur - 1))) mod 7" by (intro mod_add_cong) (simp_all add: mod_simps)
  also have "\<dots> = int i mod 7" by simp
  finally show ?thesis using \<open>i < MAX_TASKS\<close> by (simp add: slot_at_def MAX_TASKS_def)
qed

lemma place_after: "1 \<le> st \<Longrightarrow> st < place cur i \<Longrightarrow> place (int (slot_at cur st)) i = place cur i - st"
proof -
  assume st: "1 \<le> st" "st < place cur i"
  let ?d = "(int i - cur - 1) mod 7"
  have "(int i - int (slot_at cur st) - 1) mod 7 = (int i - (cur + int st) - 1) mod 7"
    by (intro mod_diff_cong) (simp_all add: slot_at_def MAX_TASKS_def)
  also have "int i - (cur + int st) - 1 = (int i - cur - 1) - int st" by simp
  also have "((int i - cur - 1) - int st) mod 7 = (?d - int st) mod 7" by (intro mod_diff_cong) simp_all
  also have "\<dots> = ?d - int st"
    using st pos_mod_bound[of 7 "int i - cur - 1"] by (intro mod_pos_pos_trivial) (simp_all add: place_def MAX_TASKS_def)
  finally show ?thesis using st by (simp add: place_def MAX_TASKS_def nat_diff_distrib Suc_diff_le)
qed

lemma find_first:
  "List.find P xs = Some x \<Longrightarrow> \<exists>k<length xs. xs ! k = x \<and> P x \<and> (\<forall>j<k. \<not> P (xs ! j))"
  by (auto simp: find_Some_iff)

text \<open>The slot chosen, in terms of places.\<close>

lemma pick_next_place:
  assumes "fst (pick_next cur now critical [1..<MAX_TASKS + 1] ts) = Some j"
  shows "j < MAX_TASKS \<and> int j \<noteq> cur \<and> runnable now critical (ts ! j) \<and>
    (\<exists>st. 1 \<le> st \<and> st \<le> MAX_TASKS \<and> j = slot_at cur st \<and>
       (\<forall>i<MAX_TASKS. int i \<noteq> cur \<and> runnable now critical (ts ! i) \<longrightarrow> st \<le> place cur i))"
proof -
  let ?P = "\<lambda>c. int c \<noteq> cur \<and> runnable now critical (ts ! c)"
  have "List.find ?P (map (slot_at cur) [1..<MAX_TASKS + 1]) = Some j"
    using assms pick_next_find[OF slots_distinct] by simp
  then obtain k where k: "k < MAX_TASKS" "slot_at cur (k + 1) = j" "?P j"
    "\<forall>l<k. \<not> ?P (map (slot_at cur) [1..<MAX_TASKS + 1] ! l)"
    by (auto dest!: find_first simp del: upt_Suc)
  have first: "\<not> ?P (slot_at cur (l + 1))" if "l < k" for l
    using k(4) that k(1) by (auto simp del: upt_Suc)
  have "k + 1 \<le> place cur i" if "i < MAX_TASKS" "?P i" for i
  proof (rule ccontr)
    assume "\<not> k + 1 \<le> place cur i"
    then have "place cur i - 1 < k" using place_bound(1)[of cur i] by linarith
    from first[OF this] show False using slot_at_place[OF that(1), of cur] place_bound(1)[of cur i] that(2) by simp
  qed
  then show ?thesis using k slot_at_less by (metis Suc_eq_plus1 Suc_leI le_add2)
qed

lemma pick_next_none:
  assumes "fst (pick_next cur now critical [1..<MAX_TASKS + 1] ts) = None" "i < MAX_TASKS" "int i \<noteq> cur"
  shows "\<not> runnable now critical (ts ! i)"
proof -
  have "List.find (\<lambda>c. int c \<noteq> cur \<and> runnable now critical (ts ! c)) (map (slot_at cur) [1..<MAX_TASKS + 1]) = None"
    using assms(1) pick_next_find[OF slots_distinct] by simp
  moreover have "i \<in> set (map (slot_at cur) [1..<MAX_TASKS + 1])"
    using slot_at_place[OF assms(2), of cur] place_bound[of cur i] by (force simp: MAX_TASKS_def simp del: upt_Suc)
  ultimately show ?thesis using assms(3) by (auto simp: find_NoneD)
qed

subsection \<open>The switch keeps every context\<close>

definition like :: "kst \<Rightarrow> kst \<Rightarrow> bool" where
  "like s t \<longleftrightarrow> same_tasks (ks_tasks s) (ks_tasks t) \<and> ks_current t = ks_current s \<and> ks_boot_active t = ks_boot_active s"

lemma like_refl [simp]: "like s s"
  by (simp add: like_def)

lemma like_trans: "like s t \<Longrightarrow> like t u \<Longrightarrow> like s u"
  using same_tasks_trans by (auto simp: like_def)

lemma like_ok: "like s t \<Longrightarrow> kst_ok s \<Longrightarrow> kst_ok t"
  by (auto simp: like_def kst_ok_def same_tasks_def)

lemma like_saved: "like s t \<Longrightarrow> kst_ok s \<Longrightarrow> saved_ok s m \<Longrightarrow> saved_ok t m"
  by (auto simp: like_def kst_ok_def saved_ok_def same_tasks_def)

lemma unat_slot: "slot < MAX_TASKS \<Longrightarrow> unat (word_of_nat slot :: u32) = slot"
  by (simp add: unat_of_nat MAX_TASKS_def)

text \<open>The watchdog touches the sleep deadline of its own slot only.\<close>

lemma watchdog_slot:
  assumes "slot < MAX_TASKS"
  shows "\<exists>d. ks_tasks (watchdog slot saved s) = (ks_tasks s)[slot := (ks_tasks s ! slot)\<lparr>kt_sleep_until := d\<rparr>]"
proof -
  have keep: "\<exists>d. ts = ts[slot := (ts ! slot)\<lparr>kt_sleep_until := d\<rparr>]" for ts
    by (rule exI[of _ "kt_sleep_until (ts ! slot)"]) simp
  have hang: "\<exists>d. ks_tasks (record_hang (snapshot_capture (word_of_nat slot) saved) t) =
      (ks_tasks t)[slot := (ks_tasks t ! slot)\<lparr>kt_sleep_until := d\<rparr>]" for t
    using unat_slot[OF assms] keep[of "ks_tasks t"]
    by (cases "slot = 0 \<or> \<not> kt_present (ks_tasks t ! slot)")
      (auto simp: record_hang_def freeze_task_def set_task_def Let_def)
  define s1 where "s1 = (if ks_stall_rip s ! slot \<noteq> fr_rip saved
    then s\<lparr>ks_stall_rip := (ks_stall_rip s)[slot := fr_rip saved], ks_stall_since := (ks_stall_since s)[slot := ks_ticks s]\<rparr> else s)"
  define s2 where "s2 = (if ks_activity s1 ! slot > ks_stall_since s1 ! slot
    then s1\<lparr>ks_stall_since := (ks_stall_since s1)[slot := ks_activity s1 ! slot]\<rparr> else s1)"
  have "ks_tasks s2 = ks_tasks s" by (simp add: s2_def s1_def)
  moreover have "ks_tasks (watchdog slot saved s) =
      (if ks_ticks s2 - ks_stall_since s2 ! slot \<ge> HANG_WATCHDOG_TICKS
       then ks_tasks (record_hang (snapshot_capture (word_of_nat slot) saved) s2) else ks_tasks s2)"
    unfolding watchdog_def Let_def s1_def[symmetric] s2_def[symmetric] by simp
  ultimately show ?thesis using hang[of s2] keep[of "ks_tasks s"] by auto
qed

lemma save_outgoing_spec:
  assumes "kst_ok s" "\<not> ks_boot_active s" "s1 = save_outgoing f s"
  shows "ks_current s1 = ks_current s" "ks_boot_active s1 = ks_boot_active s" "length (ks_tasks s1) = MAX_TASKS"
    "\<And>i. i < MAX_TASKS \<Longrightarrow> int i \<noteq> ks_current s \<Longrightarrow> ks_tasks s1 ! i = ks_tasks s ! i"
    "0 \<le> ks_current s \<Longrightarrow> kt_present (ks_tasks s1 ! nat (ks_current s)) \<and> kt_valid_frame (ks_tasks s1 ! nat (ks_current s)) \<and>
       regs (kt_frame (ks_tasks s1 ! nat (ks_current s))) = regs f"
proof -
  let ?slot = "nat (ks_current s)"
  have len: "length (ks_tasks s) = MAX_TASKS" using assms(1) by (simp add: kst_ok_def)
  have all: "ks_current s1 = ks_current s \<and> ks_boot_active s1 = ks_boot_active s \<and> length (ks_tasks s1) = MAX_TASKS \<and>
      (\<forall>i<MAX_TASKS. int i \<noteq> ks_current s \<longrightarrow> ks_tasks s1 ! i = ks_tasks s ! i) \<and>
      (0 \<le> ks_current s \<longrightarrow> kt_present (ks_tasks s1 ! ?slot) \<and> kt_valid_frame (ks_tasks s1 ! ?slot) \<and>
        regs (kt_frame (ks_tasks s1 ! ?slot)) = regs f)"
  proof (cases "0 \<le> ks_current s")
    case False
    then show ?thesis using assms(3) len by (simp add: save_outgoing_def)
  next
    case True
    let ?t = "ks_tasks s ! ?slot"
    let ?u = "set_task ?slot (?t\<lparr>kt_frame := frame_refresh f (kt_frame ?t)\<rparr>) s"
    have slot: "?slot < MAX_TASKS" "kt_present ?t" "kt_valid_frame ?t" using assms(1,2) True by (auto simp: kst_ok_def)
    have s1: "s1 = (if fr_cs f = USER_CS then watchdog ?slot (frame_refresh f (kt_frame ?t)) ?u else ?u)"
      using assms(3) True slot by (simp add: save_outgoing_def Let_def)
    obtain d where d: "ks_tasks (watchdog ?slot (frame_refresh f (kt_frame ?t)) ?u) =
        (ks_tasks ?u)[?slot := (ks_tasks ?u ! ?slot)\<lparr>kt_sleep_until := d\<rparr>]"
      using watchdog_slot[OF slot(1)] by blast
    note w = watchdog_tasks[of ?u ?slot "frame_refresh f (kt_frame ?t)"]
    have u: "ks_tasks ?u ! ?slot = ?t\<lparr>kt_frame := frame_refresh f (kt_frame ?t)\<rparr>" "length (ks_tasks ?u) = MAX_TASKS"
      "ks_current ?u = ks_current s" "ks_boot_active ?u = ks_boot_active s"
      using slot(1) len by (simp_all add: set_task_def)
    have other: "ks_tasks ?u ! i = ks_tasks s ! i" if "int i \<noteq> ks_current s" for i
      using that by (simp add: set_task_def) (metis int_nat_eq nth_list_update_neq True)
    show ?thesis
    proof (cases "fr_cs f = USER_CS")
      case True
      have s1: "s1 = watchdog ?slot (frame_refresh f (kt_frame ?t)) ?u" using s1 True by simp
      have tk: "ks_tasks s1 = (ks_tasks ?u)[?slot := (ks_tasks ?u ! ?slot)\<lparr>kt_sleep_until := d\<rparr>]" unfolding s1 by (rule d)
      have "ks_tasks s1 ! i = ks_tasks s ! i" if "int i \<noteq> ks_current s" for i
      proof -
        have "i \<noteq> ?slot" using that \<open>0 \<le> ks_current s\<close> by auto
        then show ?thesis unfolding tk using other[OF that] by simp
      qed
      moreover have "ks_tasks s1 ! ?slot = ?t\<lparr>kt_frame := frame_refresh f (kt_frame ?t), kt_sleep_until := d\<rparr>"
        unfolding tk using u(1,2) slot(1) by simp
      moreover have "length (ks_tasks s1) = MAX_TASKS" unfolding tk using u(2) by simp
      moreover have "ks_current s1 = ks_current s" "ks_boot_active s1 = ks_boot_active s" using w u(3,4) unfolding s1 by simp_all
      ultimately show ?thesis using slot by simp
    next
      case False
      then show ?thesis using s1 u other slot by simp
    qed
  qed
  from all show "ks_current s1 = ks_current s" "ks_boot_active s1 = ks_boot_active s" "length (ks_tasks s1) = MAX_TASKS"
    "\<And>i. i < MAX_TASKS \<Longrightarrow> int i \<noteq> ks_current s \<Longrightarrow> ks_tasks s1 ! i = ks_tasks s ! i"
    "0 \<le> ks_current s \<Longrightarrow> kt_present (ks_tasks s1 ! ?slot) \<and> kt_valid_frame (ks_tasks s1 ! ?slot) \<and>
       regs (kt_frame (ks_tasks s1 ! ?slot)) = regs f" by blast+
qed

lemma schedule_context:
  assumes "kst_ok s" "saved_ok s m"
  shows "kst_ok (snd (schedule f s)) \<and> fst (schedule f s) \<noteq> Halt \<and>
    (\<forall>g. fst (schedule f s) = Restore g \<longrightarrow>
       0 \<le> ks_current (snd (schedule f s)) \<and> ks_current (snd (schedule f s)) \<noteq> ks_current s \<and>
       m (nat (ks_current (snd (schedule f s)))) = Some (regs g) \<and>
       saved_ok (snd (schedule f s)) (if ks_current s \<ge> 0 then m(nat (ks_current s) \<mapsto> regs f) else m)) \<and>
    (fst (schedule f s) = Return \<longrightarrow> saved_ok (snd (schedule f s)) m)"
proof (cases "ks_current s = 0 \<and> ks_boot_active s \<or> hw_tick f \<and> fr_cs f = KERNEL_CS \<and> ks_current s \<noteq> - 1")
  case True
  then have "schedule f s = (Return, s)" by (auto simp: schedule_def)
  then show ?thesis using assms by simp
next
  case False
  then have boot: "\<not> ks_boot_active s" using assms(1) by (auto simp: kst_ok_def)
  define s1 where "s1 = save_outgoing f s"
  note sv = save_outgoing_spec[OF assms(1) boot s1_def]
  obtain nx ts where p: "pick_next (ks_current s) (ks_ticks s) (ks_critical s) [1..<MAX_TASKS + 1] (ks_tasks s1) = (nx, ts)"
    by fastforce
  have same: "same_tasks (ks_tasks s1) ts" using pick_next_tasks[of "ks_tasks s1"] p by (metis snd_conv)
  then have len: "length ts = MAX_TASKS" and ts: "\<And>i. i < MAX_TASKS \<Longrightarrow> kt_present (ts ! i) = kt_present (ks_tasks s1 ! i) \<and>
      kt_valid_frame (ts ! i) = kt_valid_frame (ks_tasks s1 ! i) \<and> kt_frame (ts ! i) = kt_frame (ks_tasks s1 ! i)"
    using sv(3) by (auto simp: same_tasks_def)
  have saved: "kt_valid_frame (ts ! i) \<and> m i = Some (regs (kt_frame (ts ! i)))"
    if "i < MAX_TASKS" "int i \<noteq> ks_current s" "kt_present (ts ! i)" for i
    using that ts[OF that(1)] sv(4)[OF that(1,2)] assms(2) by (simp add: saved_ok_def)
  have cur: "kt_present (ts ! nat (ks_current s)) \<and> kt_valid_frame (ts ! nat (ks_current s)) \<and>
      regs (kt_frame (ts ! nat (ks_current s))) = regs f" if "0 \<le> ks_current s"
  proof -
    have "nat (ks_current s) < MAX_TASKS" using that assms(1) by (auto simp: kst_ok_def)
    then show ?thesis using sv(5)[OF that] ts by simp
  qed
  have guards: "\<not> (ks_current s = 0 \<and> ks_boot_active s)" "\<not> (hw_tick f \<and> fr_cs f = KERNEL_CS \<and> ks_current s \<noteq> - 1)"
    using False by blast+
  have sc0: "schedule f s = (case nx of None \<Rightarrow> (Return, s1\<lparr>ks_tasks := ts\<rparr>)
      | Some i \<Rightarrow> (Restore (kt_frame (ts ! i)), s1\<lparr>ks_tasks := ts, ks_current := int i, ks_switch_count := ks_switch_count s1 + 1\<rparr>))"
    unfolding schedule_def if_not_P[OF guards(1)] if_not_P[OF guards(2)] s1_def[symmetric] Let_def p by (simp split: option.split)
  show ?thesis
  proof (cases nx)
    case None
    then have sc: "schedule f s = (Return, s1\<lparr>ks_tasks := ts\<rparr>)" using sc0 by simp
    have "kst_ok (s1\<lparr>ks_tasks := ts\<rparr>)" using assms(1) sv(1,2) len cur boot by (simp add: kst_ok_def)
    then show ?thesis using sc saved sv(1) by (simp add: saved_ok_def)
  next
    case (Some j)
    then have sc: "schedule f s = (Restore (kt_frame (ts ! j)), s1\<lparr>ks_tasks := ts, ks_current := int j, ks_switch_count := ks_switch_count s1 + 1\<rparr>)"
      using sc0 by simp
    have j: "j < MAX_TASKS" "int j \<noteq> ks_current s" "kt_present (ts ! j)"
      using pick_next_place[of "ks_current s" "ks_ticks s" "ks_critical s" "ks_tasks s1" j] p Some ts by (auto simp: runnable_def)
    note sj = saved[OF j]
    have "kst_ok (snd (schedule f s))" using sc j sj len sv(2) boot assms(1) by (simp add: kst_ok_def)
    moreover have "saved_ok (snd (schedule f s)) (if ks_current s \<ge> 0 then m(nat (ks_current s) \<mapsto> regs f) else m)"
      unfolding saved_ok_def sc using saved cur by auto
    ultimately show ?thesis using sc sj j(2) by simp
  qed
qed

text \<open>Each kind of event.\<close>

definition keeps :: "kevent \<Rightarrow> kst \<Rightarrow> (nat \<rightharpoonup> u64 list) \<Rightarrow> bool" where
  "keeps ev s m \<longleftrightarrow> kst_ok (snd (kstep ev s)) \<and> saved_ok (snd (kstep ev s)) (owed ev s m) \<and>
     (\<forall>g. fst (kstep ev s) = Restore g \<longrightarrow>
        0 \<le> ks_current (snd (kstep ev s)) \<and> ks_current (snd (kstep ev s)) \<noteq> ks_current s \<and>
        m (nat (ks_current (snd (kstep ev s)))) = Some (regs g))"

lemma keeps_schedule:
  assumes "kst_ok s" "saved_ok s m" "like s t" "kstep ev s = schedule f t" "event_frame ev = Some f"
  shows "keeps ev s m"
proof -
  have ok: "kst_ok t" "saved_ok t m" using assms like_ok like_saved by blast+
  note c = schedule_context[OF ok, of f]
  have cur: "ks_current t = ks_current s" using assms(3) by (simp add: like_def)
  have "owed ev s m = (case fst (schedule f t) of Restore g \<Rightarrow> if ks_current s \<ge> 0 then m(nat (ks_current s) \<mapsto> regs f) else m | _ \<Rightarrow> m)"
    using assms(4,5) by (cases ev) (simp_all add: owed_def split: outcome.split)
  then show ?thesis using c cur by (cases "fst (schedule f t)") (auto simp: keeps_def assms(4))
qed

lemma like_set_sleep: "like s (set_task i ((ks_tasks s ! i)\<lparr>kt_sleep_until := d\<rparr>) s)"
  by (simp add: like_def set_task_def same_tasks_sleep)

lemma keeps_plain:
  assumes "kst_ok s" "saved_ok s m" "kstep ev s = (Return, t)" "like s t" "owed ev s m = m"
  shows "keeps ev s m"
  using assms like_ok like_saved by (simp add: keeps_def)

lemma keeps_sleep: "kst_ok s \<Longrightarrow> saved_ok s m \<Longrightarrow> keeps (ESleep f n) s m"
  by (rule keeps_schedule[where f = f and t = "if ks_current s > 0 \<and> kt_present (ks_tasks s ! nat (ks_current s))
        then set_task (nat (ks_current s)) ((ks_tasks s ! nat (ks_current s))\<lparr>kt_sleep_until := sat_add64 (ks_ticks s) (max n 1)\<rparr>) s
        else s"]) (simp_all add: like_set_sleep sleep_current_def Let_def)

lemma like_publish: "like s (freeze_task pid (publish pid k n s))"
  using freeze_tasks[of "publish pid k n s" pid] by (simp add: like_def)

lemma keeps_fault: "kst_ok s \<Longrightarrow> saved_ok s m \<Longrightarrow> keeps (EFault f k) s m"
proof (cases "fr_cs f = KERNEL_CS")
  case True
  assume "kst_ok s" "saved_ok s m"
  then show ?thesis using True by (simp add: keeps_def owed_def intercept_def)
next
  case False
  assume "kst_ok s" "saved_ok s m"
  then show ?thesis
    using False by (intro keeps_schedule[OF _ _ like_publish]) (simp_all add: intercept_def Let_def)
qed

lemma keeps_timer: "kst_ok s \<Longrightarrow> saved_ok s m \<Longrightarrow> keeps (ETimer f) s m"
proof -
  assume a: "kst_ok s" "saved_ok s m"
  let ?s = "s\<lparr>ks_ticks := ks_ticks s + 1\<rparr>"
  show ?thesis
  proof (cases "ks_ticks ?s - ks_last_switch ?s < SWITCH_DIVIDER")
    case True
    then have k: "kstep (ETimer f) s = (Return, ?s)" by (simp add: sched_tick_def)
    then have "owed (ETimer f) s m = m" by (simp add: owed_def)
    then show ?thesis using keeps_plain[OF a k] by (simp add: like_def)
  next
    case False
    then have k: "kstep (ETimer f) s = schedule f (?s\<lparr>ks_last_switch := ks_ticks ?s\<rparr>)" by (simp add: sched_tick_def)
    show ?thesis using keeps_schedule[OF a _ k] by (simp add: like_def)
  qed
qed

text \<open>A slot other than the current one gets a task with given registers.\<close>

lemma set_task_nth [simp]: "i < length (ks_tasks s) \<Longrightarrow> ks_tasks (set_task i t s) ! j = (if j = i then t else ks_tasks s ! j)"
  by (simp add: set_task_def)

lemma set_task_keeps [simp]: "ks_current (set_task i t s) = ks_current s" "ks_boot_active (set_task i t s) = ks_boot_active s"
  "length (ks_tasks (set_task i t s)) = length (ks_tasks s)" "ks_ticks (set_task i t s) = ks_ticks s"
  by (simp_all add: set_task_def)

lemma update_slot:
  assumes "kst_ok s" "saved_ok s m" "i < MAX_TASKS" "int i = ks_current s \<longrightarrow> kt_present t" "kt_valid_frame t"
  shows "kst_ok (set_task i t s)" "saved_ok (set_task i t s) (m(i \<mapsto> regs (kt_frame t)))"
proof -
  have len: "i < length (ks_tasks s)" using assms(1,3) by (simp add: kst_ok_def)
  have cur: "0 \<le> ks_current s \<Longrightarrow> nat (ks_current s) = i \<Longrightarrow> kt_present t" using assms(4) by simp
  show "kst_ok (set_task i t s)"
    using assms(1,5) len cur unfolding kst_ok_def by simp
  show "saved_ok (set_task i t s) (m(i \<mapsto> regs (kt_frame t)))"
    using assms(2,5) len unfolding saved_ok_def by simp
qed

lemma reset_stall_like [simp]: "like s (reset_stall i now s)"
  by (simp add: like_def reset_stall_def)

lemma spawn_keeps:
  assumes "kst_ok s" "saved_ok s m"
  shows "case fst (spawn_with fill s) of
      None \<Rightarrow> snd (spawn_with fill s) = s
    | Some i \<Rightarrow> kst_ok (snd (spawn_with fill s)) \<and>
        saved_ok (snd (spawn_with fill s)) (m(i \<mapsto> regs (kt_frame (ks_tasks (snd (spawn_with fill s)) ! i))))"
proof (cases "position (\<lambda>t. \<not> kt_present t) (tl (ks_tasks s))")
  case None
  then show ?thesis by (simp add: spawn_with_def)
next
  case (Some k)
  have len: "length (ks_tasks s) = MAX_TASKS" using assms(1) by (simp add: kst_ok_def)
  then have k: "k + 1 < MAX_TASKS" "\<not> kt_present (ks_tasks s ! (k + 1))"
    using position_SomeD[OF Some] by (auto simp: nth_tl)
  let ?t = "(ks_tasks s ! (k + 1))\<lparr>kt_frame := fill (kt_frame (ks_tasks s ! (k + 1))), kt_present := True, kt_valid_frame := True\<rparr>"
  have cur: "int (k + 1) \<noteq> ks_current s"
  proof
    assume c: "int (k + 1) = ks_current s"
    then have "0 \<le> ks_current s" "\<not> ks_boot_active s" "nat (ks_current s) = k + 1" using assms(1) by (auto simp: kst_ok_def)
    then show False using assms(1) k(2) by (simp add: kst_ok_def)
  qed
  have u: "kst_ok (set_task (k + 1) ?t s)" "saved_ok (set_task (k + 1) ?t s) (m(k + 1 \<mapsto> regs (kt_frame ?t)))"
    using update_slot[OF assms k(1), of ?t] cur by simp_all
  let ?u = "reset_stall (k + 1) (ks_ticks s) (set_task (k + 1) ?t s)"
  have "kst_ok ?u" "saved_ok ?u (m(k + 1 \<mapsto> regs (kt_frame ?t)))"
    using u like_ok[OF reset_stall_like] like_saved[OF reset_stall_like] by blast+
  moreover have "spawn_with fill s = (Some (k + 1), ?u)" using Some by (simp add: spawn_with_def Let_def)
  moreover have "kt_frame (ks_tasks ?u ! (k + 1)) = kt_frame ?t" using k(1) len by (simp add: reset_stall_def set_task_def)
  ultimately show ?thesis by simp
qed

lemma keeps_spawn_kernel:
  assumes "kst_ok s" "saved_ok s m"
  shows "keeps (ESpawnKernel entry stk) s m"
proof -
  obtain fill where fill: "spawn_kernel entry stk s = spawn_with fill s" by (simp add: spawn_kernel_def)
  have "owed (ESpawnKernel entry stk) s m = (case fst (spawn_with fill s) of None \<Rightarrow> m
      | Some i \<Rightarrow> m(i \<mapsto> regs (kt_frame (ks_tasks (snd (spawn_with fill s)) ! i))))"
    by (simp add: owed_def fill split: option.split)
  then show ?thesis
    using spawn_keeps[OF assms, of fill] assms by (cases "fst (spawn_with fill s)") (simp_all add: keeps_def fill)
qed

lemma keeps_spawn_user:
  assumes "kst_ok s" "saved_ok s m"
  shows "keeps (ESpawnUser entry stk a b) s m"
proof -
  obtain fill where fill: "spawn_user entry stk a b s = spawn_with fill s" by (simp add: spawn_user_def)
  have "owed (ESpawnUser entry stk a b) s m = (case fst (spawn_with fill s) of None \<Rightarrow> m
      | Some i \<Rightarrow> m(i \<mapsto> regs (kt_frame (ks_tasks (snd (spawn_with fill s)) ! i))))"
    by (simp add: owed_def fill split: option.split)
  then show ?thesis
    using spawn_keeps[OF assms, of fill] assms by (cases "fst (spawn_with fill s)") (simp_all add: keeps_def fill)
qed

lemma keeps_boot: "kst_ok s \<Longrightarrow> saved_ok s m \<Longrightarrow> keeps (EBoot entry stk) s m"
proof -
  assume a: "kst_ok s" "saved_ok s m"
  show ?thesis
  proof (cases "ks_boot_active s")
    case False
    then have "kstep (EBoot entry stk) s = (Return, s)" "owed (EBoot entry stk) s m = m" by (simp_all add: owed_def)
    then show ?thesis using keeps_plain[OF a] by (simp add: like_def)
  next
    case True
    let ?b = "boot_finished entry stk s"
    have len: "length (ks_tasks s) = MAX_TASKS" "ks_current s = 0" "0 < MAX_TASKS" using a(1) True by (auto simp: kst_ok_def MAX_TASKS_def)
    have other: "ks_tasks ?b ! j = ks_tasks s ! j" if "j \<noteq> 0" for j using that by (simp add: boot_finished_def set_task_def Let_def)
    have zero: "kt_valid_frame (ks_tasks ?b ! 0)" "length (ks_tasks ?b) = MAX_TASKS" "ks_current ?b = - 1" "\<not> ks_boot_active ?b"
      using len by (simp_all add: boot_finished_def set_task_def Let_def)
    have "kst_ok ?b" using zero by (simp add: kst_ok_def)
    moreover have "saved_ok ?b (m(0 \<mapsto> regs (kt_frame (ks_tasks ?b ! 0))))"
      using a(2) zero other len unfolding saved_ok_def by (metis fun_upd_apply of_nat_0_eq_iff)
    ultimately show ?thesis using True by (simp add: keeps_def owed_def)
  qed
qed

text \<open>The decisions on a fault.\<close>

lemma like_saved_ok: "like s t \<Longrightarrow> kst_ok s \<Longrightarrow> saved_ok s m \<Longrightarrow> kst_ok t \<and> saved_ok t m"
  using like_ok like_saved by blast

lemma unfreeze_like: "like s (unfreeze_task pid s)"
proof -
  have "like s (reset_stall (unat pid) (ks_ticks s) (set_task (unat pid) ((ks_tasks s ! unat pid)\<lparr>kt_sleep_until := 0\<rparr>) s))"
    using like_trans[OF like_set_sleep reset_stall_like] .
  then show ?thesis by (simp add: unfreeze_task_def Let_def like_def)
qed

lemma remove_keeps:
  assumes "kst_ok s" "saved_ok s m"
  shows "kst_ok (remove_task pid s) \<and> saved_ok (remove_task pid s) m"
proof (cases "unat pid = 0 \<or> unat pid \<ge> MAX_TASKS \<or> \<not> kt_present (ks_tasks s ! unat pid)")
  case True
  then show ?thesis using assms by (auto simp: remove_task_def Let_def)
next
  case False
  define i where "i = unat pid"
  define t where "t = (ks_tasks s ! i)\<lparr>kt_present := False, kt_valid_frame := False, kt_sleep_until := 0\<rparr>"
  define r where "r = remove_task pid s"
  have i: "0 < i" "i < length (ks_tasks s)" "i < MAX_TASKS" using False assms(1) by (simp_all add: i_def kst_ok_def)
  have r: "r = (let u = reset_stall i 0 (set_task i t s) in if ks_current u = int i then u\<lparr>ks_current := - 1\<rparr> else u)"
    using False by (simp add: r_def remove_task_def i_def t_def Let_def)
  have f: "length (ks_tasks r) = length (ks_tasks s)" "ks_boot_active r = ks_boot_active s"
    "ks_current r = (if ks_current s = int i then - 1 else ks_current s)"
    "\<And>j. ks_tasks r ! j = (if j = i then t else ks_tasks s ! j)"
    using i(2) unfolding r by (simp_all add: Let_def reset_stall_def set_task_def)
  have "kst_ok r"
  proof (cases "ks_current s = int i")
    case True
    then show ?thesis using assms(1) i f by (simp add: kst_ok_def)
  next
    case neq: False
    then have "0 \<le> ks_current s \<Longrightarrow> nat (ks_current s) \<noteq> i" by linarith
    then show ?thesis using assms(1) f neq by (simp add: kst_ok_def)
  qed
  moreover have "saved_ok r m"
    using assms(2) i(3) unfolding saved_ok_def f by (simp add: t_def)
  ultimately show ?thesis by (simp add: r_def)
qed

lemma restore_keeps:
  assumes "kst_ok s" "saved_ok s m"
  shows "kst_ok (restore_task pid n s) \<and>
     saved_ok (restore_task pid n s) (if task_present pid s then m(unat pid \<mapsto> snapshot_regs n) else m)"
proof (cases "task_present pid s")
  case False
  then have "restore_task pid n s = s" by (auto simp: restore_task_def task_present_def Let_def)
  then show ?thesis using assms False by simp
next
  case True
  let ?i = "unat pid"
  let ?t = "(ks_tasks s ! ?i)\<lparr>kt_frame := frame_restore n (kt_frame (ks_tasks s ! ?i)), kt_valid_frame := True, kt_sleep_until := 0\<rparr>"
  have i: "?i < MAX_TASKS" "?i \<noteq> 0" "kt_present (ks_tasks s ! ?i)" using True by (auto simp: task_present_def Let_def)
  then have "restore_task pid n s = reset_stall ?i (ks_ticks s) (set_task ?i ?t s)" by (simp add: restore_task_def Let_def)
  moreover have "kst_ok (set_task ?i ?t s)" "saved_ok (set_task ?i ?t s) (m(?i \<mapsto> regs (kt_frame ?t)))"
    using i by (intro update_slot[OF assms] impI; simp)+
  ultimately show ?thesis using like_saved_ok[OF reset_stall_like] True by simp
qed

lemma pop_log_keep [simp]: "kst_ok (pop_front (log_resolution a r s)) = kst_ok s"
  "saved_ok (pop_front (log_resolution a r s)) m = saved_ok s m"
  by (simp_all add: kst_ok_def saved_ok_def pop_front_def log_resolution_def Let_def)

lemma counts_keep [simp]: "kst_ok (s\<lparr>ks_counts := c\<rparr>) = kst_ok s" "saved_ok (s\<lparr>ks_counts := c\<rparr>) m = saved_ok s m"
  by (simp_all add: kst_ok_def saved_ok_def)

lemma apply_recovery_keeps:
  assumes "kst_ok s" "saved_ok s m"
  shows "kst_ok (apply_recovery a r s) \<and> saved_ok (apply_recovery a r s)
     (if a = Rollback \<and> task_present (sn_pid (fc_snapshot r)) s
      then m(unat (sn_pid (fc_snapshot r)) \<mapsto> snapshot_regs (fc_snapshot r)) else m)"
proof (cases a)
  case Rollback
  then show ?thesis using restore_keeps[OF assms] by (simp add: apply_recovery_def Let_def)
next
  case Terminate
  then show ?thesis using remove_keeps[OF assms] by (simp add: apply_recovery_def Let_def)
next
  case Resume
  then show ?thesis
    using remove_keeps[OF assms] like_saved_ok[OF unfreeze_like assms]
    by (simp add: apply_recovery_def Let_def)
qed

lemma keeps_resolve:
  assumes "kst_ok s" "saved_ok s m"
  shows "keeps (EResolve a) s m"
proof (cases "fault_peek s")
  case None
  then have "fault_resolve a s = s" "owed (EResolve a) s m = m" by (cases a; simp add: fault_resolve_def owed_def)+
  then show ?thesis using assms by (simp add: keeps_def)
next
  case (Some r)
  let ?m = "if a = Rollback \<and> task_present (sn_pid (fc_snapshot r)) s
      then m(unat (sn_pid (fc_snapshot r)) \<mapsto> snapshot_regs (fc_snapshot r)) else m"
  have o: "owed (EResolve a) s m = (if a \<noteq> Terminate \<and> over_budget r then m else ?m)"
    using Some by (cases a) (simp_all add: owed_def)
  show ?thesis
    using apply_recovery_keeps[OF assms, of a r] assms Some o by (cases a) (simp_all add: keeps_def fault_resolve_def)
qed

lemma keeps_event: "kst_ok s \<Longrightarrow> saved_ok s m \<Longrightarrow> keeps ev s m"
proof (cases ev)
  case (EYield f)
  assume "kst_ok s" "saved_ok s m"
  then show ?thesis using keeps_schedule[of s m s ev f] by (simp add: EYield like_def)
next
  case (EActivity pid)
  assume a: "kst_ok s" "saved_ok s m"
  have "like s (note_activity pid s)" by (simp add: like_def note_activity_def Let_def)
  then show ?thesis using keeps_plain[OF a, of ev] by (simp add: EActivity owed_def)
next
  case (EThermal b)
  assume a: "kst_ok s" "saved_ok s m"
  show ?thesis using keeps_plain[OF a, of ev] by (simp add: EThermal owed_def like_def)
qed (simp_all add: keeps_boot keeps_spawn_kernel keeps_spawn_user keeps_timer keeps_sleep keeps_fault keeps_resolve)

text \<open>From the initial state on, whatever happens.\<close>

lemma kst_ok_init: "kst_ok (sched_init kst_init)" "saved_ok (sched_init kst_init) m"
proof -
  have "kt_present (ks_tasks (sched_init kst_init) ! i) \<Longrightarrow> i < MAX_TASKS \<Longrightarrow> i = 0" for i
    by (rule ccontr) (simp add: sched_init_def kst_init_def set_task_def ktask_empty_def)
  then show "saved_ok (sched_init kst_init) m"
    unfolding saved_ok_def by (auto simp: sched_init_def set_task_def)
  show "kst_ok (sched_init kst_init)"
    by (simp add: kst_ok_def sched_init_def kst_init_def set_task_def MAX_TASKS_def)
qed

lemma krun_ok: "kst_ok (fst sm) \<Longrightarrow> saved_ok (fst sm) (snd sm) \<Longrightarrow>
    kst_ok (fst (krun evs sm)) \<and> saved_ok (fst (krun evs sm)) (snd (krun evs sm))"
proof (induction evs sm rule: krun.induct)
  case (2 ev evs sm)
  have "keeps ev (fst sm) (snd sm)" using 2(2,3) by (rule keeps_event)
  then show ?case using 2(1) by (simp add: keeps_def)
qed simp

text \<open>C2:
  Context switches lose nothing: in every run of the kernel from its initialisation (boot, spawned kernel and user
  tasks, timer interrupts, yields, sleeps, faults and the decisions on them), whenever an event makes the kernel leave
  through a saved frame, the slot it switches to is another one than the slot that ran, and the registers it loads are
  exactly those owed to that slot: those the task was last interrupted with, was created with, or was rolled back to.
\<close>

theorem kernel_context_preserved:
  assumes "krun evs (sched_init kst_init, Map.empty) = (s, m)" "kstep ev s = (Restore g, s')"
  shows "0 \<le> ks_current s' \<and> ks_current s' \<noteq> ks_current s \<and> m (nat (ks_current s')) = Some (regs g)"
proof -
  have "kst_ok s \<and> saved_ok s m" using krun_ok[of "(sched_init kst_init, Map.empty)" evs] kst_ok_init assms(1) by simp
  then show ?thesis using keeps_event[of s m ev] assms(2) by (simp add: keeps_def)
qed

subsection \<open>Bounded waiting\<close>

text \<open>The clock the rotation reads at an event, and the events at which the kernel looks for another task.\<close>

definition event_clock :: "kevent \<Rightarrow> kst \<Rightarrow> u64" where
  "event_clock ev s = (case ev of ETimer f \<Rightarrow> ks_ticks s + 1 | _ \<Rightarrow> ks_ticks s)"

definition rotates :: "interrupt_frame \<Rightarrow> kst \<Rightarrow> bool" where
  "rotates f s \<longleftrightarrow> \<not> ks_boot_active s \<and> \<not> (hw_tick f \<and> fr_cs f = KERNEL_CS \<and> ks_current s \<noteq> - 1)"

fun preempts :: "kevent \<Rightarrow> kst \<Rightarrow> bool" where
  "preempts (ETimer f) s = (rotates f s \<and> \<not> ks_ticks s + 1 - ks_last_switch s < SWITCH_DIVIDER)"
| "preempts (EYield f) s = rotates f s"
| "preempts (ESleep f n) s = rotates f s"
| "preempts (EFault f k) s = (rotates f s \<and> fr_cs f \<noteq> KERNEL_CS)"
| "preempts _ s = False"

definition waits :: "nat \<Rightarrow> kevent \<Rightarrow> kst \<Rightarrow> bool" where
  "waits i ev s \<longleftrightarrow> int i \<noteq> ks_current s \<and> runnable (event_clock ev s) (ks_critical s) (ks_tasks s ! i)"

text \<open>
  Slot \<open>i\<close> is ready and does not run throughout the events, and the running slot changes at the rotations only
  (it is not the victim of a decision, and the boot does not finish meanwhile).
\<close>

fun waits_through :: "nat \<Rightarrow> kevent list \<Rightarrow> kst \<Rightarrow> bool" where
  "waits_through i [] s = True"
| "waits_through i (ev # evs) s =
     (let s' = snd (kstep ev s) in waits i ev s \<and> ks_current s' \<noteq> int i \<and> (preempts ev s \<or> ks_current s' = ks_current s) \<and>
        waits_through i evs s')"

fun preemptions :: "kevent list \<Rightarrow> kst \<Rightarrow> nat" where
  "preemptions [] s = 0"
| "preemptions (ev # evs) s = (if preempts ev s then 1 else 0) + preemptions evs (snd (kstep ev s))"

lemma schedule_rotates:
  assumes "kst_ok s" "rotates f s" "i < MAX_TASKS" "int i \<noteq> ks_current s" "runnable (ks_ticks s) (ks_critical s) (ks_tasks s ! i)"
  shows "(\<exists>g. fst (schedule f s) = Restore g) \<and>
    (ks_current (snd (schedule f s)) = int i \<or> place (ks_current (snd (schedule f s))) i < place (ks_current s) i)"
proof -
  have boot: "\<not> ks_boot_active s" using assms(2) by (simp add: rotates_def)
  define s1 where "s1 = save_outgoing f s"
  note sv = save_outgoing_spec[OF assms(1) boot s1_def]
  obtain nx ts where p: "pick_next (ks_current s) (ks_ticks s) (ks_critical s) [1..<MAX_TASKS + 1] (ks_tasks s1) = (nx, ts)"
    by fastforce
  have run: "runnable (ks_ticks s) (ks_critical s) (ks_tasks s1 ! i)" using sv(4)[OF assms(3,4)] assms(5) by simp
  have "nx \<noteq> None"
    using pick_next_none[OF _ assms(3,4)] run p by (metis fst_conv)
  then obtain j where j: "nx = Some j" by blast
  have guards: "\<not> (ks_current s = 0 \<and> ks_boot_active s)" "\<not> (hw_tick f \<and> fr_cs f = KERNEL_CS \<and> ks_current s \<noteq> - 1)"
    using assms(2) by (auto simp: rotates_def)
  have sc: "schedule f s = (Restore (kt_frame (ts ! j)), s1\<lparr>ks_tasks := ts, ks_current := int j, ks_switch_count := ks_switch_count s1 + 1\<rparr>)"
    unfolding schedule_def if_not_P[OF guards(1)] if_not_P[OF guards(2)] s1_def[symmetric] Let_def p using j by simp
  obtain st where st: "1 \<le> st" "j = slot_at (ks_current s) st" "st \<le> place (ks_current s) i"
    using pick_next_place[of "ks_current s" "ks_ticks s" "ks_critical s" "ks_tasks s1" j] p j assms(3,4) run by auto
  have "j = i" if "st = place (ks_current s) i" using that st(2) slot_at_place[OF assms(3)] by simp
  moreover have "place (int j) i < place (ks_current s) i" if "st < place (ks_current s) i"
    using place_after[OF st(1) that] st by simp
  ultimately show ?thesis using sc st(3) by (auto simp: order_le_less)
qed

lemma freeze_other: "i \<noteq> unat pid \<or> unat pid = 0 \<Longrightarrow> ks_tasks (freeze_task pid s) ! i = ks_tasks s ! i"
  by (auto simp: freeze_task_def set_task_def Let_def)

lemma unat_current_pid: "ks_current s < int MAX_TASKS \<Longrightarrow> unat (current_pid s) = nat (ks_current s)"
proof -
  assume "ks_current s < int MAX_TASKS"
  then have "take_bit 32 (max (ks_current s) 0) = max (ks_current s) 0" by (intro take_bit_int_eq_self) (auto simp: MAX_TASKS_def)
  then show ?thesis by (simp add: current_pid_def unsigned_of_int max_def)
qed

text \<open>At a rotation the event is a call of \<open>schedule\<close> that sees slot \<open>i\<close> unchanged.\<close>

lemma preempts_schedule:
  assumes "kst_ok s" "preempts ev s" "waits i ev s"
  shows "\<exists>f t. kstep ev s = schedule f t \<and> kst_ok t \<and> rotates f t \<and> ks_current t = ks_current s \<and>
    ks_ticks t = event_clock ev s \<and> ks_critical t = ks_critical s \<and> ks_tasks t ! i = ks_tasks s ! i"
proof (cases ev)
  case (ETimer f)
  let ?t = "s\<lparr>ks_ticks := ks_ticks s + 1, ks_last_switch := ks_ticks s + 1\<rparr>"
  have "kst_ok ?t" using like_ok[of s ?t] assms(1) by (simp add: like_def)
  then show ?thesis using assms(2)
    by (intro exI[of _ f] exI[of _ ?t]) (simp add: ETimer sched_tick_def rotates_def event_clock_def)
next
  case (EYield f)
  then show ?thesis using assms by (intro exI[of _ f] exI[of _ s]) (simp add: event_clock_def)
next
  case (ESleep f n)
  let ?t = "if ks_current s > 0 \<and> kt_present (ks_tasks s ! nat (ks_current s))
        then set_task (nat (ks_current s)) ((ks_tasks s ! nat (ks_current s))\<lparr>kt_sleep_until := sat_add64 (ks_ticks s) (max n 1)\<rparr>) s
        else s"
  have "kst_ok ?t" using like_ok[OF like_set_sleep] assms(1) by simp
  moreover have "ks_tasks ?t ! i = ks_tasks s ! i" using assms(3) by (auto simp: waits_def set_task_def)
  ultimately show ?thesis using assms(2)
    by (intro exI[of _ f] exI[of _ ?t]) (simp add: ESleep sleep_current_def rotates_def event_clock_def set_task_def Let_def)
next
  case (EFault f k)
  let ?t = "freeze_task (current_pid s) (publish (current_pid s) k (snapshot_capture (current_pid s) f) s)"
  have "kst_ok ?t" using like_ok[OF like_publish] assms(1) by simp
  moreover have "unat (current_pid s) = nat (ks_current s)" "int i \<noteq> ks_current s"
    using unat_current_pid assms(1,3) by (simp_all add: waits_def kst_ok_def)
  then have "i \<noteq> unat (current_pid s) \<or> unat (current_pid s) = 0" by linarith
  then have "ks_tasks ?t ! i = ks_tasks s ! i" by (simp add: freeze_other)
  moreover have "ks_current ?t = ks_current s" "ks_boot_active ?t = ks_boot_active s" "ks_ticks ?t = ks_ticks s" "ks_critical ?t = ks_critical s"
    by (simp_all add: freeze_task_def set_task_def publish_def post_event_def Let_def)
  ultimately show ?thesis using assms(2)
    by (intro exI[of _ f] exI[of _ ?t]) (simp add: EFault intercept_def rotates_def event_clock_def Let_def)
qed (use assms(2) in simp_all)

lemma waits_preemptions:
  "kst_ok s \<Longrightarrow> saved_ok s m \<Longrightarrow> i < MAX_TASKS \<Longrightarrow> waits_through i evs s \<Longrightarrow> preemptions evs s < place (ks_current s) i"
proof (induction evs arbitrary: s m)
  case Nil
  then show ?case using place_bound(1)[of "ks_current s" i] by simp
next
  case (Cons ev evs)
  let ?s = "snd (kstep ev s)"
  have ok: "kst_ok ?s" "saved_ok ?s (owed ev s m)" using keeps_event[OF Cons.prems(1,2)] by (simp_all add: keeps_def)
  have w: "waits i ev s" "ks_current ?s \<noteq> int i" "preempts ev s \<or> ks_current ?s = ks_current s" "waits_through i evs ?s"
    using Cons.prems(4) by (simp_all add: Let_def)
  have less: "preemptions evs ?s < place (ks_current ?s) i" using Cons.IH[OF ok Cons.prems(3) w(4)] .
  show ?case
  proof (cases "preempts ev s")
    case False
    then show ?thesis using w(3) less by simp
  next
    case True
    obtain f t where t: "kstep ev s = schedule f t" "kst_ok t" "rotates f t" "ks_current t = ks_current s"
      "ks_ticks t = event_clock ev s" "ks_critical t = ks_critical s" "ks_tasks t ! i = ks_tasks s ! i"
      using preempts_schedule[OF Cons.prems(1) True w(1)] by blast
    have "place (ks_current ?s) i < place (ks_current s) i"
      using schedule_rotates[OF t(2,3) Cons.prems(3)] t w(1,2) by (simp add: waits_def)
    then show ?thesis using less True by simp
  qed
qed

text \<open>C10:
  No ready task starves: in every run of the kernel, while a slot is ready without running (present, awake, and not a
  user task held back by a critical temperature), there are at most six events at which the kernel looks for another
  task (an elapsed time slice, a yield, a sleep, a fault of the running task); at the seventh the slot runs.
\<close>

theorem kernel_bounded_waiting:
  assumes "krun evs (sched_init kst_init, Map.empty) = (s, m)" "i < MAX_TASKS" "waits_through i evs' s"
  shows "preemptions evs' s \<le> 6"
proof -
  have "kst_ok s \<and> saved_ok s m" using krun_ok[of "(sched_init kst_init, Map.empty)" evs] kst_ok_init assms(1) by simp
  then have "preemptions evs' s < place (ks_current s) i" using waits_preemptions assms(2,3) by blast
  then show ?thesis using place_bound(2)[of "ks_current s" i] by (simp add: MAX_TASKS_def)
qed

end
