(* ===== verification/Kernel_Interfaces.thy ===== *)
theory Kernel_Interfaces
  imports Prelude
begin

text \<open>
  Interfaces of the kernel: the contents of a circular array between a head and a length, the interface of a
  bounded queue of messages, with what it implies for every sequence of operations, and the separation of the
  objects of different tasks, with what it implies for every run.
\<close>

subsection \<open>Circular arrays\<close>

definition ring_list :: "'a list \<Rightarrow> nat \<Rightarrow> nat \<Rightarrow> 'a list" where
  "ring_list q h n = map (\<lambda>k. q ! ((h + k) mod length q)) [0..<n]"

lemma ring_list_length [simp]: "length (ring_list q h n) = n"
  by (simp add: ring_list_def)

lemma ring_list_0 [simp]: "ring_list q h 0 = []"
  by (simp add: ring_list_def)

lemma ring_slot_neq:
  assumes "i < L" "j < L" "i \<noteq> j"
  shows "(h + i) mod L \<noteq> (h + j) mod (L :: nat)"
proof
  assume "(h + i) mod L = (h + j) mod L"
  then have "(int h + int i) mod int L = (int h + int j) mod int L" by (metis of_nat_add of_nat_mod)
  then have "int i mod int L = int j mod int L"
    using mod_diff_cong[of "int h + int i" "int L" "int h + int j" "int h" "int h"] by simp
  then show False using assms by simp
qed

text \<open>Writing behind the last item appends it.\<close>

lemma ring_list_push:
  assumes "n < length q"
  shows "ring_list (q[(h + n) mod length q := x]) h (n + 1) = ring_list q h n @ [x]"
proof -
  have "map (\<lambda>k. q[(h + n) mod length q := x] ! ((h + k) mod length q)) [0..<n] = map (\<lambda>k. q ! ((h + k) mod length q)) [0..<n]"
  proof (intro map_cong refl)
    fix k assume "k \<in> set [0..<n]"
    then have "(h + n) mod length q \<noteq> (h + k) mod length q" using ring_slot_neq[of n "length q" k h] assms by simp
    then show "q[(h + n) mod length q := x] ! ((h + k) mod length q) = q ! ((h + k) mod length q)" by simp
  qed
  moreover have "(h + n) mod length q < length q" using assms by (intro mod_less_divisor) linarith
  ultimately show ?thesis by (simp add: ring_list_def)
qed

text \<open>Moving the head on drops the first item.\<close>

lemma ring_list_pop:
  assumes "h < length q" "0 < n"
  shows "ring_list q h n = q ! h # ring_list q ((h + 1) mod length q) (n - 1)"
proof -
  have "[0..<n] = 0 # map (\<lambda>k. k + 1) [0..<n - 1]" using assms(2) by (simp add: map_Suc_upt upt_conv_Cons)
  moreover have "(h + (k + 1)) mod length q = ((h + 1) mod length q + k) mod length q" for k by (simp add: mod_simps)
  ultimately show ?thesis using assms(1) by (simp add: ring_list_def comp_def)
qed

text \<open>A slot in front of the head may be overwritten.\<close>

lemma ring_list_before:
  assumes "h < length q" "n < length q"
  shows "ring_list (q[h := x]) ((h + 1) mod length q) n = ring_list q ((h + 1) mod length q) n"
  unfolding ring_list_def length_list_update
proof (intro map_cong refl)
  fix k assume "k \<in> set [0..<n]"
  then have "(h + 0) mod length q \<noteq> (h + (k + 1)) mod length q" using ring_slot_neq[of 0 "length q" "k + 1" h] assms by (cases "q = []") auto
  moreover have "((h + 1) mod length q + k) mod length q = (h + (k + 1)) mod length q" by (simp add: mod_simps)
  ultimately show "q[h := x] ! (((h + 1) mod length q + k) mod length q) = q ! (((h + 1) mod length q + k) mod length q)"
    using assms(1) by simp
qed

subsection \<open>The interface\<close>

datatype 'a queue_op = QPut 'a | QGet

text \<open>
  A message is accepted when it is admissible (\<open>qok\<close>) and the queue is not full; the oldest message is handed out first.
\<close>

text \<open>A run of operations, with the messages accepted and the messages handed out so far.\<close>

fun queue_run :: "('a \<Rightarrow> 's \<Rightarrow> bool \<times> 's) \<Rightarrow> ('s \<Rightarrow> 'a option \<times> 's) \<Rightarrow> 'a queue_op list \<Rightarrow>
    'a list \<times> 'a list \<times> 's \<Rightarrow> 'a list \<times> 'a list \<times> 's" where
  "queue_run put get [] (acc, out, s) = (acc, out, s)"
| "queue_run put get (QPut x # ops) (acc, out, s) =
     (let (ok, s') = put x s in queue_run put get ops (if ok then acc @ [x] else acc, out, s'))"
| "queue_run put get (QGet # ops) (acc, out, s) =
     (let (r, s') = get s in queue_run put get ops (acc, (case r of None \<Rightarrow> out | Some x \<Rightarrow> out @ [x]), s'))"

locale message_queue =
  fixes qinv :: "'s \<Rightarrow> bool"
    and qitems :: "'s \<Rightarrow> 'a list"
    and qcap :: nat
    and qok :: "'a \<Rightarrow> bool"
    and qput :: "'a \<Rightarrow> 's \<Rightarrow> bool \<times> 's"
    and qget :: "'s \<Rightarrow> 'a option \<times> 's"
  assumes put_law: "qinv s \<Longrightarrow> qinv (snd (qput x s)) \<and> (fst (qput x s) \<longleftrightarrow> qok x \<and> length (qitems s) < qcap) \<and>
      qitems (snd (qput x s)) = (if qok x \<and> length (qitems s) < qcap then qitems s @ [x] else qitems s)"
    and get_law: "qinv s \<Longrightarrow> qinv (snd (qget s)) \<and>
      fst (qget s) = (if qitems s = [] then None else Some (hd (qitems s))) \<and> qitems (snd (qget s)) = tl (qitems s)"
    and cap_law: "qinv s \<Longrightarrow> length (qitems s) \<le> qcap"
begin

lemma queue_run_fifo:
  assumes "qinv s" "acc = out @ qitems s" "queue_run qput qget ops (acc, out, s) = (acc', out', s')"
  shows "qinv s' \<and> acc' = out' @ qitems s' \<and> length (qitems s') \<le> qcap"
  using assms
proof (induction ops arbitrary: acc out s)
  case Nil
  then show ?case using cap_law by auto
next
  case (Cons op ops)
  show ?case
  proof (cases op)
    case (QPut x)
    obtain ok t where p: "qput x s = (ok, t)" by fastforce
    have "qinv t" "(if ok then acc @ [x] else acc) = out @ qitems t"
      using put_law[OF Cons.prems(1), of x] p Cons.prems(2) by auto
    then show ?thesis using Cons.IH Cons.prems(3) p QPut by simp
  next
    case QGet
    obtain r t where p: "qget s = (r, t)" by fastforce
    have "qinv t" "acc = (case r of None \<Rightarrow> out | Some x \<Rightarrow> out @ [x]) @ qitems t"
      using get_law[OF Cons.prems(1)] p Cons.prems(2) by (cases "qitems s"; simp)+
    then show ?thesis using Cons.IH Cons.prems(3) p QGet by simp
  qed
qed

end

subsection \<open>Separation of actors\<close>

text \<open>
  A machine whose steps are made on behalf of an actor and keep the objects of every other actor.  What one step keeps,
  every run keeps during which the owner does not act.
\<close>

fun steps :: "('e \<Rightarrow> 's \<Rightarrow> 's option) \<Rightarrow> 'e list \<Rightarrow> 's \<Rightarrow> 's option" where
  "steps step [] s = Some s"
| "steps step (e # es) s = (case step e s of None \<Rightarrow> None | Some s' \<Rightarrow> steps step es s')"

fun absent :: "('e \<Rightarrow> 's \<Rightarrow> 's option) \<Rightarrow> ('s \<Rightarrow> 'p) \<Rightarrow> 'p \<Rightarrow> 'e list \<Rightarrow> 's \<Rightarrow> bool" where
  "absent step act q [] s = True"
| "absent step act q (e # es) s = (act s \<noteq> q \<and> (case step e s of None \<Rightarrow> True | Some s' \<Rightarrow> absent step act q es s'))"

locale separation =
  fixes sinv :: "'s \<Rightarrow> bool"
    and step :: "'e \<Rightarrow> 's \<Rightarrow> 's option"
    and act :: "'s \<Rightarrow> 'p"
    and view :: "'p \<Rightarrow> 's \<Rightarrow> 'i \<Rightarrow> 'o option"
  assumes step_inv: "sinv s \<Longrightarrow> step e s = Some s' \<Longrightarrow> sinv s'"
    and step_respects: "sinv s \<Longrightarrow> step e s = Some s' \<Longrightarrow> act s \<noteq> q \<Longrightarrow> view q s i = Some x \<Longrightarrow> view q s' i = Some x"
begin

lemma steps_inv: "sinv s \<Longrightarrow> steps step es s = Some s' \<Longrightarrow> sinv s'"
proof (induction es arbitrary: s)
  case (Cons e es)
  then show ?case using step_inv by (cases "step e s") auto
qed simp

lemma steps_respect:
  assumes "sinv s" "steps step es s = Some s'" "absent step act q es s" "view q s i = Some x"
  shows "view q s' i = Some x"
  using assms
proof (induction es arbitrary: s)
  case (Cons e es)
  then obtain t where t: "step e s = Some t" "steps step es t = Some s'" "absent step act q es t" "act s \<noteq> q"
    by (cases "step e s") auto
  have "view q t i = Some x" using step_respects[OF Cons.prems(1) t(1) t(4) Cons.prems(4)] .
  then show ?case using Cons.IH[OF step_inv[OF Cons.prems(1) t(1)] t(2) t(3)] by blast
qed simp

end

end
