(* ===== verification/Kernel_Fault.thy ===== *)
theory Kernel_Fault
  imports Kernel_Switch Kernel_Interfaces
begin

text \<open>
  The fault path of the kernel over its runs: the queue of faults and hangs that await a decision is a bounded
  first-in first-out queue, the event feed keeps the most recent events in order, and a decision to resume or to
  roll back gives the task back exactly the registers it faulted with.
\<close>

subsection \<open>Rings of optional items\<close>

text \<open>The contents of a ring of slots, from the head on: the fault queue, the event feed and the history.\<close>

definition ring_items :: "'a option list \<Rightarrow> nat \<Rightarrow> nat \<Rightarrow> 'a list" where
  "ring_items q h n = List.map_filter (\<lambda>k. q ! ((h + k) mod length q)) [0..<n]"

definition ring_full_upto :: "'a option list \<Rightarrow> nat \<Rightarrow> nat \<Rightarrow> bool" where
  "ring_full_upto q h n \<longleftrightarrow> h < length q \<and> n \<le> length q \<and> None \<notin> set (ring_list q h n)"

lemma map_filter_the: "None \<notin> set (map f xs) \<Longrightarrow> List.map_filter f xs = map the (map f xs)"
  by (induction xs) (auto simp: List.map_filter_def)

lemma ring_items_map: "ring_full_upto q h n \<Longrightarrow> ring_items q h n = map the (ring_list q h n)"
  unfolding ring_items_def ring_full_upto_def ring_list_def by (intro map_filter_the) blast

lemma ring_items_length: "ring_full_upto q h n \<Longrightarrow> length (ring_items q h n) = n"
  by (simp add: ring_items_map)

lemma ring_push:
  assumes "ring_full_upto q h n" "n < length q"
  shows "ring_full_upto (q[(h + n) mod length q := Some x]) h (n + 1) \<and>
    ring_items (q[(h + n) mod length q := Some x]) h (n + 1) = ring_items q h n @ [x]"
proof -
  let ?p = "q[(h + n) mod length q := Some x]"
  have l: "ring_list ?p h (n + 1) = ring_list q h n @ [Some x]" by (rule ring_list_push[OF assms(2)])
  have full: "ring_full_upto ?p h (n + 1)" using assms unfolding ring_full_upto_def l by simp
  then show ?thesis unfolding ring_items_map[OF full] ring_items_map[OF assms(1)] l by simp
qed

lemma ring_pop:
  assumes "ring_full_upto q h n" "0 < n"
  shows "ring_full_upto (q[h := None]) ((h + 1) mod length q) (n - 1) \<and>
    q ! h = Some (hd (ring_items q h n)) \<and> ring_items (q[h := None]) ((h + 1) mod length q) (n - 1) = tl (ring_items q h n)"
proof -
  let ?h = "(h + 1) mod length q"
  have L: "h < length q" "n - 1 < length q" using assms by (auto simp: ring_full_upto_def)
  have h: "?h < length q" using L by (intro mod_less_divisor) linarith
  have l: "ring_list q h n = q ! h # ring_list q ?h (n - 1)" by (rule ring_list_pop[OF L(1) assms(2)])
  have l': "ring_list (q[h := None]) ?h (n - 1) = ring_list q ?h (n - 1)" by (rule ring_list_before[OF L])
  have full: "ring_full_upto (q[h := None]) ?h (n - 1)"
    using assms(1) L h unfolding ring_full_upto_def l l' by simp
  then show ?thesis
    using assms(1) unfolding ring_items_map[OF full] ring_items_map[OF assms(1)] l l' ring_full_upto_def by auto
qed

text \<open>A push on a full ring replaces the oldest item.\<close>

lemma ring_overwrite:
  assumes "ring_full_upto q h (length q)"
  shows "ring_full_upto (q[h := Some x]) ((h + 1) mod length q) (length q) \<and>
    ring_items (q[h := Some x]) ((h + 1) mod length q) (length q) = tl (ring_items q h (length q)) @ [x]"
proof -
  let ?L = "length q"
  have L: "h < ?L" using assms by (simp add: ring_full_upto_def)
  then have pos: "0 < ?L" by linarith
  note p = ring_pop[OF assms pos]
  have at: "((h + 1) mod ?L + (?L - 1)) mod ?L = h"
  proof -
    have "((h + 1) mod ?L + (?L - 1)) mod ?L = (h + 1 + (?L - 1)) mod ?L" by (simp add: mod_simps)
    also have "h + 1 + (?L - 1) = h + ?L" using pos by linarith
    finally show ?thesis using L by simp
  qed
  have "?L - 1 < length (q[h := None])" using pos by simp
  from ring_push[OF conjunct1[OF p] this, of x] show ?thesis
    using p pos unfolding length_list_update at by simp
qed

lemma take_take_append: "take n (take n xs @ ys) = take n (xs @ ys)"
  by (cases "length xs \<le> n") simp_all

subsection \<open>The queue of pending faults\<close>

definition fq_ok :: "kst \<Rightarrow> bool" where
  "fq_ok s \<longleftrightarrow> length (ks_queue s) = FAULT_QUEUE_LEN \<and> ring_full_upto (ks_queue s) (ks_queue_head s) (ks_queue_len s) \<and>
     (ks_pending s \<longleftrightarrow> 0 < ks_queue_len s) \<and> length (ks_counts s) = MAX_TASKS"

lemma pending_ring: "fq_ok s \<Longrightarrow> pending_records s = ring_items (ks_queue s) (ks_queue_head s) (ks_queue_len s)"
  by (simp add: pending_records_def ring_items_def fq_ok_def)

lemma pending_length: "fq_ok s \<Longrightarrow> length (pending_records s) = ks_queue_len s"
  by (simp add: pending_ring ring_items_length fq_ok_def)

lemma pending_flag: "fq_ok s \<Longrightarrow> ks_pending s \<longleftrightarrow> pending_records s \<noteq> []"
  using pending_length[of s] by (auto simp: fq_ok_def)

lemma pending_bound: "fq_ok s \<Longrightarrow> length (pending_records s) \<le> FAULT_QUEUE_LEN"
  by (simp add: pending_length) (simp add: fq_ok_def ring_full_upto_def)

lemma peek_pending: "fq_ok s \<Longrightarrow> fault_peek s = (if pending_records s = [] then None else Some (hd (pending_records s)))"
proof -
  assume ok: "fq_ok s"
  show ?thesis
  proof (cases "ks_queue_len s = 0")
    case True
    then show ?thesis using pending_length[OF ok] by (simp add: fault_peek_def)
  next
    case False
    then show ?thesis
      using ring_pop[of "ks_queue s" "ks_queue_head s" "ks_queue_len s"] pending_length[OF ok] ok
      by (auto simp: fault_peek_def pending_ring fq_ok_def)
  qed
qed

text \<open>Operations that do not touch the queue.\<close>

definition same_queue :: "kst \<Rightarrow> kst \<Rightarrow> bool" where
  "same_queue s t \<longleftrightarrow> ks_queue t = ks_queue s \<and> ks_queue_head t = ks_queue_head s \<and> ks_queue_len t = ks_queue_len s \<and>
     ks_pending t = ks_pending s \<and> length (ks_counts t) = length (ks_counts s)"

lemma same_queueD: "same_queue s t \<Longrightarrow> (fq_ok t \<longleftrightarrow> fq_ok s) \<and> pending_records t = pending_records s"
  by (simp add: same_queue_def fq_ok_def pending_records_def)

lemma same_queue_trans: "same_queue s t \<Longrightarrow> same_queue t u \<Longrightarrow> same_queue s u"
  by (simp add: same_queue_def)

named_theorems queue_simps

lemma same_queue_ops [queue_simps]:
  "same_queue s s" "same_queue s (set_task i t s)" "same_queue s (reset_stall i now s)" "same_queue s (note_activity pid s)"
  "same_queue s (freeze_task pid s)" "same_queue s (unfreeze_task pid s)" "same_queue s (restore_task pid n s)"
  "same_queue s (remove_task pid s)" "same_queue s (boot_finished entry stk s)" "same_queue s (post_event e s)"
  by (simp_all add: same_queue_def set_task_def reset_stall_def note_activity_def freeze_task_def unfreeze_task_def
    restore_task_def remove_task_def boot_finished_def post_event_def Let_def)

lemma same_queue_spawn [queue_simps]: "same_queue s (snd (spawn_with fill s))"
  by (simp add: same_queue_def spawn_with_def set_task_def reset_stall_def Let_def split: option.split)

lemma same_queue_recovery [queue_simps]: "same_queue s (log_resolution a r (apply_recovery a r s))"
proof -
  let ?pid = "sn_pid (fc_snapshot r)"
  have "same_queue s (apply_recovery a r s)"
    using same_queue_ops(6-8)[of s ?pid]
    by (cases a) (simp_all add: apply_recovery_def same_queue_def Let_def)
  then show ?thesis by (simp add: same_queue_def log_resolution_def Let_def)
qed

text \<open>What \<open>publish\<close> appends, unless the queue is full.\<close>

definition record_of :: "kst \<Rightarrow> u32 \<Rightarrow> fault_code \<Rightarrow> task_snapshot \<Rightarrow> fault_record" where
  "record_of s pid k n = \<lparr>fc_snapshot = n, fc_kind = k, fc_count = sat_inc8 (ks_counts s ! unat pid)\<rparr>"

lemma publish_queue:
  assumes "fq_ok s"
  shows "fq_ok (publish pid k n s) \<and>
    pending_records (publish pid k n s) = take FAULT_QUEUE_LEN (pending_records s @ [record_of s pid k n])"
proof -
  define s1 where "s1 = post_event \<lparr>fe_pid = pid, fe_kind = fault_code_u16 k, fe_count = sat_inc8 (ks_counts s ! unat pid), fe_rip = sn_rip n\<rparr>
    (s\<lparr>ks_counts := (ks_counts s)[unat pid := sat_inc8 (ks_counts s ! unat pid)]\<rparr>)"
  have "same_queue s (s\<lparr>ks_counts := (ks_counts s)[unat pid := sat_inc8 (ks_counts s ! unat pid)]\<rparr>)" by (simp add: same_queue_def)
  then have sq: "same_queue s s1" unfolding s1_def using same_queue_ops(10) same_queue_trans by blast
  have pub: "publish pid k n s = (if ks_queue_len s1 \<ge> FAULT_QUEUE_LEN then s1
     else s1\<lparr>ks_queue := (ks_queue s1)[(ks_queue_head s1 + ks_queue_len s1) mod FAULT_QUEUE_LEN := Some (record_of s pid k n)],
                ks_queue_len := ks_queue_len s1 + 1, ks_pending := True\<rparr>)"
    unfolding publish_def s1_def record_of_def Let_def by (rule refl)
  note ok = same_queueD[OF sq] pending_length[OF assms]
  have len: "ks_queue_len s1 = ks_queue_len s" using sq by (simp add: same_queue_def)
  show ?thesis
  proof (cases "ks_queue_len s1 \<ge> FAULT_QUEUE_LEN")
    case True
    then show ?thesis using pub ok assms len pending_bound[OF assms] by simp
  next
    case False
    let ?q = "(ks_queue s1)[(ks_queue_head s1 + ks_queue_len s1) mod length (ks_queue s1) := Some (record_of s pid k n)]"
    have f: "ring_full_upto (ks_queue s1) (ks_queue_head s1) (ks_queue_len s1)" "length (ks_queue s1) = FAULT_QUEUE_LEN"
      using ok assms by (simp_all add: fq_ok_def)
    have p: "ring_full_upto ?q (ks_queue_head s1) (ks_queue_len s1 + 1)"
      "ring_items ?q (ks_queue_head s1) (ks_queue_len s1 + 1) = ring_items (ks_queue s1) (ks_queue_head s1) (ks_queue_len s1) @ [record_of s pid k n]"
      using ring_push[OF f(1), of "record_of s pid k n"] False f(2) by simp_all
    have q: "fq_ok (publish pid k n s)"
      unfolding pub if_not_P[OF False] using p(1) f(2) ok(1) assms by (simp add: fq_ok_def)
    moreover have "pending_records (publish pid k n s) = pending_records s @ [record_of s pid k n]"
      unfolding pending_ring[OF q] unfolding pub if_not_P[OF False] using p(2) f(2) ok(1) assms pending_ring[of s1] by simp
    ultimately show ?thesis using False ok(2) len by simp
  qed
qed

lemma pop_queue:
  assumes "fq_ok s"
  shows "fq_ok (pop_front s) \<and> pending_records (pop_front s) = tl (pending_records s)"
proof (cases "ks_queue_len s = 0")
  case True
  then show ?thesis using assms pending_length[OF assms] by (simp add: pop_front_def)
next
  case False
  have f: "ring_full_upto (ks_queue s) (ks_queue_head s) (ks_queue_len s)" "length (ks_queue s) = FAULT_QUEUE_LEN"
    using assms by (simp_all add: fq_ok_def)
  note p = ring_pop[OF f(1)]
  show ?thesis
  proof (cases "ks_queue_len s = 1")
    case True
    have "fq_ok (pop_front s)" using True f assms
      by (simp add: fq_ok_def pop_front_def ring_full_upto_def Let_def FAULT_QUEUE_LEN_def MAX_TASKS_def)
    moreover have "ks_queue_len (pop_front s) = 0" using True by (simp add: pop_front_def)
    ultimately show ?thesis using pending_length pending_length[OF assms] True
      by (metis diff_Suc_1 length_0_conv length_tl One_nat_def)
  next
    case several: False
    then have q: "fq_ok (pop_front s)"
      using p f assms False by (simp add: fq_ok_def pop_front_def Let_def)
    then show ?thesis
      using p f assms False several unfolding pending_ring[OF q] pending_ring[OF assms] by (simp add: pop_front_def Let_def)
  qed
qed

subsection \<open>The queue over the events\<close>

text \<open>The records the hang watchdog may add in one event: at most one, about the running task.\<close>

definition hang_records :: "kst \<Rightarrow> fault_record list \<Rightarrow> bool" where
  "hang_records s h \<longleftrightarrow> length h \<le> 1 \<and>
     (\<forall>r\<in>set h. fc_kind r = Hang \<and> sn_pid (fc_snapshot r) = current_pid s \<and> snapshot_verify (fc_snapshot r))"

definition appends :: "kst \<Rightarrow> kst \<Rightarrow> bool" where
  "appends s t \<longleftrightarrow> fq_ok t \<and> (\<exists>h. hang_records s h \<and> pending_records t = take FAULT_QUEUE_LEN (pending_records s @ h))"

lemma hang_records_Nil [simp]: "hang_records s []"
  by (simp add: hang_records_def)

lemma appends_same: "fq_ok s \<Longrightarrow> same_queue s t \<Longrightarrow> appends s t"
  using same_queueD[of s t] pending_bound[of s] unfolding appends_def
  by (intro conjI exI[of _ "[]"]) simp_all

lemma appends_same_right: "appends s t \<Longrightarrow> same_queue t u \<Longrightarrow> appends s u"
  using same_queueD[of t u] by (simp add: appends_def)

lemma watchdog_queue:
  assumes "fq_ok s" "current_pid s = word_of_nat slot"
  shows "appends s (watchdog slot saved s)"
proof -
  define s1 where "s1 = (if ks_stall_rip s ! slot \<noteq> fr_rip saved
    then s\<lparr>ks_stall_rip := (ks_stall_rip s)[slot := fr_rip saved], ks_stall_since := (ks_stall_since s)[slot := ks_ticks s]\<rparr> else s)"
  define s2 where "s2 = (if ks_activity s1 ! slot > ks_stall_since s1 ! slot
    then s1\<lparr>ks_stall_since := (ks_stall_since s1)[slot := ks_activity s1 ! slot]\<rparr> else s1)"
  let ?n = "snapshot_capture (word_of_nat slot) saved"
  define s3 where "s3 = record_hang ?n s2"
  have w: "watchdog slot saved s = (if ks_ticks s2 - ks_stall_since s2 ! slot \<ge> HANG_WATCHDOG_TICKS
       then s3\<lparr>ks_stall_since := (ks_stall_since s3)[slot := ks_ticks s3]\<rparr> else s2)"
    unfolding watchdog_def Let_def s1_def[symmetric] s2_def[symmetric] s3_def[symmetric] by (rule refl)
  have sq: "same_queue s s2" by (simp add: same_queue_def s2_def s1_def)
  then have ok: "fq_ok s2" using same_queueD assms(1) by blast
  have "hang_records s [record_of s2 (word_of_nat slot) Hang ?n]"
    using assms(2) capture_verifies by (simp add: hang_records_def record_of_def)
  then have "appends s (publish (word_of_nat slot) Hang ?n s2)"
    using publish_queue[OF ok, of "word_of_nat slot" Hang ?n] same_queueD[OF sq]
    unfolding appends_def by (intro conjI exI[of _ "[record_of s2 (word_of_nat slot) Hang ?n]"]) simp_all
  then have "appends s s3"
    unfolding s3_def record_hang_def sn_pid_capture using same_queue_ops(5) by (rule appends_same_right)
  then have "appends s (s3\<lparr>ks_stall_since := (ks_stall_since s3)[slot := ks_ticks s3]\<rparr>)"
    by (rule appends_same_right) (simp add: same_queue_def)
  then show ?thesis using appends_same[OF assms(1) sq] w by simp
qed

lemma save_outgoing_queue:
  assumes "fq_ok s"
  shows "appends s (save_outgoing f s)"
proof (cases "0 \<le> ks_current s \<and> kt_valid_frame (ks_tasks s ! nat (ks_current s)) \<and>
    kt_present (ks_tasks s ! nat (ks_current s)) \<and> fr_cs f = USER_CS")
  case False
  then have "same_queue s (save_outgoing f s)" by (auto simp: save_outgoing_def same_queue_ops Let_def)
  then show ?thesis by (rule appends_same[OF assms])
next
  case True
  let ?slot = "nat (ks_current s)"
  let ?saved = "frame_refresh f (kt_frame (ks_tasks s ! ?slot))"
  let ?u = "set_task ?slot ((ks_tasks s ! ?slot)\<lparr>kt_frame := ?saved\<rparr>) s"
  have so: "save_outgoing f s = watchdog ?slot ?saved ?u" using True by (simp add: save_outgoing_def Let_def)
  have sq: "same_queue s ?u" by (rule same_queue_ops)
  have cur: "current_pid ?u = current_pid s" "current_pid s = word_of_nat ?slot"
    using True by (simp_all add: current_pid_def set_task_def max_absorb1)
  have "appends ?u (watchdog ?slot ?saved ?u)" using watchdog_queue[of ?u ?slot] same_queueD[OF sq] assms cur by simp
  then show ?thesis unfolding so using same_queueD[OF sq] cur(1) by (simp add: appends_def hang_records_def)
qed

lemma schedule_queue:
  assumes "fq_ok s"
  shows "appends s (snd (schedule f s))"
proof (cases "ks_current s = 0 \<and> ks_boot_active s \<or> hw_tick f \<and> fr_cs f = KERNEL_CS \<and> ks_current s \<noteq> - 1")
  case True
  then have "snd (schedule f s) = s" by (auto simp: schedule_def)
  then show ?thesis using appends_same[OF assms same_queue_ops(1)] by simp
next
  case False
  then have guards: "\<not> (ks_current s = 0 \<and> ks_boot_active s)" "\<not> (hw_tick f \<and> fr_cs f = KERNEL_CS \<and> ks_current s \<noteq> - 1)"
    by blast+
  have "same_queue (save_outgoing f s) (snd (schedule f s))"
    unfolding schedule_def if_not_P[OF guards(1)] if_not_P[OF guards(2)] Let_def
    by (auto simp: same_queue_def split: prod.split option.split)
  with save_outgoing_queue[OF assms] show ?thesis by (rule appends_same_right)
qed

lemma schedule_queue_like:
  assumes "fq_ok s" "same_queue s t" "ks_current t = ks_current s"
  shows "appends s (snd (schedule f t))"
proof -
  have "appends t (snd (schedule f t))" using schedule_queue same_queueD[OF assms(2)] assms(1) by blast
  then show ?thesis using same_queueD[OF assms(2)] assms(3) by (simp add: appends_def hang_records_def current_pid_def)
qed

text \<open>One event on the abstract queue: a decision takes the oldest record, a fault and a hang are appended.\<close>

fun queue_event :: "kevent \<Rightarrow> kst \<Rightarrow> fault_record list \<Rightarrow> fault_record list \<Rightarrow> fault_record list" where
  "queue_event (EResolve a) s h p = (if p \<noteq> [] \<and> (a = Terminate \<or> \<not> over_budget (hd p)) then tl p else p)"
| "queue_event (EFault f k) s h p =
     (if fr_cs f = KERNEL_CS then p
      else take FAULT_QUEUE_LEN (p @ record_of s (current_pid s) k (snapshot_capture (current_pid s) f) # h))"
| "queue_event ev s h p = take FAULT_QUEUE_LEN (p @ h)"

lemma queue_step:
  assumes "fq_ok s"
  shows "fq_ok (snd (kstep ev s)) \<and>
    (\<exists>h. hang_records s h \<and> pending_records (snd (kstep ev s)) = queue_event ev s h (pending_records s))"
proof (cases ev)
  case (EResolve a)
  show ?thesis
  proof (cases "pending_records s \<noteq> [] \<and> (a = Terminate \<or> \<not> over_budget (hd (pending_records s)))")
    case True
    let ?r = "hd (pending_records s)"
    have "fault_resolve a s = pop_front (log_resolution a ?r (apply_recovery a ?r s))"
      using True peek_pending[OF assms] by (auto simp: fault_resolve_def)
    then show ?thesis
      using True pop_queue same_queueD[OF same_queue_recovery[of s a ?r]] assms
      by (intro conjI exI[of _ "[]"]) (simp_all add: EResolve)
  next
    case False
    then have "fault_resolve a s = s" using peek_pending[OF assms] by (auto simp: fault_resolve_def)
    then show ?thesis using False assms by (intro conjI exI[of _ "[]"]) (auto simp: EResolve)
  qed
next
  case (EFault f k)
  let ?pid = "current_pid s"
  let ?t = "publish ?pid k (snapshot_capture ?pid f) s"
  note p = publish_queue[OF assms, of ?pid k "snapshot_capture ?pid f"]
  have "appends ?t (snd (schedule f (freeze_task ?pid ?t)))"
    using p freeze_tasks[of ?t ?pid] by (intro schedule_queue_like same_queue_ops) simp_all
  then obtain h where h: "hang_records s h" "fq_ok (snd (schedule f (freeze_task ?pid ?t)))"
    "pending_records (snd (schedule f (freeze_task ?pid ?t))) = take FAULT_QUEUE_LEN (pending_records ?t @ h)"
    by (auto simp: appends_def hang_records_def current_pid_def)
  show ?thesis
  proof (cases "fr_cs f = KERNEL_CS")
    case True
    then show ?thesis using assms by (intro conjI exI[of _ "[]"]) (simp_all add: EFault intercept_def)
  next
    case False
    have "take FAULT_QUEUE_LEN (pending_records ?t @ h) =
        take FAULT_QUEUE_LEN (pending_records s @ record_of s ?pid k (snapshot_capture ?pid f) # h)"
      unfolding conjunct2[OF p] take_take_append by simp
    then show ?thesis using h False by (intro conjI exI[of _ h]) (simp_all add: EFault intercept_def Let_def)
  qed
next
  case (ETimer f)
  let ?s = "s\<lparr>ks_ticks := ks_ticks s + 1\<rparr>"
  have "appends s (snd (kstep ev s))"
    using appends_same[OF assms, of ?s] schedule_queue_like[OF assms, of "?s\<lparr>ks_last_switch := ks_ticks ?s\<rparr>" f]
    by (simp add: ETimer sched_tick_def same_queue_def)
  then show ?thesis by (auto simp: appends_def ETimer)
next
  case (ESleep f n)
  have "appends s (snd (kstep ev s))"
    using schedule_queue[OF assms, of f] schedule_queue_like[OF assms same_queue_ops(2), of "nat (ks_current s)" _ f]
    by (simp add: ESleep sleep_current_def Let_def)
  then show ?thesis by (auto simp: appends_def ESleep)
next
  case (EYield f)
  then show ?thesis using schedule_queue[OF assms, of f] by (auto simp: appends_def)
next
  case (EBoot entry stk)
  then show ?thesis using appends_same[OF assms, of "snd (kstep ev s)"] by (auto simp: appends_def queue_simps)
next
  case (ESpawnKernel entry stk)
  then show ?thesis using appends_same[OF assms, of "snd (kstep ev s)"] by (auto simp: appends_def spawn_kernel_def queue_simps)
next
  case (ESpawnUser entry stk a b)
  then show ?thesis using appends_same[OF assms, of "snd (kstep ev s)"] by (auto simp: appends_def spawn_user_def queue_simps)
next
  case (EActivity pid)
  then show ?thesis using appends_same[OF assms, of "snd (kstep ev s)"] by (auto simp: appends_def queue_simps)
next
  case (EThermal b)
  then show ?thesis using appends_same[OF assms, of "snd (kstep ev s)"] by (auto simp: appends_def same_queue_def)
qed

lemma fq_ok_init: "fq_ok (sched_init kst_init)"
  by (simp add: fq_ok_def ring_full_upto_def sched_init_def kst_init_def set_task_def FAULT_QUEUE_LEN_def MAX_TASKS_def)

lemma krun_queue: "fq_ok (fst sm) \<Longrightarrow> fq_ok (fst (krun evs sm))"
proof (induction evs sm rule: krun.induct)
  case (2 ev evs sm)
  have "fq_ok (snd (kstep ev (fst sm)))" using queue_step[OF 2(2)] by blast
  then show ?case using 2(1) by simp
qed simp

text \<open>C11:
  The kernel's fault queue is a bounded first-in first-out queue, in every run of the kernel and at every event: a
  decision takes the oldest record (unless it is a resume or a rollback of a task over its fault budget, which is
  refused), a fault of a user task is appended with the snapshot of its registers, the watchdog appends at most one
  record about the running task, a record is dropped only when seven others wait, and the pending flag tells whether
  any record waits.
\<close>

theorem fault_queue_fifo:
  assumes "krun evs (sched_init kst_init, Map.empty) = (s, m)"
  shows "(ks_pending s \<longleftrightarrow> pending_records s \<noteq> []) \<and> length (pending_records s) \<le> 7 \<and>
    (\<exists>h. hang_records s h \<and> pending_records (snd (kstep ev s)) = queue_event ev s h (pending_records s))"
proof -
  have ok: "fq_ok s" using krun_queue[of "(sched_init kst_init, Map.empty)" evs] fq_ok_init assms by simp
  then show ?thesis using queue_step[OF ok, of ev] pending_flag[OF ok] pending_bound[OF ok] by (simp add: FAULT_QUEUE_LEN_def MAX_TASKS_def)
qed

subsection \<open>The event feed\<close>

definition event_feed :: "kst \<Rightarrow> fault_event list" where
  "event_feed s = ring_items (ks_events s) (ks_ev_head s) (ks_ev_len s)"

definition feed_ok :: "kst \<Rightarrow> bool" where
  "feed_ok s \<longleftrightarrow> length (ks_events s) = FAULT_EVENT_LEN \<and> ring_full_upto (ks_events s) (ks_ev_head s) (ks_ev_len s)"

lemma feed_length: "feed_ok s \<Longrightarrow> length (event_feed s) = ks_ev_len s"
  by (simp add: feed_ok_def event_feed_def ring_items_length)

text \<open>Posting keeps the most recent sixteen events, in order.\<close>

lemma post_event_feed:
  assumes "feed_ok s"
  shows "feed_ok (post_event e s) \<and>
    event_feed (post_event e s) = drop (length (event_feed s) + 1 - FAULT_EVENT_LEN) (event_feed s @ [e])"
proof (cases "ks_ev_len s \<ge> FAULT_EVENT_LEN")
  case True
  then have len: "ks_ev_len s = length (ks_events s)" "FAULT_EVENT_LEN = length (ks_events s)"
    using assms by (simp_all add: feed_ok_def ring_full_upto_def)
  have "ring_full_upto (ks_events s) (ks_ev_head s) (length (ks_events s))" using assms len by (simp add: feed_ok_def)
  moreover have "Suc 0 - FAULT_EVENT_LEN = 0" by (simp add: FAULT_EVENT_LEN_def)
  ultimately show ?thesis
    using ring_overwrite[of "ks_events s" "ks_ev_head s" e] True len feed_length[OF assms] assms
    by (simp add: post_event_def feed_ok_def event_feed_def Let_def drop_Suc)
next
  case False
  have f: "ring_full_upto (ks_events s) (ks_ev_head s) (ks_ev_len s)" "ks_ev_len s < length (ks_events s)"
    "FAULT_EVENT_LEN = length (ks_events s)"
    using assms False by (simp_all add: feed_ok_def)
  from ring_push[OF f(1,2), of e] show ?thesis
    using f(3) False feed_length[OF assms]
    by (simp add: post_event_def feed_ok_def event_feed_def Let_def)
qed

text \<open>Polling hands out the oldest event.\<close>

lemma poll_event_feed:
  assumes "feed_ok s"
  shows "feed_ok (snd (poll_event s)) \<and> fst (poll_event s) = (if event_feed s = [] then None else Some (hd (event_feed s))) \<and>
    event_feed (snd (poll_event s)) = tl (event_feed s)"
proof (cases "ks_ev_len s = 0")
  case True
  then have "event_feed s = []" using feed_length[OF assms] by simp
  then show ?thesis using True assms by (simp add: poll_event_def)
next
  case False
  then have f: "ring_full_upto (ks_events s) (ks_ev_head s) (ks_ev_len s)" "0 < ks_ev_len s" "event_feed s \<noteq> []"
    "FAULT_EVENT_LEN = length (ks_events s)"
    using assms feed_length[OF assms] by (auto simp: feed_ok_def)
  from ring_pop[OF f(1,2)] show ?thesis
    using f(3,4) False by (simp add: poll_event_def feed_ok_def event_feed_def Let_def)
qed

subsection \<open>Recovery\<close>

lemma schedule_tasks:
  assumes "kst_ok s" "i < MAX_TASKS"
  shows "kt_present (ks_tasks (snd (schedule f s)) ! i) = kt_present (ks_tasks s ! i) \<and>
    (int i \<noteq> ks_current s \<longrightarrow> kt_frame (ks_tasks (snd (schedule f s)) ! i) = kt_frame (ks_tasks s ! i))"
proof (cases "ks_current s = 0 \<and> ks_boot_active s \<or> hw_tick f \<and> fr_cs f = KERNEL_CS \<and> ks_current s \<noteq> - 1")
  case True
  then have "snd (schedule f s) = s" by (auto simp: schedule_def)
  then show ?thesis by simp
next
  case False
  then have boot: "\<not> ks_boot_active s" using assms(1) by (auto simp: kst_ok_def)
  have guards: "\<not> (ks_current s = 0 \<and> ks_boot_active s)" "\<not> (hw_tick f \<and> fr_cs f = KERNEL_CS \<and> ks_current s \<noteq> - 1)"
    using False by blast+
  let ?s1 = "save_outgoing f s"
  let ?ts = "snd (pick_next (ks_current s) (ks_ticks s) (ks_critical s) [1..<MAX_TASKS + 1] (ks_tasks ?s1))"
  note sv = save_outgoing_spec[OF assms(1) boot refl[of "save_outgoing f s"]]
  have "ks_tasks (snd (schedule f s)) = ?ts"
    unfolding schedule_def if_not_P[OF guards(1)] if_not_P[OF guards(2)] Let_def
    by (auto split: prod.split option.split)
  moreover have "kt_present (?ts ! i) = kt_present (ks_tasks ?s1 ! i)" "kt_frame (?ts ! i) = kt_frame (ks_tasks ?s1 ! i)"
    using pick_next_tasks[of "ks_tasks ?s1"] sv(3) assms(2) by (simp_all add: same_tasks_def)
  moreover have "kt_present (ks_tasks ?s1 ! i) = kt_present (ks_tasks s ! i) \<and>
      (int i \<noteq> ks_current s \<longrightarrow> kt_frame (ks_tasks ?s1 ! i) = kt_frame (ks_tasks s ! i))"
  proof (cases "int i = ks_current s")
    case True
    then have "nat (ks_current s) = i" "0 \<le> ks_current s" by linarith+
    then show ?thesis using sv(5) assms(1) boot True by (simp add: kst_ok_def)
  next
    case False
    then show ?thesis using sv(4)[OF assms(2)] by simp
  qed
  ultimately show ?thesis by simp
qed

lemmas schedule_present = schedule_tasks[THEN conjunct1]
lemmas schedule_frame = schedule_tasks[THEN conjunct2, rule_format]

lemma pop_log_tasks [simp]: "ks_tasks (pop_front (log_resolution a r s)) = ks_tasks s"
  by (simp add: pop_front_def log_resolution_def Let_def)

text \<open>The effect of a decision on the task of the record, when its frame still holds the recorded registers.\<close>

lemma recovery_effect:
  assumes "i = unat pid" "0 < i" "i < MAX_TASKS" "length (ks_tasks s) = MAX_TASKS" "kt_present (ks_tasks s ! i)"
    "regs (kt_frame (ks_tasks s ! i)) = regs f" "fc_snapshot r = snapshot_capture pid f"
  shows "if a = Terminate then \<not> kt_present (ks_tasks (apply_recovery a r s) ! i)
    else kt_present (ks_tasks (apply_recovery a r s) ! i) \<and> kt_sleep_until (ks_tasks (apply_recovery a r s) ! i) = 0 \<and>
      regs (kt_frame (ks_tasks (apply_recovery a r s) ! i)) = regs f"
proof -
  have live: "task_snapshot_of pid s = Some (snapshot_capture pid f)"
    using assms capture_cong[OF assms(6)] by (simp add: task_snapshot_of_def)
  show ?thesis
    using assms live capture_verifies
    by (cases a) (simp_all add: apply_recovery_def unfreeze_task_def remove_task_def restore_task_def reset_stall_def set_task_def Let_def)
qed

lemma within_budget: "c < MAX_FAULTS_PER_TASK \<Longrightarrow> \<not> MAX_FAULTS_PER_TASK < sat_inc8 c"
proof -
  assume a: "c < MAX_FAULTS_PER_TASK"
  then have "c \<noteq> - 1" using word_n1_ge[of MAX_FAULTS_PER_TASK] by (metis not_le)
  then show ?thesis using inc_le[OF a] by (simp add: sat_inc8_def not_less)
qed

text \<open>C39:
  Fault recovery is a round trip: when a user task within its fault budget faults while no other fault waits, and the
  kernel switches away, then a decision taken right then, before anything else happens, is effective: after Resume and after Rollback the task is present,
  awake, and holds in its frame exactly the registers of the fault, so that it continues at the faulting instruction;
  after Terminate it is gone.
\<close>

theorem fault_recovery_roundtrip:
  assumes "krun evs (sched_init kst_init, Map.empty) = (s, m)" "0 < ks_current s" "pending_records s = []"
    "ks_counts s ! nat (ks_current s) < MAX_FAULTS_PER_TASK" "fr_cs f \<noteq> KERNEL_CS" "kstep (EFault f k) s = (Restore g, s1)"
  shows "let t = ks_tasks (fault_resolve a s1) ! nat (ks_current s) in
    if a = Terminate then \<not> kt_present t else kt_present t \<and> kt_sleep_until t = 0 \<and> regs (kt_frame t) = regs f"
proof -
  define i where "i = nat (ks_current s)"
  define pid where "pid = current_pid s"
  define t0 where "t0 = freeze_task pid (publish pid k (snapshot_capture pid f) s)"
  have ok: "kst_ok s" "saved_ok s m" using krun_ok[of "(sched_init kst_init, Map.empty)" evs] kst_ok_init assms(1) by simp_all
  have fq: "fq_ok s" using krun_queue[of "(sched_init kst_init, Map.empty)" evs] fq_ok_init assms(1) by simp
  have i: "i = unat pid" "0 < i" "i < MAX_TASKS" "int i = ks_current s"
    using ok(1) assms(2) unat_current_pid[of s] by (auto simp: i_def pid_def kst_ok_def)
  have like: "like s t0" unfolding t0_def by (rule like_publish)
  have ok0: "kst_ok t0" "saved_ok t0 m" "ks_current t0 = ks_current s" using like_ok[OF like] like_saved[OF like] like ok by (simp_all add: like_def)
  have sch: "schedule f t0 = (Restore g, s1)" using assms(5,6) by (simp add: intercept_def t0_def pid_def Let_def)
  have c: "kst_ok s1" "saved_ok s1 (m(i \<mapsto> regs f))" "ks_current s1 \<noteq> ks_current s"
    using schedule_context[OF ok0(1,2), of f] sch assms(2) ok0(3) by (simp_all add: i_def)
  have "kt_present (ks_tasks s ! i)" using ok(1) assms(2) by (auto simp: kst_ok_def i_def)
  then have present: "kt_present (ks_tasks s1 ! i)"
    using schedule_present[OF ok0(1) i(3), of f] sch like ok(1) i(3) by (simp add: like_def same_tasks_def kst_ok_def)
  have r: "regs (kt_frame (ks_tasks s1 ! i)) = regs f"
    using c(2,3) present i(3,4) unfolding saved_ok_def by (metis fun_upd_same option.inject)
  let ?r = "record_of s pid k (snapshot_capture pid f)"
  obtain h where "pending_records s1 = take FAULT_QUEUE_LEN (?r # h)" and fq1: "fq_ok s1"
    using queue_step[OF fq, of "EFault f k"] assms(3,5,6) by (auto simp: pid_def)
  then have peek: "fault_peek s1 = Some ?r"
    using peek_pending[OF fq1] by (simp add: FAULT_QUEUE_LEN_def MAX_TASKS_def)
  have "\<not> over_budget ?r" using within_budget[OF assms(4)] i(1) by (simp add: over_budget_def record_of_def i_def)
  then have "ks_tasks (fault_resolve a s1) = ks_tasks (apply_recovery a ?r s1)" using peek by (simp add: fault_resolve_def)
  moreover have "length (ks_tasks s1) = MAX_TASKS" using c(1) by (simp add: kst_ok_def)
  moreover have "fc_snapshot ?r = snapshot_capture pid f" by (simp add: record_of_def)
  ultimately show ?thesis
    using recovery_effect[OF i(1-3) _ present r, of ?r a] unfolding i_def Let_def by (cases a) simp_all
qed

subsection \<open>Deviations\<close>

text \<open>
  A spawned task starts with the general registers that the former task of its slot left in the frame: only the
  instruction and stack pointers, the selectors, the flags and, for a user task, the two argument registers are written.
\<close>

lemma spawn_keeps_old_registers:
  assumes "fst (spawn_user entry stk a b s) = Some i" "length (ks_tasks s) = MAX_TASKS"
  shows "fr_rax (kt_frame (ks_tasks (snd (spawn_user entry stk a b s)) ! i)) = fr_rax (kt_frame (ks_tasks s ! i)) \<and>
    fr_r15 (kt_frame (ks_tasks (snd (spawn_user entry stk a b s)) ! i)) = fr_r15 (kt_frame (ks_tasks s ! i))"
proof -
  obtain j where j: "position (\<lambda>t. \<not> kt_present t) (tl (ks_tasks s)) = Some j" "i = j + 1"
    using assms(1) by (auto simp: spawn_user_def spawn_with_def Let_def split: option.splits)
  then have "i < length (ks_tasks s)" using position_SomeD[OF j(1)] by auto
  then show ?thesis using j by (simp add: spawn_user_def spawn_with_def reset_stall_def set_task_def Let_def)
qed

text \<open>
  One fault can put two records of the same task into the queue: when the faulting instruction is the one the task was
  last switched away at, ten seconds or more ago and without a system call since, the interceptor publishes the fault
  and the switch that follows publishes a hang.
\<close>

lemma one_fault_two_records:
  assumes "0 < ks_current s" "ks_current s < int MAX_TASKS" "\<not> ks_boot_active s" "length (ks_tasks s) = MAX_TASKS"
    "kt_present (ks_tasks s ! nat (ks_current s))" "kt_valid_frame (ks_tasks s ! nat (ks_current s))" "fr_cs f = USER_CS"
    "ks_stall_rip s ! nat (ks_current s) = fr_rip f" "ks_activity s ! nat (ks_current s) \<le> ks_stall_since s ! nat (ks_current s)"
    "HANG_WATCHDOG_TICKS \<le> ks_ticks s - ks_stall_since s ! nat (ks_current s)" "fq_ok s" "pending_records s = []"
  shows "map (\<lambda>r. (sn_pid (fc_snapshot r), fc_kind r)) (pending_records (snd (intercept f PageFault s))) =
    [(current_pid s, PageFault), (current_pid s, Hang)]"
proof -
  define i where "i = nat (ks_current s)"
  define pid where "pid = current_pid s"
  define p where "p = publish pid PageFault (snapshot_capture pid f) s"
  define t where "t = freeze_task pid p"
  have pid: "unat pid = i" "pid = word_of_nat i" "0 < i" "i < MAX_TASKS"
    using assms(1,2) unat_current_pid[of s] by (auto simp: i_def pid_def current_pid_def)
  have pub: "fq_ok p" "pending_records p = [record_of s pid PageFault (snapshot_capture pid f)]"
    using publish_queue[OF assms(11), of pid PageFault "snapshot_capture pid f"] assms(12)
    by (simp_all add: p_def FAULT_QUEUE_LEN_def MAX_TASKS_def)
  have t: "same_queue p t" "ks_current t = ks_current s" "ks_boot_active t = ks_boot_active s" "ks_ticks t = ks_ticks s"
    "ks_stall_rip t = ks_stall_rip s" "ks_stall_since t = ks_stall_since s" "ks_activity t = ks_activity s"
    using freeze_tasks[of p pid] by (simp_all add: t_def queue_simps p_def) (simp_all add: freeze_task_def set_task_def publish_def post_event_def Let_def)
  have tk: "kt_present (ks_tasks t ! i)" "kt_valid_frame (ks_tasks t ! i)"
    using freeze_tasks[of p pid] assms(4-6) pid(4) by (simp_all add: t_def p_def same_tasks_def i_def)
  let ?saved = "frame_refresh f (kt_frame (ks_tasks t ! i))"
  let ?u = "set_task i ((ks_tasks t ! i)\<lparr>kt_frame := ?saved\<rparr>) t"
  have rip: "fr_rip ?saved = fr_rip f" by (simp add: frame_refresh_def)
  have u: "ks_stall_rip ?u ! i = fr_rip ?saved" "\<not> ks_stall_since ?u ! i < ks_activity ?u ! i"
    "HANG_WATCHDOG_TICKS \<le> ks_ticks ?u - ks_stall_since ?u ! i"
    using assms(8-10) t rip by (simp_all add: i_def set_task_def)
  let ?h = "record_hang (snapshot_capture (word_of_nat i) ?saved) ?u"
  have so: "save_outgoing f t = ?h\<lparr>ks_stall_since := (ks_stall_since ?h)[i := ks_ticks ?h]\<rparr>"
    using tk assms(1,7) t(2) u by (simp add: save_outgoing_def watchdog_def i_def Let_def)
  have sq: "same_queue p ?u" using same_queue_trans[OF t(1) same_queue_ops(2)] .
  then have fu: "fq_ok ?u" "pending_records ?u = pending_records p" using same_queueD pub(1) by blast+
  have "pending_records (save_outgoing f t) = pending_records (publish (word_of_nat i) Hang (snapshot_capture (word_of_nat i) ?saved) ?u)"
    unfolding so record_hang_def sn_pid_capture using same_queueD[OF same_queue_ops(5)]
    by (simp add: pending_records_def)
  also have "\<dots> = take FAULT_QUEUE_LEN (pending_records p @ [record_of ?u (word_of_nat i) Hang (snapshot_capture (word_of_nat i) ?saved)])"
    using publish_queue[OF fu(1)] fu(2) by simp
  finally have sv: "map (\<lambda>r. (sn_pid (fc_snapshot r), fc_kind r)) (pending_records (save_outgoing f t)) = [(pid, PageFault), (pid, Hang)]"
    using pub(2) pid(2) by (simp add: record_of_def FAULT_QUEUE_LEN_def MAX_TASKS_def)
  have guards: "\<not> (ks_current t = 0 \<and> ks_boot_active t)" "\<not> (hw_tick f \<and> fr_cs f = KERNEL_CS \<and> ks_current t \<noteq> - 1)"
    using assms(1,7) t(2) by (simp_all add: USER_CS_def KERNEL_CS_def)
  have "pending_records (snd (schedule f t)) = pending_records (save_outgoing f t)"
    unfolding schedule_def if_not_P[OF guards(1)] if_not_P[OF guards(2)] Let_def
    by (auto simp: pending_records_def split: prod.split option.split)
  moreover have "snd (intercept f PageFault s) = snd (schedule f t)"
    using assms(7) by (simp add: intercept_def t_def p_def pid_def Let_def USER_CS_def KERNEL_CS_def)
  ultimately show ?thesis using sv by (simp add: pid_def)
qed

end
