(* ===== verification/Kernel_Syscall.thy ===== *)
theory Kernel_Syscall
  imports Kernel_Fault Kernel_Paging Kernel_Socket
begin

text \<open>
  The system-call gate and the interrupt dispatcher of the kernel (\<open>aios-kernel/src/syscalls.rs\<close>,
  \<open>aios-kernel/src/interrupts.rs\<close>, and the client calls of \<open>aios-kernel/src/gui.rs\<close>), on top of the scheduler,
  the fault path, the sockets and the page tables.  User pointers are read and written byte by byte through the
  page tables, in the physical memory of the paging model.

  The statics of the kernel are fields of the state, and the physical bytes that hold them (with its code and its
  stacks) are given by a predicate.  The copies do not keep away from those bytes: an access that reaches one of them
  ends the model, because what the kernel does afterwards is not determined by the fields.  An access that the
  processor refuses in kernel mode (a non-canonical address, which \<open>translate\<close> does not notice, or a page that may
  not be written, the boot protocol handing over with write protection on) halts the machine.

  Left out: log lines, the interrupt-controller acknowledgements and the placement of windows on the screen,
  none of which any of these operations reads back.
\<close>

unbundle bit_operations_syntax

subsection \<open>State\<close>

definition MAX_PID :: nat where "MAX_PID = 7"
definition MAILBOX_DEPTH :: nat where "MAILBOX_DEPTH = 16"
abbreviation SOCK_IO_CAP :: nat where "SOCK_IO_CAP \<equiv> 1600"
definition SYS_STR_CAP :: nat where "SYS_STR_CAP = 64"
abbreviation MAX_CLIENTS :: nat where "MAX_CLIENTS \<equiv> 4"
abbreviation CLIENT_TITLE_CAP :: nat where "CLIENT_TITLE_CAP \<equiv> 24"
abbreviation CLIENT_MAX_W :: nat where "CLIENT_MAX_W \<equiv> 512"
abbreviation CLIENT_MAX_H :: nat where "CLIENT_MAX_H \<equiv> 512"
definition CLIENT_BUF_CAP :: nat where "CLIENT_BUF_CAP = 512 * 512 * 4"
abbreviation EV_NONE :: u64 where "EV_NONE \<equiv> 0"
definition KEY_FIFO_LEN :: nat where "KEY_FIFO_LEN = 256"

abbreviation SYS_SEND :: u64 where "SYS_SEND \<equiv> 1"
abbreviation SYS_RECV :: u64 where "SYS_RECV \<equiv> 2"
abbreviation SYS_WRITE :: u64 where "SYS_WRITE \<equiv> 3"
abbreviation SYS_GETPID :: u64 where "SYS_GETPID \<equiv> 4"
abbreviation SYS_SLEEP :: u64 where "SYS_SLEEP \<equiv> 5"
abbreviation SYS_GUI :: u64 where "SYS_GUI \<equiv> 6"
abbreviation SYS_PING :: u64 where "SYS_PING \<equiv> 7"
abbreviation SYS_FAULT_POLL :: u64 where "SYS_FAULT_POLL \<equiv> 8"
abbreviation SYS_SOCKET :: u64 where "SYS_SOCKET \<equiv> 9"
abbreviation SYS_SOCK_BIND :: u64 where "SYS_SOCK_BIND \<equiv> 10"
abbreviation SYS_SOCK_CONNECT :: u64 where "SYS_SOCK_CONNECT \<equiv> 11"
abbreviation SYS_SOCK_SEND :: u64 where "SYS_SOCK_SEND \<equiv> 12"
abbreviation SYS_SOCK_RECV :: u64 where "SYS_SOCK_RECV \<equiv> 13"
abbreviation SYS_SOCK_CLOSE :: u64 where "SYS_SOCK_CLOSE \<equiv> 14"
abbreviation SYS_SOCK_STATUS :: u64 where "SYS_SOCK_STATUS \<equiv> 15"
abbreviation SYS_SOCK_LISTEN :: u64 where "SYS_SOCK_LISTEN \<equiv> 16"
abbreviation SYS_SOCK_ACCEPT :: u64 where "SYS_SOCK_ACCEPT \<equiv> 17"
abbreviation SYS_SOCK_ADDR :: u64 where "SYS_SOCK_ADDR \<equiv> 18"

record mailbox =
  mb_buf :: "u64 list"
  mb_srcs :: "u32 list"
  mb_head :: nat
  mb_len :: nat

definition mailbox_new :: mailbox where
  "mailbox_new = \<lparr>mb_buf = replicate MAILBOX_DEPTH 0, mb_srcs = replicate MAILBOX_DEPTH 0, mb_head = 0, mb_len = 0\<rparr>"

record client_win =
  cw_pid :: u32
  cw_w :: nat
  cw_h :: nat
  cw_buf :: u64
  cw_title :: bytes
  cw_event :: u64

record key_fifo =
  kf_tail :: nat
  kf_head :: nat
  kf_slots :: bytes

text \<open>
  The statics of the three modules and of those below them.  The tick counter is a field of the scheduler
  state and of the network state, which read it; a timer interrupt advances both.
\<close>

record sys =
  sy_sched :: kst
  sy_socks :: socks
  sy_mach :: machine
  sy_boxes :: "mailbox list"
  sy_sent_total :: u64
  sy_recv_total :: u64
  sy_first_seen :: "bool list"
  sy_getpid_seen :: "bool list"
  sy_write_calls :: "u64 list"
  sy_console :: bytes
  sy_clients :: "client_win option list"
  sy_keys :: key_fifo
  sy_last_scancode :: u64
  sy_irq32_seen :: bool
  sy_probe_active :: bool
  sy_probe_faulted :: bool
  sy_kernel :: "u64 \<Rightarrow> bool"

text \<open>
  The statics at boot, on given states of the scheduler, the network and the memory; \<open>ker\<close> tells which physical bytes
  the kernel occupies.
\<close>

definition sys_boot :: "(u64 \<Rightarrow> bool) \<Rightarrow> kst \<Rightarrow> net \<Rightarrow> machine \<Rightarrow> sys" where
  "sys_boot ker k n m = \<lparr>sy_sched = k, sy_socks = \<lparr>ss_tab = replicate MAX_SOCKS sock_empty, ss_next_port = 49152, ss_net = n\<rparr>,
     sy_mach = m, sy_boxes = replicate MAX_PID mailbox_new, sy_sent_total = 0, sy_recv_total = 0,
     sy_first_seen = replicate MAX_PID False, sy_getpid_seen = replicate MAX_PID False, sy_write_calls = replicate MAX_PID 0,
     sy_console = [], sy_clients = replicate MAX_CLIENTS None,
     sy_keys = \<lparr>kf_tail = 0, kf_head = 0, kf_slots = replicate KEY_FIFO_LEN 0\<rparr>, sy_last_scancode = 0, sy_irq32_seen = False,
     sy_probe_active = False, sy_probe_faulted = False, sy_kernel = ker\<rparr>"

subsection \<open>Mailboxes\<close>

definition ipc_send :: "u32 \<Rightarrow> u32 \<Rightarrow> u64 \<Rightarrow> sys \<Rightarrow> bool \<times> sys" where
  "ipc_send src dst v s =
     (let d = unat dst in
      if d = 0 \<or> d \<ge> MAX_PID \<or> src = dst then (False, s)
      else let mb = sy_boxes s ! d in
        if mb_len mb \<ge> MAILBOX_DEPTH then (False, s)
        else let tail = (mb_head mb + mb_len mb) mod MAILBOX_DEPTH in
          (True, s\<lparr>sy_boxes := (sy_boxes s)[d := mb\<lparr>mb_buf := (mb_buf mb)[tail := v], mb_srcs := (mb_srcs mb)[tail := src],
                     mb_len := mb_len mb + 1\<rparr>], sy_sent_total := sy_sent_total s + 1\<rparr>))"

definition ipc_recv :: "u32 \<Rightarrow> sys \<Rightarrow> (u32 \<times> u64) option \<times> sys" where
  "ipc_recv dst s =
     (let d = unat dst in
      if d = 0 \<or> d \<ge> MAX_PID then (None, s)
      else let mb = sy_boxes s ! d in
        if mb_len mb = 0 then (None, s)
        else (Some (mb_srcs mb ! mb_head mb, mb_buf mb ! mb_head mb),
              s\<lparr>sy_boxes := (sy_boxes s)[d := mb\<lparr>mb_head := (mb_head mb + 1) mod MAILBOX_DEPTH, mb_len := mb_len mb - 1\<rparr>],
                sy_recv_total := sy_recv_total s + 1\<rparr>))"

definition mailbox_len :: "u32 \<Rightarrow> sys \<Rightarrow> nat" where
  "mailbox_len pid s = (let d = unat pid in if d = 0 \<or> d \<ge> MAX_PID then 0 else mb_len (sy_boxes s ! d))"

subsection \<open>The keyboard queue\<close>

definition key_push :: "u8 \<Rightarrow> key_fifo \<Rightarrow> key_fifo" where
  "key_push b k =
     (let nxt = (kf_head k + 1) mod KEY_FIFO_LEN in
      if nxt = kf_tail k then k else k\<lparr>kf_slots := (kf_slots k)[kf_head k := b], kf_head := nxt\<rparr>)"

definition key_pop :: "key_fifo \<Rightarrow> u8 option \<times> key_fifo" where
  "key_pop k =
     (if kf_tail k = kf_head k then (None, k)
      else (Some (kf_slots k ! kf_tail k), k\<lparr>kf_tail := (kf_tail k + 1) mod KEY_FIFO_LEN\<rparr>))"

subsection \<open>User memory\<close>

text \<open>
  What an access in kernel mode ends with: a value, a trap of the processor, or the kernel's own memory.
\<close>

datatype 'a access = Done 'a | Trapped | Foreign

definition canonical :: "u64 \<Rightarrow> bool" where
  "canonical addr \<longleftrightarrow> addr < 0x800000000000 \<or> 0xFFFF800000000000 \<le> addr"

text \<open>Writing is allowed on every level of the tables down to the page.\<close>

definition page_writable :: "u64 \<Rightarrow> machine \<Rightarrow> bool" where
  "page_writable addr m =
     (let pml4e = read_entry (pg_cr3 m AND PTE_FRAME) (drop_bit 39 addr AND INDEX_MASK) m;
          pdpte = read_entry (pml4e AND PTE_FRAME) (drop_bit 30 addr AND INDEX_MASK) m;
          pde = read_entry (pdpte AND PTE_FRAME) (drop_bit 21 addr AND INDEX_MASK) m;
          pte = read_entry (pde AND PTE_FRAME) (drop_bit 12 addr AND INDEX_MASK) m;
          w = (\<lambda>e. e AND PTE_WRITABLE \<noteq> 0); huge = (\<lambda>e. e AND PTE_HUGE \<noteq> 0)
      in w pml4e \<and> w pdpte \<and> (huge pdpte \<or> w pde \<and> (huge pde \<or> w pte)))"

text \<open>
  One byte of physical memory, in the cell of eight bytes that holds it, and the volatile accesses through a
  virtual address, after the test that \<open>translate\<close> finds it mapped; the inner None is an address that is not.
\<close>

definition cell_of :: "u64 \<Rightarrow> machine \<Rightarrow> u64" where
  "cell_of phys m = physical_to_virtual (phys AND NOT 7) m"

definition read_byte :: "(u64 \<Rightarrow> bool) \<Rightarrow> u64 \<Rightarrow> machine \<Rightarrow> u8 option access" where
  "read_byte ker addr m =
     (case translate addr m of
        None \<Rightarrow> Done None
      | Some phys \<Rightarrow>
          if \<not> canonical addr then Trapped
          else if ker phys then Foreign
          else Done (Some (ucast (drop_bit (8 * unat (phys AND 7)) (pg_mem m (cell_of phys m))))))"

definition write_byte :: "(u64 \<Rightarrow> bool) \<Rightarrow> u64 \<Rightarrow> u8 \<Rightarrow> machine \<Rightarrow> machine option access" where
  "write_byte ker addr b m =
     (case translate addr m of
        None \<Rightarrow> Done None
      | Some phys \<Rightarrow>
          if \<not> canonical addr \<or> \<not> page_writable addr m then Trapped
          else if ker phys then Foreign
          else let k = 8 * unat (phys AND 7); c = pg_mem m (cell_of phys m) in
            Done (Some (m\<lparr>pg_mem := (pg_mem m)(cell_of phys m := (c AND NOT (push_bit k 0xFF)) OR push_bit k (ucast b))\<rparr>)))"

fun user_read :: "(u64 \<Rightarrow> bool) \<Rightarrow> u64 \<Rightarrow> nat \<Rightarrow> machine \<Rightarrow> bytes access" where
  "user_read ker ptr 0 m = Done []"
| "user_read ker ptr (Suc k) m =
     (case read_byte ker ptr m of
        Done None \<Rightarrow> Done []
      | Done (Some b) \<Rightarrow> map_access (\<lambda>bs. b # bs) (user_read ker (ptr + 1) k m)
      | Trapped \<Rightarrow> Trapped
      | Foreign \<Rightarrow> Foreign)"

fun user_write :: "(u64 \<Rightarrow> bool) \<Rightarrow> u64 \<Rightarrow> bytes \<Rightarrow> machine \<Rightarrow> (nat \<times> machine) access" where
  "user_write ker ptr [] m = Done (0, m)"
| "user_write ker ptr (b # bs) m =
     (case write_byte ker ptr b m of
        Done None \<Rightarrow> Done (0, m)
      | Done (Some m1) \<Rightarrow> map_access (\<lambda>(n, m2). (n + 1, m2)) (user_write ker (ptr + 1) bs m1)
      | Trapped \<Rightarrow> Trapped
      | Foreign \<Rightarrow> Foreign)"

text \<open>
  The copy of a NUL-terminated string: \<open>keep\<close> tells which bytes are stored, the others are skipped, and the loop
  ends at the capacity, at an unmapped address or at the NUL.
\<close>

partial_function (option) copy_string ::
  "(u64 \<Rightarrow> bool) \<Rightarrow> nat \<Rightarrow> (u8 \<Rightarrow> bool) \<Rightarrow> machine \<Rightarrow> u64 \<Rightarrow> bytes \<Rightarrow> bytes access option" where
  "copy_string ker cap keep m ptr acc =
     (if length acc = cap then Some (Done acc)
      else case read_byte ker ptr m of
        Done None \<Rightarrow> Some (Done acc)
      | Done (Some b) \<Rightarrow>
          if b = 0 then Some (Done acc)
          else copy_string ker cap keep m (ptr + 1) (if keep b then acc @ [b] else acc)
      | Trapped \<Rightarrow> Some Trapped
      | Foreign \<Rightarrow> Some Foreign)"

definition printable :: "u8 \<Rightarrow> bool" where
  "printable b \<longleftrightarrow> 0x20 \<le> b \<and> b \<le> 0x7E"

definition console_byte :: "u8 \<Rightarrow> bool" where
  "console_byte b \<longleftrightarrow> b = 0x0A \<or> b = 0x09 \<or> printable b"

definition write_user_string :: "interrupt_frame \<Rightarrow> sys \<Rightarrow> (nat \<times> sys) access option" where
  "write_user_string f s =
     map_option (map_access (\<lambda>bs. (length bs, s\<lparr>sy_console := sy_console s @ bs\<rparr>)))
       (copy_string (sy_kernel s) SYS_STR_CAP console_byte (sy_mach s) (fr_rsi f) [])"

subsection \<open>Bookkeeping of the gate\<close>

definition note_first :: "u32 \<Rightarrow> sys \<Rightarrow> sys" where
  "note_first pid s =
     (let i = unat pid in if i = 0 \<or> i \<ge> MAX_PID then s else s\<lparr>sy_first_seen := (sy_first_seen s)[i := True]\<rparr>)"

definition note_getpid :: "u32 \<Rightarrow> sys \<Rightarrow> sys" where
  "note_getpid pid s =
     (let i = unat pid in if i = 0 \<or> i \<ge> MAX_PID then s else s\<lparr>sy_getpid_seen := (sy_getpid_seen s)[i := True]\<rparr>)"

definition count_write :: "u32 \<Rightarrow> sys \<Rightarrow> sys" where
  "count_write pid s =
     (let i = unat pid in
      if i = 0 \<or> i \<ge> MAX_PID then s else s\<lparr>sy_write_calls := (sy_write_calls s)[i := sy_write_calls s ! i + 1]\<rparr>)"

definition sock_owned :: "u32 \<Rightarrow> nat \<Rightarrow> socks \<Rightarrow> bool" where
  "sock_owned pid fd s = (sock_owner fd s = pid \<and> pid \<noteq> 0)"

subsection \<open>Client windows\<close>

definition client_idx_of :: "u32 \<Rightarrow> sys \<Rightarrow> nat option" where
  "client_idx_of pid s = position (\<lambda>c. case c of None \<Rightarrow> False | Some c \<Rightarrow> cw_pid c = pid) (sy_clients s)"

definition take_client_event :: "u32 \<Rightarrow> sys \<Rightarrow> u64 option \<times> sys" where
  "take_client_event pid s =
     (case client_idx_of pid s of
        None \<Rightarrow> (None, s)
      | Some i \<Rightarrow> (case sy_clients s ! i of
            None \<Rightarrow> (None, s)
          | Some c \<Rightarrow> (Some (cw_event c), s\<lparr>sy_clients := (sy_clients s)[i := Some (c\<lparr>cw_event := EV_NONE\<rparr>)]\<rparr>)))"

definition create_client :: "u32 \<Rightarrow> nat \<Rightarrow> nat \<Rightarrow> u64 \<Rightarrow> bytes \<Rightarrow> sys \<Rightarrow> u64 \<times> sys" where
  "create_client pid w h buf title s =
     (case (case client_idx_of pid s of Some i \<Rightarrow> Some i | None \<Rightarrow> position (\<lambda>c. c = None) (sy_clients s)) of
        None \<Rightarrow> (- 1, s)
      | Some i \<Rightarrow> (word_of_nat i, s\<lparr>sy_clients := (sy_clients s)
          [i := Some \<lparr>cw_pid = pid, cw_w = w, cw_h = h, cw_buf = buf, cw_title = title, cw_event = EV_NONE\<rparr>]\<rparr>))"

text \<open>A little-endian 32-bit field of the request structure.\<close>

definition word32_at :: "nat \<Rightarrow> bytes \<Rightarrow> u32" where
  "word32_at i bs =
     ucast (bs ! i) OR push_bit 8 (ucast (bs ! (i + 1))) OR push_bit 16 (ucast (bs ! (i + 2))) OR push_bit 24 (ucast (bs ! (i + 3)))"

definition mapped :: "u64 \<Rightarrow> machine \<Rightarrow> bool" where
  "mapped addr m \<longleftrightarrow> translate addr m \<noteq> None"

text \<open>
  The request lies in one or two pages, the first and the last of which are tested, so that all of its sixteen bytes are
  mapped.  The value is the new content of \<open>rax\<close>.
\<close>

definition client_create :: "u32 \<Rightarrow> u64 \<Rightarrow> sys \<Rightarrow> (u64 \<times> sys) access option" where
  "client_create pid req s =
     (let m = sy_mach s in
      if \<not> (mapped req m \<and> mapped (req + 15) m) then Some (Done (- 1, s))
      else case user_read (sy_kernel s) req 16 m of
          Trapped \<Rightarrow> Some Trapped
        | Foreign \<Rightarrow> Some Foreign
        | Done bs \<Rightarrow>
            if length bs \<noteq> 16 then None
            else let w = unat (word32_at 0 bs); h = unat (word32_at 4 bs); buf = ucast (word32_at 8 bs); area = w * h * 4 in
             if w < 8 \<or> h < 8 \<or> w > CLIENT_MAX_W \<or> h > CLIENT_MAX_H then Some (Done (- 1, s))
             else if area > CLIENT_BUF_CAP \<or> \<not> mapped buf m \<or> \<not> mapped (buf + word_of_nat area - 1) m then Some (Done (- 1, s))
             else map_option (map_access (\<lambda>title. create_client pid w h buf title s))
                    (copy_string (sy_kernel s) CLIENT_TITLE_CAP printable m (ucast (word32_at 12 bs)) []))"

definition client_syscall :: "u32 \<Rightarrow> interrupt_frame \<Rightarrow> sys \<Rightarrow> (u64 \<times> sys) access option" where
  "client_syscall pid f s =
     (if fr_rdi f = 0 then client_create pid (fr_rsi f) s
      else if fr_rdi f = 1 then Some (Done (case client_idx_of pid s of Some _ \<Rightarrow> 1 | None \<Rightarrow> - 1, s))
      else if fr_rdi f = 2
      then (let (e, s1) = take_client_event pid s in Some (Done (case e of Some v \<Rightarrow> v | None \<Rightarrow> - 1, s1)))
      else Some (Done (- 1, s)))"

subsection \<open>Socket calls\<close>

definition le32 :: "u32 \<Rightarrow> bytes" where
  "le32 v = map (\<lambda>k. ucast (drop_bit (8 * k) v)) [0..<4]"

definition of_be32 :: "bytes \<Rightarrow> u32" where
  "of_be32 bs = fold (\<lambda>b v. push_bit 8 v OR ucast b) bs 0"

definition bool_word :: "bool \<Rightarrow> u64" where
  "bool_word b = (if b then 1 else 0)"

text \<open>Each call gives the new content of \<open>rax\<close>, the sockets and the memory.\<close>

definition sys_sock_open :: "u32 \<Rightarrow> u64 \<Rightarrow> socks \<Rightarrow> u64 \<times> socks" where
  "sys_sock_open pid k ss =
     (case sock_open pid (if k = 1 then Tcp else Udp) ss of (Some fd, ss1) \<Rightarrow> (word_of_nat fd, ss1) | (None, ss1) \<Rightarrow> (- 1, ss1))"

definition sys_sock_bind :: "u32 \<Rightarrow> nat \<Rightarrow> u64 \<Rightarrow> socks \<Rightarrow> u64 \<times> socks" where
  "sys_sock_bind pid fd port ss =
     (if sock_owned pid fd ss then (let (ok, ss1) = sock_bind fd (ucast port) ss in (bool_word ok, ss1)) else (0, ss))"

definition sys_sock_connect :: "u32 \<Rightarrow> nat \<Rightarrow> u64 \<Rightarrow> u64 \<Rightarrow> socks \<Rightarrow> u64 \<times> socks" where
  "sys_sock_connect pid fd ip port ss =
     (if sock_owned pid fd ss
      then (let (ok, ss1) = sock_connect fd (be32 (ucast ip)) (ucast port) ss in (bool_word ok, ss1)) else (0, ss))"

definition sys_sock_send :: "(u64 \<Rightarrow> bool) \<Rightarrow> u32 \<Rightarrow> nat \<Rightarrow> u64 \<Rightarrow> u64 \<Rightarrow> machine \<Rightarrow> socks \<Rightarrow> (u64 \<times> socks) access" where
  "sys_sock_send ker pid fd ptr len m ss =
     (if \<not> sock_owned pid fd ss then Done (- 1, ss)
      else map_access (\<lambda>bs. case sock_send fd bs ss of
          (Some w, ss1) \<Rightarrow> (word_of_nat w, ss1)
        | (None, ss1) \<Rightarrow> (- 1, ss1)) (user_read ker ptr (min (unat len) SOCK_IO_CAP) m))"

definition sys_sock_recv ::
  "(u64 \<Rightarrow> bool) \<Rightarrow> u32 \<Rightarrow> nat \<Rightarrow> u64 \<Rightarrow> u64 \<Rightarrow> machine \<Rightarrow> socks \<Rightarrow> (u64 \<times> machine \<times> socks) access" where
  "sys_sock_recv ker pid fd ptr len m ss =
     (if \<not> sock_owned pid fd ss then Done (- 1, m, ss)
      else case sock_recv fd (min (unat len) SOCK_IO_CAP) ss of
          (Some bs, ss1) \<Rightarrow>
            if bs = [] then Done (0, m, ss1) else map_access (\<lambda>(w, m1). (word_of_nat w, m1, ss1)) (user_write ker ptr bs m)
        | (None, ss1) \<Rightarrow> Done (- 1, m, ss1))"

definition sys_sock_close :: "u32 \<Rightarrow> nat \<Rightarrow> socks \<Rightarrow> u64 \<times> socks" where
  "sys_sock_close pid fd ss = (0, if sock_owned pid fd ss then sock_close fd ss else ss)"

definition sys_sock_status :: "(u64 \<Rightarrow> bool) \<Rightarrow> nat \<Rightarrow> u64 \<Rightarrow> machine \<Rightarrow> socks \<Rightarrow> (u64 \<times> machine) access" where
  "sys_sock_status ker fd ptr m ss =
     (let v = ucast (sock_status fd ss) in
      if ptr \<noteq> 0
      then (case cc_info fd ss of
              None \<Rightarrow> Done (v, m)
            | Some (cwnd, ssthresh, wscale, peer_wscale) \<Rightarrow>
                map_access (\<lambda>(_, m1). (v, m1)) (user_write ker ptr (le32 cwnd @ le32 ssthresh @ [wscale, peer_wscale]) m))
      else Done (v, m))"

definition sys_sock_listen :: "u32 \<Rightarrow> nat \<Rightarrow> socks \<Rightarrow> u64 \<times> socks" where
  "sys_sock_listen pid fd ss =
     (if sock_owned pid fd ss then (let (ok, ss1) = sock_listen fd ss in (bool_word ok, ss1)) else (0, ss))"

definition sys_sock_accept :: "u32 \<Rightarrow> nat \<Rightarrow> socks \<Rightarrow> u64 \<times> socks" where
  "sys_sock_accept pid fd ss =
     (if \<not> sock_owned pid fd ss then (- 1, ss)
      else case sock_accept fd ss of (Some c, ss1) \<Rightarrow> (word_of_nat c, ss1) | (None, ss1) \<Rightarrow> (- 1, ss1))"

definition sys_sock_addr :: "socks \<Rightarrow> u64" where
  "sys_sock_addr ss = ucast (of_be32 (bound_ip (ss_net ss)))"

text \<open>The arms of the dispatcher that work on sockets.\<close>

definition sock_syscall :: "u32 \<Rightarrow> interrupt_frame \<Rightarrow> sys \<Rightarrow> (u64 \<times> sys) access" where
  "sock_syscall pid f s =
     (let nr = fr_rax f; fd = unat (fr_rdi f); m = sy_mach s; ss = sy_socks s; ker = sy_kernel s;
          on_socks = (\<lambda>(v, ss1). (v, s\<lparr>sy_socks := ss1\<rparr>))
      in if nr = SYS_SOCKET then Done (on_socks (sys_sock_open pid (fr_rdi f) ss))
         else if nr = SYS_SOCK_BIND then Done (on_socks (sys_sock_bind pid fd (fr_rsi f) ss))
         else if nr = SYS_SOCK_CONNECT then Done (on_socks (sys_sock_connect pid fd (fr_rsi f) (fr_rdx f) ss))
         else if nr = SYS_SOCK_SEND then map_access on_socks (sys_sock_send ker pid fd (fr_rsi f) (fr_rdx f) m ss)
         else if nr = SYS_SOCK_RECV
         then map_access (\<lambda>(v, m1, ss1). (v, s\<lparr>sy_mach := m1, sy_socks := ss1\<rparr>)) (sys_sock_recv ker pid fd (fr_rsi f) (fr_rdx f) m ss)
         else if nr = SYS_SOCK_CLOSE then Done (on_socks (sys_sock_close pid fd ss))
         else if nr = SYS_SOCK_STATUS
         then map_access (\<lambda>(v, m1). (v, s\<lparr>sy_mach := m1\<rparr>)) (sys_sock_status ker fd (fr_rsi f) m ss)
         else if nr = SYS_SOCK_LISTEN then Done (on_socks (sys_sock_listen pid fd ss))
         else if nr = SYS_SOCK_ACCEPT then Done (on_socks (sys_sock_accept pid fd ss))
         else Done (sys_sock_addr ss, s))"

subsection \<open>The gate\<close>

text \<open>
  The outcome, the trap frame as the handler leaves it in memory, and the state; None when the handler does not
  return or has reached the memory of the kernel.  When another task is resumed, the frame in memory is dead.
\<close>

type_synonym handled = "(outcome \<times> interrupt_frame \<times> sys) option"

definition answer :: "interrupt_frame \<Rightarrow> u64 \<times> sys \<Rightarrow> handled" where
  "answer f p = Some (Return, f\<lparr>fr_rax := fst p\<rparr>, snd p)"

text \<open>
  A trap inside the handler halts the machine, unless the guarded register read is in progress, which would be
  taken for the origin of the trap.
\<close>

definition finish :: "interrupt_frame \<Rightarrow> sys \<Rightarrow> (u64 \<times> sys) access \<Rightarrow> handled" where
  "finish f s a =
     (case a of
        Done p \<Rightarrow> answer f p
      | Trapped \<Rightarrow> if sy_probe_active s then None else Some (Halt, f, s)
      | Foreign \<Rightarrow> None)"

definition on_sched :: "interrupt_frame \<Rightarrow> outcome \<times> kst \<Rightarrow> sys \<Rightarrow> handled" where
  "on_sched f p s = Some (fst p, f, s\<lparr>sy_sched := snd p\<rparr>)"

definition syscall :: "interrupt_frame \<Rightarrow> sys \<Rightarrow> handled" where
  "syscall f s0 =
     (let pid = current_pid (sy_sched s0);
          s1 = note_first pid s0;
          s = s1\<lparr>sy_sched := note_activity pid (sy_sched s1)\<rparr>;
          nr = fr_rax f
      in if nr = SYS_SEND then (let (ok, s2) = ipc_send pid (ucast (fr_rdi f)) (fr_rcx f) s in answer f (bool_word ok, s2))
         else if nr = SYS_RECV
         then (case ipc_recv pid s of
                 (Some (src, v), s2) \<Rightarrow> answer (f\<lparr>fr_rcx := v\<rparr>) (ucast src, s2)
               | (None, s2) \<Rightarrow> answer f (- 1, s2))
         else if nr = SYS_WRITE
         then Option.bind (write_user_string f s) (\<lambda>a. finish f s (map_access (\<lambda>(n, s2). (word_of_nat n, count_write pid s2)) a))
         else if nr = SYS_GETPID then answer f (ucast pid, note_getpid pid s)
         else if nr = SYS_SLEEP
         then (let f1 = f\<lparr>fr_rax := 0\<rparr> in on_sched f1 (sleep_current f1 (fr_rdi f) (sy_sched s)) s)
         else if nr = SYS_GUI then Option.bind (client_syscall pid f s) (finish f s)
         else if nr = SYS_PING then answer f (0, s)
         else if nr = SYS_FAULT_POLL
         then (let (e, k) = poll_event (sy_sched s); s2 = s\<lparr>sy_sched := k\<rparr> in
               case e of
                 Some ev \<Rightarrow> answer (f\<lparr>fr_rcx := fe_rip ev, fr_rdx := ucast (fe_kind ev) OR push_bit 32 (ucast (fe_count ev))\<rparr>) (ucast (fe_pid ev), s2)
               | None \<Rightarrow> answer f (- 1, s2))
         else if SYS_SOCKET \<le> nr \<and> nr \<le> SYS_SOCK_ADDR then finish f s (sock_syscall pid f s)
         else answer f (- 1, s))"

subsection \<open>Interrupts\<close>

abbreviation IRQ_BASE :: u64 where "IRQ_BASE \<equiv> 0x20"
abbreviation IRQ_END :: u64 where "IRQ_END \<equiv> 0x2F"

definition on_probe_gp :: "u64 \<Rightarrow> interrupt_frame \<Rightarrow> sys \<Rightarrow> handled" where
  "on_probe_gp stub f s =
     Some (Return, f\<lparr>fr_rip := stub, fr_error_code := 0\<rparr>, s\<lparr>sy_probe_faulted := True, sy_probe_active := False\<rparr>)"

definition timer_irq :: "interrupt_frame \<Rightarrow> sys \<Rightarrow> handled" where
  "timer_irq f s =
     (let now = ks_ticks (sy_sched s) + 1;
          s1 = s\<lparr>sy_irq32_seen := True, sy_sched := (sy_sched s)\<lparr>ks_ticks := now\<rparr>,
                 sy_socks := (sy_socks s)\<lparr>ss_net := (ss_net (sy_socks s))\<lparr>nt_ticks := now\<rparr>\<rparr>\<rparr>
      in on_sched f (sched_tick f (sy_sched s1)) s1)"

definition user_fault :: "fault_code \<Rightarrow> interrupt_frame \<Rightarrow> sys \<Rightarrow> handled" where
  "user_fault k f s =
     (if fr_cs f = KERNEL_CS then Some (Halt, f, s) else on_sched f (intercept f k (sy_sched s)) s)"

text \<open>
  The dispatcher; \<open>stub\<close> is the address of the fault stub of the guarded register read, \<open>key\<close> the byte that the keyboard
  port delivers.
\<close>

definition aios_handle_interrupt :: "u64 \<Rightarrow> u8 \<Rightarrow> interrupt_frame \<Rightarrow> sys \<Rightarrow> handled" where
  "aios_handle_interrupt stub key f s =
     (let v = fr_vector f in
      if v = 0 then user_fault DivideError f s
      else if v = 6 then user_fault InvalidOpcode f s
      else if v = 8 then Some (Halt, f, s)
      else if v = 13 then (if sy_probe_active s then on_probe_gp stub f s else user_fault GeneralProtection f s)
      else if v = 14 then user_fault PageFault f s
      else if IRQ_BASE \<le> v \<and> v \<le> IRQ_END
      then (if v = 32 then timer_irq f s
            else if v = 33 then Some (Return, f, s\<lparr>sy_last_scancode := ucast key, sy_keys := key_push key (sy_keys s)\<rparr>)
            else Some (Return, f, s))
      else if v = APIC_TIMER_VECTOR then timer_irq f s
      else if v = 128 then syscall f s
      else if v = 250 then on_sched f (schedule f (sy_sched s)) s
      else Some (Halt, f, s))"

end
