(* ===== verification/Kernel_Gate.thy ===== *)
theory Kernel_Gate
  imports Kernel_Syscall
begin

text \<open>
  What the system-call gate promises: messages between tasks are delivered in order and without loss after they were
  accepted, a task cannot change the sockets, the windows or the saved registers of another one by its calls, and a
  console write copies exactly the printable part of the string.
\<close>

subsection \<open>Mailboxes are queues\<close>

definition box_ok :: "mailbox \<Rightarrow> bool" where
  "box_ok mb \<longleftrightarrow> length (mb_buf mb) = MAILBOX_DEPTH \<and> length (mb_srcs mb) = MAILBOX_DEPTH \<and> mb_head mb < MAILBOX_DEPTH \<and>
     mb_len mb \<le> MAILBOX_DEPTH"

definition box_contents :: "mailbox \<Rightarrow> (u32 \<times> u64) list" where
  "box_contents mb = zip (ring_list (mb_srcs mb) (mb_head mb) (mb_len mb)) (ring_list (mb_buf mb) (mb_head mb) (mb_len mb))"

definition boxes_ok :: "sys \<Rightarrow> bool" where
  "boxes_ok s \<longleftrightarrow> length (sy_boxes s) = MAX_PID \<and> (\<forall>mb\<in>set (sy_boxes s). box_ok mb)"

definition valid_box :: "u32 \<Rightarrow> bool" where
  "valid_box d \<longleftrightarrow> unat d \<noteq> 0 \<and> unat d < MAX_PID"

definition box_items :: "u32 \<Rightarrow> sys \<Rightarrow> (u32 \<times> u64) list" where
  "box_items d s = (if valid_box d then box_contents (sy_boxes s ! unat d) else [])"

lemma box_contents_length: "length (box_contents mb) = mb_len mb"
  by (simp add: box_contents_def)

lemma box_put:
  assumes "box_ok mb" "mb_len mb < MAILBOX_DEPTH" "tail = (mb_head mb + mb_len mb) mod MAILBOX_DEPTH"
  shows "box_ok (mb\<lparr>mb_buf := (mb_buf mb)[tail := v], mb_srcs := (mb_srcs mb)[tail := src], mb_len := mb_len mb + 1\<rparr>)"
    "box_contents (mb\<lparr>mb_buf := (mb_buf mb)[tail := v], mb_srcs := (mb_srcs mb)[tail := src], mb_len := mb_len mb + 1\<rparr>) =
       box_contents mb @ [(src, v)]"
  using assms ring_list_push[of "mb_len mb" "mb_buf mb" "mb_head mb" v] ring_list_push[of "mb_len mb" "mb_srcs mb" "mb_head mb" src]
  by (simp_all add: box_ok_def box_contents_def)

lemma box_take:
  assumes "box_ok mb" "0 < mb_len mb"
  shows "box_ok (mb\<lparr>mb_head := (mb_head mb + 1) mod MAILBOX_DEPTH, mb_len := mb_len mb - 1\<rparr>)"
    "box_contents mb = (mb_srcs mb ! mb_head mb, mb_buf mb ! mb_head mb) #
       box_contents (mb\<lparr>mb_head := (mb_head mb + 1) mod MAILBOX_DEPTH, mb_len := mb_len mb - 1\<rparr>)"
  using assms ring_list_pop[of "mb_head mb" "mb_buf mb" "mb_len mb"] ring_list_pop[of "mb_head mb" "mb_srcs mb" "mb_len mb"]
  by (auto simp: box_ok_def box_contents_def MAILBOX_DEPTH_def)

lemma other_box: "d \<noteq> dst \<Longrightarrow> bs[unat (dst :: u32) := x] ! unat d = bs ! unat d"
  by (metis nth_list_update_neq word_unat_eq_iff)

lemma send_effect:
  assumes "boxes_ok s"
  shows "boxes_ok (snd (ipc_send src dst v s)) \<and>
    (fst (ipc_send src dst v s) \<longleftrightarrow> valid_box dst \<and> src \<noteq> dst \<and> length (box_items dst s) < MAILBOX_DEPTH) \<and>
    box_items d (snd (ipc_send src dst v s)) = (if fst (ipc_send src dst v s) \<and> d = dst then box_items d s @ [(src, v)] else box_items d s)"
proof (cases "valid_box dst \<and> src \<noteq> dst \<and> mb_len (sy_boxes s ! unat dst) < MAILBOX_DEPTH")
  case False
  then have "ipc_send src dst v s = (False, s)" by (auto simp: ipc_send_def valid_box_def Let_def)
  then show ?thesis using False assms by (auto simp: box_items_def box_contents_length)
next
  case True
  let ?mb = "sy_boxes s ! unat dst"
  define tail where "tail = (mb_head ?mb + mb_len ?mb) mod MAILBOX_DEPTH"
  let ?nb = "?mb\<lparr>mb_buf := (mb_buf ?mb)[tail := v], mb_srcs := (mb_srcs ?mb)[tail := src], mb_len := mb_len ?mb + 1\<rparr>"
  have i: "unat dst < length (sy_boxes s)" using True assms by (simp add: valid_box_def boxes_ok_def)
  then have ok: "box_ok ?mb" using assms by (simp add: boxes_ok_def)
  have e: "ipc_send src dst v s = (True, s\<lparr>sy_boxes := (sy_boxes s)[unat dst := ?nb], sy_sent_total := sy_sent_total s + 1\<rparr>)"
    using True by (simp add: ipc_send_def valid_box_def tail_def Let_def)
  have "boxes_ok (snd (ipc_send src dst v s))"
    using assms box_put(1)[OF ok _ tail_def] True e set_update_subset_insert[of "sy_boxes s" "unat dst" ?nb]
    by (auto simp: boxes_ok_def)
  moreover have "box_items d (snd (ipc_send src dst v s)) = (if d = dst then box_items d s @ [(src, v)] else box_items d s)"
    using box_put(2)[OF ok _ tail_def] True e i by (auto simp: box_items_def other_box)
  ultimately show ?thesis using True e by (simp add: box_items_def box_contents_length)
qed

lemma recv_effect:
  assumes "boxes_ok s"
  shows "boxes_ok (snd (ipc_recv dst s)) \<and>
    fst (ipc_recv dst s) = (if box_items dst s = [] then None else Some (hd (box_items dst s))) \<and>
    box_items d (snd (ipc_recv dst s)) = (if d = dst then tl (box_items d s) else box_items d s)"
proof (cases "valid_box dst \<and> 0 < mb_len (sy_boxes s ! unat dst)")
  case False
  then have "ipc_recv dst s = (None, s)" by (auto simp: ipc_recv_def valid_box_def Let_def)
  moreover have "box_items dst s = []" using False box_contents_length[of "sy_boxes s ! unat dst"] by (auto simp: box_items_def)
  ultimately show ?thesis using assms by simp
next
  case True
  let ?mb = "sy_boxes s ! unat dst"
  let ?nb = "?mb\<lparr>mb_head := (mb_head ?mb + 1) mod MAILBOX_DEPTH, mb_len := mb_len ?mb - 1\<rparr>"
  have i: "unat dst < length (sy_boxes s)" using True assms by (simp add: valid_box_def boxes_ok_def)
  then have ok: "box_ok ?mb" using assms by (simp add: boxes_ok_def)
  have e: "ipc_recv dst s = (Some (mb_srcs ?mb ! mb_head ?mb, mb_buf ?mb ! mb_head ?mb),
      s\<lparr>sy_boxes := (sy_boxes s)[unat dst := ?nb], sy_recv_total := sy_recv_total s + 1\<rparr>)"
    using True by (simp add: ipc_recv_def valid_box_def Let_def)
  note tk = box_take[OF ok conjunct2[OF True]]
  have "boxes_ok (snd (ipc_recv dst s))"
    using assms tk(1) e set_update_subset_insert[of "sy_boxes s" "unat dst" ?nb] by (auto simp: boxes_ok_def)
  moreover have "box_items dst s = (mb_srcs ?mb ! mb_head ?mb, mb_buf ?mb ! mb_head ?mb) # box_contents ?nb"
    using tk(2) True by (simp add: box_items_def)
  moreover have "box_items d (snd (ipc_recv dst s)) = (if d = dst then box_contents ?nb else box_items d s)"
    using True e i by (auto simp: box_items_def other_box)
  ultimately show ?thesis using e by simp
qed

interpretation mailbox: message_queue boxes_ok "box_items dst" MAILBOX_DEPTH "\<lambda>(src, v). valid_box dst \<and> src \<noteq> dst"
  "\<lambda>(src, v). ipc_send src dst v" "ipc_recv dst" for dst
proof unfold_locales
  fix s and x :: "u32 \<times> u64"
  assume "boxes_ok s"
  then show "boxes_ok (snd ((case x of (src, v) \<Rightarrow> ipc_send src dst v) s)) \<and>
      (fst ((case x of (src, v) \<Rightarrow> ipc_send src dst v) s) \<longleftrightarrow> (case x of (src, v) \<Rightarrow> valid_box dst \<and> src \<noteq> dst) \<and> length (box_items dst s) < MAILBOX_DEPTH) \<and>
      box_items dst (snd ((case x of (src, v) \<Rightarrow> ipc_send src dst v) s)) =
        (if (case x of (src, v) \<Rightarrow> valid_box dst \<and> src \<noteq> dst) \<and> length (box_items dst s) < MAILBOX_DEPTH then box_items dst s @ [x] else box_items dst s)"
    using send_effect[of s "fst x" dst "snd x" dst] by (simp add: case_prod_beta)
next
  fix s
  assume "boxes_ok s"
  then show "boxes_ok (snd (ipc_recv dst s)) \<and> fst (ipc_recv dst s) = (if box_items dst s = [] then None else Some (hd (box_items dst s))) \<and>
      box_items dst (snd (ipc_recv dst s)) = tl (box_items dst s)"
    using recv_effect[of s dst dst] by simp
next
  fix s
  assume "boxes_ok s"
  then show "length (box_items dst s) \<le> MAILBOX_DEPTH"
    by (auto simp: box_items_def box_contents_length boxes_ok_def valid_box_def box_ok_def)
qed

subsection \<open>The keyboard queue\<close>

definition keys_ok :: "key_fifo \<Rightarrow> bool" where
  "keys_ok k \<longleftrightarrow> length (kf_slots k) = KEY_FIFO_LEN \<and> kf_head k < KEY_FIFO_LEN \<and> kf_tail k < KEY_FIFO_LEN"

definition key_count :: "key_fifo \<Rightarrow> nat" where
  "key_count k = (kf_head k + KEY_FIFO_LEN - kf_tail k) mod KEY_FIFO_LEN"

definition key_items :: "key_fifo \<Rightarrow> bytes" where
  "key_items k = ring_list (kf_slots k) (kf_tail k) (key_count k)"

definition key_offer :: "u8 \<Rightarrow> key_fifo \<Rightarrow> bool \<times> key_fifo" where
  "key_offer b k = ((kf_head k + 1) mod KEY_FIFO_LEN \<noteq> kf_tail k, key_push b k)"

lemma key_count_cases: "keys_ok k \<Longrightarrow> key_count k = (if kf_tail k \<le> kf_head k then kf_head k - kf_tail k else kf_head k + 256 - kf_tail k)"
  by (cases "kf_tail k \<le> kf_head k") (auto simp: keys_ok_def key_count_def KEY_FIFO_LEN_def le_mod_geq)

lemma key_next: "n < 256 \<Longrightarrow> (n + 1) mod 256 = (if n = 255 then 0 else n + (1 :: nat))"
  by auto

lemma key_full: "keys_ok k \<Longrightarrow> (kf_head k + 1) mod KEY_FIFO_LEN \<noteq> kf_tail k \<longleftrightarrow> key_count k < 255"
  unfolding key_count_cases KEY_FIFO_LEN_def by (subst key_next) (auto simp: keys_ok_def KEY_FIFO_LEN_def)

lemma key_head: "keys_ok k \<Longrightarrow> (kf_tail k + key_count k) mod KEY_FIFO_LEN = kf_head k"
  unfolding key_count_cases by (auto simp: keys_ok_def KEY_FIFO_LEN_def)

lemma key_push_effect:
  assumes "keys_ok k"
  shows "keys_ok (key_push b k) \<and> key_items (key_push b k) = (if key_count k < 255 then key_items k @ [b] else key_items k)"
proof (cases "key_count k < 255")
  case False
  then have "key_push b k = k" using key_full[OF assms] by (auto simp: key_push_def)
  then show ?thesis using False assms by simp
next
  case True
  let ?k = "k\<lparr>kf_slots := (kf_slots k)[kf_head k := b], kf_head := (kf_head k + 1) mod KEY_FIFO_LEN\<rparr>"
  have k: "key_push b k = ?k" using True key_full[OF assms] by (simp add: key_push_def)
  have ok: "keys_ok ?k" using assms by (simp add: keys_ok_def KEY_FIFO_LEN_def)
  have "key_count ?k = key_count k + 1"
    using True assms unfolding key_count_cases[OF ok] key_count_cases[OF assms]
    by (auto simp: keys_ok_def KEY_FIFO_LEN_def mod_Suc split: if_splits)
  moreover have "ring_list ((kf_slots k)[(kf_tail k + key_count k) mod length (kf_slots k) := b]) (kf_tail k) (key_count k + 1) = key_items k @ [b]"
    using ring_list_push[of "key_count k" "kf_slots k" "kf_tail k" b] True assms by (simp add: key_items_def keys_ok_def KEY_FIFO_LEN_def)
  ultimately show ?thesis using True ok k key_head[OF assms] assms by (simp add: key_items_def keys_ok_def)
qed

lemma key_pop_effect:
  assumes "keys_ok k"
  shows "keys_ok (snd (key_pop k)) \<and> fst (key_pop k) = (if key_items k = [] then None else Some (hd (key_items k))) \<and>
    key_items (snd (key_pop k)) = tl (key_items k)"
proof (cases "kf_tail k = kf_head k")
  case True
  then have "key_items k = []" using key_count_cases[OF assms] by (simp add: key_items_def)
  then show ?thesis using True assms by (simp add: key_pop_def)
next
  case False
  let ?k = "k\<lparr>kf_tail := (kf_tail k + 1) mod KEY_FIFO_LEN\<rparr>"
  have ok: "keys_ok ?k" using assms by (simp add: keys_ok_def KEY_FIFO_LEN_def)
  have pos: "0 < key_count k" using False assms unfolding key_count_cases[OF assms] by (auto simp: keys_ok_def KEY_FIFO_LEN_def)
  have "key_count ?k = key_count k - 1"
    using False assms unfolding key_count_cases[OF ok] key_count_cases[OF assms]
    by (auto simp: keys_ok_def KEY_FIFO_LEN_def mod_Suc split: if_splits)
  then have "key_items k = kf_slots k ! kf_tail k # key_items ?k"
    using ring_list_pop[of "kf_tail k" "kf_slots k" "key_count k"] pos assms by (simp add: key_items_def keys_ok_def)
  then show ?thesis using False ok by (simp add: key_pop_def)
qed

interpretation keyboard: message_queue keys_ok key_items 255 "\<lambda>b. True" key_offer key_pop
proof unfold_locales
  fix k :: key_fifo and b
  assume ok: "keys_ok k"
  have "length (key_items k) = key_count k" by (simp add: key_items_def)
  then show "keys_ok (snd (key_offer b k)) \<and> (fst (key_offer b k) \<longleftrightarrow> True \<and> length (key_items k) < 255) \<and>
      key_items (snd (key_offer b k)) = (if True \<and> length (key_items k) < 255 then key_items k @ [b] else key_items k)"
    using key_push_effect[OF ok, of b] key_full[OF ok] by (simp add: key_offer_def)
next
  fix k :: key_fifo
  assume ok: "keys_ok k"
  then show "keys_ok (snd (key_pop k)) \<and> fst (key_pop k) = (if key_items k = [] then None else Some (hd (key_items k))) \<and>
      key_items (snd (key_pop k)) = tl (key_items k)"
    by (rule key_pop_effect)
  show "length (key_items k) \<le> 255"
    using ok by (simp add: key_items_def key_count_cases) (auto simp: keys_ok_def KEY_FIFO_LEN_def)
qed

subsection \<open>Runs of interrupts\<close>

text \<open>An interrupt: the address of the probe stub, the byte at the keyboard port, and the trap frame.\<close>

type_synonym irq = "u64 \<times> u8 \<times> interrupt_frame"

definition irq_step :: "irq \<Rightarrow> sys \<Rightarrow> sys option" where
  "irq_step e s =
     (case e of (stub, key, f) \<Rightarrow>
        (case aios_handle_interrupt stub key f s of
           None \<Rightarrow> None
         | Some (out, f', s') \<Rightarrow> if out = Halt then None else Some s'))"

definition actor :: "sys \<Rightarrow> u32" where
  "actor s = current_pid (sy_sched s)"

definition gate_ok :: "sys \<Rightarrow> bool" where
  "gate_ok s \<longleftrightarrow> kst_ok (sy_sched s) \<and> (\<exists>m. saved_ok (sy_sched s) m) \<and> boxes_ok s \<and> length (ss_tab (sy_socks s)) = MAX_SOCKS"

text \<open>What an interrupt may do to the scheduler.\<close>

definition sched_moves :: "kst \<Rightarrow> kst \<Rightarrow> bool" where
  "sched_moves k k' \<longleftrightarrow> (\<exists>t. like k t \<and> (k' = t \<or> (\<exists>f. k' = snd (schedule f t))))"

lemma sched_moves_like: "like k t \<Longrightarrow> sched_moves k t"
  by (auto simp: sched_moves_def)

lemma sched_moves_schedule: "like k t \<Longrightarrow> sched_moves k (snd (schedule f t))"
  by (auto simp: sched_moves_def)

lemma sched_moves_ok:
  assumes "sched_moves k k'" "kst_ok k" "saved_ok k m"
  shows "kst_ok k' \<and> (\<exists>m. saved_ok k' m)"
proof -
  obtain t where t: "like k t" "k' = t \<or> (\<exists>f. k' = snd (schedule f t))" using assms(1) by (auto simp: sched_moves_def)
  then have ok: "kst_ok t" "saved_ok t m" using like_ok like_saved assms(2,3) by blast+
  have "kst_ok (snd (schedule f t)) \<and> (\<exists>m. saved_ok (snd (schedule f t)) m)" for f
    using schedule_context[OF ok, of f] by (cases "fst (schedule f t)") auto
  then show ?thesis using t(2) ok by auto
qed

text \<open>A task that does not run keeps its place and its frame.\<close>

lemma sched_moves_frame:
  assumes "sched_moves k k'" "kst_ok k" "i < MAX_TASKS" "int i \<noteq> ks_current k"
  shows "kt_present (ks_tasks k' ! i) = kt_present (ks_tasks k ! i) \<and> kt_frame (ks_tasks k' ! i) = kt_frame (ks_tasks k ! i)"
proof -
  obtain t where t: "like k t" "k' = t \<or> (\<exists>f. k' = snd (schedule f t))" using assms(1) by (auto simp: sched_moves_def)
  then have ok: "kst_ok t" "ks_current t = ks_current k" using like_ok assms(2) by (auto simp: like_def)
  have same: "kt_present (ks_tasks t ! i) = kt_present (ks_tasks k ! i)" "kt_frame (ks_tasks t ! i) = kt_frame (ks_tasks k ! i)"
    using t(1) assms(2,3) by (simp_all add: like_def same_tasks_def kst_ok_def)
  then show ?thesis using t(2) schedule_present[OF ok(1) assms(3)] schedule_frame[OF ok(1) assms(3)] ok(2) assms(4) by auto
qed

lemma sched_tick_moves: "sched_moves k (snd (sched_tick f (k\<lparr>ks_ticks := n\<rparr>)))"
proof -
  have "like k (k\<lparr>ks_ticks := n\<rparr>)" "like k (k\<lparr>ks_ticks := n, ks_last_switch := n\<rparr>)" by (simp_all add: like_def)
  then show ?thesis using sched_moves_like sched_moves_schedule by (auto simp: sched_tick_def)
qed

lemma intercept_moves: "sched_moves k (snd (intercept f c k))"
  using sched_moves_like[OF like_refl] sched_moves_schedule[OF like_publish] by (auto simp: intercept_def Let_def)

lemma sleep_moves: "like k t \<Longrightarrow> sched_moves k (snd (sleep_current f n t))"
  using sched_moves_schedule[of k t] sched_moves_schedule[OF like_trans[OF _ like_set_sleep]] by (auto simp: sleep_current_def Let_def)

lemma activity_like: "like k (note_activity pid k)"
  by (simp add: like_def note_activity_def Let_def)

lemma poll_like: "like k t \<Longrightarrow> like k (snd (poll_event t))"
  by (simp add: like_def poll_event_def Let_def)

subsection \<open>What the calls leave alone\<close>

named_theorems gate_simps

lemma ipc_frame [gate_simps]:
  "sy_sched (snd (ipc_send src dst v s)) = sy_sched s" "sy_socks (snd (ipc_send src dst v s)) = sy_socks s"
  "sy_clients (snd (ipc_send src dst v s)) = sy_clients s"
  "sy_sched (snd (ipc_recv dst s)) = sy_sched s" "sy_socks (snd (ipc_recv dst s)) = sy_socks s"
  "sy_clients (snd (ipc_recv dst s)) = sy_clients s"
  by (simp_all add: ipc_send_def ipc_recv_def Let_def)

lemma note_frame [gate_simps]:
  "sy_sched (note_first pid s) = sy_sched s" "sy_socks (note_first pid s) = sy_socks s"
  "sy_clients (note_first pid s) = sy_clients s" "sy_boxes (note_first pid s) = sy_boxes s"
  "sy_sched (note_getpid pid s) = sy_sched s" "sy_socks (note_getpid pid s) = sy_socks s"
  "sy_clients (note_getpid pid s) = sy_clients s" "sy_boxes (note_getpid pid s) = sy_boxes s"
  "sy_sched (count_write pid s) = sy_sched s" "sy_socks (count_write pid s) = sy_socks s"
  "sy_clients (count_write pid s) = sy_clients s" "sy_boxes (count_write pid s) = sy_boxes s"
  by (simp_all add: note_first_def note_getpid_def count_write_def Let_def)

lemma map_access_Done: "map_access g a = Done y \<Longrightarrow> (\<And>x. a = Done x \<Longrightarrow> y = g x \<Longrightarrow> P) \<Longrightarrow> P"
  by (cases a) auto

lemma write_frame:
  "write_user_string f s = Some (Done (n, s')) \<Longrightarrow> sy_sched s' = sy_sched s \<and> sy_socks s' = sy_socks s \<and> sy_clients s' = sy_clients s \<and> sy_boxes s' = sy_boxes s"
  by (auto simp: write_user_string_def elim!: map_access_Done)

lemma create_frame [gate_simps]:
  "sy_sched (snd (create_client pid w h buf title s)) = sy_sched s" "sy_socks (snd (create_client pid w h buf title s)) = sy_socks s"
  "sy_boxes (snd (create_client pid w h buf title s)) = sy_boxes s"
  by (simp_all add: create_client_def split: option.split)

lemma client_create_cases:
  "client_create pid req s = Some (Done (v, s')) \<Longrightarrow> s' = s \<or> (\<exists>w h buf title. s' = snd (create_client pid w h buf title s))"
  unfolding client_create_def Let_def
  by (auto split: if_splits option.splits prod.splits access.splits elim!: map_access_Done) (metis snd_conv)+

lemma client_frame:
  assumes "client_syscall pid f s = Some (Done (v, s'))"
  shows "sy_sched s' = sy_sched s \<and> sy_socks s' = sy_socks s \<and> sy_boxes s' = sy_boxes s"
proof (cases "fr_rdi f = 0")
  case True
  then show ?thesis using client_create_cases[of pid "fr_rsi f" s v s'] assms by (auto simp: client_syscall_def create_frame)
next
  case False
  then show ?thesis using assms
    by (auto simp: client_syscall_def take_client_event_def Let_def split: if_splits option.splits prod.splits)
qed

lemma sock_syscall_frame:
  "sock_syscall pid f s = Done (v, s') \<Longrightarrow> sy_sched s' = sy_sched s \<and> sy_clients s' = sy_clients s \<and> sy_boxes s' = sy_boxes s"
  by (auto simp: sock_syscall_def Let_def case_prod_beta split: if_splits elim!: map_access_Done)

text \<open>The state a call starts from, and the effect of each arm of the dispatcher.\<close>

definition gate_entry :: "sys \<Rightarrow> sys" where
  "gate_entry s = (note_first (actor s) s)\<lparr>sy_sched := note_activity (actor s) (sy_sched s)\<rparr>"

lemma gate_entry_frame [gate_simps]:
  "sy_sched (gate_entry s) = note_activity (actor s) (sy_sched s)" "sy_socks (gate_entry s) = sy_socks s"
  "sy_clients (gate_entry s) = sy_clients s" "sy_boxes (gate_entry s) = sy_boxes s"
  by (simp_all add: gate_entry_def gate_simps)

lemma finish_arms: "finish f s a = Some (out, f', s') \<Longrightarrow> (\<exists>v. a = Done (v, s')) \<or> s' = s"
  by (auto simp: finish_def answer_def split: access.splits if_splits)

lemma syscall_arms:
  assumes "syscall f s = Some (out, f', s')"
  shows "(fr_rax f = SYS_SEND \<and> s' = snd (ipc_send (actor s) (ucast (fr_rdi f)) (fr_rcx f) (gate_entry s)) \<and>
      fr_rax f' = bool_word (fst (ipc_send (actor s) (ucast (fr_rdi f)) (fr_rcx f) (gate_entry s)))) \<or>
    (fr_rax f = SYS_RECV \<and> s' = snd (ipc_recv (actor s) (gate_entry s)) \<and>
      (case fst (ipc_recv (actor s) (gate_entry s)) of None \<Rightarrow> fr_rax f' = - 1 | Some (src, v) \<Rightarrow> fr_rax f' = ucast src \<and> fr_rcx f' = v)) \<or>
    fr_rax f \<noteq> SYS_SEND \<and> fr_rax f \<noteq> SYS_RECV \<and>
    ((\<exists>n s2. write_user_string f (gate_entry s) = Some (Done (n, s2)) \<and> s' = count_write (actor s) s2) \<or>
     s' = note_getpid (actor s) (gate_entry s) \<or>
     (\<exists>f1 n. s' = (gate_entry s)\<lparr>sy_sched := snd (sleep_current f1 n (sy_sched (gate_entry s)))\<rparr>) \<or>
     (\<exists>v. client_syscall (actor s) f (gate_entry s) = Some (Done (v, s'))) \<or>
     s' = gate_entry s \<or>
     s' = (gate_entry s)\<lparr>sy_sched := snd (poll_event (sy_sched (gate_entry s)))\<rparr> \<or>
     (\<exists>v. sock_syscall (actor s) f (gate_entry s) = Done (v, s')))"
proof -
  have e: "(note_first (actor s) s)\<lparr>sy_sched := note_activity (actor s) (sy_sched (note_first (actor s) s))\<rparr> = gate_entry s"
    by (simp add: gate_entry_def gate_simps)
  note u = assms[unfolded syscall_def Let_def actor_def[symmetric] e answer_def on_sched_def]
  consider "fr_rax f = SYS_SEND" | "fr_rax f = SYS_RECV" | "fr_rax f \<noteq> SYS_SEND" "fr_rax f \<noteq> SYS_RECV" by blast
  then show ?thesis
  proof cases
    case 1
    then show ?thesis using u by (auto simp: case_prod_beta)
  next
    case 2
    then have "fr_rax f \<noteq> SYS_SEND" by simp
    then show ?thesis using 2 u by (auto split: prod.splits option.splits)
  next
    case 3
    then show ?thesis using u
      by (auto simp: bind_eq_Some_conv split: if_splits prod.splits option.splits
          dest!: finish_arms elim!: map_access_Done)
  qed
qed

text \<open>The arms of the interrupt dispatcher.\<close>

lemma interrupt_arms:
  assumes "aios_handle_interrupt stub key f s = Some (out, f', s')"
  shows "(fr_vector f = 128 \<and> syscall f s = Some (out, f', s')) \<or>
    fr_vector f \<noteq> 128 \<and> sched_moves (sy_sched s) (sy_sched s') \<and> sy_boxes s' = sy_boxes s \<and> sy_clients s' = sy_clients s \<and>
      ss_tab (sy_socks s') = ss_tab (sy_socks s)"
proof (cases "fr_vector f = 128")
  case True
  then show ?thesis using assms by (simp add: aios_handle_interrupt_def APIC_TIMER_VECTOR_def Let_def)
next
  case False
  have same: "sched_moves (sy_sched s) (sy_sched s)" by (rule sched_moves_like) simp
  have fault: "user_fault c f s = Some (out, f', s') \<Longrightarrow> sched_moves (sy_sched s) (sy_sched s') \<and> sy_boxes s' = sy_boxes s \<and>
      sy_clients s' = sy_clients s \<and> sy_socks s' = sy_socks s" for c
    using same intercept_moves[of "sy_sched s" f c] by (auto simp: user_fault_def on_sched_def split: if_splits)
  have timer: "timer_irq f s = Some (out, f', s') \<Longrightarrow> sched_moves (sy_sched s) (sy_sched s') \<and> sy_boxes s' = sy_boxes s \<and>
      sy_clients s' = sy_clients s \<and> ss_tab (sy_socks s') = ss_tab (sy_socks s)"
    using sched_tick_moves[of "sy_sched s" f] by (auto simp: timer_irq_def on_sched_def Let_def)
  have "on_sched f (schedule f (sy_sched s)) s = Some (out, f', s') \<Longrightarrow> sched_moves (sy_sched s) (sy_sched s') \<and> sy_boxes s' = sy_boxes s \<and>
      sy_clients s' = sy_clients s \<and> ss_tab (sy_socks s') = ss_tab (sy_socks s)"
    using sched_moves_schedule[OF like_refl] by (auto simp: on_sched_def)
  then show ?thesis
    using assms False same fault timer unfolding aios_handle_interrupt_def Let_def on_probe_gp_def
    by (auto split: if_splits)
qed

lemma syscall_sched: "syscall f s = Some (out, f', s') \<Longrightarrow> sched_moves (sy_sched s) (sy_sched s')"
proof -
  assume a: "syscall f s = Some (out, f', s')"
  have l: "like (sy_sched s) (sy_sched (gate_entry s))" by (simp add: gate_simps activity_like)
  note m = sched_moves_like[OF l] sched_moves_like[OF poll_like[OF l]] sleep_moves[OF l]
  show ?thesis using syscall_arms[OF a] m by (auto simp: ipc_frame note_frame dest: write_frame client_frame sock_syscall_frame)
qed

lemma irq_sched: "irq_step (stub, key, f) s = Some s' \<Longrightarrow> sched_moves (sy_sched s) (sy_sched s')"
  using interrupt_arms[of stub key f s] syscall_sched[of f s] by (fastforce simp: irq_step_def split: option.splits if_splits)

subsection \<open>Separation of the tasks\<close>

text \<open>Sockets in use by a task, other than connections that still wait in the queue of a listener.\<close>

definition held_by :: "u32 \<Rightarrow> sock \<Rightarrow> bool" where
  "held_by q sk \<longleftrightarrow> so_used sk \<and> so_pid sk = q \<and> so_parent sk = NO_PARENT"

definition keeps_socks :: "u32 \<Rightarrow> socks \<Rightarrow> socks \<Rightarrow> bool" where
  "keeps_socks q ss ss' \<longleftrightarrow> length (ss_tab ss') = length (ss_tab ss) \<and>
     (\<forall>i<length (ss_tab ss). held_by q (ss_tab ss ! i) \<longrightarrow> ss_tab ss' ! i = ss_tab ss ! i)"

lemma keeps_socks_same: "ss_tab ss' = ss_tab ss \<Longrightarrow> keeps_socks q ss ss'"
  by (simp add: keeps_socks_def)

lemma keeps_socks_put: "ss_tab ss' = (ss_tab ss)[fd := sk] \<Longrightarrow> \<not> held_by q (ss_tab ss ! fd) \<Longrightarrow> keeps_socks q ss ss'"
  by (auto simp: keeps_socks_def nth_update_in)

lemma owned_not_held: "sock_owned pid fd ss \<Longrightarrow> pid \<noteq> q \<Longrightarrow> \<not> held_by q (ss_tab ss ! fd)"
  by (auto simp: sock_owned_def sock_owner_def held_by_def split: if_splits)

lemma ss_tab_put [simp]: "ss_tab (put_sock fd sk ss) = (ss_tab ss)[fd := sk]"
  by (simp add: put_sock_def)

text \<open>The calls on a descriptor change that descriptor only, apart from the queue of a listener.\<close>

lemma sock_calls_tab:
  "ss_tab (snd (sock_bind fd port ss)) = ss_tab ss \<or> (\<exists>sk. ss_tab (snd (sock_bind fd port ss)) = (ss_tab ss)[fd := sk])"
  "ss_tab (snd (sock_listen fd ss)) = ss_tab ss \<or> (\<exists>sk. ss_tab (snd (sock_listen fd ss)) = (ss_tab ss)[fd := sk])"
  "ss_tab (snd (sock_connect fd ip port ss)) = ss_tab ss \<or> (\<exists>sk. ss_tab (snd (sock_connect fd ip port ss)) = (ss_tab ss)[fd := sk])"
  "ss_tab (snd (sock_send fd dat ss)) = ss_tab ss \<or> (\<exists>sk. ss_tab (snd (sock_send fd dat ss)) = (ss_tab ss)[fd := sk])"
  "ss_tab (snd (sock_recv fd cap ss)) = ss_tab ss \<or> (\<exists>sk. ss_tab (snd (sock_recv fd cap ss)) = (ss_tab ss)[fd := sk])"
  by (auto simp: sock_bind_def sock_listen_def sock_connect_def sock_send_def sock_recv_def Let_def case_prod_beta split: option.splits kind.splits)

lemma keeps_open: "keeps_socks q ss (snd (sock_open pid k ss))"
proof (cases "position (\<lambda>sk. \<not> so_used sk) (ss_tab ss)")
  case None
  then show ?thesis by (simp add: sock_open_def keeps_socks_same)
next
  case (Some fd)
  then have "\<not> held_by q (ss_tab ss ! fd)" using position_SomeD[OF Some] by (simp add: held_by_def)
  then show ?thesis using Some by (intro keeps_socks_put) (auto simp: sock_open_def alloc_port_def)
qed

lemma keeps_accept: "fd < MAX_SOCKS \<Longrightarrow> keeps_socks q ss (snd (sock_accept fd ss))"
proof -
  assume fd: "fd < MAX_SOCKS"
  let ?P = "\<lambda>sk. so_used sk \<and> so_kind sk = Tcp \<and> so_parent sk = fd \<and> so_state sk = Established"
  show ?thesis
  proof (cases "ss_tab (snd (sock_accept fd ss)) = ss_tab ss")
    case True
    then show ?thesis by (rule keeps_socks_same)
  next
    case False
    then obtain i where i: "position ?P (ss_tab ss) = Some i"
      "ss_tab (snd (sock_accept fd ss)) = (ss_tab ss)[i := (ss_tab ss ! i)\<lparr>so_parent := NO_PARENT\<rparr>]"
      by (auto simp: sock_accept_def split: option.splits if_splits)
    have "so_parent (ss_tab ss ! i) = fd" using position_SomeD[OF i(1)] by simp
    then have "\<not> held_by q (ss_tab ss ! i)" using fd by (simp add: held_by_def NO_PARENT_def MAX_SOCKS_def)
    then show ?thesis by (rule keeps_socks_put[OF i(2)])
  qed
qed

lemma keeps_close:
  assumes "fd < MAX_SOCKS" "\<not> held_by q (ss_tab ss ! fd)"
  shows "keeps_socks q ss (sock_close fd ss)"
proof (cases "get_sock fd ss")
  case None
  then show ?thesis by (simp add: sock_close_def keeps_socks_same)
next
  case (Some sk)
  have orphan: "\<not> held_by q c" if "so_parent c = fd" for c using that assms(1) by (simp add: held_by_def NO_PARENT_def MAX_SOCKS_def)
  show ?thesis
  proof (cases "so_kind sk = Tcp \<and> so_state sk = Listen")
    case True
    then have t: "ss_tab (sock_close fd ss) = (map (\<lambda>c. if so_used c \<and> so_parent c = fd then c\<lparr>so_used := False\<rparr> else c) (ss_tab ss))
        [fd := sk\<lparr>so_used := False\<rparr>]"
      using Some by (simp add: sock_close_def)
    show ?thesis unfolding keeps_socks_def
    proof (intro conjI allI impI)
      show "length (ss_tab (sock_close fd ss)) = length (ss_tab ss)" by (simp add: t)
      fix i assume i: "i < length (ss_tab ss)" "held_by q (ss_tab ss ! i)"
      then have "i \<noteq> fd" "\<not> (so_used (ss_tab ss ! i) \<and> so_parent (ss_tab ss ! i) = fd)" using assms(2) orphan by auto
      then show "ss_tab (sock_close fd ss) ! i = ss_tab ss ! i" using i(1) by (simp add: t)
    qed
  next
    case False
    then have "\<exists>sk. ss_tab (sock_close fd ss) = (ss_tab ss)[fd := sk]"
      using Some by (auto simp: sock_close_def Let_def split: tcp_state.splits)
    then show ?thesis using keeps_socks_put assms(2) by blast
  qed
qed

lemma owned_less: "sock_owned pid fd ss \<Longrightarrow> fd < MAX_SOCKS"
  by (auto simp: sock_owned_def sock_owner_def split: if_splits)

lemma sock_syscall_keeps:
  assumes "pid \<noteq> q" "sock_syscall pid f s = Done (v, s')"
  shows "keeps_socks q (sy_socks s) (sy_socks s')"
proof -
  let ?ss = "sy_socks s"
  let ?fd = "unat (fr_rdi f)"
  have put: "ss_tab ss' = ss_tab ?ss \<or> (\<exists>sk. ss_tab ss' = (ss_tab ?ss)[?fd := sk]) \<Longrightarrow> sock_owned pid ?fd ?ss \<Longrightarrow> keeps_socks q ?ss ss'" for ss'
    using keeps_socks_same keeps_socks_put owned_not_held[OF _ assms(1)] by blast
  have op: "keeps_socks q ?ss (snd (sys_sock_open pid k ?ss))" for k
    using keeps_open by (simp add: sys_sock_open_def case_prod_beta split: option.split)
  have bi: "keeps_socks q ?ss (snd (sys_sock_bind pid ?fd port ?ss))" for port
    using put[OF sock_calls_tab(1)] by (simp add: sys_sock_bind_def keeps_socks_same case_prod_beta)
  have co: "keeps_socks q ?ss (snd (sys_sock_connect pid ?fd ip port ?ss))" for ip port
    using put[OF sock_calls_tab(3)] by (simp add: sys_sock_connect_def keeps_socks_same case_prod_beta)
  have se: "sys_sock_send ker pid ?fd ptr len m ?ss = Done x \<Longrightarrow> keeps_socks q ?ss (snd x)" for ker ptr len m x
    using put[OF sock_calls_tab(4)]
    by (auto simp: sys_sock_send_def keeps_socks_same case_prod_beta split: if_splits option.split elim!: map_access_Done)
  have re: "sys_sock_recv ker pid ?fd ptr len m ?ss = Done x \<Longrightarrow> keeps_socks q ?ss (snd (snd x))" for ker ptr len m x
    using put[OF sock_calls_tab(5), of "min (unat len) SOCK_IO_CAP"]
    by (auto simp: sys_sock_recv_def keeps_socks_same split: if_splits prod.splits option.splits elim!: map_access_Done)
  have cl: "keeps_socks q ?ss (snd (sys_sock_close pid ?fd ?ss))"
    using keeps_close owned_less owned_not_held[OF _ assms(1)] by (simp add: sys_sock_close_def keeps_socks_same)
  have li: "keeps_socks q ?ss (snd (sys_sock_listen pid ?fd ?ss))"
    using put[OF sock_calls_tab(2)] by (simp add: sys_sock_listen_def keeps_socks_same case_prod_beta)
  have ac: "keeps_socks q ?ss (snd (sys_sock_accept pid ?fd ?ss))"
    using keeps_accept[OF owned_less] by (auto simp: sys_sock_accept_def keeps_socks_same split: prod.split option.split) (metis snd_conv)+
  show ?thesis
    using assms(2) op bi co cl li ac unfolding sock_syscall_def Let_def
    by (auto simp: case_prod_beta keeps_socks_same split: if_splits elim!: map_access_Done dest!: se re)
qed

text \<open>Client windows.\<close>

lemma create_client_keeps:
  assumes "pid \<noteq> q" "i < length (sy_clients s)" "sy_clients s ! i = Some c" "cw_pid c = q"
  shows "sy_clients (snd (create_client pid w h buf title s)) ! i = Some c"
proof -
  have owned: "j \<noteq> i" if "client_idx_of pid s = Some j" for j
    using position_SomeD[OF that[unfolded client_idx_of_def]] assms by auto
  have free: "j \<noteq> i" if "position (\<lambda>c. c = None) (sy_clients s) = Some j" for j
    using position_SomeD[OF that] assms by auto
  show ?thesis
    using owned free assms(3) by (auto simp: create_client_def split: option.split)
qed

lemma take_event_keeps:
  assumes "pid \<noteq> q" "i < length (sy_clients s)" "sy_clients s ! i = Some c" "cw_pid c = q"
  shows "sy_clients (snd (take_client_event pid s)) ! i = Some c"
proof -
  have owned: "j \<noteq> i" if "client_idx_of pid s = Some j" for j
    using position_SomeD[OF that[unfolded client_idx_of_def]] assms by auto
  then show ?thesis using assms(3) by (auto simp: take_client_event_def split: option.split)
qed

lemma client_syscall_keeps:
  assumes "client_syscall pid f s = Some (Done (v, s'))" "pid \<noteq> q" "i < length (sy_clients s)" "sy_clients s ! i = Some c" "cw_pid c = q"
  shows "sy_clients s' ! i = Some c"
proof (cases "fr_rdi f = 0")
  case True
  then show ?thesis
    using client_create_cases[of pid "fr_rsi f" s v s'] assms create_client_keeps by (auto simp: client_syscall_def)
next
  case False
  then show ?thesis using assms take_event_keeps[OF assms(2-5)]
    by (auto simp: client_syscall_def case_prod_beta split: if_splits)
qed

lemma clients_length:
  "length (sy_clients (snd (create_client pid w h buf title s))) = length (sy_clients s)"
  "length (sy_clients (snd (take_client_event pid s))) = length (sy_clients s)"
  by (simp_all add: create_client_def take_client_event_def split: option.split)

lemma client_syscall_length:
  assumes "client_syscall pid f s = Some (Done (v, s'))"
  shows "length (sy_clients s') = length (sy_clients s)"
proof (cases "fr_rdi f = 0")
  case True
  then show ?thesis
    using client_create_cases[of pid "fr_rsi f" s v s'] assms clients_length(1)[of pid _ _ _ _ s] by (auto simp: client_syscall_def)
next
  case False
  then show ?thesis using assms clients_length(2)[of pid s]
    by (auto simp: client_syscall_def case_prod_beta split: if_splits)
qed

text \<open>The objects of a task: its sockets, its windows, and the registers it is resumed with.\<close>

datatype kindex = ISock nat | IWindow nat | IFrame

datatype kobject = OSock sock | OWindow client_win | OFrame interrupt_frame

fun object_of :: "u32 \<Rightarrow> sys \<Rightarrow> kindex \<Rightarrow> kobject option" where
  "object_of q s (ISock i) =
     (if i < length (ss_tab (sy_socks s)) \<and> held_by q (ss_tab (sy_socks s) ! i) then Some (OSock (ss_tab (sy_socks s) ! i)) else None)"
| "object_of q s (IWindow i) =
     (if i < length (sy_clients s)
      then (case sy_clients s ! i of Some c \<Rightarrow> if cw_pid c = q then Some (OWindow c) else None | None \<Rightarrow> None) else None)"
| "object_of q s IFrame = (if task_present q (sy_sched s) then Some (OFrame (kt_frame (ks_tasks (sy_sched s) ! unat q))) else None)"

lemma object_sock: "keeps_socks q (sy_socks s) (sy_socks s') \<Longrightarrow> object_of q s (ISock i) = Some x \<Longrightarrow> object_of q s' (ISock i) = Some x"
  by (auto simp: keeps_socks_def split: if_splits)

lemma object_window:
  assumes "length (sy_clients s') = length (sy_clients s)"
    "\<And>c. i < length (sy_clients s) \<Longrightarrow> sy_clients s ! i = Some c \<Longrightarrow> cw_pid c = q \<Longrightarrow> sy_clients s' ! i = Some c"
    "object_of q s (IWindow i) = Some x"
  shows "object_of q s' (IWindow i) = Some x"
  using assms by (auto split: if_splits option.splits)

lemma object_frame:
  assumes "sched_moves (sy_sched s) (sy_sched s')" "kst_ok (sy_sched s)" "actor s \<noteq> q" "object_of q s IFrame = Some x"
  shows "object_of q s' IFrame = Some x"
proof -
  have p: "task_present q (sy_sched s)" using assms(4) by (simp split: if_splits)
  then have q: "0 < unat q" "unat q < MAX_TASKS" by (auto simp: task_present_def Let_def)
  have "unat (actor s) = nat (ks_current (sy_sched s))"
    using unat_current_pid[of "sy_sched s"] assms(2) by (simp add: actor_def kst_ok_def)
  then have "int (unat q) \<noteq> ks_current (sy_sched s)" using assms(3) by (metis nat_int word_unat_eq_iff)
  from sched_moves_frame[OF assms(1,2) q(2) this] show ?thesis using assms(4) p q by (simp add: task_present_def Let_def)
qed

lemma syscall_objects:
  assumes "syscall f s = Some (out, f', s')" "kst_ok (sy_sched s)" "actor s \<noteq> q" "object_of q s i = Some x"
  shows "object_of q s' i = Some x"
proof (cases i)
  case (ISock j)
  have k: "keeps_socks q (sy_socks s) (sy_socks s')"
    using syscall_arms[OF assms(1)]
    by (auto simp: gate_simps keeps_socks_same dest!: write_frame client_frame sock_syscall_keeps[OF assms(3)])
  then show ?thesis using object_sock assms(4) ISock by blast
next
  case (IWindow j)
  have len: "length (sy_clients s') = length (sy_clients s)"
    using syscall_arms[OF assms(1)] by (auto simp: gate_simps dest!: write_frame client_syscall_length sock_syscall_frame)
  have "sy_clients s' ! j = Some c" if "j < length (sy_clients s)" "sy_clients s ! j = Some c" "cw_pid c = q" for c
    using syscall_arms[OF assms(1)] that client_syscall_keeps[of "actor s" f "gate_entry s" _ s' q j c] assms(3)
    by (auto simp: gate_simps dest!: write_frame dest: sock_syscall_frame)
  then show ?thesis using object_window[OF len] assms(4) IWindow by blast
next
  case IFrame
  then show ?thesis using object_frame[OF syscall_sched[OF assms(1)] assms(2,3)] assms(4) by blast
qed

lemma syscall_boxes_ok: "syscall f s = Some (out, f', s') \<Longrightarrow> boxes_ok s \<Longrightarrow> boxes_ok s'"
proof -
  assume a: "syscall f s = Some (out, f', s')" "boxes_ok s"
  have e: "boxes_ok (gate_entry s)" using a(2) by (simp add: boxes_ok_def gate_simps)
  have "sy_boxes s' = sy_boxes (gate_entry s) \<or> boxes_ok s'"
    using syscall_arms[OF a(1)] send_effect[OF e] recv_effect[OF e]
    by (auto simp: gate_simps dest!: write_frame client_frame sock_syscall_frame)
  then show ?thesis using e by (auto simp: boxes_ok_def)
qed

lemma syscall_socks_length: "syscall f s = Some (out, f', s') \<Longrightarrow> length (ss_tab (sy_socks s')) = length (ss_tab (sy_socks s))"
proof -
  assume a: "syscall f s = Some (out, f', s')"
  have "actor s + 1 \<noteq> actor s" by simp
  then have "sock_syscall (actor s) f (gate_entry s) = Done (v, t) \<Longrightarrow> keeps_socks (actor s + 1) (sy_socks s) (sy_socks t)" for v t
    using sock_syscall_keeps[of "actor s" "actor s + 1" f "gate_entry s" v t] by (simp add: gate_simps)
  then show ?thesis using syscall_arms[OF a] by (auto simp: gate_simps keeps_socks_def dest!: write_frame client_frame)
qed

interpretation tasks: separation gate_ok irq_step actor object_of
proof unfold_locales
  fix s e s'
  assume g: "gate_ok s" and st: "irq_step e s = Some s'"
  obtain stub key f where e: "e = (stub, key, f)" by (cases e)
  obtain out f' where h: "aios_handle_interrupt stub key f s = Some (out, f', s')"
    using st unfolding e by (auto simp: irq_step_def split: option.splits if_splits)
  obtain m where m: "kst_ok (sy_sched s)" "saved_ok (sy_sched s) m" using g by (auto simp: gate_ok_def)
  have "sched_moves (sy_sched s) (sy_sched s')" using irq_sched st unfolding e by blast
  from sched_moves_ok[OF this m] have "kst_ok (sy_sched s') \<and> (\<exists>m. saved_ok (sy_sched s') m)" .
  moreover have "boxes_ok s'" "length (ss_tab (sy_socks s')) = MAX_SOCKS"
    using interrupt_arms[OF h] syscall_boxes_ok[of f s] syscall_socks_length[of f s] g by (auto simp: gate_ok_def boxes_ok_def)
  ultimately show "gate_ok s'" by (simp add: gate_ok_def)
  fix q i x
  assume a: "actor s \<noteq> q" "object_of q s i = Some x"
  show "object_of q s' i = Some x"
  proof (cases "fr_vector f = 128")
    case True
    then show ?thesis using interrupt_arms[OF h] syscall_objects[OF _ m(1) a] by blast
  next
    case False
    then have n: "sched_moves (sy_sched s) (sy_sched s')" "sy_clients s' = sy_clients s" "ss_tab (sy_socks s') = ss_tab (sy_socks s)"
      using interrupt_arms[OF h] by auto
    show ?thesis
    proof (cases i)
      case (ISock j)
      then show ?thesis using object_sock[OF keeps_socks_same[OF n(3)]] a(2) by blast
    next
      case (IWindow j)
      then show ?thesis using object_window[of s' s j q x] n(2) a(2) by simp
    next
      case IFrame
      then show ?thesis using object_frame[OF n(1) m(1) a(1)] a(2) by blast
    qed
  qed
qed

lemma gate_ok_boot: "kst_ok k \<Longrightarrow> saved_ok k sv \<Longrightarrow> gate_ok (sys_boot ker k n m)"
  by (auto simp: gate_ok_def sys_boot_def boxes_ok_def box_ok_def mailbox_new_def MAILBOX_DEPTH_def)

text \<open>C4:
  Tasks are separated at the gate: over every sequence of interrupts (system calls, timer ticks, faults, key presses,
  yields) at none of which task \<open>q\<close> is the running one, each socket that \<open>q\<close> holds, each client window that \<open>q\<close>
  registered, and the saved registers of \<open>q\<close> stay exactly what they were, whatever the other tasks call with whatever
  arguments, as long as every handler comes back without having reached the memory of the kernel itself: the copies to
  user pointers do not exclude that memory (\<open>kernel_memory_reached\<close> below).
\<close>

theorem kernel_task_isolation:
  assumes "gate_ok s" "steps irq_step es s = Some s'" "absent irq_step actor q es s" "object_of q s i = Some x"
  shows "object_of q s' i = Some x"
  using assms by (rule tasks.steps_respect)

subsection \<open>Messages over runs\<close>

text \<open>
  What a run of interrupts sends to task \<open>d\<close> and what \<open>d\<close> receives, read off the trap frames: an accepted
  \<open>SYS_SEND\<close> answers 1, a successful \<open>SYS_RECV\<close> answers the sender and the message.
\<close>

definition answer_frame :: "irq \<Rightarrow> sys \<Rightarrow> interrupt_frame" where
  "answer_frame e s = (case e of (stub, key, f) \<Rightarrow>
     (case aios_handle_interrupt stub key f s of None \<Rightarrow> f | Some (out, f', s') \<Rightarrow> f'))"

definition sent_to :: "u32 \<Rightarrow> irq \<Rightarrow> sys \<Rightarrow> (u32 \<times> u64) list" where
  "sent_to d e s =
     (let f = snd (snd e) in
      if fr_vector f = 128 \<and> fr_rax f = SYS_SEND \<and> ucast (fr_rdi f) = d \<and> fr_rax (answer_frame e s) = 1
      then [(actor s, fr_rcx f)] else [])"

definition got_by :: "u32 \<Rightarrow> irq \<Rightarrow> sys \<Rightarrow> (u32 \<times> u64) list" where
  "got_by d e s =
     (let f = snd (snd e); r = answer_frame e s in
      if fr_vector f = 128 \<and> fr_rax f = SYS_RECV \<and> actor s = d \<and> fr_rax r \<noteq> - 1
      then [(ucast (fr_rax r), fr_rcx r)] else [])"

fun ipc_sent :: "u32 \<Rightarrow> irq list \<Rightarrow> sys \<Rightarrow> (u32 \<times> u64) list" where
  "ipc_sent d [] s = []"
| "ipc_sent d (e # es) s = sent_to d e s @ (case irq_step e s of None \<Rightarrow> [] | Some s' \<Rightarrow> ipc_sent d es s')"

fun ipc_got :: "u32 \<Rightarrow> irq list \<Rightarrow> sys \<Rightarrow> (u32 \<times> u64) list" where
  "ipc_got d [] s = []"
| "ipc_got d (e # es) s = got_by d e s @ (case irq_step e s of None \<Rightarrow> [] | Some s' \<Rightarrow> ipc_got d es s')"

lemma box_items_cong: "sy_boxes s' = sy_boxes s \<Longrightarrow> box_items d s' = box_items d s"
  by (simp add: box_items_def)

lemma pid_answer: "ucast (p :: u32) \<noteq> (- 1 :: u64)" "ucast (ucast (p :: u32) :: u64) = p"
proof -
  show "ucast p \<noteq> (- 1 :: u64)"
  proof
    assume "ucast p = (- 1 :: u64)"
    then have "bit (ucast p :: u64) 63" by simp
    then have "bit p 63" by (simp add: bit_ucast_iff)
    then show False using bit_imp_le_length by fastforce
  qed
  show "ucast (ucast p :: u64) = p" by (intro bit_word_eqI) (simp add: bit_ucast_iff)
qed

lemma ipc_step:
  assumes "gate_ok s" "irq_step e s = Some s'"
  shows "box_items d s @ sent_to d e s = got_by d e s @ box_items d s'"
proof -
  obtain stub key f where e: "e = (stub, key, f)" by (cases e)
  obtain out f' where h: "aios_handle_interrupt stub key f s = Some (out, f', s')"
    using assms(2) unfolding e by (auto simp: irq_step_def split: option.splits if_splits)
  have r: "answer_frame e s = f'" using h by (simp add: e answer_frame_def)
  have ok: "boxes_ok (gate_entry s)" using assms(1) by (simp add: gate_ok_def boxes_ok_def gate_simps)
  have bx: "box_items d (gate_entry s) = box_items d s" for d by (rule box_items_cong) (simp add: gate_simps)
  show ?thesis
  proof (cases "fr_vector f = 128")
    case False
    then show ?thesis using interrupt_arms[OF h] box_items_cong[of s' s d] by (simp add: e sent_to_def got_by_def)
  next
    case True
    then have sys: "syscall f s = Some (out, f', s')" using interrupt_arms[OF h] by blast
    consider (send) "fr_rax f = SYS_SEND" | (recv) "fr_rax f = SYS_RECV" | (other) "fr_rax f \<noteq> SYS_SEND" "fr_rax f \<noteq> SYS_RECV" by blast
    then show ?thesis
    proof cases
      case send
      let ?p = "ipc_send (actor s) (ucast (fr_rdi f)) (fr_rcx f) (gate_entry s)"
      have n: "fr_rax f \<noteq> SYS_RECV" using send by simp
      then have s': "s' = snd ?p" "fr_rax f' = bool_word (fst ?p)" using syscall_arms[OF sys] send by auto
      have one: "fr_rax f' = 1 \<longleftrightarrow> fst ?p" using s'(2) by (simp add: bool_word_def)
      have "box_items d s' = (if fst ?p \<and> d = ucast (fr_rdi f) then box_items d s @ [(actor s, fr_rcx f)] else box_items d s)"
        using send_effect[OF ok, of "actor s" "ucast (fr_rdi f)" "fr_rcx f" d] unfolding s'(1) bx by blast
      moreover have "sent_to d e s = (if fst ?p \<and> d = ucast (fr_rdi f) then [(actor s, fr_rcx f)] else [])"
        using one send True r by (auto simp: e sent_to_def)
      moreover have "got_by d e s = []" using n by (simp add: e got_by_def)
      ultimately show ?thesis by simp
    next
      case recv
      let ?p = "ipc_recv (actor s) (gate_entry s)"
      have n: "fr_rax f \<noteq> SYS_SEND" using recv by simp
      then have s': "s' = snd ?p"
        "case fst ?p of None \<Rightarrow> fr_rax f' = - 1 | Some (src, v) \<Rightarrow> fr_rax f' = ucast src \<and> fr_rcx f' = v"
        using syscall_arms[OF sys] recv by auto
      note eff = recv_effect[OF ok, of "actor s" d]
      show ?thesis
      proof (cases "box_items (actor s) s")
        case Nil
        then have "fr_rax f' = - 1" using eff s'(2) bx by simp
        then show ?thesis using eff s'(1) Nil n r by (auto simp: e sent_to_def got_by_def bx)
      next
        case (Cons x xs)
        then have "fr_rax f' = ucast (fst x)" "fr_rcx f' = snd x" using eff s'(2) bx by (simp_all add: case_prod_beta)
        then show ?thesis using eff s'(1) Cons n r recv True pid_answer[of "fst x"] by (auto simp: e sent_to_def got_by_def bx)
      qed
    next
      case other
      then have "sy_boxes s' = sy_boxes s"
        using syscall_arms[OF sys] by (auto simp: gate_simps dest!: write_frame client_frame sock_syscall_frame)
      then show ?thesis using other box_items_cong[of s' s d] by (simp add: e sent_to_def got_by_def)
    qed
  qed
qed

text \<open>C8:
  Messages between tasks: over every sequence of interrupts whose handlers come back without having reached the memory of
  the kernel through a user pointer, what task \<open>d\<close> receives is what was in its mailbox at the
  start followed by the messages whose send was answered with success, in the order of the sends, with the true sender
  and the message unchanged; nothing is lost or duplicated, and what has not been received yet (at most sixteen
  messages) is in the mailbox at the end.
\<close>

theorem kernel_ipc_fifo:
  assumes "gate_ok s" "steps irq_step es s = Some s'"
  shows "box_items d s @ ipc_sent d es s = ipc_got d es s @ box_items d s' \<and> length (box_items d s') \<le> 16"
  using assms
proof (induction es arbitrary: s)
  case Nil
  then show ?case using mailbox.cap_law[of s' d] by (simp add: gate_ok_def MAILBOX_DEPTH_def)
next
  case (Cons e es)
  then obtain t where t: "irq_step e s = Some t" "steps irq_step es t = Some s'" by (cases "irq_step e s") auto
  have "box_items d t @ ipc_sent d es t = ipc_got d es t @ box_items d s'" "length (box_items d s') \<le> 16"
    using Cons.IH[OF tasks.step_inv[OF Cons.prems(1) t(1)] t(2)] by auto
  then show ?case using ipc_step[OF Cons.prems(1) t(1), of d] t(1)
    by (simp flip: append_assoc) (simp add: append_assoc)
qed

subsection \<open>Console writes\<close>

text \<open>
  The bytes that can be read one after the other from an address on, and what ends them: an address that is not mapped,
  that traps, or that belongs to the kernel.
\<close>

definition readable :: "(u64 \<Rightarrow> bool) \<Rightarrow> machine \<Rightarrow> u64 \<Rightarrow> bytes \<Rightarrow> bool" where
  "readable ker m ptr bs \<longleftrightarrow> (\<forall>i<length bs. read_byte ker (ptr + word_of_nat i) m = Done (Some (bs ! i)))"

definition ends_with :: "u8 option access \<Rightarrow> bool" where
  "ends_with a \<longleftrightarrow> (\<forall>b. a \<noteq> Done (Some b))"

lemma readable_Cons:
  "readable ker m ptr (b # bs) \<longleftrightarrow> read_byte ker ptr m = Done (Some b) \<and> readable ker m (ptr + 1) bs"
  by (auto simp: readable_def less_Suc_eq_0_disj ac_simps)

text \<open>Walking up, a read stops at the latest at the first address that is not canonical.\<close>

lemma read_stops: "ends_with (read_byte ker 0x800000000000 m)"
  by (simp add: ends_with_def read_byte_def canonical_def split: option.split)

lemma readable_upto:
  assumes "ends_with (read_byte ker (ptr + word_of_nat k) m)"
  obtains bs where "readable ker m ptr bs" "ends_with (read_byte ker (ptr + word_of_nat (length bs)) m)"
  using assms
proof (induction k arbitrary: ptr thesis)
  case 0
  then show ?case using 0(1)[of "[]"] by (simp add: readable_def)
next
  case (Suc k)
  show ?case
  proof (cases "ends_with (read_byte ker ptr m)")
    case True
    then show ?thesis using Suc.prems(1)[of "[]"] by (simp add: readable_def)
  next
    case False
    then obtain b where b: "read_byte ker ptr m = Done (Some b)" by (auto simp: ends_with_def)
    have "ends_with (read_byte ker (ptr + 1 + word_of_nat k) m)" using Suc.prems(2) by (simp add: ac_simps)
    from Suc.IH[OF _ this] obtain bs where "readable ker m (ptr + 1) bs" "ends_with (read_byte ker (ptr + 1 + word_of_nat (length bs)) m)"
      by blast
    then show ?thesis using Suc.prems(1)[of "b # bs"] b by (simp add: readable_Cons ac_simps)
  qed
qed

lemma readable_exists:
  obtains bs where "readable ker m ptr bs" "ends_with (read_byte ker (ptr + word_of_nat (length bs)) m)"
proof (rule readable_upto[of ker ptr "unat (0x800000000000 - ptr)" m])
  show "ends_with (read_byte ker (ptr + word_of_nat (unat (0x800000000000 - ptr))) m)" using read_stops by simp
qed (rule that)

text \<open>What the copy makes of the readable bytes, when it starts with \<open>acc\<close> stored.\<close>

definition copy_end :: "nat \<Rightarrow> (u8 \<Rightarrow> bool) \<Rightarrow> bytes \<Rightarrow> bytes \<Rightarrow> u8 option access \<Rightarrow> bytes access" where
  "copy_end cap keep acc bs a =
     (if 0 \<in> set bs \<or> cap \<le> length (acc @ filter keep bs)
      then Done (take cap (acc @ filter keep (takeWhile (\<lambda>b. b \<noteq> 0) bs)))
      else map_access (\<lambda>_. acc @ filter keep bs) a)"

lemma copy_string_spec:
  assumes "readable ker m ptr bs" "ends_with (read_byte ker (ptr + word_of_nat (length bs)) m)" "length acc \<le> cap" "\<not> keep 0"
  shows "copy_string ker cap keep m ptr acc = Some (copy_end cap keep acc bs (read_byte ker (ptr + word_of_nat (length bs)) m))"
  using assms
proof (induction bs arbitrary: ptr acc)
  case Nil
  then show ?case
    by (subst copy_string.simps) (auto simp: copy_end_def ends_with_def split: access.split option.split)
next
  case (Cons b bs)
  have b: "read_byte ker ptr m = Done (Some b)" "readable ker m (ptr + 1) bs" using Cons.prems(1) by (simp_all add: readable_Cons)
  show ?case
  proof (cases "length acc = cap \<or> b = 0")
    case True
    then show ?thesis using b Cons.prems(3,4) by (subst copy_string.simps) (auto simp: copy_end_def)
  next
    case False
    have "ends_with (read_byte ker (ptr + 1 + word_of_nat (length bs)) m)" using Cons.prems(2) by (simp add: ac_simps)
    moreover have "length (if keep b then acc @ [b] else acc) \<le> cap" using False Cons.prems(3) by simp
    ultimately have "copy_string ker cap keep m (ptr + 1) (if keep b then acc @ [b] else acc) =
        Some (copy_end cap keep (if keep b then acc @ [b] else acc) bs (read_byte ker (ptr + 1 + word_of_nat (length bs)) m))"
      using Cons.IH[OF b(2)] Cons.prems(4) by blast
    moreover have "copy_end cap keep (if keep b then acc @ [b] else acc) bs a = copy_end cap keep acc (b # bs) a" for a
      using False by (cases "keep b") (simp_all add: copy_end_def del: take_append)
    ultimately show ?thesis using False b(1) by (subst copy_string.simps) (simp add: ac_simps)
  qed
qed

text \<open>C40:
  A console write always ends, and does exactly one of the following.  With \<open>bs\<close> the bytes that can be read from the
  string pointer on and \<open>a\<close> what stops the reading after them: if a NUL is among the bytes, or at least 64 of them are
  printable, newline or tab, or the next address is unmapped, then \<open>SYS_WRITE\<close> returns, answers the number of bytes
  written, and has appended to the console the first 64 of the bytes before the NUL that are printable, newline or tab.
  If the next address is not canonical, which the page-table walk does not notice, the machine halts (unless a guarded
  register read is in progress).  If it belongs to the kernel, nothing is said.
\<close>

theorem console_write_exact:
  assumes "fr_rax f = SYS_WRITE"
  shows "\<exists>bs a out s'. readable (sy_kernel s) (sy_mach s) (fr_rsi f) bs \<and>
    read_byte (sy_kernel s) (fr_rsi f + word_of_nat (length bs)) (sy_mach s) = a \<and> ends_with a \<and>
    out = take 64 (filter console_byte (takeWhile (\<lambda>b. b \<noteq> 0) bs)) \<and> sy_console s' = sy_console s @ out \<and>
    syscall f s =
      (if 0 \<in> set bs \<or> 64 \<le> length (filter console_byte bs) \<or> a = Done None
       then Some (Return, f\<lparr>fr_rax := word_of_nat (length out)\<rparr>, s')
       else if a = Trapped \<and> \<not> sy_probe_active s then Some (Halt, f, gate_entry s)
       else None)"
proof -
  let ?g = "gate_entry s"
  have mach: "sy_mach ?g = sy_mach s" "sy_console ?g = sy_console s" "sy_kernel ?g = sy_kernel s" "sy_probe_active ?g = sy_probe_active s"
    by (simp_all add: gate_entry_def note_first_def Let_def)
  have e: "(note_first (actor s) s)\<lparr>sy_sched := note_activity (actor s) (sy_sched (note_first (actor s) s))\<rparr> = ?g"
    by (simp add: gate_entry_def gate_simps)
  obtain bs where bs: "readable (sy_kernel s) (sy_mach s) (fr_rsi f) bs"
    "ends_with (read_byte (sy_kernel s) (fr_rsi f + word_of_nat (length bs)) (sy_mach s))"
    by (rule readable_exists)
  define a where "a = read_byte (sy_kernel s) (fr_rsi f + word_of_nat (length bs)) (sy_mach s)"
  define out where "out = take 64 (filter console_byte (takeWhile (\<lambda>b. b \<noteq> 0) bs))"
  define s' where "s' = count_write (actor s) (?g\<lparr>sy_console := sy_console s @ out\<rparr>)"
  have zero: "\<not> console_byte 0" by (simp add: console_byte_def printable_def)
  have call: "syscall f s = finish f ?g (map_access (\<lambda>bs. (word_of_nat (length bs),
      count_write (actor s) (?g\<lparr>sy_console := sy_console s @ bs\<rparr>))) (copy_end 64 console_byte [] bs a))"
    using assms copy_string_spec[OF bs, of "[]" SYS_STR_CAP console_byte] zero
    unfolding syscall_def Let_def actor_def[symmetric] e write_user_string_def mach a_def[symmetric]
    by (simp add: SYS_STR_CAP_def access.map_comp o_def)
  have whole: "0 \<notin> set bs \<Longrightarrow> takeWhile (\<lambda>b. b \<noteq> 0) bs = bs" by (auto simp: takeWhile_eq_all_conv)
  have "syscall f s =
      (if 0 \<in> set bs \<or> 64 \<le> length (filter console_byte bs) \<or> a = Done None
       then Some (Return, f\<lparr>fr_rax := word_of_nat (length out)\<rparr>, s')
       else if a = Trapped \<and> \<not> sy_probe_active s then Some (Halt, f, ?g)
       else None)"
  proof (cases "0 \<in> set bs \<or> 64 \<le> length (filter console_byte bs)")
    case True
    then show ?thesis by (auto simp: call copy_end_def finish_def answer_def out_def s'_def)
  next
    case False
    then have "out = filter console_byte bs" by (simp add: out_def whole)
    then show ?thesis using False bs(2)
      by (cases a) (auto simp: call copy_end_def finish_def answer_def s'_def mach ends_with_def a_def[symmetric] split: option.splits)
  qed
  moreover have "sy_console s' = sy_console s @ out" by (simp add: s'_def count_write_def Let_def)
  ultimately show ?thesis using bs a_def out_def by blast
qed

subsection \<open>Deviations\<close>

text \<open>
  The cap of 64 bytes does not bound how far a console write reads: bytes that are dropped do not count, so the loop
  walks on over any number of them.
\<close>

lemma dropped_bytes_uncounted:
  assumes "readable ker m ptr bs" "\<forall>b\<in>set bs. b \<noteq> 0 \<and> \<not> console_byte b" "length acc < SYS_STR_CAP"
  shows "copy_string ker SYS_STR_CAP console_byte m ptr acc =
    copy_string ker SYS_STR_CAP console_byte m (ptr + word_of_nat (length bs)) acc"
  using assms
proof (induction bs arbitrary: ptr)
  case (Cons b bs)
  then have b: "read_byte ker ptr m = Done (Some b)" "readable ker m (ptr + 1) bs" by (simp_all add: readable_Cons)
  have "copy_string ker SYS_STR_CAP console_byte m ptr acc = copy_string ker SYS_STR_CAP console_byte m (ptr + 1) acc"
    using b Cons.prems by (subst copy_string.simps) simp
  also have "\<dots> = copy_string ker SYS_STR_CAP console_byte m (ptr + 1 + word_of_nat (length bs)) acc"
    using Cons.IH[OF b(2)] Cons.prems by simp
  finally show ?case by (simp add: ac_simps)
qed simp

text \<open>
  The copies from and to user memory test that an address is mapped, not that it belongs to the user: a page without the
  user bit is written all the same.
\<close>

lemma supervisor_page_written:
  assumes "translate ptr m = Some phys" "walk_leaf (pg_cr3 m AND PTE_FRAME) ptr m AND PTE_USER = 0"
    "canonical ptr" "page_writable ptr m" "\<not> ker phys"
  shows "\<exists>m'. user_write ker ptr [b] m = Done (1, m') \<and> pg_mem m' (cell_of phys m) =
      (pg_mem m (cell_of phys m) AND NOT (push_bit (8 * unat (phys AND 7)) 0xFF)) OR push_bit (8 * unat (phys AND 7)) (ucast b)"
  using assms by (simp add: write_byte_def Let_def)

text \<open>
  The memory of the kernel is no exception: the status call, which any task may make, writes to whatever kernel address
  it is given.
\<close>

lemma kernel_memory_reached:
  assumes "translate ptr m = Some phys" "ker phys" "canonical ptr" "page_writable ptr m" "ptr \<noteq> 0" "cc_info fd ss = Some cc"
  shows "sys_sock_status ker fd ptr m ss = Foreign"
  using assms by (cases cc) (simp add: sys_sock_status_def le32_def write_byte_def upt_conv_Cons Let_def)

text \<open>A pointer that is not canonical passes the test of the page tables and traps in kernel mode.\<close>

lemma non_canonical_traps:
  assumes "translate ptr m = Some phys" "\<not> canonical ptr"
  shows "user_read ker ptr (Suc k) m = Trapped" "user_write ker ptr (b # bs) m = Trapped"
  using assms by (simp_all add: read_byte_def write_byte_def)

text \<open>The status of a socket is answered, and its congestion state written out, to a task that does not own it.\<close>

lemma status_ignores_owner:
  "fr_rax f = SYS_SOCK_STATUS \<Longrightarrow> sock_syscall pid f s = sock_syscall pid' f s"
  by (simp add: sock_syscall_def)

text \<open>
  A window buffer is accepted when its first and its last byte are mapped, whatever lies between: the compositor reads
  the whole buffer in kernel mode.
\<close>

lemma window_buffer_with_hole:
  assumes "mapped req m" "mapped (req + 15) m" "user_read ker req 16 m = Done bs" "length bs = 16"
    "word32_at 0 bs = 64" "word32_at 4 bs = 64" "word32_at 8 bs = buf" "word32_at 12 bs = title"
    "mapped (ucast buf) m" "mapped (ucast buf + 16384 - 1) m" "\<not> mapped (ucast buf + 4096) m"
    "\<not> mapped (ucast title) m" "sy_mach s = m" "sy_kernel s = ker" "sy_clients s = [None, None, None, None]"
  shows "client_create pid req s = Some (Done (0, s\<lparr>sy_clients :=
    [Some \<lparr>cw_pid = pid, cw_w = 64, cw_h = 64, cw_buf = ucast buf, cw_title = [], cw_event = EV_NONE\<rparr>, None, None, None]\<rparr>))"
proof -
  have "read_byte ker (ucast title) m = Done None" using assms(12) by (simp add: read_byte_def mapped_def)
  then have "copy_string ker CLIENT_TITLE_CAP printable m (ucast title) [] = Some (Done [])"
    by (subst copy_string.simps) simp
  then show ?thesis
    using assms by (simp add: client_create_def create_client_def client_idx_of_def CLIENT_BUF_CAP_def Let_def)
qed

end
