(* ===== verification/Kernel_Example.thy ===== *)
theory Kernel_Example
  imports Kernel_Gate
begin

text \<open>
  A concrete run of the kernel scheduler, on which the properties of the switch and of the fault path are evaluated:
  the boot finishes, two user tasks are spawned, the idle task and then the first user task are entered.
\<close>

definition demo_frame :: interrupt_frame where
  "demo_frame = frame_zero\<lparr>fr_cs := USER_CS, fr_rip := 0x400010, fr_rax := 7\<rparr>"

definition demo :: "kevent list" where
  "demo = [EBoot 0x1000 0x8000, ESpawnUser 0x400000 0x7000 1 2, ESpawnUser 0x500000 0x6000 3 4, EYield frame_zero, EYield frame_zero]"

definition demo_state :: "kst \<times> (nat \<rightharpoonup> u64 list)" where
  "demo_state = krun demo (sched_init kst_init, Map.empty)"

text \<open>The first user task is preempted, the second one too, and the idle task yields.\<close>

definition demo_around :: "kevent list" where
  "demo_around = demo @ [EYield demo_frame, EYield (demo_frame\<lparr>fr_rip := 0x500020\<rparr>)]"

definition around_state :: "kst \<times> (nat \<rightharpoonup> u64 list)" where
  "around_state = krun demo_around (sched_init kst_init, Map.empty)"

definition restored :: "outcome \<Rightarrow> interrupt_frame" where
  "restored out = (case out of Restore g \<Rightarrow> g | _ \<Rightarrow> frame_zero)"

lemma demo_run: "krun demo (sched_init kst_init, Map.empty) = (fst demo_state, snd demo_state)"
  by (simp add: demo_state_def)

lemma around_run: "krun demo_around (sched_init kst_init, Map.empty) = (fst around_state, snd around_state)"
  by (simp add: around_state_def)

lemma restored_eq: "fr_rip (restored (fst p)) \<noteq> 0 \<Longrightarrow> p = (Restore (restored (fst p)), snd p)"
  by (cases p; cases "fst p") (simp_all add: restored_def frame_zero_def)

lemma around_rip: "fr_rip (restored (fst (kstep (EYield frame_zero) (fst around_state)))) = 0x400010"
  by code_simp

lemma around_switch: "ks_current (snd (kstep (EYield frame_zero) (fst around_state))) = 1"
  by code_simp

lemma demo_current: "ks_current (fst demo_state) = 1"
  by code_simp

lemma demo_waits: "waits_through 0 [EYield demo_frame] (fst demo_state)"
  by code_simp

lemma demo_pending: "pending_records (fst demo_state) = []"
  by code_simp

lemma demo_budget: "ks_counts (fst demo_state) ! nat 1 < MAX_FAULTS_PER_TASK"
  by code_simp

lemma demo_fault_rip: "fr_rip (restored (fst (kstep (EFault demo_frame PageFault) (fst demo_state)))) = 0x500000"
  by code_simp

lemma demo_user: "fr_cs demo_frame \<noteq> KERNEL_CS"
  by code_simp

text \<open>The first task comes back with the registers it was preempted with.\<close>

theorem kernel_context_preserved_witness:
  "ks_current (snd (kstep (EYield frame_zero) (fst around_state))) = 1 \<and>
   snd around_state 1 = Some (regs (restored (fst (kstep (EYield frame_zero) (fst around_state)))))"
proof -
  have "kstep (EYield frame_zero) (fst around_state) =
      (Restore (restored (fst (kstep (EYield frame_zero) (fst around_state)))), snd (kstep (EYield frame_zero) (fst around_state)))"
    using around_rip by (intro restored_eq) simp
  from kernel_context_preserved[OF around_run this] show ?thesis using around_switch by simp
qed

theorem kernel_bounded_waiting_witness:
  "waits_through 0 [EYield demo_frame] (fst demo_state) \<and> preemptions [EYield demo_frame] (fst demo_state) \<le> 6"
  using kernel_bounded_waiting[OF demo_run _ demo_waits] demo_waits by (simp add: MAX_TASKS_def)

theorem fault_queue_fifo_witness:
  "pending_records (fst demo_state) = [] \<and>
   (\<exists>h. hang_records (fst demo_state) h \<and> pending_records (snd (kstep (EFault demo_frame PageFault) (fst demo_state))) =
      queue_event (EFault demo_frame PageFault) (fst demo_state) h [])"
  using fault_queue_fifo[OF demo_run, of "EFault demo_frame PageFault"] demo_pending by simp

theorem fault_recovery_roundtrip_witness:
  "regs (kt_frame (ks_tasks (fault_resolve Rollback (snd (kstep (EFault demo_frame PageFault) (fst demo_state)))) ! 1)) = regs demo_frame"
proof -
  have "kstep (EFault demo_frame PageFault) (fst demo_state) =
      (Restore (restored (fst (kstep (EFault demo_frame PageFault) (fst demo_state)))), snd (kstep (EFault demo_frame PageFault) (fst demo_state)))"
    using demo_fault_rip by (intro restored_eq) simp
  from fault_recovery_roundtrip[OF demo_run _ demo_pending _ demo_user this, of Rollback] show ?thesis
    using demo_current demo_budget by (simp add: Let_def)
qed

subsection \<open>The gate\<close>

text \<open>
  The first gigabyte is mapped by one huge page, the rest is unmapped; the last cell of the gigabyte holds the string
  \<open>Hi\<close> with a control character in it; the kernel occupies three megabytes.  The second task holds a socket.
\<close>

definition gate_machine :: machine where
  "gate_machine = \<lparr>pg_mem = (\<lambda>a. if a = 0x1000 then 0x2003 else if a = 0x2000 then 0x83 else if a = 0x3FFFFFF8 then 0x690148 else 0),
     pg_cr3 = 0x1000, pg_phys_offset = 0, pg_frame_next = 0, pg_frame_region = 0, pg_frames_alloc = 0, pg_frame_regions = [],
     pg_frame_region_count = 0, pg_mmio_next = 0\<rparr>"

definition gate_kernel :: "u64 \<Rightarrow> bool" where
  "gate_kernel p \<longleftrightarrow> 0x100000 \<le> p \<and> p < 0x400000"

definition gate_sys :: sys where
  "gate_sys = (let s = sys_boot gate_kernel (fst demo_state) (net_boot [2, 0, 0, 0, 0, 1] lease_empty) gate_machine in
     s\<lparr>sy_socks := snd (sock_open 2 Tcp (sy_socks s))\<rparr>)"

definition call_frame :: "u64 \<Rightarrow> u64 \<Rightarrow> u64 \<Rightarrow> u64 \<Rightarrow> interrupt_frame" where
  "call_frame nr a b c = demo_frame\<lparr>fr_vector := 128, fr_rax := nr, fr_rdi := a, fr_rsi := b, fr_rcx := c\<rparr>"

lemma gate_sys_ok: "gate_ok gate_sys"
proof -
  have "kst_ok (fst demo_state)" "saved_ok (fst demo_state) (snd demo_state)"
    using krun_ok[of "(sched_init kst_init, Map.empty)" demo] kst_ok_init by (simp_all add: demo_state_def)
  from gate_ok_boot[OF this] show ?thesis
    by (simp add: gate_sys_def gate_ok_def boxes_ok_def sock_open_def alloc_port_def put_sock_def sys_boot_def Let_def split: option.split)
qed

lemma gate_actor: "actor gate_sys = 1"
  using demo_current by (simp add: actor_def gate_sys_def sys_boot_def current_pid_def Let_def)

lemma gate_socket: "object_of 2 gate_sys (ISock 0) =
    Some (OSock (sock_empty\<lparr>so_state := Closed, so_used := True, so_kind := Tcp, so_pid := 2, so_port := 49152\<rparr>))"
  by (simp add: gate_sys_def sys_boot_def sock_open_def alloc_port_def put_sock_def MAX_SOCKS_def held_by_def sock_empty_def Let_def
    numeral_eq_Suc)

lemma call_step:
  assumes "syscall f s = Some (Return, f', s')" "fr_vector f = 128"
  shows "irq_step (stub, key, f) s = Some s'"
  using assms by (simp add: irq_step_def aios_handle_interrupt_def APIC_TIMER_VECTOR_def)

text \<open>The first task tries to close the socket of the second one.\<close>

definition close_call :: irq where
  "close_call = (0, 0, call_frame SYS_SOCK_CLOSE 0 0 0)"

lemma close_returns: "\<exists>s'. steps irq_step [close_call] gate_sys = Some s'"
proof -
  have "\<exists>f' s'. syscall (call_frame SYS_SOCK_CLOSE 0 0 0) gate_sys = Some (Return, f', s')"
    by (simp add: syscall_def call_frame_def finish_def answer_def sock_syscall_def case_prod_beta Let_def)
  then obtain f' s' where "syscall (call_frame SYS_SOCK_CLOSE 0 0 0) gate_sys = Some (Return, f', s')" by blast
  from call_step[OF this, of 0 0] show ?thesis by (simp add: close_call_def call_frame_def)
qed

theorem kernel_task_isolation_witness:
  "\<exists>s'. steps irq_step [close_call] gate_sys = Some s' \<and> object_of 2 s' (ISock 0) =
     Some (OSock (sock_empty\<lparr>so_state := Closed, so_used := True, so_kind := Tcp, so_pid := 2, so_port := 49152\<rparr>))"
proof -
  obtain s' where s': "steps irq_step [close_call] gate_sys = Some s'" using close_returns by blast
  have "absent irq_step actor 2 [close_call] gate_sys" using gate_actor by (simp split: option.split)
  from kernel_task_isolation[OF gate_sys_ok s' this gate_socket] s' show ?thesis by blast
qed

text \<open>The first task sends a message to the second one.\<close>

definition send_call :: irq where
  "send_call = (0, 0, call_frame SYS_SEND 2 0 77)"

lemma send_returns: "\<exists>s'. steps irq_step [send_call] gate_sys = Some s'"
proof -
  have "\<exists>f' s'. syscall (call_frame SYS_SEND 2 0 77) gate_sys = Some (Return, f', s')"
    by (simp add: syscall_def call_frame_def answer_def case_prod_beta Let_def)
  then obtain f' s' where "syscall (call_frame SYS_SEND 2 0 77) gate_sys = Some (Return, f', s')" by blast
  from call_step[OF this, of 0 0] show ?thesis by (simp add: send_call_def call_frame_def)
qed

theorem kernel_ipc_fifo_witness:
  "\<exists>s'. steps irq_step [send_call] gate_sys = Some s' \<and>
     box_items 2 gate_sys @ ipc_sent 2 [send_call] gate_sys = ipc_got 2 [send_call] gate_sys @ box_items 2 s'"
proof -
  obtain s' where s': "steps irq_step [send_call] gate_sys = Some s'" using send_returns by blast
  from kernel_ipc_fifo[OF gate_sys_ok s', of 2] s' show ?thesis by blast
qed

text \<open>A write of the string at the end of the mapped memory: the bytes that can be read end with a NUL.\<close>

definition gate_bytes :: bytes where
  "gate_bytes = [0x48, 1, 0x69, 0, 0, 0, 0, 0]"

lemma gate_readable:
  "read_byte (gate_kernel) (0x3FFFFFF8 + word_of_nat 8) gate_machine = Done None"
  "list_all (\<lambda>i. read_byte (gate_kernel) (0x3FFFFFF8 + word_of_nat i) gate_machine = Done (Some (gate_bytes ! i))) [0..<8]"
  by code_simp+

lemma readable_unique:
  assumes "readable ker m ptr bs" "ends_with (read_byte ker (ptr + word_of_nat (length bs)) m)"
    "readable ker m ptr cs" "ends_with (read_byte ker (ptr + word_of_nat (length cs)) m)"
  shows "bs = cs"
  using assms
proof (induction bs arbitrary: ptr cs)
  case Nil
  then show ?case by (cases cs) (auto simp: readable_Cons ends_with_def)
next
  case (Cons b bs)
  then obtain d ds where cs: "cs = d # ds" by (cases cs) (auto simp: readable_Cons ends_with_def)
  then have "bs = ds" using Cons.IH[of "ptr + 1" ds] Cons.prems by (simp add: readable_Cons ac_simps)
  then show ?case using Cons.prems cs by (simp add: readable_Cons)
qed

theorem console_write_exact_witness:
  "\<exists>s'. syscall (call_frame SYS_WRITE 0 0x3FFFFFF8 0) gate_sys = Some (Return, (call_frame SYS_WRITE 0 0x3FFFFFF8 0)\<lparr>fr_rax := 2\<rparr>, s') \<and>
     sy_console s' = [0x48, 0x69]"
proof -
  have mach: "sy_mach gate_sys = gate_machine" "sy_console gate_sys = []" "sy_kernel gate_sys = gate_kernel"
    by (simp_all add: gate_sys_def sys_boot_def Let_def)
  have f: "fr_rsi (call_frame SYS_WRITE 0 0x3FFFFFF8 0) = 0x3FFFFFF8" "fr_rax (call_frame SYS_WRITE 0 0x3FFFFFF8 0) = SYS_WRITE"
    by (simp_all add: call_frame_def)
  have len: "length gate_bytes = 8" by (simp add: gate_bytes_def)
  have g: "readable (gate_kernel) gate_machine 0x3FFFFFF8 gate_bytes"
    using gate_readable(2) unfolding readable_def len by (simp only: list_all_iff set_upt atLeastLessThan_iff) simp
  have g2: "ends_with (read_byte (gate_kernel) (0x3FFFFFF8 + word_of_nat (length gate_bytes)) gate_machine)"
    unfolding len using gate_readable(1) by (simp only: ends_with_def) simp
  obtain bs a out s' where w: "readable (gate_kernel) gate_machine 0x3FFFFFF8 bs"
    "read_byte (gate_kernel) (0x3FFFFFF8 + word_of_nat (length bs)) gate_machine = a" "ends_with a"
    "out = take 64 (filter console_byte (takeWhile (\<lambda>b. b \<noteq> 0) bs))" "sy_console s' = [] @ out"
    "syscall (call_frame SYS_WRITE 0 0x3FFFFFF8 0) gate_sys =
      (if 0 \<in> set bs \<or> 64 \<le> length (filter console_byte bs) \<or> a = Done None
       then Some (Return, (call_frame SYS_WRITE 0 0x3FFFFFF8 0)\<lparr>fr_rax := word_of_nat (length out)\<rparr>, s')
       else if a = Trapped \<and> \<not> sy_probe_active gate_sys then Some (Halt, call_frame SYS_WRITE 0 0x3FFFFFF8 0, gate_entry gate_sys)
       else None)"
    using console_write_exact[OF f(2), of gate_sys] unfolding mach f(1) by blast
  have bs: "bs = gate_bytes" using readable_unique[OF w(1) _ g g2] w(2,3) by blast
  have out: "out = [0x48, 0x69]" "0 \<in> set bs" unfolding w(4) bs by code_simp+
  show ?thesis using w(5,6) out by simp
qed

end
