(* ===== verification/Scheduler.thy ===== *)
theory Scheduler
  imports Task
begin

text \<open>
  The process scheduler (\<open>aios-process-mgr/src/scheduler.rs\<close>): its state and every operation
  that changes it.  Clock readings are arguments, in the order the code takes them; a
  scheduling call that reads several clocks takes a record of readings.  A \<open>None\<close> result of a
  scheduling call is a panic of the code (a division by a zero aging threshold, or an
  \<open>unwrap\<close> of a missing process).  An OS thread is the record of its shared flags and slots.
  Log output and the float-valued memory pressure are left out.
\<close>

subsection \<open>State\<close>

datatype SchedulingMode = NormalMode | RealTime

record real_thread =
  rt_terminate :: bool
  rt_suspend :: bool
  rt_affinity :: "nat list"
  rt_panic :: "string option"
  rt_finished :: bool

record real_thread_state =
  rts_pid :: process_id
  rts_finished :: bool
  rts_suspended :: bool
  rts_terminated :: bool

record jitter_entry =
  je_pid :: process_id
  je_expected_ms :: u64
  je_actual_ms :: u64
  je_timestamp :: u64

record crash_event =
  ce_pid :: process_id
  ce_name :: string
  ce_timestamp :: u64
  ce_crash_count :: u32

record scheduler =
  sc_processes :: "process_id \<rightharpoonup> process"
  sc_queues :: "Priority \<rightharpoonup> process_id list"
  sc_current :: "process_id option"
  sc_timer :: "process_timer option"
  sc_next_pid :: u64
  sc_total_ram_mb :: u64
  sc_used_ram_mb :: u64
  sc_time_slice_ms :: u64
  sc_max_crash_restarts :: u32
  sc_crash_log :: "crash_event list"
  sc_aging_threshold_ms :: u64
  sc_last_scheduled_ms :: "process_id \<rightharpoonup> u64"
  sc_rr_positions :: "Priority \<rightharpoonup> nat"
  sc_pressure_callbacks :: "string list"
  sc_groups :: "u64 \<rightharpoonup> process_group"
  sc_next_group_id :: u64
  sc_mode :: SchedulingMode
  sc_rt_deadlines :: "process_id \<rightharpoonup> u64"
  sc_jitter_log :: "jitter_entry list"
  sc_max_jitter_entries :: nat
  sc_real_threads :: "process_id \<rightharpoonup> real_thread"
  sc_fault_queue :: "fault_info list"
  sc_snapshots :: "process_id \<rightharpoonup> task_snapshot"

definition scheduler_new :: "u64 \<Rightarrow> scheduler" where
  "scheduler_new total_ram_mb =
     \<lparr>sc_processes = Map.empty, sc_queues = Map.empty, sc_current = None, sc_timer = None,
      sc_next_pid = 1, sc_total_ram_mb = total_ram_mb, sc_used_ram_mb = 0,
      sc_time_slice_ms = 50, sc_max_crash_restarts = 3, sc_crash_log = [],
      sc_aging_threshold_ms = 500, sc_last_scheduled_ms = Map.empty,
      sc_rr_positions = Map.empty, sc_pressure_callbacks = [], sc_groups = Map.empty,
      sc_next_group_id = 1, sc_mode = NormalMode, sc_rt_deadlines = Map.empty,
      sc_jitter_log = [], sc_max_jitter_entries = 1000, sc_real_threads = Map.empty,
      sc_fault_queue = [], sc_snapshots = Map.empty\<rparr>"

definition with_aging_threshold :: "scheduler \<Rightarrow> u64 \<Rightarrow> scheduler" where
  "with_aging_threshold s ms = s\<lparr>sc_aging_threshold_ms := ms\<rparr>"

definition with_time_slice :: "scheduler \<Rightarrow> u64 \<Rightarrow> scheduler" where
  "with_time_slice s ms = s\<lparr>sc_time_slice_ms := ms\<rparr>"

definition sched_with_max_restarts :: "scheduler \<Rightarrow> u32 \<Rightarrow> scheduler" where
  "sched_with_max_restarts s m = s\<lparr>sc_max_crash_restarts := m\<rparr>"

text \<open>Updates of one process, the code's \<open>if let Some(p) = processes.get_mut(\<dots>)\<close>.\<close>

abbreviation modify_process :: "process_id \<Rightarrow> (process \<Rightarrow> process) \<Rightarrow> scheduler \<Rightarrow> scheduler" where
  "modify_process pid f s \<equiv> s\<lparr>sc_processes := update_entry (sc_processes s) pid f\<rparr>"

abbreviation set_state :: "ProcessState \<Rightarrow> process \<Rightarrow> process" where
  "set_state st p \<equiv> p\<lparr>pr_state := st\<rparr>"

definition timer_elapsed :: "instant \<Rightarrow> process_timer option \<Rightarrow> u64" where
  "timer_elapsed m t = (case t of None \<Rightarrow> 0 | Some t \<Rightarrow> elapsed_ms m t)"

abbreviation charge :: "u64 \<Rightarrow> process \<Rightarrow> process" where
  "charge ms p \<equiv> p\<lparr>pr_cpu_time_ms := pr_cpu_time_ms p + ms, pr_state := Ready\<rparr>"

definition force_preempt :: "instant \<Rightarrow> instant \<Rightarrow> u64 \<Rightarrow> scheduler \<Rightarrow> scheduler" where
  "force_preempt m0 m1 now s =
     (let s1 = (case sc_timer s of None \<Rightarrow> s | Some t \<Rightarrow> s\<lparr>sc_timer := Some (force_expire m0 t)\<rparr>)
      in case sc_current s1 of
           None \<Rightarrow> s1
         | Some c \<Rightarrow>
             (modify_process c (charge (timer_elapsed m1 (sc_timer s1))) s1)
               \<lparr>sc_last_scheduled_ms := (sc_last_scheduled_ms s1)(c \<mapsto> now),
                sc_current := None, sc_timer := None\<rparr>)"

definition set_scheduling_mode :: "SchedulingMode \<Rightarrow> scheduler \<Rightarrow> scheduler" where
  "set_scheduling_mode m s = s\<lparr>sc_mode := m\<rparr>"

definition set_rt_deadline :: "process_id \<Rightarrow> u64 \<Rightarrow> scheduler \<Rightarrow> scheduler" where
  "set_rt_deadline pid d s = s\<lparr>sc_rt_deadlines := (sc_rt_deadlines s)(pid \<mapsto> d)\<rparr>"

definition clear_rt_deadline :: "process_id \<Rightarrow> scheduler \<Rightarrow> scheduler" where
  "clear_rt_deadline pid s = s\<lparr>sc_rt_deadlines := (sc_rt_deadlines s)(pid := None)\<rparr>"

definition clear_jitter_log :: "scheduler \<Rightarrow> scheduler" where
  "clear_jitter_log s = s\<lparr>sc_jitter_log := []\<rparr>"

definition record_jitter :: "u64 \<Rightarrow> process_id \<Rightarrow> u64 \<Rightarrow> u64 \<Rightarrow> scheduler \<Rightarrow> scheduler" where
  "record_jitter now pid expected_ms actual_ms s =
     (let log = sc_jitter_log s @
        [\<lparr>je_pid = pid, je_expected_ms = expected_ms, je_actual_ms = actual_ms,
          je_timestamp = now\<rparr>]
      in s\<lparr>sc_jitter_log := (if sc_max_jitter_entries s < length log then tl log else log)\<rparr>)"

subsection \<open>Real-time selection\<close>

text \<open>
  The clock readings of a scheduling call: \<open>rd_mono i\<close> and \<open>rd_wall i\<close> are its \<open>i\<close>-th readings
  of \<open>Instant::now\<close> and \<open>now_ms\<close>, \<open>rd_wait pid\<close> the reading taken while \<open>pid\<close> is examined.
\<close>

record readings =
  rd_mono :: "nat \<Rightarrow> instant"
  rd_wall :: "nat \<Rightarrow> u64"
  rd_wait :: "process_id \<Rightarrow> u64"

definition rt_remaining :: "scheduler \<Rightarrow> u64 \<Rightarrow> process_id \<Rightarrow> u64" where
  "rt_remaining s now pid =
     sat_sub (case sc_rt_deadlines s pid of None \<Rightarrow> - 1 | Some d \<Rightarrow> d) now"

fun rt_best :: "scheduler \<Rightarrow> u64 \<Rightarrow> process_id list \<Rightarrow> (u64 \<times> process_id) option \<Rightarrow>
    (u64 \<times> process_id) option" where
  "rt_best s now [] best = best"
| "rt_best s now (pid # pids) best =
     (case sc_processes s pid of
        None \<Rightarrow> rt_best s now pids best
      | Some p \<Rightarrow>
          if pr_state p \<noteq> Ready then rt_best s now pids best
          else
            let remaining = rt_remaining s now pid in
            rt_best s now pids
              (case best of
                 None \<Rightarrow> Some (remaining, pid)
               | Some (r, _) \<Rightarrow> if remaining < r then Some (remaining, pid) else best))"

definition rt_jitter :: "readings \<Rightarrow> process_id \<Rightarrow> u64 \<Rightarrow> scheduler \<Rightarrow> scheduler" where
  "rt_jitter rd pid now s =
     (case sc_rt_deadlines s pid of
        None \<Rightarrow> s
      | Some deadline \<Rightarrow>
          let expected = sc_time_slice_ms s;
              actual = sat_sub now (case sc_last_scheduled_ms s pid of None \<Rightarrow> now | Some l \<Rightarrow> l);
              s' = (if expected < actual
                    then record_jitter (rd_wall rd 1) pid expected actual s else s)
          in if deadline \<le> now then record_jitter (rd_wall rd 2) pid expected actual s' else s')"

definition rt_switch :: "process_id \<Rightarrow> scheduler \<Rightarrow> scheduler" where
  "rt_switch pid s =
     (case sc_current s of
        None \<Rightarrow> s
      | Some old \<Rightarrow> if old \<noteq> pid then modify_process old (set_state Ready) s else s)"

definition schedule_next_rt ::
  "readings \<Rightarrow> process_id list \<Rightarrow> scheduler \<Rightarrow> (process_id option \<times> scheduler) option" where
  "schedule_next_rt rd order s =
     (let now = rd_wall rd 0 in
      case rt_best s now order None of
        None \<Rightarrow> Some (None, s\<lparr>sc_current := None, sc_timer := None\<rparr>)
      | Some (_, pid) \<Rightarrow>
          let s1 = rt_switch pid s in
          case sc_processes s1 pid of
            None \<Rightarrow> None
          | Some _ \<Rightarrow>
              let s2 = (modify_process pid (set_state Running) s1)
                    \<lparr>sc_current := Some pid,
                     sc_timer := Some (timer_new (rd_mono rd 0) pid (sc_time_slice_ms s1))\<rparr>;
                  s3 = rt_jitter rd pid now s2
              in Some (Some pid,
                   s3\<lparr>sc_last_scheduled_ms := (sc_last_scheduled_ms s3)(pid \<mapsto> now)\<rparr>))"

definition set_last_scheduled :: "process_id \<Rightarrow> u64 \<Rightarrow> scheduler \<Rightarrow> scheduler" where
  "set_last_scheduled pid ms s =
     s\<lparr>sc_last_scheduled_ms := (sc_last_scheduled_ms s)(pid \<mapsto> ms)\<rparr>"

subsection \<open>Spawning and killing\<close>

definition insufficient_ram :: "scheduler \<Rightarrow> u64 \<Rightarrow> AIOSException" where
  "insufficient_ram s ram_mb =
     SchedulerError (''Insufficient RAM: requested '' @ dec_word ram_mb @ ''MB, available '' @
       dec_word (sc_total_ram_mb s - sc_used_ram_mb s) @ ''MB'')"

definition spawn_process ::
  "u64 \<Rightarrow> string \<Rightarrow> Priority \<Rightarrow> u64 \<Rightarrow> scheduler \<Rightarrow> process_id result \<times> scheduler" where
  "spawn_process now name priority ram_mb s =
     (if sc_total_ram_mb s < sc_used_ram_mb s + ram_mb
      then (Err (insufficient_ram s ram_mb), s)
      else
        let pid = sc_next_pid s;
            process = with_max_restarts (process_new pid name priority ram_mb)
              (sc_max_crash_restarts s)
        in (Ok pid, s\<lparr>sc_next_pid := sc_next_pid s + 1,
              sc_processes := (sc_processes s)(pid \<mapsto> process),
              sc_queues := entry_push (sc_queues s) priority pid,
              sc_used_ram_mb := sc_used_ram_mb s + ram_mb,
              sc_last_scheduled_ms := (sc_last_scheduled_ms s)(pid \<mapsto> now)\<rparr>))"

text \<open>\<open>thread_error\<close> is the error text of \<open>Builder::spawn\<close>, if it failed.\<close>

definition spawn_real_process ::
  "string option \<Rightarrow> u64 \<Rightarrow> string \<Rightarrow> Priority \<Rightarrow> u64 \<Rightarrow> scheduler \<Rightarrow> process_id result \<times> scheduler" where
  "spawn_real_process thread_error now name priority ram_mb s =
     (if sc_total_ram_mb s < sc_used_ram_mb s + ram_mb
      then (Err (insufficient_ram s ram_mb), s)
      else
        let pid = sc_next_pid s;
            s1 = s\<lparr>sc_next_pid := sc_next_pid s + 1\<rparr>
        in case thread_error of
             Some e \<Rightarrow> (Err (SchedulerError (''Failed to spawn thread: '' @ e)), s1)
           | None \<Rightarrow>
               let process = with_max_restarts (process_new pid name priority ram_mb)
                     (sc_max_crash_restarts s1)
               in (Ok pid, s1\<lparr>
                     sc_snapshots := (sc_snapshots s1)(pid \<mapsto> snapshot_capture process),
                     sc_processes := (sc_processes s1)(pid \<mapsto> process),
                     sc_queues := entry_push (sc_queues s1) priority pid,
                     sc_used_ram_mb := sc_used_ram_mb s1 + ram_mb,
                     sc_last_scheduled_ms := (sc_last_scheduled_ms s1)(pid \<mapsto> now),
                     sc_real_threads := (sc_real_threads s1)(pid \<mapsto>
                       \<lparr>rt_terminate = False, rt_suspend = False, rt_affinity = [],
                        rt_panic = None, rt_finished = False\<rparr>)\<rparr>))"

definition spawn_child ::
  "process_id \<Rightarrow> string \<Rightarrow> Priority \<Rightarrow> u64 \<Rightarrow> scheduler \<Rightarrow> process_id result \<times> scheduler" where
  "spawn_child parent_pid name priority ram_mb s =
     (if sc_total_ram_mb s < sc_used_ram_mb s + ram_mb
      then (Err (insufficient_ram s ram_mb), s)
      else
        let pid = sc_next_pid s;
            process = with_max_restarts
              (with_parent (process_new pid name priority ram_mb) parent_pid)
              (sc_max_crash_restarts s)
        in (Ok pid, s\<lparr>sc_next_pid := sc_next_pid s + 1,
              sc_processes := (sc_processes s)(pid \<mapsto> process),
              sc_queues := entry_push (sc_queues s) priority pid,
              sc_used_ram_mb := sc_used_ram_mb s + ram_mb\<rparr>))"

text \<open>The payload thread: one run of the spawned closure's loop body, given how the payload ends.\<close>

datatype thread_outcome = ThreadStop | ThreadPark | ThreadDone "string option"

definition thread_body :: "real_thread \<Rightarrow> string option \<Rightarrow> thread_outcome" where
  "thread_body rt payload_panic =
     (if rt_terminate rt then ThreadStop
      else if rt_suspend rt then ThreadPark
      else ThreadDone payload_panic)"

definition thread_step :: "process_id \<Rightarrow> string option \<Rightarrow> scheduler \<Rightarrow> scheduler" where
  "thread_step pid payload_panic s =
     s\<lparr>sc_real_threads := update_entry (sc_real_threads s) pid (\<lambda>rt.
        if rt_finished rt then rt
        else case thread_body rt payload_panic of
            ThreadStop \<Rightarrow> rt\<lparr>rt_finished := True\<rparr>
          | ThreadPark \<Rightarrow> rt
          | ThreadDone None \<Rightarrow> rt\<lparr>rt_finished := True\<rparr>
          | ThreadDone (Some m) \<Rightarrow> rt\<lparr>rt_panic := Some m, rt_finished := True\<rparr>)\<rparr>"

definition queue_remove ::
  "(Priority \<rightharpoonup> process_id list) \<Rightarrow> Priority \<Rightarrow> process_id \<Rightarrow> (Priority \<rightharpoonup> process_id list)" where
  "queue_remove queues prio pid =
     (case queues prio of
        None \<Rightarrow> queues
      | Some q \<Rightarrow>
          let q' = filter (\<lambda>p. p \<noteq> pid) q in
          if q' = [] then queues(prio := None) else queues(prio \<mapsto> q'))"

text \<open>
  A kill also sets the stop flag of the process's thread and joins it; the thread polls the flag
  between the runs of its payload, so for a payload that returns the join returns; the model takes
  the call up from there.
\<close>

definition kill_process :: "process_id \<Rightarrow> scheduler \<Rightarrow> process result \<times> scheduler" where
  "kill_process pid s =
     (let s1 = s\<lparr>sc_real_threads := (sc_real_threads s)(pid := None),
                sc_snapshots := (sc_snapshots s)(pid := None),
                sc_fault_queue := filter (\<lambda>f. fi_pid f \<noteq> pid) (sc_fault_queue s)\<rparr>
      in case sc_processes s1 pid of
           None \<Rightarrow> (Err (ProcessNotFound pid), s1)
         | Some p \<Rightarrow>
             let process = set_state Terminated p;
                 s2 = s1\<lparr>sc_processes := (sc_processes s1)(pid := None),
                        sc_used_ram_mb := sat_sub (sc_used_ram_mb s1) (pr_ram_quota_mb process),
                        sc_queues := queue_remove (sc_queues s1) (pr_priority process) pid\<rparr>
             in (Ok process,
                 if sc_current s2 = Some pid then s2\<lparr>sc_current := None, sc_timer := None\<rparr>
                 else s2))"

definition set_priority :: "process_id \<Rightarrow> Priority \<Rightarrow> scheduler \<Rightarrow> unit result \<times> scheduler" where
  "set_priority pid new_priority s =
     (case sc_processes s pid of
        None \<Rightarrow> (Err (ProcessNotFound pid), s)
      | Some p \<Rightarrow>
          let old_priority = pr_priority p in
          if old_priority = new_priority then (Ok (), s)
          else (Ok (), s\<lparr>
            sc_processes := (sc_processes s)(pid \<mapsto> p\<lparr>pr_priority := new_priority\<rparr>),
            sc_queues := entry_push (queue_remove (sc_queues s) old_priority pid)
              new_priority pid\<rparr>))"

definition suspend_process :: "process_id \<Rightarrow> scheduler \<Rightarrow> unit result \<times> scheduler" where
  "suspend_process pid s =
     (case sc_processes s pid of
        None \<Rightarrow> (Err (ProcessNotFound pid), s)
      | Some p \<Rightarrow>
          let s1 = s\<lparr>sc_processes := (sc_processes s)(pid \<mapsto> set_state Suspended p)\<rparr>;
              s2 = (if sc_current s1 = Some pid
                    then s1\<lparr>sc_current := None, sc_timer := None\<rparr> else s1)
          in (Ok (), s2\<lparr>sc_real_threads :=
                update_entry (sc_real_threads s2) pid (\<lambda>rt. rt\<lparr>rt_suspend := True\<rparr>)\<rparr>))"

definition resume_process :: "process_id \<Rightarrow> scheduler \<Rightarrow> unit result \<times> scheduler" where
  "resume_process pid s =
     (case sc_processes s pid of
        None \<Rightarrow> (Err (ProcessNotFound pid), s)
      | Some p \<Rightarrow>
          let s1 = (if pr_state p = Suspended
                    then s\<lparr>sc_processes := (sc_processes s)(pid \<mapsto> set_state Ready p)\<rparr> else s)
          in (Ok (), s1\<lparr>sc_real_threads :=
                update_entry (sc_real_threads s1) pid (\<lambda>rt. rt\<lparr>rt_suspend := False\<rparr>)\<rparr>))"

subsection \<open>Crashes and faults\<close>

definition report_crash :: "u64 \<Rightarrow> process_id \<Rightarrow> scheduler \<Rightarrow> crash_event result \<times> scheduler" where
  "report_crash now pid s =
     (case sc_processes s pid of
        None \<Rightarrow> (Err (ProcessNotFound pid), s)
      | Some p \<Rightarrow>
          let p' = p\<lparr>pr_crash_count := pr_crash_count p + 1, pr_state := Crashed\<rparr>;
              event = \<lparr>ce_pid = pid, ce_name = pr_name p', ce_timestamp = now,
                ce_crash_count = pr_crash_count p'\<rparr>
          in (Ok event, s\<lparr>sc_processes := (sc_processes s)(pid \<mapsto> p'),
                sc_crash_log := sc_crash_log s @ [event]\<rparr>))"

definition should_restart :: "process_id \<Rightarrow> scheduler \<Rightarrow> bool" where
  "should_restart pid s =
     (case sc_processes s pid of
        None \<Rightarrow> False
      | Some p \<Rightarrow> pr_state p = Crashed \<and> pr_crash_count p < pr_max_restarts p)"

text \<open>
  \<open>poll_faults\<close>: \<open>order\<close> is the iteration order over the real threads; \<open>now pid\<close> is the clock
  reading taken for the report of \<open>pid\<close>.
\<close>

definition take_panics :: "process_id list \<Rightarrow> (process_id \<rightharpoonup> real_thread) \<Rightarrow>
    (process_id \<times> string) list" where
  "take_panics order threads =
     List.map_filter (\<lambda>pid. case threads pid of
         None \<Rightarrow> None
       | Some rt \<Rightarrow> map_option (\<lambda>m. (pid, m)) (rt_panic rt)) order"

definition raise_fault :: "(process_id \<Rightarrow> u64) \<Rightarrow> process_id \<times> string \<Rightarrow> scheduler \<Rightarrow> fault_info \<times> scheduler" where
  "raise_fault now pm s =
     (let (pid, message) = pm;
          s1 = s\<lparr>sc_real_threads := (sc_real_threads s)(pid := None)\<rparr>;
          info = (case sc_processes s1 pid of
              Some p \<Rightarrow> fault_for (now pid) p Panic message
            | None \<Rightarrow> fault_info_new pid ''unknown'' Panic message (now pid));
          s2 = (case sc_processes s1 pid of
              None \<Rightarrow> s1
            | Some p \<Rightarrow>
                let p' = p\<lparr>pr_crash_count := pr_crash_count p + 1, pr_state := Crashed\<rparr> in
                s1\<lparr>sc_processes := (sc_processes s1)(pid \<mapsto> p'),
                   sc_crash_log := sc_crash_log s1 @
                     [\<lparr>ce_pid = pid, ce_name = pr_name p', ce_timestamp = fi_timestamp_ms info,
                       ce_crash_count = pr_crash_count p'\<rparr>]\<rparr>)
      in (info, s2\<lparr>sc_fault_queue := sc_fault_queue s2 @ [info]\<rparr>))"

fun raise_faults :: "(process_id \<Rightarrow> u64) \<Rightarrow> (process_id \<times> string) list \<Rightarrow> scheduler \<Rightarrow>
    fault_info list \<times> scheduler" where
  "raise_faults now [] s = ([], s)"
| "raise_faults now (pm # pms) s =
     (let (info, s1) = raise_fault now pm s; (infos, s2) = raise_faults now pms s1
      in (info # infos, s2))"

definition poll_faults :: "(process_id \<Rightarrow> u64) \<Rightarrow> process_id list \<Rightarrow> scheduler \<Rightarrow>
    fault_info list \<times> scheduler" where
  "poll_faults now order s =
     (let found = take_panics order (sc_real_threads s);
          s1 = s\<lparr>sc_real_threads := (\<lambda>pid. if pid \<in> set order
                 then map_option (\<lambda>rt. rt\<lparr>rt_panic := None\<rparr>) (sc_real_threads s pid)
                 else sc_real_threads s pid)\<rparr>
      in raise_faults now found s1)"

definition has_pending_fault :: "process_id \<Rightarrow> scheduler \<Rightarrow> bool" where
  "has_pending_fault pid s \<longleftrightarrow> (\<exists>f\<in>set (sc_fault_queue s). fi_pid f = pid)"

definition take_faults :: "scheduler \<Rightarrow> fault_info list \<times> scheduler" where
  "take_faults s = (sc_fault_queue s, s\<lparr>sc_fault_queue := []\<rparr>)"

definition resolve_fault :: "process_id \<Rightarrow> RecoveryAction \<Rightarrow> scheduler \<Rightarrow> unit result \<times> scheduler" where
  "resolve_fault pid action s =
     (if \<not> has_pending_fault pid s then (Err (ProcessNotFound pid), s)
      else
        let s1 = s\<lparr>sc_fault_queue := filter (\<lambda>f. fi_pid f \<noteq> pid) (sc_fault_queue s)\<rparr> in
        case action of
          Terminate \<Rightarrow>
            (case kill_process pid s1 of
               (Err e, s2) \<Rightarrow> (Err e, s2)
             | (Ok _, s2) \<Rightarrow> (Ok (), s2))
        | Resume \<Rightarrow>
            (case sc_processes s1 pid of
               None \<Rightarrow> (Err (ProcessNotFound pid), s1)
             | Some p \<Rightarrow>
                 (Ok (), s1\<lparr>sc_processes := (sc_processes s1)(pid \<mapsto> set_state Ready p)\<rparr>))
        | Rollback \<Rightarrow>
            (case sc_snapshots s1 pid of
               None \<Rightarrow> (Err (ProcessNotFound pid), s1)
             | Some sn \<Rightarrow>
                 (case sc_processes s1 pid of
                    None \<Rightarrow> (Err (ProcessNotFound pid), s1)
                  | Some p \<Rightarrow>
                      (Ok (), s1\<lparr>sc_processes := (sc_processes s1)(pid \<mapsto>
                         set_state Ready (snapshot_restore_to sn p))\<rparr>))))"

subsection \<open>Normal selection\<close>

fun priority_weight :: "Priority \<Rightarrow> u32" where
  "priority_weight Background = 1"
| "priority_weight Low = 2"
| "priority_weight Normal = 3"
| "priority_weight High = 4"
| "priority_weight Critical = 5"

text \<open>The queue from the round-robin position on, and the whole visiting order.\<close>

definition rr_order :: "nat \<Rightarrow> process_id list \<Rightarrow> process_id list" where
  "rr_order rr_pos q = map (\<lambda>i. q ! ((rr_pos + i) mod length q)) [0..<length q]"

definition visit_order :: "scheduler \<Rightarrow> (Priority \<times> process_id) list" where
  "visit_order s =
     concat (map (\<lambda>prio. case sc_queues s prio of
         None \<Rightarrow> []
       | Some q \<Rightarrow> map (Pair prio)
           (rr_order (case sc_rr_positions s prio of None \<Rightarrow> 0 | Some r \<Rightarrow> r) q))
       [Critical, High, Normal, Low, Background])"

text \<open>The aged priority; \<open>None\<close> is the division by a zero threshold.\<close>

definition effective_priority :: "readings \<Rightarrow> scheduler \<Rightarrow> Priority \<Rightarrow> process_id \<Rightarrow> Priority option" where
  "effective_priority rd s prio pid =
     (case sc_last_scheduled_ms s pid of
        None \<Rightarrow> Some prio
      | Some last_ms \<Rightarrow>
          if sc_aging_threshold_ms s = 0 then None
          else
            let wait = sat_sub (rd_wait rd pid) last_ms;
                boost = ucast (min (wait div sc_aging_threshold_ms s) 4) :: u8
            in Some (priority_from_u8 (prio_rank prio + boost)))"

definition examine :: "readings \<Rightarrow> scheduler \<Rightarrow> process_id option \<Rightarrow> Priority \<times> process_id \<Rightarrow>
    (Priority \<times> u32 \<times> process_id) option \<Rightarrow> (Priority \<times> u32 \<times> process_id) option option" where
  "examine rd s skip pp cand =
     (let (prio, pid) = pp in
      if Some pid = skip then Some cand
      else case sc_processes s pid of
          None \<Rightarrow> Some cand
        | Some p \<Rightarrow>
            if pr_state p \<noteq> Ready then Some cand
            else case effective_priority rd s prio pid of
                None \<Rightarrow> None
              | Some eff \<Rightarrow>
                  let weight = priority_weight eff in
                  Some (case cand of
                      None \<Rightarrow> Some (eff, weight, pid)
                    | Some (ceff, cweight, _) \<Rightarrow>
                        if ceff < eff \<or> eff = ceff \<and> cweight < weight
                        then Some (eff, weight, pid) else cand))"

fun select :: "readings \<Rightarrow> scheduler \<Rightarrow> process_id option \<Rightarrow> (Priority \<times> process_id) list \<Rightarrow>
    (Priority \<times> u32 \<times> process_id) option \<Rightarrow> (Priority \<times> u32 \<times> process_id) option option" where
  "select rd s skip [] cand = Some cand"
| "select rd s skip (pp # pps) cand =
     (case examine rd s skip pp cand of
        None \<Rightarrow> None
      | Some cand' \<Rightarrow> select rd s skip pps cand')"

definition preempt_expired :: "readings \<Rightarrow> scheduler \<Rightarrow> scheduler" where
  "preempt_expired rd s =
     (case sc_current s of
        None \<Rightarrow> s
      | Some c \<Rightarrow>
          (modify_process c (charge (timer_elapsed (rd_mono rd 1) (sc_timer s))) s)
            \<lparr>sc_last_scheduled_ms := (sc_last_scheduled_ms s)(c \<mapsto> rd_wall rd 0)\<rparr>)"

definition dispatch_rr :: "process_id \<Rightarrow> scheduler \<Rightarrow> scheduler" where
  "dispatch_rr pid s =
     (let s1 = (case sc_current s of
            None \<Rightarrow> s | Some old \<Rightarrow> modify_process old (set_state Ready) s)
      in case sc_processes s1 pid of
            None \<Rightarrow> s1
          | Some p \<Rightarrow>
              (case sc_queues s1 (pr_priority p) of
                 None \<Rightarrow> s1
               | Some q \<Rightarrow>
                   (case position (\<lambda>x. x = pid) q of
                      None \<Rightarrow> s1
                    | Some pos \<Rightarrow> s1\<lparr>sc_rr_positions :=
                        (sc_rr_positions s1)(pr_priority p \<mapsto> (pos + 1) mod length q)\<rparr>)))"

definition dispatch :: "readings \<Rightarrow> process_id \<Rightarrow> scheduler \<Rightarrow> (process_id option \<times> scheduler) option" where
  "dispatch rd pid s =
     (let s2 = dispatch_rr pid s in
      case sc_processes s2 pid of
        None \<Rightarrow> None
      | Some p \<Rightarrow>
          let time_slice = sc_time_slice_ms s2 * ucast (priority_weight (pr_priority p)) in
          Some (Some pid, (modify_process pid (set_state Running) s2)
            \<lparr>sc_current := Some pid,
             sc_timer := Some (timer_new (rd_mono rd 2) pid time_slice)\<rparr>))"

definition schedule_next ::
  "readings \<Rightarrow> process_id list \<Rightarrow> scheduler \<Rightarrow> (process_id option \<times> scheduler) option" where
  "schedule_next rd order s =
     (if sc_mode s = RealTime then schedule_next_rt rd order s
      else
        case (sc_current s, sc_timer s) of
          (Some c, Some t) \<Rightarrow>
            if \<not> quota_exceeded (rd_mono rd 0) t then Some (Some c, s)
            else (let s1 = preempt_expired rd s in
              case select rd s1 (sc_current s1) (visit_order s1) None of
                None \<Rightarrow> None
              | Some None \<Rightarrow> Some (None, s1\<lparr>sc_current := None, sc_timer := None\<rparr>)
              | Some (Some (_, _, pid)) \<Rightarrow> dispatch rd pid s1)
        | _ \<Rightarrow> (let s1 = preempt_expired rd s in
              case select rd s1 (sc_current s1) (visit_order s1) None of
                None \<Rightarrow> None
              | Some None \<Rightarrow> Some (None, s1\<lparr>sc_current := None, sc_timer := None\<rparr>)
              | Some (Some (_, _, pid)) \<Rightarrow> dispatch rd pid s1))"

definition tick ::
  "instant \<Rightarrow> instant \<Rightarrow> readings \<Rightarrow> process_id list \<Rightarrow> scheduler \<Rightarrow> (process_id option \<times> scheduler) option" where
  "tick m0 m1 rd order s =
     schedule_next rd order
       (case sc_timer s of
          None \<Rightarrow> s
        | Some t \<Rightarrow>
            if quota_exceeded m0 t
            then (case sc_current s of
                None \<Rightarrow> s
              | Some c \<Rightarrow> (modify_process c (charge (elapsed_ms m1 t)) s)
                  \<lparr>sc_current := None, sc_timer := None\<rparr>)
            else s)"

subsection \<open>Groups\<close>

definition create_group :: "u64 \<Rightarrow> string \<Rightarrow> Priority \<Rightarrow> scheduler \<Rightarrow> u64 \<times> scheduler" where
  "create_group now name priority s =
     (let gid = sc_next_group_id s in
      (gid, s\<lparr>sc_next_group_id := sc_next_group_id s + 1,
              sc_groups := (sc_groups s)(gid \<mapsto> group_new now gid name priority)\<rparr>))"

definition create_session :: "u64 \<Rightarrow> string \<Rightarrow> Priority \<Rightarrow> scheduler \<Rightarrow> u64 \<times> scheduler" where
  "create_session now name priority s =
     (let gid = sc_next_group_id s in
      (gid, s\<lparr>sc_next_group_id := sc_next_group_id s + 1,
              sc_groups := (sc_groups s)(gid \<mapsto>
                (group_new now gid name priority)\<lparr>gr_session_id := Some gid\<rparr>)\<rparr>))"

definition group_not_found :: "u64 \<Rightarrow> AIOSException" where
  "group_not_found gid = SchedulerError (''Group '' @ dec_word gid @ '' not found'')"

definition add_to_group :: "process_id \<Rightarrow> u64 \<Rightarrow> scheduler \<Rightarrow> unit result \<times> scheduler" where
  "add_to_group pid gid s =
     (case sc_groups s gid of
        None \<Rightarrow> (Err (group_not_found gid), s)
      | Some g \<Rightarrow> (Ok (), modify_process pid (\<lambda>p. p\<lparr>pr_group_id := Some gid\<rparr>)
          (s\<lparr>sc_groups := (sc_groups s)(gid \<mapsto> add_member g pid)\<rparr>)))"

definition remove_from_group :: "process_id \<Rightarrow> scheduler \<Rightarrow> unit result \<times> scheduler" where
  "remove_from_group pid s =
     (case Option.bind (sc_processes s pid) pr_group_id of
        None \<Rightarrow> (Err (SchedulerError (''Process '' @ dec_word pid @ '' has no group'')), s)
      | Some gid \<Rightarrow> (Ok (), modify_process pid (\<lambda>p. p\<lparr>pr_group_id := None\<rparr>)
          (s\<lparr>sc_groups := update_entry (sc_groups s) gid (\<lambda>g. remove_member g pid)\<rparr>)))"

fun kill_all :: "process_id list \<Rightarrow> scheduler \<Rightarrow> scheduler" where
  "kill_all [] s = s"
| "kill_all (pid # pids) s = kill_all pids (snd (kill_process pid s))"

definition kill_group :: "u64 \<Rightarrow> scheduler \<Rightarrow> process_id list result \<times> scheduler" where
  "kill_group gid s =
     (case sc_groups s gid of
        None \<Rightarrow> (Err (group_not_found gid), s)
      | Some g \<Rightarrow>
          let pids = gr_member_pids g; s1 = kill_all pids s
          in (Ok pids, s1\<lparr>sc_groups := (sc_groups s1)(gid := None)\<rparr>))"

fun suspend_all :: "process_id list \<Rightarrow> scheduler \<Rightarrow> process_id list \<times> scheduler" where
  "suspend_all [] s = ([], s)"
| "suspend_all (pid # pids) s =
     (case sc_processes s pid of
        None \<Rightarrow> suspend_all pids s
      | Some p \<Rightarrow>
          if pr_state p = Running \<or> pr_state p = Ready
          then (let (done, s1) = suspend_all pids
                  (s\<lparr>sc_processes := (sc_processes s)(pid \<mapsto> set_state Suspended p)\<rparr>)
                in (pid # done, s1))
          else suspend_all pids s)"

definition suspend_group :: "u64 \<Rightarrow> scheduler \<Rightarrow> process_id list result \<times> scheduler" where
  "suspend_group gid s =
     (case sc_groups s gid of
        None \<Rightarrow> (Err (group_not_found gid), s)
      | Some g \<Rightarrow> (let (done, s1) = suspend_all (gr_member_pids g) s in (Ok done, s1)))"

fun resume_all :: "process_id list \<Rightarrow> scheduler \<Rightarrow> process_id list \<times> scheduler" where
  "resume_all [] s = ([], s)"
| "resume_all (pid # pids) s =
     (case sc_processes s pid of
        None \<Rightarrow> resume_all pids s
      | Some p \<Rightarrow>
          if pr_state p = Suspended
          then (let (done, s1) = resume_all pids
                  (s\<lparr>sc_processes := (sc_processes s)(pid \<mapsto> set_state Ready p)\<rparr>)
                in (pid # done, s1))
          else resume_all pids s)"

definition resume_group :: "u64 \<Rightarrow> scheduler \<Rightarrow> process_id list result \<times> scheduler" where
  "resume_group gid s =
     (case sc_groups s gid of
        None \<Rightarrow> (Err (group_not_found gid), s)
      | Some g \<Rightarrow> (let (done, s1) = resume_all (gr_member_pids g) s in (Ok done, s1)))"

fun set_all_priorities :: "process_id list \<Rightarrow> Priority \<Rightarrow> scheduler \<Rightarrow> unit result \<times> scheduler" where
  "set_all_priorities [] priority s = (Ok (), s)"
| "set_all_priorities (pid # pids) priority s =
     (case set_priority pid priority s of
        (Err e, s1) \<Rightarrow> (Err e, s1)
      | (Ok _, s1) \<Rightarrow> set_all_priorities pids priority s1)"

definition set_group_priority :: "u64 \<Rightarrow> Priority \<Rightarrow> scheduler \<Rightarrow> unit result \<times> scheduler" where
  "set_group_priority gid priority s =
     (case sc_groups s gid of
        None \<Rightarrow> (Err (group_not_found gid), s)
      | Some g \<Rightarrow> set_all_priorities (gr_member_pids g) priority
          (s\<lparr>sc_groups := (sc_groups s)(gid \<mapsto> g\<lparr>gr_priority := priority\<rparr>)\<rparr>))"

subsection \<open>OS threads and queries\<close>

definition register_memory_pressure_callback :: "string \<Rightarrow> scheduler \<Rightarrow> scheduler" where
  "register_memory_pressure_callback name s =
     (if name \<in> set (sc_pressure_callbacks s) then s
      else s\<lparr>sc_pressure_callbacks := sc_pressure_callbacks s @ [name]\<rparr>)"

fun reap_threads :: "process_id list \<Rightarrow> scheduler \<Rightarrow> scheduler" where
  "reap_threads [] s = s"
| "reap_threads (pid # pids) s =
     reap_threads pids
       (modify_process pid
          (\<lambda>p. if pr_state p = Running \<or> pr_state p = Ready then set_state Ready p else p)
          (s\<lparr>sc_real_threads := (sc_real_threads s)(pid := None)\<rparr>))"

definition check_real_threads :: "process_id list \<Rightarrow> scheduler \<Rightarrow> process_id list \<times> scheduler" where
  "check_real_threads order s =
     (let finished = filter (\<lambda>pid. case sc_real_threads s pid of
          None \<Rightarrow> False | Some rt \<Rightarrow> rt_finished rt) order
      in (finished, reap_threads finished s))"

text \<open>\<open>cpu_affinity::validate_cores\<close> on Linux (\<open>CPU_SETSIZE = 1024\<close>).\<close>

definition validate_cores :: "nat list \<Rightarrow> unit result" where
  "validate_cores cores =
     (if cores = [] then Err (SchedulerError ''CPU affinity requires at least one core'')
      else case List.find (\<lambda>c. 1024 \<le> c) cores of
          None \<Rightarrow> Ok ()
        | Some c \<Rightarrow> Err (SchedulerError (''Core index '' @ dec c @ '' exceeds maximum (1024)'')))"

definition set_cpu_affinity :: "process_id \<Rightarrow> nat list \<Rightarrow> scheduler \<Rightarrow> unit result \<times> scheduler" where
  "set_cpu_affinity pid cores s =
     (case validate_cores cores of
        Err e \<Rightarrow> (Err e, s)
      | Ok _ \<Rightarrow>
          (case sc_real_threads s pid of
             None \<Rightarrow> (Err (SchedulerError (''Process '' @ dec_word pid @ '' is not a real thread'')), s)
           | Some rt \<Rightarrow> (Ok (), s\<lparr>sc_real_threads :=
               (sc_real_threads s)(pid \<mapsto> rt\<lparr>rt_affinity := cores\<rparr>)\<rparr>)))"

definition get_cpu_affinity :: "process_id \<Rightarrow> scheduler \<Rightarrow> nat list option" where
  "get_cpu_affinity pid s =
     (case sc_real_threads s pid of
        None \<Rightarrow> None
      | Some rt \<Rightarrow> if rt_affinity rt = [] then None else Some (rt_affinity rt))"

definition get_real_thread_state :: "process_id \<Rightarrow> scheduler \<Rightarrow> real_thread_state option" where
  "get_real_thread_state pid s =
     map_option (\<lambda>rt. \<lparr>rts_pid = pid, rts_finished = rt_finished rt,
       rts_suspended = rt_suspend rt, rts_terminated = rt_terminate rt\<rparr>) (sc_real_threads s pid)"

definition group_members :: "u64 \<Rightarrow> scheduler \<Rightarrow> process list" where
  "group_members gid s =
     (case sc_groups s gid of
        None \<Rightarrow> []
      | Some g \<Rightarrow> List.map_filter (sc_processes s) (gr_member_pids g))"

end
