(* ===== verification/Scheduler_Frame.thy ===== *)
theory Scheduler_Frame
  imports Scheduler
begin

text \<open>
  Runs of the scheduler and the table invariant.  A run is a sequence of the scheduler's
  operations, in any order and with any arguments and clock readings.  The invariant says that
  the process table, the priority queues, the memory account and the process identifiers are
  consistent; the frame lemmas show that most operations leave alone what it speaks about.
\<close>

subsection \<open>Runs\<close>

datatype sched_op =
    OSpawn u64 string Priority u64
  | OSpawnReal "string option" u64 string Priority u64
  | OSpawnChild process_id string Priority u64
  | OKill process_id
  | OSetPriority process_id Priority
  | OSuspend process_id
  | OResume process_id
  | OReportCrash u64 process_id
  | OPollFaults "process_id \<Rightarrow> u64" "process_id list"
  | OTakeFaults
  | OResolve process_id RecoveryAction
  | OSchedule readings "process_id list"
  | OTick instant instant readings "process_id list"
  | OPreempt instant instant u64
  | OSetMode SchedulingMode
  | OSetDeadline process_id u64
  | OClearDeadline process_id
  | OClearJitter
  | OSetLast process_id u64
  | OCreateGroup u64 string Priority
  | OCreateSession u64 string Priority
  | OAddToGroup process_id u64
  | ORemoveFromGroup process_id
  | OKillGroup u64
  | OSuspendGroup u64
  | OResumeGroup u64
  | OGroupPriority u64 Priority
  | OCheckThreads "process_id list"
  | OAffinity process_id "nat list"
  | OCallback string
  | OThread process_id "string option"

fun sched_exec :: "sched_op \<Rightarrow> scheduler \<Rightarrow> scheduler option" where
  "sched_exec (OSpawn now n p r) s = Some (snd (spawn_process now n p r s))"
| "sched_exec (OSpawnReal e now n p r) s = Some (snd (spawn_real_process e now n p r s))"
| "sched_exec (OSpawnChild q n p r) s = Some (snd (spawn_child q n p r s))"
| "sched_exec (OKill pid) s = Some (snd (kill_process pid s))"
| "sched_exec (OSetPriority pid p) s = Some (snd (set_priority pid p s))"
| "sched_exec (OSuspend pid) s = Some (snd (suspend_process pid s))"
| "sched_exec (OResume pid) s = Some (snd (resume_process pid s))"
| "sched_exec (OReportCrash now pid) s = Some (snd (report_crash now pid s))"
| "sched_exec (OPollFaults now order) s = Some (snd (poll_faults now order s))"
| "sched_exec OTakeFaults s = Some (snd (take_faults s))"
| "sched_exec (OResolve pid a) s = Some (snd (resolve_fault pid a s))"
| "sched_exec (OSchedule rd order) s = map_option snd (schedule_next rd order s)"
| "sched_exec (OTick m0 m1 rd order) s = map_option snd (tick m0 m1 rd order s)"
| "sched_exec (OPreempt m0 m1 now) s = Some (force_preempt m0 m1 now s)"
| "sched_exec (OSetMode m) s = Some (set_scheduling_mode m s)"
| "sched_exec (OSetDeadline pid d) s = Some (set_rt_deadline pid d s)"
| "sched_exec (OClearDeadline pid) s = Some (clear_rt_deadline pid s)"
| "sched_exec OClearJitter s = Some (clear_jitter_log s)"
| "sched_exec (OSetLast pid ms) s = Some (set_last_scheduled pid ms s)"
| "sched_exec (OCreateGroup now n p) s = Some (snd (create_group now n p s))"
| "sched_exec (OCreateSession now n p) s = Some (snd (create_session now n p s))"
| "sched_exec (OAddToGroup pid g) s = Some (snd (add_to_group pid g s))"
| "sched_exec (ORemoveFromGroup pid) s = Some (snd (remove_from_group pid s))"
| "sched_exec (OKillGroup g) s = Some (snd (kill_group g s))"
| "sched_exec (OSuspendGroup g) s = Some (snd (suspend_group g s))"
| "sched_exec (OResumeGroup g) s = Some (snd (resume_group g s))"
| "sched_exec (OGroupPriority g p) s = Some (snd (set_group_priority g p s))"
| "sched_exec (OCheckThreads order) s = Some (snd (check_real_threads order s))"
| "sched_exec (OAffinity pid cs) s = Some (snd (set_cpu_affinity pid cs s))"
| "sched_exec (OCallback n) s = Some (register_memory_pressure_callback n s)"
| "sched_exec (OThread pid m) s = Some (thread_step pid m s)"

text \<open>
  The states a run reaches when each of its operations satisfies the side condition \<open>ok\<close>; a
  panicking operation ends the run.
\<close>

inductive sched_reachable ::
  "(sched_op \<Rightarrow> scheduler \<Rightarrow> bool) \<Rightarrow> scheduler \<Rightarrow> scheduler \<Rightarrow> bool"
  for ok :: "sched_op \<Rightarrow> scheduler \<Rightarrow> bool" and s0 :: scheduler
  where
    sched_start: "sched_reachable ok s0 s0"
  | sched_step: "sched_reachable ok s0 s \<Longrightarrow> ok op s \<Longrightarrow> sched_exec op s = Some s' \<Longrightarrow>
      sched_reachable ok s0 s'"

subsection \<open>The table invariant\<close>

definition ram_sum :: "(process_id \<rightharpoonup> process) \<Rightarrow> nat" where
  "ram_sum m = (\<Sum>pid\<in>dom m. unat (pr_ram_quota_mb (the (m pid))))"

definition queued :: "scheduler \<Rightarrow> Priority \<Rightarrow> process_id list" where
  "queued s prio = (case sc_queues s prio of None \<Rightarrow> [] | Some q \<Rightarrow> q)"

definition sched_wf :: "scheduler \<Rightarrow> bool" where
  "sched_wf s \<longleftrightarrow>
     finite (dom (sc_processes s)) \<and>
     (\<forall>pid p. sc_processes s pid = Some p \<longrightarrow> pr_pid p = pid \<and> pid < sc_next_pid s) \<and>
     (\<forall>prio. sc_queues s prio \<noteq> Some [] \<and> distinct (queued s prio)) \<and>
     (\<forall>prio pid. pid \<in> set (queued s prio) \<longleftrightarrow>
        (\<exists>p. sc_processes s pid = Some p \<and> pr_priority p = prio)) \<and>
     unat (sc_used_ram_mb s) = ram_sum (sc_processes s) \<and>
     sc_used_ram_mb s \<le> sc_total_ram_mb s \<and>
     (\<forall>pid sn. sc_snapshots s pid = Some sn \<longrightarrow> pid < sc_next_pid s \<and>
        (\<forall>p. sc_processes s pid = Some p \<longrightarrow> sn_ram_quota_mb sn = pr_ram_quota_mb p)) \<and>
     (\<forall>pid. sc_current s = Some pid \<longrightarrow> pid \<in> dom (sc_processes s))"

text \<open>
  Most operations leave alone what the invariant speaks about: the identifier, priority and
  quota of every process, the queues, the counters and the snapshots.
\<close>

definition meta :: "process \<Rightarrow> process_id \<times> Priority \<times> u64" where
  "meta p = (pr_pid p, pr_priority p, pr_ram_quota_mb p)"

definition core :: "scheduler \<Rightarrow> (process_id \<Rightarrow> (process_id \<times> Priority \<times> u64) option) \<times>
    (Priority \<rightharpoonup> process_id list) \<times> u64 \<times> u64 \<times> u64 \<times> (process_id \<rightharpoonup> task_snapshot)" where
  "core s = (\<lambda>pid. map_option meta (sc_processes s pid), sc_queues s, sc_next_pid s,
     sc_total_ram_mb s, sc_used_ram_mb s, sc_snapshots s)"

definition frame :: "scheduler \<Rightarrow> scheduler \<Rightarrow> bool" where
  "frame s s' \<longleftrightarrow> core s' = core s \<and>
     (\<forall>c. sc_current s' = Some c \<longrightarrow> sc_current s = Some c \<or> c \<in> dom (sc_processes s))"

named_theorems frame_simps

lemma meta_simps [frame_simps]:
  "meta (p\<lparr>pr_state := st\<rparr>) = meta p"
  "meta (p\<lparr>pr_cpu_time_ms := t\<rparr>) = meta p"
  "meta (p\<lparr>pr_group_id := g\<rparr>) = meta p"
  "meta (p\<lparr>pr_crash_count := c\<rparr>) = meta p"
  by (simp_all add: meta_def)

lemma core_processes_dom:
  assumes "core s' = core s"
  shows "dom (sc_processes s') = dom (sc_processes s)"
proof -
  have "map_option meta (sc_processes s' pid) = map_option meta (sc_processes s pid)" for pid
    using assms by (simp add: core_def fun_eq_iff)
  then show ?thesis by (metis (no_types) domIff option.map_disc_iff subsetI subset_antisym)
qed

lemma core_process:
  assumes "core s' = core s" "sc_processes s' pid = Some p'"
  obtains p where "sc_processes s pid = Some p" "meta p' = meta p"
proof -
  have "map_option meta (sc_processes s' pid) = map_option meta (sc_processes s pid)"
    using assms(1) by (simp add: core_def fun_eq_iff)
  with assms(2) that show thesis by (cases "sc_processes s pid") auto
qed

lemma frame_refl [intro]: "frame s s"
  by (simp add: frame_def)

lemma frame_trans: "frame s s' \<Longrightarrow> frame s' s'' \<Longrightarrow> frame s s''"
  unfolding frame_def by (metis core_processes_dom)

lemma frame_wf:
  assumes f: "frame s s'" and wf: "sched_wf s"
  shows "sched_wf s'"
proof -
  have c: "core s' = core s" and c': "core s = core s'" using f by (simp_all add: frame_def)
  have d: "dom (sc_processes s') = dom (sc_processes s)" using c by (rule core_processes_dom)
  have eqs: "sc_queues s' = sc_queues s" "sc_next_pid s' = sc_next_pid s"
    "sc_total_ram_mb s' = sc_total_ram_mb s" "sc_used_ram_mb s' = sc_used_ram_mb s"
    "sc_snapshots s' = sc_snapshots s" using c by (simp_all add: core_def)
  have m: "map_option meta (sc_processes s' pid) = map_option meta (sc_processes s pid)" for pid
    using c by (simp add: core_def fun_eq_iff)
  have q: "queued s' = queued s" by (simp add: queued_def eqs fun_eq_iff)
  have pid: "pr_pid p = pid \<and> pid < sc_next_pid s'" if "sc_processes s' pid = Some p" for pid p
    using that wf by (elim core_process[OF c]) (auto simp: sched_wf_def meta_def eqs)
  have mem: "(\<exists>p. sc_processes s' pid = Some p \<and> pr_priority p = prio) \<longleftrightarrow>
      (\<exists>p. sc_processes s pid = Some p \<and> pr_priority p = prio)" for pid prio
    using m[of pid] by (cases "sc_processes s' pid"; cases "sc_processes s pid") (auto simp: meta_def)
  have ram: "ram_sum (sc_processes s') = ram_sum (sc_processes s)"
    unfolding ram_sum_def d
  proof (rule sum.cong, rule refl)
    fix pid assume "pid \<in> dom (sc_processes s)"
    then show "unat (pr_ram_quota_mb (the (sc_processes s' pid))) =
        unat (pr_ram_quota_mb (the (sc_processes s pid)))"
      using m[of pid] by (cases "sc_processes s' pid"; cases "sc_processes s pid") (auto simp: meta_def)
  qed
  have sn: "pid < sc_next_pid s' \<and>
      (\<forall>p. sc_processes s' pid = Some p \<longrightarrow> sn_ram_quota_mb sn = pr_ram_quota_mb p)"
    if "sc_snapshots s' pid = Some sn" for pid sn
  proof -
    have "pid < sc_next_pid s" "\<forall>p. sc_processes s pid = Some p \<longrightarrow> sn_ram_quota_mb sn = pr_ram_quota_mb p"
      using that wf by (auto simp: sched_wf_def eqs)
    then show ?thesis by (auto simp: eqs meta_def elim: core_process[OF c])
  qed
  have cur: "pid \<in> dom (sc_processes s')" if "sc_current s' = Some pid" for pid
    using that f wf by (auto simp: frame_def sched_wf_def d)
  show ?thesis
    using wf pid sn cur unfolding sched_wf_def mem ram q eqs d by blast
qed


subsection \<open>Operations that keep the frame\<close>

lemma frame_modify [frame_simps]:
  assumes "\<And>p. meta (f p) = meta p" "sc_processes s = m"
  shows "core (s\<lparr>sc_processes := update_entry m pid f\<rparr>) = core s"
proof -
  have "map_option meta (update_entry m pid f k) = map_option meta (m k)" for k
    using assms by (cases "m k") (auto simp: update_entry_apply)
  then show ?thesis by (simp add: core_def assms(2))
qed

lemma frame_put [frame_simps]:
  assumes "m pid = Some p" "meta p' = meta p" "sc_processes s = m"
  shows "core (s\<lparr>sc_processes := m(pid \<mapsto> p')\<rparr>) = core s"
  using assms by (auto simp: core_def fun_eq_iff)

lemma core_simps [frame_simps]:
  "core (s\<lparr>sc_current := c\<rparr>) = core s"
  "core (s\<lparr>sc_timer := t\<rparr>) = core s"
  "core (s\<lparr>sc_crash_log := cl\<rparr>) = core s"
  "core (s\<lparr>sc_last_scheduled_ms := l\<rparr>) = core s"
  "core (s\<lparr>sc_rr_positions := rr\<rparr>) = core s"
  "core (s\<lparr>sc_pressure_callbacks := cb\<rparr>) = core s"
  "core (s\<lparr>sc_groups := g\<rparr>) = core s"
  "core (s\<lparr>sc_next_group_id := ng\<rparr>) = core s"
  "core (s\<lparr>sc_mode := m\<rparr>) = core s"
  "core (s\<lparr>sc_rt_deadlines := dl\<rparr>) = core s"
  "core (s\<lparr>sc_jitter_log := jl\<rparr>) = core s"
  "core (s\<lparr>sc_real_threads := rt\<rparr>) = core s"
  "core (s\<lparr>sc_fault_queue := fq\<rparr>) = core s"
  by (simp_all add: core_def)

lemma frame_force_preempt: "frame s (force_preempt m0 m1 now s)"
  by (simp add: force_preempt_def Let_def frame_def frame_simps split: option.split)

lemma frame_record_jitter [simp]:
  "core (record_jitter now pid e a s) = core s"
  "sc_current (record_jitter now pid e a s) = sc_current s"
  "sc_processes (record_jitter now pid e a s) = sc_processes s"
  "sc_mode (record_jitter now pid e a s) = sc_mode s"
  by (simp_all add: record_jitter_def Let_def frame_simps)

lemma rt_jitter_simps [simp]:
  "core (rt_jitter rd pid now s) = core s"
  "sc_current (rt_jitter rd pid now s) = sc_current s"
  "sc_processes (rt_jitter rd pid now s) = sc_processes s"
  "sc_mode (rt_jitter rd pid now s) = sc_mode s"
  by (simp_all add: rt_jitter_def Let_def split: option.split)

lemma rt_switch_simps [simp]:
  "core (rt_switch pid s) = core s"
  "sc_current (rt_switch pid s) = sc_current s"
  "sc_mode (rt_switch pid s) = sc_mode s"
  "sc_time_slice_ms (rt_switch pid s) = sc_time_slice_ms s"
  by (simp_all add: rt_switch_def frame_simps split: option.split)

lemma frame_schedule_next_rt:
  assumes "schedule_next_rt rd order s = Some (r, s')"
  shows "frame s s'"
proof (cases "rt_best s (rd_wall rd 0) order None")
  case None
  with assms show ?thesis by (auto simp: schedule_next_rt_def frame_def frame_simps)
next
  case (Some b)
  then obtain d pid where b: "rt_best s (rd_wall rd 0) order None = Some (d, pid)"
    by (cases b) auto
  have "pid \<in> dom (sc_processes (rt_switch pid s))"
    using assms b by (auto simp: schedule_next_rt_def Let_def split: option.splits)
  then have "pid \<in> dom (sc_processes s)"
    using core_processes_dom[of "rt_switch pid s" s] by simp
  with assms b show ?thesis
    by (auto simp: schedule_next_rt_def Let_def frame_def frame_simps split: option.splits)
qed

lemma frame_suspend: "frame s (snd (suspend_process pid s))"
  by (auto simp: suspend_process_def Let_def frame_def frame_simps split: option.split)

lemma frame_resume: "frame s (snd (resume_process pid s))"
  by (auto simp: resume_process_def Let_def frame_def frame_simps split: option.split)

lemma frame_report_crash: "frame s (snd (report_crash now pid s))"
  by (auto simp: report_crash_def Let_def frame_def frame_simps split: option.split)

lemma frame_raise_fault: "frame s (snd (raise_fault now pm s))"
  by (cases pm, cases "sc_processes s (fst pm)")
     (auto simp: raise_fault_def Let_def frame_def frame_simps core_def fun_eq_iff)

lemma frame_raise_faults: "frame s (snd (raise_faults now pms s))"
proof (induction pms arbitrary: s)
  case (Cons pm pms)
  show ?case
    using frame_trans[OF frame_raise_fault Cons.IH]
    by (simp add: Let_def split: prod.split) (metis snd_conv)
qed auto

lemma frame_poll_faults: "frame s (snd (poll_faults now order s))"
  unfolding poll_faults_def Let_def
  by (rule frame_trans[OF _ frame_raise_faults]) (simp add: frame_def frame_simps)

lemma frame_preempt_expired: "frame s (preempt_expired rd s)"
  by (simp add: preempt_expired_def frame_def frame_simps split: option.split)

lemma core_dispatch_rr [simp]: "core (dispatch_rr pid s) = core s"
  by (simp add: dispatch_rr_def Let_def frame_simps split: option.split)

lemma dispatch_rr_current [simp]: "sc_current (dispatch_rr pid s) = sc_current s"
  "sc_time_slice_ms (dispatch_rr pid s) = sc_time_slice_ms s"
  "sc_mode (dispatch_rr pid s) = sc_mode s"
  by (simp_all add: dispatch_rr_def Let_def split: option.split)

lemma dispatch_rr_processes [simp]:
  "sc_processes (dispatch_rr pid s) =
     (case sc_current s of None \<Rightarrow> sc_processes s
      | Some old \<Rightarrow> update_entry (sc_processes s) old (set_state Ready))"
  by (simp add: dispatch_rr_def Let_def split: option.split)

lemma dispatch_eq:
  "dispatch rd pid s =
     (case sc_processes (dispatch_rr pid s) pid of
        None \<Rightarrow> None
      | Some p \<Rightarrow>
          Some (Some pid, (modify_process pid (set_state Running) (dispatch_rr pid s))
            \<lparr>sc_current := Some pid,
             sc_timer := Some (timer_new (rd_mono rd 2) pid
               (sc_time_slice_ms s * ucast (priority_weight (pr_priority p))))\<rparr>))"
  by (simp add: dispatch_def Let_def cong: option.case_cong)

lemma frame_dispatch:
  assumes "dispatch rd pid s = Some (r, s')"
  shows "frame s s'"
proof -
  have "pid \<in> dom (sc_processes (dispatch_rr pid s))"
    using assms by (auto simp: dispatch_eq simp del: dispatch_rr_processes split: option.splits)
  then have "pid \<in> dom (sc_processes s)"
    using core_processes_dom[OF core_dispatch_rr[of pid s]] by simp
  with assms show ?thesis
    by (auto simp: dispatch_eq frame_def frame_simps simp del: dispatch_rr_processes
        split: option.splits)
qed

lemma schedule_next_normal:
  assumes "sc_mode s \<noteq> RealTime"
  shows "schedule_next rd order s =
    (if (\<exists>c t. sc_current s = Some c \<and> sc_timer s = Some t \<and> \<not> quota_exceeded (rd_mono rd 0) t)
     then Some (sc_current s, s)
     else let s1 = preempt_expired rd s in
       case select rd s1 (sc_current s1) (visit_order s1) None of
         None \<Rightarrow> None
       | Some None \<Rightarrow> Some (None, s1\<lparr>sc_current := None, sc_timer := None\<rparr>)
       | Some (Some (_, _, pid)) \<Rightarrow> dispatch rd pid s1)"
  using assms by (simp add: schedule_next_def Let_def split: option.split)

lemma frame_schedule_next:
  assumes "schedule_next rd order s = Some (r, s')"
  shows "frame s s'"
proof (cases "sc_mode s = RealTime")
  case True
  with assms show ?thesis by (auto simp: schedule_next_def intro: frame_schedule_next_rt)
next
  case False
  have "frame (preempt_expired rd s) ((preempt_expired rd s)\<lparr>sc_current := None, sc_timer := None\<rparr>)"
    by (simp add: frame_def frame_simps)
  with assms False frame_preempt_expired[of s rd] show ?thesis
    by (auto simp: schedule_next_normal Let_def split: if_splits option.splits
        dest!: frame_dispatch intro: frame_trans)
qed

lemma frame_tick:
  assumes "tick m0 m1 rd order s = Some (r, s')"
  shows "frame s s'"
  by (rule frame_trans[OF _ frame_schedule_next[OF assms[unfolded tick_def]]])
     (simp add: frame_def frame_simps split: option.split)

lemma frame_suspend_all: "frame s (snd (suspend_all pids s))"
proof (induction pids arbitrary: s)
  case (Cons pid pids)
  show ?case
  proof (cases "sc_processes s pid")
    case None
    with Cons.IH[of s] show ?thesis by simp
  next
    case (Some p)
    let ?s = "s\<lparr>sc_processes := (sc_processes s)(pid \<mapsto> set_state Suspended p)\<rparr>"
    have "frame s ?s" using Some by (simp add: frame_def frame_simps)
    then have "frame s (snd (suspend_all pids ?s))" using Cons.IH[of ?s] by (rule frame_trans)
    with Cons.IH[of s] Some show ?thesis by (simp add: split_beta)
  qed
qed auto

lemma frame_resume_all: "frame s (snd (resume_all pids s))"
proof (induction pids arbitrary: s)
  case (Cons pid pids)
  show ?case
  proof (cases "sc_processes s pid")
    case None
    with Cons.IH[of s] show ?thesis by simp
  next
    case (Some p)
    let ?s = "s\<lparr>sc_processes := (sc_processes s)(pid \<mapsto> set_state Ready p)\<rparr>"
    have "frame s ?s" using Some by (simp add: frame_def frame_simps)
    then have "frame s (snd (resume_all pids ?s))" using Cons.IH[of ?s] by (rule frame_trans)
    with Cons.IH[of s] Some show ?thesis by (simp add: split_beta)
  qed
qed auto

lemma frame_reap_threads: "frame s (reap_threads pids s)"
proof (induction pids arbitrary: s)
  case (Cons pid pids)
  show ?case
    unfolding reap_threads.simps
    by (rule frame_trans[OF _ Cons.IH], cases "sc_processes s pid")
       (auto simp: frame_def core_def fun_eq_iff update_entry_apply frame_simps)
qed auto

lemma frame_group_ops:
  "frame s (snd (create_group now n p s))"
  "frame s (snd (create_session now n p s))"
  "frame s (snd (add_to_group pid g s))"
  "frame s (snd (remove_from_group pid s))"
  by (simp_all add: create_group_def create_session_def add_to_group_def remove_from_group_def
      frame_def frame_simps Let_def split: option.split)

lemma frame_suspend_group: "frame s (snd (suspend_group g s))"
  using frame_suspend_all by (auto simp: suspend_group_def split_beta split: option.split)

lemma frame_resume_group: "frame s (snd (resume_group g s))"
  using frame_resume_all by (auto simp: resume_group_def split_beta split: option.split)

lemma frame_check_real_threads: "frame s (snd (check_real_threads order s))"
  using frame_reap_threads by (simp add: check_real_threads_def Let_def)

lemma frame_flag_ops:
  "frame s (snd (take_faults s))"
  "frame s (set_scheduling_mode m s)"
  "frame s (set_rt_deadline pid d s)"
  "frame s (clear_rt_deadline pid s)"
  "frame s (clear_jitter_log s)"
  "frame s (set_last_scheduled pid ms s)"
  "frame s (snd (set_cpu_affinity pid cs s))"
  "frame s (register_memory_pressure_callback n s)"
  "frame s (thread_step pid pm s)"
  by (simp_all add: take_faults_def set_scheduling_mode_def set_rt_deadline_def
      clear_rt_deadline_def clear_jitter_log_def set_last_scheduled_def set_cpu_affinity_def
      register_memory_pressure_callback_def thread_step_def frame_def frame_simps
      split: option.split sum.split)

lemmas frame_ops = frame_suspend frame_resume frame_report_crash frame_poll_faults
  frame_force_preempt frame_group_ops frame_suspend_group frame_resume_group
  frame_check_real_threads frame_flag_ops

end
