(* ===== verification/Scheduler_Invariant.thy ===== *)
theory Scheduler_Invariant
  imports Scheduler_Frame
begin

text \<open>
  Every operation of the scheduler keeps the table invariant, and in normal mode at most the
  current process is \<open>Running\<close>; hence both hold in every state a run reaches.
\<close>

subsection \<open>Operations that change the table\<close>

lemma queued_push:
  "sc_queues s' = entry_push (sc_queues s) prio pid \<Longrightarrow>
     queued s' x = (if x = prio then queued s prio @ [pid] else queued s x)"
  by (simp add: queued_def entry_push_apply)

lemma queued_remove:
  assumes "sc_queues s' = queue_remove (sc_queues s) prio pid"
  shows "queued s' x = (if x = prio then filter (\<lambda>p. p \<noteq> pid) (queued s prio) else queued s x)"
  using assms by (auto simp: queued_def queue_remove_def Let_def split: option.split)

lemma queue_remove_nonempty:
  "\<forall>x. q x \<noteq> Some [] \<Longrightarrow> queue_remove q prio pid x \<noteq> Some []"
  by (auto simp: queue_remove_def Let_def split: option.split)

lemma entry_push_nonempty: "\<forall>x. q x \<noteq> Some [] \<Longrightarrow> entry_push q prio pid x \<noteq> Some []"
  by (auto simp: entry_push_apply)

lemma ram_sum_insert:
  assumes "finite (dom m)" "m pid = None"
  shows "ram_sum (m(pid \<mapsto> p)) = unat (pr_ram_quota_mb p) + ram_sum m"
proof -
  have n: "pid \<notin> dom m" using assms(2) by auto
  have "(\<Sum>k\<in>dom m. unat (pr_ram_quota_mb (the ((m(pid \<mapsto> p)) k)))) = ram_sum m"
    unfolding ram_sum_def using n by (intro sum.cong) auto
  then show ?thesis
    using assms(1) n by (simp add: ram_sum_def)
qed

lemma ram_sum_remove:
  assumes "finite (dom m)" "m pid = Some p"
  shows "ram_sum m = unat (pr_ram_quota_mb p) + ram_sum (m(pid := None))"
proof -
  have "ram_sum ((m(pid := None))(pid \<mapsto> p)) =
      unat (pr_ram_quota_mb p) + ram_sum (m(pid := None))"
    using assms(1) by (intro ram_sum_insert) auto
  moreover have "(m(pid := None))(pid \<mapsto> p) = m" using assms(2) by auto
  ultimately show ?thesis by simp
qed

lemma wf_fresh:
  assumes "sched_wf s"
  shows "sc_processes s (sc_next_pid s) = None" "sc_snapshots s (sc_next_pid s) = None"
  using assms by (fastforce simp: sched_wf_def)+

lemma sched_wfI:
  assumes "finite (dom (sc_processes s))"
    and "\<And>pid p. sc_processes s pid = Some p \<Longrightarrow> pr_pid p = pid \<and> pid < sc_next_pid s"
    and "\<And>prio. sc_queues s prio \<noteq> Some []"
    and "\<And>prio. distinct (queued s prio)"
    and "\<And>prio pid. pid \<in> set (queued s prio) \<longleftrightarrow>
      (\<exists>p. sc_processes s pid = Some p \<and> pr_priority p = prio)"
    and "unat (sc_used_ram_mb s) = ram_sum (sc_processes s)"
    and "sc_used_ram_mb s \<le> sc_total_ram_mb s"
    and "\<And>pid sn. sc_snapshots s pid = Some sn \<Longrightarrow> pid < sc_next_pid s \<and>
      (\<forall>p. sc_processes s pid = Some p \<longrightarrow> sn_ram_quota_mb sn = pr_ram_quota_mb p)"
    and "\<And>pid. sc_current s = Some pid \<Longrightarrow> pid \<in> dom (sc_processes s)"
  shows "sched_wf s"
  unfolding sched_wf_def using assms by blast

lemma wf_insert:
  assumes wf: "sched_wf s"
    and p: "sc_processes s' = (sc_processes s)(sc_next_pid s \<mapsto> p)" "pr_pid p = sc_next_pid s"
    and q: "sc_queues s' = entry_push (sc_queues s) (pr_priority p) (sc_next_pid s)"
    and u: "sc_used_ram_mb s' = sc_used_ram_mb s + pr_ram_quota_mb p"
      "sc_used_ram_mb s + pr_ram_quota_mb p \<le> sc_total_ram_mb s"
      "unat (sc_used_ram_mb s) + unat (pr_ram_quota_mb p) < 2 ^ 64"
    and n: "sc_next_pid s' = sc_next_pid s + 1" "unat (sc_next_pid s) + 1 < 2 ^ 64"
    and sn: "sc_snapshots s' = sc_snapshots s \<or>
      (\<exists>sn. sc_snapshots s' = (sc_snapshots s)(sc_next_pid s \<mapsto> sn) \<and>
        sn_ram_quota_mb sn = pr_ram_quota_mb p)"
    and e: "sc_total_ram_mb s' = sc_total_ram_mb s" "sc_current s' = sc_current s"
  shows "sched_wf s'"
proof -
  let ?n = "sc_next_pid s"
  have fin: "finite (dom (sc_processes s))" using wf by (simp add: sched_wf_def)
  have lt: "x < sc_next_pid s' \<longleftrightarrow> x < ?n \<or> x = ?n" for x
    using n by (simp add: unat_Suc_64 word_less_nat_alt less_Suc_eq word_unat_eq_iff)
  have notin: "?n \<notin> set (queued s x)" for x
    using wf wf_fresh(1)[OF wf] by (auto simp: sched_wf_def)
  have d: "distinct (queued s' x)" for x
    using wf notin by (auto simp: queued_push[OF q] sched_wf_def)
  have m: "pid \<in> set (queued s' x) \<longleftrightarrow>
      (\<exists>p. sc_processes s' pid = Some p \<and> pr_priority p = x)" for pid x
    using wf notin wf_fresh(1)[OF wf] by (auto simp: queued_push[OF q] sched_wf_def p)
  have r: "unat (sc_used_ram_mb s') = ram_sum (sc_processes s')"
    using wf u(3) ram_sum_insert[OF fin wf_fresh(1)[OF wf], of p]
    by (simp add: u(1) p(1) sched_wf_def unat_add_no_wrap)
  have q': "sc_queues s' x \<noteq> Some []" for x
    unfolding q using wf by (intro entry_push_nonempty) (simp add: sched_wf_def)
  have p': "pr_pid r = pid \<and> pid < sc_next_pid s'" if "sc_processes s' pid = Some r" for pid r
    using that wf p by (auto simp: sched_wf_def lt split: if_splits)
  have s': "pid < sc_next_pid s' \<and>
      (\<forall>r. sc_processes s' pid = Some r \<longrightarrow> sn_ram_quota_mb sn = pr_ram_quota_mb r)"
    if "sc_snapshots s' pid = Some sn" for pid sn
    using that sn wf wf_fresh(2)[OF wf] by (auto simp: sched_wf_def lt p split: if_splits)
  have c: "pid \<in> dom (sc_processes s')" if "sc_current s' = Some pid" for pid
    using that wf by (auto simp: sched_wf_def e p)
  have fin': "finite (dom (sc_processes s'))" using fin by (simp add: p(1))
  have u': "sc_used_ram_mb s' \<le> sc_total_ram_mb s'" by (simp add: u e)
  show ?thesis by (rule sched_wfI[OF fin' p' q' d m r u' s' c])
qed

lemma wf_remove:
  assumes wf: "sched_wf s" and p: "sc_processes s pid = Some p"
    and e: "sc_processes s' = (sc_processes s)(pid := None)"
      "sc_queues s' = queue_remove (sc_queues s) (pr_priority p) pid"
      "sc_used_ram_mb s' = sat_sub (sc_used_ram_mb s) (pr_ram_quota_mb p)"
      "sc_snapshots s' = (sc_snapshots s)(pid := None)"
      "sc_next_pid s' = sc_next_pid s" "sc_total_ram_mb s' = sc_total_ram_mb s"
    and c: "\<And>k. sc_current s' = Some k \<Longrightarrow> sc_current s = Some k \<and> k \<noteq> pid"
  shows "sched_wf s'"
proof -
  have fin: "finite (dom (sc_processes s))" using wf by (simp add: sched_wf_def)
  have d: "distinct (queued s' x)" for x
    using wf by (auto simp: queued_remove[OF e(2)] sched_wf_def)
  have m: "k \<in> set (queued s' x) \<longleftrightarrow>
      (\<exists>p. sc_processes s' k = Some p \<and> pr_priority p = x)" for k x
    using wf p by (auto simp: queued_remove[OF e(2)] sched_wf_def e)
  have r: "unat (sc_used_ram_mb s') = ram_sum (sc_processes s')"
    using wf ram_sum_remove[OF fin p] by (simp add: e unat_sat_sub sched_wf_def)
  have q: "sc_queues s' x \<noteq> Some []" for x
    unfolding e using wf by (intro queue_remove_nonempty) (simp add: sched_wf_def)
  have u: "sc_used_ram_mb s' \<le> sc_total_ram_mb s'"
    using wf by (auto simp: e sched_wf_def intro: order_trans[OF sat_sub_le])
  have c': "k \<in> dom (sc_processes s')" if "sc_current s' = Some k" for k
    using c[OF that] wf by (auto simp: sched_wf_def e)
  have p': "pr_pid r = k \<and> k < sc_next_pid s'" if "sc_processes s' k = Some r" for k r
    using that wf by (auto simp: sched_wf_def e split: if_splits)
  have s': "k < sc_next_pid s' \<and>
      (\<forall>r. sc_processes s' k = Some r \<longrightarrow> sn_ram_quota_mb sn = pr_ram_quota_mb r)"
    if "sc_snapshots s' k = Some sn" for k sn
    using that wf by (auto simp: sched_wf_def e split: if_splits)
  have fin': "finite (dom (sc_processes s'))" using fin by (simp add: e(1))
  show ?thesis by (rule sched_wfI[OF fin' p' q d m r u s' c'])
qed

lemma wf_set_priority:
  assumes wf: "sched_wf s"
  shows "sched_wf (snd (set_priority pid prio s))"
proof (cases "sc_processes s pid")
  case None
  with wf show ?thesis by (simp add: set_priority_def)
next
  case (Some p)
  let ?s1 = "s\<lparr>sc_queues := queue_remove (sc_queues s) (pr_priority p) pid\<rparr>"
  let ?s = "s\<lparr>sc_processes := (sc_processes s)(pid \<mapsto> p\<lparr>pr_priority := prio\<rparr>),
    sc_queues := entry_push (queue_remove (sc_queues s) (pr_priority p) pid) prio pid\<rparr>"
  have q: "queued ?s x = (if x = prio then queued ?s1 x @ [pid] else queued ?s1 x)" for x
    using queued_push[of ?s ?s1 prio pid x] by simp
  have q1: "queued ?s1 x = (if x = pr_priority p then filter (\<lambda>k. k \<noteq> pid) (queued s x) else queued s x)" for x
    using queued_remove[of ?s1 s "pr_priority p" pid x] by simp
  have notin: "pid \<notin> set (queued ?s1 x)" for x
    using wf Some by (auto simp: q1 sched_wf_def)
  have d: "distinct (queued ?s x)" for x
    using wf notin unfolding q by (auto simp: q1 sched_wf_def)
  have m: "k \<in> set (queued ?s x) \<longleftrightarrow>
      (\<exists>p. sc_processes ?s k = Some p \<and> pr_priority p = x)" for k x
    using wf Some unfolding q by (auto simp: q1 sched_wf_def)
  have fin: "finite (dom (sc_processes s))" using wf by (simp add: sched_wf_def)
  have r: "ram_sum (sc_processes ?s) = ram_sum (sc_processes s)"
    using ram_sum_remove[OF fin Some] ram_sum_remove[of "sc_processes ?s" pid] fin by simp
  have ne: "sc_queues ?s x \<noteq> Some []" for x
    using wf by (auto intro!: entry_push_nonempty queue_remove_nonempty simp: sched_wf_def)
  have "sched_wf ?s"
  proof (rule sched_wfI[OF _ _ ne d m])
    show "unat (sc_used_ram_mb ?s) = ram_sum (sc_processes ?s)"
      using wf unfolding r by (simp add: sched_wf_def)
  qed (use wf Some in \<open>auto simp: sched_wf_def split: if_splits\<close>)
  with wf Some show ?thesis by (simp add: set_priority_def Let_def)
qed

definition spawn_fits :: "u64 \<Rightarrow> scheduler \<Rightarrow> bool" where
  "spawn_fits ram_mb s \<longleftrightarrow> unat (sc_used_ram_mb s) + unat ram_mb < 2 ^ 64 \<and>
     unat (sc_next_pid s) + 1 < 2 ^ 64"

lemmas process_new_simps = process_new_def with_max_restarts_def with_parent_def snapshot_capture_def

lemma wf_spawn_process:
  "sched_wf s \<Longrightarrow> spawn_fits ram s \<Longrightarrow> sched_wf (snd (spawn_process now n prio ram s))"
  by (auto simp: spawn_process_def Let_def spawn_fits_def process_new_simps not_less
      intro!: wf_insert[of s _ "with_max_restarts (process_new (sc_next_pid s) n prio ram)
        (sc_max_crash_restarts s)"])

lemma wf_spawn_child:
  "sched_wf s \<Longrightarrow> spawn_fits ram s \<Longrightarrow> sched_wf (snd (spawn_child q n prio ram s))"
  by (auto simp: spawn_child_def Let_def spawn_fits_def process_new_simps not_less
      intro!: wf_insert[of s _ "with_max_restarts
        (with_parent (process_new (sc_next_pid s) n prio ram) q) (sc_max_crash_restarts s)"])

lemma wf_skip_pid:
  assumes "sched_wf s" "unat (sc_next_pid s) + 1 < 2 ^ 64"
  shows "sched_wf (s\<lparr>sc_next_pid := sc_next_pid s + 1\<rparr>)"
proof -
  have "x < sc_next_pid s \<Longrightarrow> x < sc_next_pid s + 1" for x
    using assms(2) by (simp add: unat_Suc_64 word_less_nat_alt)
  with assms(1) show ?thesis by (auto simp: sched_wf_def queued_def)
qed

lemma wf_spawn_real_process:
  assumes "sched_wf s" "spawn_fits ram s"
  shows "sched_wf (snd (spawn_real_process e now n prio ram s))"
proof (cases e)
  case None
  with assms show ?thesis
    by (auto simp: spawn_real_process_def Let_def spawn_fits_def process_new_simps not_less
        intro!: wf_insert[of s _ "with_max_restarts (process_new (sc_next_pid s) n prio ram)
          (sc_max_crash_restarts s)"])
next
  case (Some m)
  with assms show ?thesis
    by (simp add: spawn_real_process_def Let_def spawn_fits_def wf_skip_pid)
qed

lemma wf_drop_snapshot:
  "sched_wf s \<Longrightarrow> sched_wf (s\<lparr>sc_real_threads := rt, sc_snapshots := (sc_snapshots s)(pid := None),
     sc_fault_queue := fq\<rparr>)"
  by (auto simp: sched_wf_def queued_def)

lemma wf_kill_process:
  assumes wf: "sched_wf s"
  shows "sched_wf (snd (kill_process pid s))"
proof (cases "sc_processes s pid")
  case None
  with wf show ?thesis by (simp add: kill_process_def Let_def wf_drop_snapshot)
next
  case (Some p)
  from Some show ?thesis
    by (intro wf_remove[OF wf Some]) (auto simp: kill_process_def Let_def split: if_splits)
qed

lemma wf_kill_all: "sched_wf s \<Longrightarrow> sched_wf (kill_all pids s)"
  by (induction pids arbitrary: s) (simp_all add: wf_kill_process)

lemma wf_set_all_priorities: "sched_wf s \<Longrightarrow> sched_wf (snd (set_all_priorities pids prio s))"
proof (induction pids arbitrary: s)
  case (Cons pid pids)
  have "sched_wf (snd (set_priority pid prio s))" using Cons.prems by (rule wf_set_priority)
  with Cons.IH show ?case by (auto split: prod.split sum.split)
qed simp

definition rollback_ok :: "process_id \<Rightarrow> scheduler \<Rightarrow> bool" where
  "rollback_ok pid s \<longleftrightarrow> (\<forall>sn p. sc_snapshots s pid = Some sn \<longrightarrow> sc_processes s pid = Some p \<longrightarrow>
     sn_priority sn = pr_priority p)"

lemma wf_resolve_fault:
  assumes wf: "sched_wf s" and ok: "action = Rollback \<longrightarrow> rollback_ok pid s"
  shows "sched_wf (snd (resolve_fault pid action s))"
proof -
  let ?s = "s\<lparr>sc_fault_queue := filter (\<lambda>f. fi_pid f \<noteq> pid) (sc_fault_queue s)\<rparr>"
  have wf': "sched_wf ?s" by (rule frame_wf[OF _ wf]) (simp add: frame_def frame_simps)
  show ?thesis
  proof (cases action)
    case Terminate
    then show ?thesis
      using wf wf_kill_process[OF wf', of pid]
      by (auto simp: resolve_fault_def Let_def split: prod.split sum.split)
  next
    case Resume
    have "frame s (snd (resolve_fault pid action s))"
      using Resume by (auto simp: resolve_fault_def Let_def frame_def frame_simps split: option.split)
    then show ?thesis using wf by (rule frame_wf)
  next
    case Rollback
    have "meta (set_state Ready (snapshot_restore_to sn p)) = meta p"
      if "sc_snapshots s pid = Some sn" "sc_processes s pid = Some p" for sn p
      using that wf ok Rollback
      by (auto simp: meta_def snapshot_restore_to_def rollback_ok_def sched_wf_def)
    then have "frame s (snd (resolve_fault pid action s))"
      using Rollback
      by (auto simp: resolve_fault_def Let_def frame_def frame_put core_simps split: option.split)
    then show ?thesis using wf by (rule frame_wf)
  qed
qed

definition op_ok :: "sched_op \<Rightarrow> scheduler \<Rightarrow> bool" where
  "op_ok op s =
     (case op of
        OSpawn now n p ram \<Rightarrow> spawn_fits ram s
      | OSpawnReal e now n p ram \<Rightarrow> spawn_fits ram s
      | OSpawnChild q n p ram \<Rightarrow> spawn_fits ram s
      | OResolve pid a \<Rightarrow> a = Rollback \<longrightarrow> rollback_ok pid s
      | _ \<Rightarrow> True)"

lemma wf_kill_group: "sched_wf s \<Longrightarrow> sched_wf (snd (kill_group g s))"
  by (auto simp: kill_group_def Let_def frame_def frame_simps split: option.split
      intro: frame_wf[OF _ wf_kill_all])

lemma wf_set_group_priority: "sched_wf s \<Longrightarrow> sched_wf (snd (set_group_priority g p s))"
  by (auto simp: set_group_priority_def frame_def frame_simps split: option.split
      intro!: wf_set_all_priorities intro: frame_wf)

lemmas wf_ops = wf_spawn_process wf_spawn_real_process wf_spawn_child wf_kill_process
  wf_set_priority wf_resolve_fault wf_kill_group wf_set_group_priority

lemma sched_exec_wf:
  assumes "sched_wf s" "op_ok op s" "sched_exec op s = Some s'"
  shows "sched_wf s'"
  using assms
  by (cases op)
     (auto simp: op_ok_def intro: wf_ops frame_wf[OF frame_schedule_next] frame_wf[OF frame_tick]
       frame_ops[THEN frame_wf])

lemma sched_new_wf: "sched_wf (scheduler_new total_ram)"
  by (simp add: sched_wf_def scheduler_new_def queued_def ram_sum_def)

subsection \<open>At most one process runs\<close>

definition running_ok :: "scheduler \<Rightarrow> bool" where
  "running_ok s \<longleftrightarrow> sc_mode s = NormalMode \<and>
     (\<forall>pid p. sc_processes s pid = Some p \<longrightarrow> pr_state p = Running \<longrightarrow> sc_current s = Some pid)"

text \<open>Operations that start no process and drop the current one only when they stop it.\<close>

definition calm :: "scheduler \<Rightarrow> scheduler \<Rightarrow> bool" where
  "calm s s' \<longleftrightarrow> sc_mode s' = sc_mode s \<and>
     (\<forall>pid p'. sc_processes s' pid = Some p' \<longrightarrow> pr_state p' = Running \<longrightarrow>
        (\<exists>p. sc_processes s pid = Some p \<and> pr_state p = Running) \<and>
        (sc_current s' = sc_current s \<or> sc_current s \<noteq> Some pid))"

lemma calm_refl [intro]: "calm s s"
  by (simp add: calm_def)

lemma calm_trans: "calm s s' \<Longrightarrow> calm s' s'' \<Longrightarrow> calm s s''"
  unfolding calm_def by metis

lemma calm_running: "calm s s' \<Longrightarrow> running_ok s \<Longrightarrow> running_ok s'"
  unfolding calm_def running_ok_def by metis

lemma calm_force_preempt: "calm s (force_preempt m0 m1 now s)"
  by (auto simp: force_preempt_def Let_def calm_def update_entry_apply split: option.split)

lemma calm_spawn:
  "calm s (snd (spawn_process now n p r s))"
  "calm s (snd (spawn_real_process e now n p r s))"
  "calm s (snd (spawn_child q n p r s))"
  by (auto simp: spawn_process_def spawn_real_process_def spawn_child_def Let_def calm_def
      process_new_simps split: option.split)

lemma calm_kill_process: "calm s (snd (kill_process pid s))"
  by (auto simp: kill_process_def Let_def calm_def split: option.split)

lemma calm_set_priority: "calm s (snd (set_priority pid p s))"
  by (auto simp: set_priority_def Let_def calm_def split: option.split)

lemma calm_state_ops:
  "calm s (snd (suspend_process pid s))"
  "calm s (snd (resume_process pid s))"
  "calm s (snd (report_crash now pid s))"
  by (auto simp: suspend_process_def resume_process_def report_crash_def Let_def calm_def
      split: option.split)

lemma calm_raise_faults: "calm s (snd (raise_faults now pms s))"
proof (induction pms arbitrary: s)
  case (Cons pm pms)
  have "calm s (snd (raise_fault now pm s))"
    by (cases pm, cases "sc_processes s (fst pm)") (auto simp: raise_fault_def Let_def calm_def)
  then show ?case
    using Cons.IH[of "snd (raise_fault now pm s)"] by (auto simp: split_beta Let_def intro: calm_trans)
qed auto

lemma calm_poll_faults: "calm s (snd (poll_faults now order s))"
  unfolding poll_faults_def Let_def
  by (rule calm_trans[OF _ calm_raise_faults]) (simp add: calm_def)

lemma calm_kill_all: "calm s (kill_all pids s)"
  by (induction pids arbitrary: s) (auto intro: calm_trans[OF calm_kill_process])

lemma calm_kill_group: "calm s (snd (kill_group g s))"
  using calm_kill_all by (fastforce simp: kill_group_def Let_def calm_def split: option.split)

lemma calm_resolve_fault: "calm s (snd (resolve_fault pid a s))"
proof (cases a)
  case Terminate
  let ?s = "s\<lparr>sc_fault_queue := filter (\<lambda>f. fi_pid f \<noteq> pid) (sc_fault_queue s)\<rparr>"
  have "calm s (snd (kill_process pid ?s))"
    by (rule calm_trans[OF _ calm_kill_process]) (simp add: calm_def)
  with Terminate show ?thesis
    by (auto simp: resolve_fault_def Let_def split: prod.split sum.split)
qed (auto simp: resolve_fault_def Let_def calm_def split: option.split)

lemma calm_suspend_all: "calm s (snd (suspend_all pids s))"
proof (induction pids arbitrary: s)
  case (Cons pid pids)
  have "calm s (s\<lparr>sc_processes := (sc_processes s)(pid \<mapsto> set_state Suspended p)\<rparr>)" for p
    by (simp add: calm_def)
  then show ?case
    using Cons.IH by (auto simp: split_beta Let_def split: option.split intro: calm_trans)
qed auto

lemma calm_resume_all: "calm s (snd (resume_all pids s))"
proof (induction pids arbitrary: s)
  case (Cons pid pids)
  have "calm s (s\<lparr>sc_processes := (sc_processes s)(pid \<mapsto> set_state Ready p)\<rparr>)" for p
    by (simp add: calm_def)
  then show ?case
    using Cons.IH by (auto simp: split_beta Let_def split: option.split intro: calm_trans)
qed auto

lemma calm_reap_threads: "calm s (reap_threads pids s)"
proof (induction pids arbitrary: s)
  case (Cons pid pids)
  show ?case
    unfolding reap_threads.simps
    by (rule calm_trans[OF _ Cons.IH]) (auto simp: calm_def update_entry_apply split: if_splits)
qed auto

lemma calm_set_all_priorities: "calm s (snd (set_all_priorities pids p s))"
proof (induction pids arbitrary: s)
  case (Cons pid pids)
  have "calm s (snd (set_priority pid p s))" by (rule calm_set_priority)
  with Cons.IH show ?case by (auto split: prod.split sum.split intro: calm_trans)
qed auto

lemma calm_groups: "calm s (s\<lparr>sc_groups := gs\<rparr>)"
  by (simp add: calm_def)

lemma calm_set_group_priority: "calm s (snd (set_group_priority g p s))"
  unfolding set_group_priority_def
  by (auto split: option.split intro!: calm_trans[OF calm_groups calm_set_all_priorities])

lemma calm_group_ops:
  "calm s (snd (create_group now n p s))"
  "calm s (snd (create_session now n p s))"
  "calm s (snd (add_to_group pid g s))"
  "calm s (snd (remove_from_group pid s))"
  "calm s (snd (suspend_group g s))"
  "calm s (snd (resume_group g s))"
  "calm s (snd (check_real_threads order s))"
  using calm_suspend_all calm_resume_all calm_reap_threads
  by (auto simp: create_group_def create_session_def add_to_group_def remove_from_group_def
      suspend_group_def resume_group_def check_real_threads_def Let_def split_beta split: option.split)
     (auto simp: calm_def update_entry_apply split: if_splits)

lemma calm_flag_ops:
  "calm s (snd (take_faults s))"
  "calm s (set_rt_deadline pid d s)"
  "calm s (clear_rt_deadline pid s)"
  "calm s (clear_jitter_log s)"
  "calm s (set_last_scheduled pid ms s)"
  "calm s (snd (set_cpu_affinity pid cs s))"
  "calm s (register_memory_pressure_callback n s)"
  "calm s (thread_step pid pm s)"
  by (simp_all add: take_faults_def set_rt_deadline_def
      clear_rt_deadline_def clear_jitter_log_def set_last_scheduled_def set_cpu_affinity_def
      register_memory_pressure_callback_def thread_step_def calm_def
      split: option.split sum.split)

lemmas calm_ops = calm_force_preempt calm_spawn calm_kill_process calm_set_priority calm_state_ops
  calm_poll_faults calm_kill_group calm_resolve_fault calm_set_group_priority calm_group_ops
  calm_flag_ops

lemma running_preempt_expired:
  assumes "running_ok s"
  shows "\<forall>pid p. sc_processes (preempt_expired rd s) pid = Some p \<longrightarrow> pr_state p \<noteq> Running"
  using assms
  by (auto simp: preempt_expired_def running_ok_def update_entry_apply split: option.splits if_splits)

lemma preempt_expired_simps [simp]:
  "sc_current (preempt_expired rd s) = sc_current s"
  "sc_mode (preempt_expired rd s) = sc_mode s"
  "sc_queues (preempt_expired rd s) = sc_queues s"
  "sc_rr_positions (preempt_expired rd s) = sc_rr_positions s"
  "sc_aging_threshold_ms (preempt_expired rd s) = sc_aging_threshold_ms s"
  by (simp_all add: preempt_expired_def split: option.split)

lemma running_dispatch:
  assumes "dispatch rd pid s = Some (r, s')" "sc_mode s = NormalMode"
    and "\<forall>pid p. sc_processes s pid = Some p \<longrightarrow> pr_state p \<noteq> Running"
  shows "running_ok s'"
  using assms
  by (auto simp: dispatch_eq running_ok_def update_entry_apply split: option.splits if_splits)

lemma running_schedule_next:
  assumes "schedule_next rd order s = Some (r, s')" "running_ok s"
  shows "running_ok s'"
proof -
  have m: "sc_mode s = NormalMode" using assms(2) by (simp add: running_ok_def)
  show ?thesis
    using assms m running_preempt_expired[OF assms(2)]
    by (auto simp: schedule_next_normal Let_def running_ok_def split: if_splits option.splits
        dest: running_dispatch[unfolded running_ok_def])
qed

lemma running_tick:
  assumes "tick m0 m1 rd order s = Some (r, s')" "running_ok s"
  shows "running_ok s'"
proof (rule running_schedule_next[OF assms(1)[unfolded tick_def]])
  show "running_ok (case sc_timer s of None \<Rightarrow> s
     | Some t \<Rightarrow> if quota_exceeded m0 t
         then (case sc_current s of None \<Rightarrow> s
           | Some c \<Rightarrow> (modify_process c (charge (elapsed_ms m1 t)) s)
               \<lparr>sc_current := None, sc_timer := None\<rparr>) else s)"
    using assms(2) by (auto simp: running_ok_def update_entry_apply split: option.splits)
qed

definition normal_op :: "sched_op \<Rightarrow> scheduler \<Rightarrow> bool" where
  "normal_op op s = (case op of OSetMode m \<Rightarrow> m = NormalMode | _ \<Rightarrow> True)"

lemma sched_exec_running:
  assumes "running_ok s" "normal_op op s" "sched_exec op s = Some s'"
  shows "running_ok s'"
  using assms
  by (cases op)
     (auto simp: normal_op_def intro: running_schedule_next running_tick calm_ops[THEN calm_running],
      auto simp: running_ok_def set_scheduling_mode_def)

subsection \<open>Reachable states\<close>

definition sched_init :: "u64 \<Rightarrow> u64 \<Rightarrow> u64 \<Rightarrow> u32 \<Rightarrow> scheduler" where
  "sched_init total_ram aging slice_ms restarts =
     sched_with_max_restarts (with_time_slice (with_aging_threshold
       (scheduler_new total_ram) aging) slice_ms) restarts"

lemmas sched_init_simps = sched_init_def sched_with_max_restarts_def with_time_slice_def
  with_aging_threshold_def scheduler_new_def

lemma sched_init_wf: "sched_wf (sched_init total_ram aging slice_ms restarts)"
  by (simp add: sched_wf_def sched_init_simps queued_def ram_sum_def)

lemma sched_init_running: "running_ok (sched_init total_ram aging slice_ms restarts)"
  by (simp add: running_ok_def sched_init_simps)

text \<open>
  C7: In every state a run reaches from a freshly built scheduler, as long as the spawns
  of the run do not overflow the memory account or the identifiers and a rollback finds the
  priority its snapshot has: every process is filed under its own identifier, below the next
  one; each process is in exactly one ready queue, once, the queue of its own priority, and no
  empty queue is kept; the memory in use is the sum of the quotas of the live processes and at
  most the total; and the current process exists.
\<close>

theorem sched_reachable_wf:
  assumes "sched_reachable op_ok (sched_init total_ram aging slice_ms restarts) s"
  shows "sched_wf s"
  using assms by (induction rule: sched_reachable.induct) (auto intro: sched_init_wf sched_exec_wf)

text \<open>
  C29: In every state a run in normal scheduling mode reaches, with no other side
  condition, no process but the current one is \<open>Running\<close>; two different processes never are.
\<close>

theorem sched_one_running:
  assumes "sched_reachable normal_op (sched_init total_ram aging slice_ms restarts) s"
    and "sc_processes s pid = Some p" "pr_state p = Running"
  shows "sc_current s = Some pid"
proof -
  have "running_ok s"
    using assms(1)
    by (induction rule: sched_reachable.induct)
       (auto intro: sched_init_running sched_exec_running)
  with assms(2,3) show ?thesis by (simp add: running_ok_def)
qed

text \<open>A short run for the witnesses: two spawns, a scheduling call and a group suspension.\<close>

definition demo_rd :: readings where
  "demo_rd = \<lparr>rd_mono = (\<lambda>i. 0), rd_wall = (\<lambda>i. 10), rd_wait = (\<lambda>pid. 10)\<rparr>"

definition demo0 :: scheduler where
  "demo0 = sched_init 1000 500 50 3"

definition demo1 :: scheduler where
  "demo1 = snd (spawn_process 5 ''ui'' High 300 demo0)"

definition demo2 :: scheduler where
  "demo2 = snd (spawn_real_process None 6 ''log'' Low 200 demo1)"

lemmas demo_simps = demo0_def demo1_def demo2_def sched_init_simps spawn_process_def
  spawn_real_process_def process_new_simps Let_def entry_push_def demo_rd_def

lemma demo_reachable:
  assumes "\<And>s. ok (OSpawn 5 ''ui'' High 300) demo0" "ok (OSpawnReal None 6 ''log'' Low 200) demo1"
  shows "sched_reachable ok (sched_init 1000 500 50 3) demo2"
proof -
  have "sched_reachable ok (sched_init 1000 500 50 3) demo0"
    unfolding demo0_def by (rule sched_start)
  then have "sched_reachable ok (sched_init 1000 500 50 3) demo1"
    using assms(1) by (rule sched_step) (simp add: demo1_def)
  then show ?thesis
    using assms(2) by (rule sched_step) (simp add: demo2_def)
qed

theorem sched_reachable_wf_witness:
  "sched_reachable op_ok (sched_init 1000 500 50 3) demo2 \<and> sched_wf demo2 \<and>
     unat (sc_used_ram_mb demo2) = 500 \<and> queued demo2 High = [1] \<and> queued demo2 Low = [2]"
proof -
  have r: "sched_reachable op_ok (sched_init 1000 500 50 3) demo2"
    by (rule demo_reachable) (simp_all add: op_ok_def spawn_fits_def demo_simps)
  have "unat (sc_used_ram_mb demo2) = 500" "queued demo2 High = [1]" "queued demo2 Low = [2]"
    by (simp_all add: demo_simps queued_def)
  with r sched_reachable_wf[OF r] show ?thesis by simp
qed

lemma demo_schedule:
  "schedule_next demo_rd [] demo2 =
     Some (Some 1, (modify_process 1 (set_state Running) demo2)
       \<lparr>sc_rr_positions := [High \<mapsto> 0], sc_current := Some 1,
        sc_timer := Some (timer_new 0 1 200)\<rparr>)"
  by (simp add: schedule_next_def demo_simps preempt_expired_def visit_order_def rr_order_def
      examine_def effective_priority_def dispatch_eq dispatch_rr_def update_entry_def sat_sub_def
      priority_from_u8.simps less_Priority_def word_less_nat_alt)

theorem sched_one_running_witness:
  "\<exists>s p. sched_reachable normal_op (sched_init 1000 500 50 3) s \<and>
     sc_processes s 1 = Some p \<and> pr_state p = Running \<and> sc_current s = Some 1"
proof -
  let ?s = "(modify_process 1 (set_state Running) demo2)
       \<lparr>sc_rr_positions := [High \<mapsto> 0], sc_current := Some 1,
        sc_timer := Some (timer_new 0 1 200)\<rparr>"
  have "sched_reachable normal_op (sched_init 1000 500 50 3) demo2"
    by (rule demo_reachable) (simp_all add: normal_op_def)
  then have r: "sched_reachable normal_op (sched_init 1000 500 50 3) ?s"
    by (rule sched_step[where op = "OSchedule demo_rd []"]) (simp_all add: normal_op_def demo_schedule)
  obtain p where p: "sc_processes ?s 1 = Some p" "pr_state p = Running"
    by (simp add: update_entry_apply demo_simps)
  from sched_one_running[OF r p] r p show ?thesis by blast
qed

end
