(* ===== verification/Scheduler_Policy.thy ===== *)
theory Scheduler_Policy
  imports Scheduler_Invariant
begin

text \<open>
  What the scheduler decides: the choice of the next process in normal and in real-time mode,
  aging, the effect of a kill, and the runs on which the code
  does not do what its documentation says.
\<close>

subsection \<open>The normal-mode choice\<close>

definition eligible :: "scheduler \<Rightarrow> process_id option \<Rightarrow> process_id \<Rightarrow> bool" where
  "eligible s skip pid \<longleftrightarrow> Some pid \<noteq> skip \<and>
     (\<exists>p. sc_processes s pid = Some p \<and> pr_state p = Ready)"

definition aged :: "readings \<Rightarrow> scheduler \<Rightarrow> Priority \<Rightarrow> process_id \<Rightarrow> Priority" where
  "aged rd s prio pid = the (effective_priority rd s prio pid)"

lemma effective_total:
  assumes "sc_aging_threshold_ms s \<noteq> 0"
  shows "effective_priority rd s prio pid = Some (aged rd s prio pid)"
  using assms by (auto simp: effective_priority_def aged_def Let_def split: option.split)

text \<open>
  The one case in which a choice panics: the aging threshold is zero, and the waiting time of a
  ready process that was scheduled or spawned with a time stamp is divided by it.
\<close>

definition divides_by_zero :: "scheduler \<Rightarrow> process_id option \<Rightarrow> bool" where
  "divides_by_zero s skip \<longleftrightarrow> sc_aging_threshold_ms s = 0 \<and>
     (\<exists>k. eligible s skip k \<and> sc_last_scheduled_ms s k \<noteq> None)"

lemma effective_defined:
  assumes "\<not> divides_by_zero s skip" "eligible s skip pid"
  shows "effective_priority rd s prio pid = Some (aged rd s prio pid)"
  using assms by (auto simp: divides_by_zero_def effective_priority_def aged_def Let_def split: option.split)

lemma divides_by_zero_threshold: "sc_aging_threshold_ms s \<noteq> 0 \<Longrightarrow> \<not> divides_by_zero s skip"
  by (simp add: divides_by_zero_def)

lemma priority_weight_less [simp]: "priority_weight p < priority_weight q \<longleftrightarrow> p < q"
  by (cases p; cases q) (simp_all add: less_Priority_def word_less_nat_alt)

definition cand_ok :: "readings \<Rightarrow> scheduler \<Rightarrow> process_id option \<Rightarrow> (Priority \<times> process_id) set \<Rightarrow>
    (Priority \<times> u32 \<times> process_id) option \<Rightarrow> bool" where
  "cand_ok rd s skip seen cand \<longleftrightarrow>
     (case cand of
        None \<Rightarrow> \<forall>(prio, pid)\<in>seen. \<not> eligible s skip pid
      | Some (eff, w, pid) \<Rightarrow> w = priority_weight eff \<and> eligible s skip pid \<and>
          (\<exists>prio. (prio, pid) \<in> seen \<and> eff = aged rd s prio pid) \<and>
          (\<forall>(prio, k)\<in>seen. eligible s skip k \<longrightarrow> aged rd s prio k \<le> eff))"

lemma examine_ok:
  assumes "\<not> divides_by_zero s skip" "cand_ok rd s skip seen cand"
  shows "\<exists>cand'. examine rd s skip pp cand = Some cand' \<and> cand_ok rd s skip (insert pp seen) cand'"
proof -
  obtain prio pid where pp: "pp = (prio, pid)" by (cases pp)
  show ?thesis
  proof (cases "eligible s skip pid")
    case False
    then have "examine rd s skip pp cand = Some cand"
      by (auto simp: examine_def pp eligible_def split: option.split)
    with assms(2) False show ?thesis
      by (auto simp: cand_ok_def pp split: option.split)
  next
    case True
    then obtain p where "sc_processes s pid = Some p" "pr_state p = Ready" "Some pid \<noteq> skip"
      by (auto simp: eligible_def)
    then have e: "examine rd s skip pp cand = Some (case cand of
        None \<Rightarrow> Some (aged rd s prio pid, priority_weight (aged rd s prio pid), pid)
      | Some (ceff, cw, _) \<Rightarrow> if ceff < aged rd s prio pid \<or>
            aged rd s prio pid = ceff \<and> cw < priority_weight (aged rd s prio pid)
          then Some (aged rd s prio pid, priority_weight (aged rd s prio pid), pid) else cand)"
      by (simp add: examine_def pp effective_defined[OF assms(1) True] Let_def)
    show ?thesis
    proof (cases cand)
      case None
      with assms(2) True e show ?thesis by (fastforce simp: cand_ok_def pp)
    next
      case (Some c)
      obtain ceff cw cpid where c: "c = (ceff, cw, cpid)" by (cases c)
      with assms(2) True e Some show ?thesis
        by (cases "ceff < aged rd s prio pid") (fastforce simp: cand_ok_def pp)+
    qed
  qed
qed

lemma select_ok:
  assumes "\<not> divides_by_zero s skip" "cand_ok rd s skip seen cand"
  shows "\<exists>cand'. select rd s skip pps cand = Some cand' \<and> cand_ok rd s skip (seen \<union> set pps) cand'"
  using assms(2)
proof (induction pps arbitrary: seen cand)
  case (Cons pp pps)
  from examine_ok[OF assms(1) Cons.prems, of pp] obtain c where
    c: "examine rd s skip pp cand = Some c" "cand_ok rd s skip (insert pp seen) c" by blast
  from Cons.IH[OF c(2)] c(1) show ?case by simp
qed simp

lemma select_panics:
  assumes "sc_aging_threshold_ms s = 0" "eligible s skip pid" "sc_last_scheduled_ms s pid \<noteq> None"
    and "(prio, pid) \<in> set pps"
  shows "select rd s skip pps cand = None"
  using assms(4)
proof (induction pps arbitrary: cand)
  case (Cons pp pps)
  have "examine rd s skip (prio, pid) cand = None"
    using assms(1-3) by (auto simp: examine_def eligible_def effective_priority_def)
  with Cons show ?case by (auto split: option.split)
qed simp

lemma set_rr_order: "set (rr_order r q) = set q"
proof (cases "q = []")
  case False
  have "\<exists>i<length q. q ! ((r + i) mod length q) = q ! j" if "j < length q" for j
  proof -
    let ?n = "length q"
    have lt: "r mod ?n < ?n" using False by simp
    let ?i = "(j + (?n - r mod ?n)) mod ?n"
    have "(r + ?i) mod ?n = (r mod ?n + (j + (?n - r mod ?n))) mod ?n"
      by (simp add: mod_simps)
    also have "r mod ?n + (j + (?n - r mod ?n)) = j + ?n"
      using lt by linarith
    finally show ?thesis using that False by (intro exI[of _ ?i]) simp
  qed
  then have "set q \<subseteq> set (rr_order r q)"
    by (auto simp: rr_order_def in_set_conv_nth image_iff Bex_def) (metis)
  moreover have "set (rr_order r q) \<subseteq> set q"
    using False by (auto simp: rr_order_def)
  ultimately show ?thesis by blast
qed (simp add: rr_order_def)

lemma visit_order_wf:
  assumes "sched_wf s"
  shows "(prio, pid) \<in> set (visit_order s) \<longleftrightarrow>
    (\<exists>p. sc_processes s pid = Some p \<and> pr_priority p = prio)"
proof -
  have "(prio, pid) \<in> set (visit_order s) \<longleftrightarrow> pid \<in> set (queued s prio)"
    by (cases prio) (auto simp: visit_order_def queued_def set_rr_order split: option.splits)
  with assms show ?thesis by (simp add: sched_wf_def)
qed

definition current_rank :: "readings \<Rightarrow> scheduler \<Rightarrow> process_id \<Rightarrow> Priority" where
  "current_rank rd s pid = aged rd s (pr_priority (the (sc_processes s pid))) pid"

lemma preempt_others:
  assumes "Some pid \<noteq> sc_current s"
  shows "sc_processes (preempt_expired rd s) pid = sc_processes s pid"
    "sc_last_scheduled_ms (preempt_expired rd s) pid = sc_last_scheduled_ms s pid"
  using assms by (auto simp: preempt_expired_def update_entry_apply split: option.split)

lemma eligible_preempt: "eligible (preempt_expired rd s) (sc_current s) pid \<longleftrightarrow> eligible s (sc_current s) pid"
  by (auto simp: eligible_def preempt_others)

lemma current_rank_preempt:
  "Some pid \<noteq> sc_current s \<Longrightarrow> current_rank rd (preempt_expired rd s) pid = current_rank rd s pid"
  by (simp add: current_rank_def aged_def effective_priority_def preempt_others split: option.split)

definition slice_over :: "readings \<Rightarrow> scheduler \<Rightarrow> bool" where
  "slice_over rd s \<longleftrightarrow> \<not> (\<exists>c t. sc_current s = Some c \<and> sc_timer s = Some t \<and>
     \<not> quota_exceeded (rd_mono rd 0) t)"

lemma select_visit:
  assumes wf: "sched_wf s" and a: "\<not> divides_by_zero s skip"
  obtains "select rd s skip (visit_order s) None = Some None" "\<forall>k. \<not> eligible s skip k"
  | eff w pid where "select rd s skip (visit_order s) None = Some (Some (eff, w, pid))"
      "eligible s skip pid" "\<forall>k. eligible s skip k \<longrightarrow> current_rank rd s k \<le> current_rank rd s pid"
proof -
  have "cand_ok rd s skip {} None" by (simp add: cand_ok_def)
  from select_ok[OF a this, of "visit_order s"] obtain c where
    c: "select rd s skip (visit_order s) None = Some c" "cand_ok rd s skip (set (visit_order s)) c"
    by auto
  have vis: "(pr_priority p, k) \<in> set (visit_order s)" if "sc_processes s k = Some p" for k p
    using visit_order_wf[OF wf] that by blast
  have seen: "sc_processes s k = Some p \<and> pr_priority p = prio"
    if "(prio, k) \<in> set (visit_order s)" "sc_processes s k = Some p" for prio k p
    using visit_order_wf[OF wf, of prio k] that by auto
  show thesis
  proof (cases c)
    case None
    with c vis show thesis by (intro that(1)) (auto simp: cand_ok_def eligible_def)
  next
    case (Some e)
    obtain eff w pid where e: "e = (eff, w, pid)" by (cases e)
    have el: "eligible s skip pid" using c(2) Some e by (simp add: cand_ok_def)
    obtain prio where pr: "(prio, pid) \<in> set (visit_order s)" "eff = aged rd s prio pid"
      using c(2) Some e by (auto simp: cand_ok_def)
    have eff: "eff = current_rank rd s pid"
      using pr el seen[OF pr(1)] by (auto simp: current_rank_def eligible_def)
    have "current_rank rd s k \<le> eff" if "eligible s skip k" for k
      using that c(2) Some e vis by (fastforce simp: cand_ok_def eligible_def current_rank_def)
    with c(1) Some e el eff show thesis by (intro that(2)) auto
  qed
qed

lemma wf_preempt_expired: "sched_wf s \<Longrightarrow> sched_wf (preempt_expired rd s)"
  using frame_preempt_expired by (rule frame_wf)

lemma divides_by_zero_preempt:
  "divides_by_zero (preempt_expired rd s) (sc_current s) \<longleftrightarrow> divides_by_zero s (sc_current s)"
proof -
  have "sc_last_scheduled_ms (preempt_expired rd s) k = sc_last_scheduled_ms s k"
    if "eligible s (sc_current s) k" for k
    using that by (intro preempt_others) (simp add: eligible_def)
  then show ?thesis by (auto simp: divides_by_zero_def eligible_preempt)
qed

lemma schedule_next_slice_over:
  assumes "sc_mode s = NormalMode" "slice_over rd s"
  shows "schedule_next rd order s =
    (let s1 = preempt_expired rd s in
     case select rd s1 (sc_current s) (visit_order s1) None of
         None \<Rightarrow> None
       | Some None \<Rightarrow> Some (None, s1\<lparr>sc_current := None, sc_timer := None\<rparr>)
       | Some (Some (_, _, pid)) \<Rightarrow> dispatch rd pid s1)"
  using assms by (subst schedule_next_normal, simp, subst if_not_P)
    (simp_all only: slice_over_def Let_def preempt_expired_simps not_False_eq_True)

lemma schedule_next_choice_gen:
  assumes wf: "sched_wf s" and m: "sc_mode s = NormalMode" and a: "\<not> divides_by_zero s (sc_current s)"
    and over: "slice_over rd s"
  shows "\<exists>r s'. schedule_next rd order s = Some (r, s') \<and> sc_current s' = r \<and>
    (case r of
       None \<Rightarrow> \<forall>k. \<not> eligible s (sc_current s) k
     | Some pid \<Rightarrow> eligible s (sc_current s) pid \<and>
         map_option pr_state (sc_processes s' pid) = Some Running \<and>
         (\<forall>k. eligible s (sc_current s) k \<longrightarrow> current_rank rd s k \<le> current_rank rd s pid))"
proof -
  let ?s = "preempt_expired rd s"
  note n = schedule_next_slice_over[OF m over, of order, unfolded Let_def]
  have rank: "current_rank rd ?s k = current_rank rd s k" if "eligible s (sc_current s) k" for k
    using that by (simp add: current_rank_preempt eligible_def)
  have a': "\<not> divides_by_zero ?s (sc_current s)" using a by (simp add: divides_by_zero_preempt)
  show ?thesis
  proof (cases rule: select_visit[OF wf_preempt_expired[OF wf, of rd] a', of rd])
    case 1
    with n show ?thesis by (simp add: eligible_preempt)
  next
    case (2 eff w pid)
    then have el: "eligible s (sc_current s) pid" by (simp add: eligible_preempt)
    then have "pid \<in> dom (sc_processes (dispatch_rr pid ?s))"
      using core_processes_dom[OF core_dispatch_rr[of pid ?s]] preempt_others(1)[of pid s rd]
      by (auto simp: eligible_def simp del: dispatch_rr_processes)
    then obtain p where p: "sc_processes (dispatch_rr pid ?s) pid = Some p" by blast
    with n 2 el rank show ?thesis
      by (simp add: dispatch_eq update_entry_apply eligible_preempt del: dispatch_rr_processes)
  qed
qed

lemma schedule_next_panics:
  assumes wf: "sched_wf s" and m: "sc_mode s = NormalMode" and a: "divides_by_zero s (sc_current s)"
    and over: "slice_over rd s"
  shows "schedule_next rd order s = None"
proof -
  let ?s = "preempt_expired rd s"
  from a have "divides_by_zero ?s (sc_current s)" by (simp add: divides_by_zero_preempt)
  then obtain k p where k: "sc_aging_threshold_ms ?s = 0" "eligible ?s (sc_current s) k"
      "sc_last_scheduled_ms ?s k \<noteq> None" and p: "sc_processes ?s k = Some p"
    by (auto simp: divides_by_zero_def eligible_def)
  have "(pr_priority p, k) \<in> set (visit_order ?s)"
    using p visit_order_wf[OF wf_preempt_expired[OF wf, of rd]] by blast
  from select_panics[OF k this] show ?thesis
    by (simp add: schedule_next_slice_over[OF m over] Let_def)
qed

text \<open>
  C30: In a well-formed scheduler in normal mode, when no time slice is left to finish, a
  scheduling call panics exactly when the aging threshold is zero and some ready process other than
  the current one has a time stamp (its waiting time is divided by the threshold).  Otherwise it
  starts none exactly when no process other than the current one is ready; a started process was
  ready, is not the previously current one, is then \<open>Running\<close> and current, and no other ready
  process has a higher effective (aged) priority.
\<close>

theorem schedule_next_choice:
  assumes wf: "sched_wf s" and m: "sc_mode s = NormalMode" and over: "slice_over rd s"
  shows "case schedule_next rd order s of
      None \<Rightarrow> divides_by_zero s (sc_current s)
    | Some (r, s') \<Rightarrow> \<not> divides_by_zero s (sc_current s) \<and> sc_current s' = r \<and>
        (case r of
           None \<Rightarrow> \<forall>k. \<not> eligible s (sc_current s) k
         | Some pid \<Rightarrow> eligible s (sc_current s) pid \<and>
             map_option pr_state (sc_processes s' pid) = Some Running \<and>
             (\<forall>k. eligible s (sc_current s) k \<longrightarrow> current_rank rd s k \<le> current_rank rd s pid))"
proof (cases "divides_by_zero s (sc_current s)")
  case True
  then show ?thesis by (simp add: schedule_next_panics[OF wf m _ over])
next
  case False
  from schedule_next_choice_gen[OF wf m False over, of order] False show ?thesis by auto
qed

lemma demo2_wf: "sched_wf demo2"
  unfolding demo2_def demo1_def demo0_def
  by (intro wf_spawn_real_process wf_spawn_process sched_init_wf)
     (simp_all add: spawn_fits_def demo_simps)

text \<open>The demo run schedules a process; with a threshold of zero the same call panics.\<close>

theorem schedule_next_choice_witness:
  "(\<exists>pid s'. schedule_next demo_rd [] demo2 = Some (Some pid, s') \<and> sc_current s' = Some pid \<and>
      eligible demo2 None pid \<and> current_rank demo_rd demo2 2 \<le> current_rank demo_rd demo2 pid) \<and>
   schedule_next demo_rd [] (demo2\<lparr>sc_aging_threshold_ms := 0\<rparr>) = None"
proof -
  let ?z = "demo2\<lparr>sc_aging_threshold_ms := 0\<rparr>"
  have wz: "sched_wf ?z" using demo2_wf by (simp add: sched_wf_def queued_def)
  have d: "sc_mode demo2 = NormalMode" "slice_over demo_rd demo2" "\<not> divides_by_zero demo2 None"
    "eligible demo2 None 2" "sc_current demo2 = None"
    by (simp_all add: demo_simps slice_over_def divides_by_zero_def eligible_def)
  have z: "sc_mode ?z = NormalMode" "slice_over demo_rd ?z"
    by (simp_all add: demo_simps slice_over_def)
  have "eligible ?z None 2" "sc_last_scheduled_ms ?z 2 \<noteq> None"
    by (simp_all add: demo_simps eligible_def)
  then have dz: "divides_by_zero ?z (sc_current ?z)" using d(5) by (auto simp: divides_by_zero_def)
  have "schedule_next demo_rd [] ?z = None"
    using schedule_next_choice[OF wz z, of "[]"] dz by (auto split: option.splits prod.splits)
  moreover have "\<exists>pid s'. schedule_next demo_rd [] demo2 = Some (Some pid, s') \<and> sc_current s' = Some pid \<and>
      eligible demo2 None pid \<and> current_rank demo_rd demo2 2 \<le> current_rank demo_rd demo2 pid"
    using schedule_next_choice[OF demo2_wf d(1,2), of "[]"] d(3-5)
    by (auto split: option.splits prod.splits)
  ultimately show ?thesis by blast
qed

subsection \<open>Aging\<close>

lemma aged_Critical:
  assumes l: "sc_last_scheduled_ms s pid = Some l" and a: "sc_aging_threshold_ms s \<noteq> 0"
    and w: "unat l + 4 * unat (sc_aging_threshold_ms s) \<le> unat (rd_wait rd pid)"
  shows "aged rd s prio pid = Critical"
proof -
  let ?w = "sat_sub (rd_wait rd pid) l"
  have pos: "0 < unat (sc_aging_threshold_ms s)" using a by (simp add: unat_gt_0)
  have "4 * unat (sc_aging_threshold_ms s) \<le> unat ?w" using w by (simp add: unat_sat_sub)
  then have "4 \<le> unat ?w div unat (sc_aging_threshold_ms s)"
    using pos by (simp add: less_eq_div_iff_mult_less_eq)
  then have "4 \<le> ?w div sc_aging_threshold_ms s"
    by (simp add: word_le_nat_alt unat_div)
  then have "min (?w div sc_aging_threshold_ms s) 4 = 4" by (rule min.absorb2)
  then show ?thesis
    using l a by (cases prio) (simp_all add: aged_def effective_priority_def priority_from_u8.simps)
qed

text \<open>
  C31: Once a ready process has waited four aging thresholds, a normal-mode scheduling
  call with no slice left to finish starts some process whose effective priority is \<open>Critical\<close>: the
  waiting process is never passed over for one of a lower effective priority, whatever its base
  priority is.
\<close>

theorem aging_reaches_top:
  assumes "sched_wf s" "sc_mode s = NormalMode" "sc_aging_threshold_ms s \<noteq> 0" "slice_over rd s"
    and "eligible s (sc_current s) pid" "sc_last_scheduled_ms s pid = Some l"
    and "unat l + 4 * unat (sc_aging_threshold_ms s) \<le> unat (rd_wait rd pid)"
  shows "\<exists>k s'. schedule_next rd order s = Some (Some k, s') \<and> current_rank rd s k = Critical"
proof -
  have top: "current_rank rd s pid = Critical"
    unfolding current_rank_def by (rule aged_Critical[OF assms(6,3,7)])
  show ?thesis
    using schedule_next_choice_gen[OF assms(1,2) divides_by_zero_threshold[OF assms(3)] assms(4), of order]
      assms(5) top
    by (auto split: option.splits) (metis Critical_le)
qed

text \<open>The demo run, 2500 ms later: the low-priority process has waited more than four thresholds.\<close>

definition late_rd :: readings where
  "late_rd = \<lparr>rd_mono = (\<lambda>i. 0), rd_wall = (\<lambda>i. 2500), rd_wait = (\<lambda>pid. 2500)\<rparr>"

theorem aging_reaches_top_witness:
  "eligible demo2 None 2 \<and> map_option pr_priority (sc_processes demo2 2) = Some Low \<and>
   (\<exists>k s'. schedule_next late_rd [] demo2 = Some (Some k, s') \<and> current_rank late_rd demo2 k = Critical)"
proof -
  have e: "eligible demo2 (sc_current demo2) 2" and m: "sc_mode demo2 = NormalMode"
    and a: "sc_aging_threshold_ms demo2 \<noteq> 0" and l: "sc_last_scheduled_ms demo2 2 = Some 6"
    and o: "slice_over late_rd demo2" and c: "sc_current demo2 = None"
    and p: "map_option pr_priority (sc_processes demo2 2) = Some Low"
    and w: "unat (6::u64) + 4 * unat (sc_aging_threshold_ms demo2) \<le> unat (rd_wait late_rd 2)"
    by (simp_all add: demo_simps eligible_def slice_over_def late_rd_def)
  from aging_reaches_top[OF demo2_wf m a o e l w, of "[]"] e p c show ?thesis by simp
qed

subsection \<open>The real-time choice\<close>

definition rt_ok :: "scheduler \<Rightarrow> u64 \<Rightarrow> process_id set \<Rightarrow> (u64 \<times> process_id) option \<Rightarrow> bool" where
  "rt_ok s now seen best \<longleftrightarrow>
     (case best of
        None \<Rightarrow> \<forall>k\<in>seen. \<not> eligible s None k
      | Some (r, pid) \<Rightarrow> pid \<in> seen \<and> eligible s None pid \<and> r = rt_remaining s now pid \<and>
          (\<forall>k\<in>seen. eligible s None k \<longrightarrow> r \<le> rt_remaining s now k))"

lemma rt_best_ok:
  "rt_ok s now seen best \<Longrightarrow> rt_ok s now (seen \<union> set pids) (rt_best s now pids best)"
proof (induction pids arbitrary: best seen)
  case (Cons pid pids)
  show ?case
  proof (cases "eligible s None pid")
    case False
    then have "rt_best s now (pid # pids) best = rt_best s now pids best"
      by (auto simp: eligible_def split: option.split)
    moreover from Cons.prems False have "rt_ok s now (insert pid seen) best"
      by (auto simp: rt_ok_def split: option.splits)
    ultimately show ?thesis using Cons.IH[of "insert pid seen" best] by simp
  next
    case True
    let ?b = "case best of None \<Rightarrow> Some (rt_remaining s now pid, pid)
      | Some (r, _) \<Rightarrow> if rt_remaining s now pid < r then Some (rt_remaining s now pid, pid) else best"
    have "rt_best s now (pid # pids) best = rt_best s now pids ?b"
      using True by (auto simp: eligible_def Let_def)
    moreover from Cons.prems True have "rt_ok s now (insert pid seen) ?b"
      by (cases best) (auto simp: rt_ok_def not_less dest!: less_imp_le, meson order_trans)
    ultimately show ?thesis using Cons.IH[of "insert pid seen" ?b] by simp
  qed
qed simp

lemma schedule_rt_gen:
  assumes m: "sc_mode s = RealTime" and it: "iteration_of order (sc_processes s)"
  shows "\<exists>r s'. schedule_next rd order s = Some (r, s') \<and> sc_current s' = r \<and>
    (case r of
       None \<Rightarrow> (\<forall>k. \<not> eligible s None k) \<and> s' = s\<lparr>sc_current := None, sc_timer := None\<rparr>
     | Some pid \<Rightarrow> eligible s None pid \<and>
         map_option pr_state (sc_processes s' pid) = Some Running \<and>
         (\<forall>k. eligible s None k \<longrightarrow>
            rt_remaining s (rd_wall rd 0) pid \<le> rt_remaining s (rd_wall rd 0) k))"
proof -
  let ?b = "rt_best s (rd_wall rd 0) order None"
  have b: "rt_ok s (rd_wall rd 0) (set order) ?b"
    using rt_best_ok[of s "rd_wall rd 0" "{}" None order] by (simp add: rt_ok_def)
  have all: "eligible s None k \<Longrightarrow> k \<in> set order" for k
    using it by (auto simp: iteration_of_def eligible_def)
  have n: "schedule_next rd order s = schedule_next_rt rd order s" using m by (simp add: schedule_next_def)
  show ?thesis
  proof (cases ?b)
    case None
    with b all show ?thesis by (auto simp: n schedule_next_rt_def rt_ok_def)
  next
    case (Some c)
    obtain r pid where c: "c = (r, pid)" by (cases c)
    have "pid \<in> dom (sc_processes (rt_switch pid s))"
      using b Some c core_processes_dom[of "rt_switch pid s" s] by (auto simp: eligible_def rt_ok_def)
    then obtain p where "sc_processes (rt_switch pid s) pid = Some p" by blast
    with b all Some c show ?thesis
      by (auto simp: n schedule_next_rt_def Let_def update_entry_apply rt_ok_def)
  qed
qed

text \<open>
  C32: In real-time mode a scheduling call, for every iteration order of the process
  table, starts a ready process with the least time left to its deadline (a process without a
  deadline counts as having the latest one), makes it \<open>Running\<close> and current, and starts none
  exactly when no process is ready; it never panics.
\<close>

theorem schedule_rt_deadline:
  assumes "sc_mode s = RealTime" "iteration_of order (sc_processes s)"
  shows "\<exists>r s'. schedule_next rd order s = Some (r, s') \<and> sc_current s' = r \<and>
    (case r of
       None \<Rightarrow> \<forall>k. \<not> eligible s None k
     | Some pid \<Rightarrow> eligible s None pid \<and>
         map_option pr_state (sc_processes s' pid) = Some Running \<and>
         (\<forall>k. eligible s None k \<longrightarrow>
            rt_remaining s (rd_wall rd 0) pid \<le> rt_remaining s (rd_wall rd 0) k))"
proof -
  obtain r s' where "schedule_next rd order s = Some (r, s')" "sc_current s' = r"
    "case r of
       None \<Rightarrow> (\<forall>k. \<not> eligible s None k) \<and> s' = s\<lparr>sc_current := None, sc_timer := None\<rparr>
     | Some pid \<Rightarrow> eligible s None pid \<and>
         map_option pr_state (sc_processes s' pid) = Some Running \<and>
         (\<forall>k. eligible s None k \<longrightarrow>
            rt_remaining s (rd_wall rd 0) pid \<le> rt_remaining s (rd_wall rd 0) k)"
    using schedule_rt_gen[OF assms, of rd] by blast
  then show ?thesis by (intro exI[of _ r] exI[of _ s']) (cases r, auto)
qed

definition rt_demo :: scheduler where
  "rt_demo = set_rt_deadline 2 40 (set_scheduling_mode RealTime demo2)"

lemmas rt_demo_simps = rt_demo_def set_rt_deadline_def set_scheduling_mode_def demo_simps

theorem schedule_rt_deadline_witness:
  "sc_mode rt_demo = RealTime \<and> iteration_of [1, 2] (sc_processes rt_demo) \<and>
   (\<exists>r s'. schedule_next demo_rd [1, 2] rt_demo = Some (r, s') \<and> sc_current s' = r \<and>
    (case r of
       None \<Rightarrow> \<forall>k. \<not> eligible rt_demo None k
     | Some pid \<Rightarrow> eligible rt_demo None pid \<and>
         map_option pr_state (sc_processes s' pid) = Some Running \<and>
         (\<forall>k. eligible rt_demo None k \<longrightarrow>
            rt_remaining rt_demo (rd_wall demo_rd 0) pid \<le> rt_remaining rt_demo (rd_wall demo_rd 0) k)))"
proof -
  have "sc_mode rt_demo = RealTime" "iteration_of [1, 2] (sc_processes rt_demo)"
    by (auto simp: rt_demo_simps iteration_of_def split: if_splits)
  with schedule_rt_deadline[OF this, of demo_rd] show ?thesis by blast
qed

subsection \<open>Kills and recoveries\<close>

text \<open>
  What a kill of a live process of a well-formed scheduler does: it returns the process in state
  \<open>Terminated\<close>, gives its memory quota back in full and exactly, removes it from the table, from
  every ready queue, from the snapshots, the threads and the pending faults, and stops it being
  current.  It leaves every other process as it was, and also the time stamps, the deadlines and
  the member lists of the groups, where the identifier of the killed process survives.
\<close>

lemma kill_process_releases:
  assumes wf: "sched_wf s" and p: "sc_processes s pid = Some p"
  shows "\<exists>s'. kill_process pid s = (Ok (p\<lparr>pr_state := Terminated\<rparr>), s') \<and>
    unat (sc_used_ram_mb s') + unat (pr_ram_quota_mb p) = unat (sc_used_ram_mb s) \<and>
    sc_processes s' = (sc_processes s)(pid := None) \<and>
    (\<forall>prio. pid \<notin> set (queued s' prio)) \<and>
    sc_snapshots s' pid = None \<and> sc_real_threads s' pid = None \<and>
    \<not> has_pending_fault pid s' \<and> sc_current s' \<noteq> Some pid \<and>
    sc_last_scheduled_ms s' = sc_last_scheduled_ms s \<and> sc_rt_deadlines s' = sc_rt_deadlines s \<and>
    sc_groups s' = sc_groups s"
proof -
  obtain s' where k: "kill_process pid s = (Ok (p\<lparr>pr_state := Terminated\<rparr>), s')"
    and e: "sc_processes s' = (sc_processes s)(pid := None)"
      "sc_used_ram_mb s' = sat_sub (sc_used_ram_mb s) (pr_ram_quota_mb p)"
      "sc_snapshots s' pid = None" "sc_real_threads s' pid = None"
      "\<not> has_pending_fault pid s'" "sc_current s' \<noteq> Some pid"
      "sc_last_scheduled_ms s' = sc_last_scheduled_ms s" "sc_rt_deadlines s' = sc_rt_deadlines s"
      "sc_groups s' = sc_groups s"
    using p by (auto simp: kill_process_def Let_def has_pending_fault_def)
  have "sched_wf s'" using wf_kill_process[OF wf, of pid] k by simp
  then have q: "pid \<notin> set (queued s' prio)" for prio by (simp add: sched_wf_def e)
  have fin: "finite (dom (sc_processes s))" using wf by (simp add: sched_wf_def)
  have "unat (pr_ram_quota_mb p) \<le> unat (sc_used_ram_mb s)"
    using wf ram_sum_remove[OF fin p] by (simp add: sched_wf_def)
  with k e q show ?thesis by (auto simp: unat_sat_sub)
qed

subsection \<open>Runs that depart from the documented behaviour\<close>

text \<open>
  The memory check of a spawn adds in 64 bits: a quota close to \<open>2 ^ 64\<close> wraps the sum around,
  passes the check, and lowers the account instead of raising it.
\<close>

lemma spawn_quota_wraps:
  "\<exists>s'. spawn_process 7 ''big'' Normal (- 100) demo2 = (Ok 3, s') \<and>
     sc_used_ram_mb demo2 = 500 \<and> sc_total_ram_mb demo2 = 1000 \<and> sc_used_ram_mb s' = 400"
  by (simp add: demo_simps)

text \<open>
  A rollback restores the priority of the snapshot but leaves the process in the queue of the
  priority it had in between.
\<close>

definition rolled_back :: scheduler where
  "rolled_back = snd (resolve_fault 2 Rollback (snd (set_priority 2 High
     (snd (poll_faults (\<lambda>_. 9) [2] (thread_step 2 (Some ''boom'') demo2))))))"

lemma rollback_leaves_queue:
  "map_option pr_priority (sc_processes rolled_back 2) = Some Low \<and>
   queued rolled_back Low = [] \<and> 2 \<in> set (queued rolled_back High)"
  by (simp add: rolled_back_def resolve_fault_def set_priority_def poll_faults_def thread_step_def
      thread_body_def take_panics_def map_filter_def raise_fault_def has_pending_fault_def queued_def
      queue_remove_def update_entry_def fault_for_def fault_info_new_def snapshot_restore_to_def demo_simps)

text \<open>
  When a time slice has ended, \<open>tick\<close> makes the current process ready (or starts it) whatever
  its state is; a group suspension or a crash report does not clear the current process, so the
  next \<open>tick\<close> undoes it.
\<close>

lemma tick_requeues_current:
  assumes "sc_current s = Some c" "sc_timer s = Some t" "quota_exceeded m0 t"
    and "sc_processes s c = Some p" "sc_mode s = NormalMode" "tick m0 m1 rd order s = Some (r, s')"
  shows "\<exists>p'. sc_processes s' c = Some p' \<and> pr_state p' \<in> {Ready, Running}"
proof -
  let ?s = "(modify_process c (charge (elapsed_ms m1 t)) s)\<lparr>sc_current := None, sc_timer := None\<rparr>"
  have n: "schedule_next rd order ?s = Some (r, s')"
    using assms by (simp add: tick_def)
  have pe: "preempt_expired rd ?s = ?s" by (simp add: preempt_expired_def)
  show ?thesis
    using n assms(4,5)
    by (auto simp: schedule_next_normal Let_def pe dispatch_eq update_entry_apply
        split: option.splits if_splits)
qed

text \<open>
  In real-time mode a scheduling call that finds no ready process drops the running one without
  making it ready: a process that is alone stays \<open>Running\<close> and is never started again.
\<close>

lemma rt_lone_process_lost:
  assumes "sc_mode s = RealTime" "sc_processes s = [c \<mapsto> p]" "pr_state p = Running"
  shows "\<exists>s'. schedule_next rd [c] s = Some (None, s') \<and> sc_processes s' = sc_processes s \<and>
    sc_current s' = None \<and> schedule_next rd' [c] s' = Some (None, s')"
  using assms by (simp add: schedule_next_def schedule_next_rt_def)

text \<open>
  Reaping finished threads before polling for faults drops the panic message of a crashed
  payload: the process is ready again and no fault is ever raised for it.
\<close>

lemma reaped_panic_lost:
  assumes "sc_real_threads s pid = Some rt" "\<not> rt_finished rt" "\<not> rt_terminate rt" "\<not> rt_suspend rt"
    and "pid \<in> set order" "distinct order"
  shows "sc_real_threads (snd (check_real_threads order (thread_step pid (Some m) s))) pid = None \<and>
    sc_fault_queue (snd (check_real_threads order (thread_step pid (Some m) s))) = sc_fault_queue s"
proof -
  have fq: "sc_fault_queue (reap_threads pids u) = sc_fault_queue u" for pids u
    by (induction pids arbitrary: u) simp_all
  have none: "sc_real_threads (reap_threads pids u) k = None"
    if "k \<in> set pids \<or> sc_real_threads u k = None" for pids u k
    using that by (induction pids arbitrary: u) auto
  have "sc_real_threads (thread_step pid (Some m) s) pid = Some (rt\<lparr>rt_panic := Some m, rt_finished := True\<rparr>)"
    using assms by (simp add: thread_step_def update_entry_apply thread_body_def)
  then show ?thesis
    using assms(5) by (auto simp: check_real_threads_def Let_def fq thread_step_def intro!: none)
qed

text \<open>
  Whenever a ready process of base priority \<open>Critical\<close> exists besides the current one, the choice
  has base priority \<open>Critical\<close>, however long the others have waited: two processes of that
  priority that stay ready keep every other process from running.
\<close>

lemma select_append:
  "select rd s skip (xs @ ys) cand = Option.bind (select rd s skip xs cand) (select rd s skip ys)"
  by (induction xs arbitrary: cand) (simp_all split: option.split)

lemma select_keeps_Critical:
  assumes "sc_aging_threshold_ms s \<noteq> 0"
  shows "select rd s skip pps (Some (Critical, 5, pid)) = Some (Some (Critical, 5, pid))"
proof (induction pps)
  case (Cons pp pps)
  have "\<not> Critical < x" for x by (simp add: not_less)
  moreover have "\<not> (5::u32) < priority_weight x" for x by (cases x) (simp_all add: word_less_nat_alt)
  ultimately have "examine rd s skip pp (Some (Critical, 5, pid)) = Some (Some (Critical, 5, pid))"
    using assms by (auto simp: examine_def effective_total Let_def split: prod.split option.split)
  with Cons.IH show ?case by simp
qed simp

lemma from_u8_top: "4 \<le> unat v \<Longrightarrow> priority_from_u8 v = Critical"
  by (auto simp: priority_from_u8.simps)

lemma aged_base_Critical:
  assumes "sc_aging_threshold_ms s \<noteq> 0"
  shows "aged rd s Critical pid = Critical"
proof -
  have "priority_from_u8 (4 + ucast (min w (4::u64))) = Critical" for w :: u64
  proof -
    have "min w 4 \<le> 4" by (rule min.cobounded2)
    then have "unat (min w (4::u64)) \<le> 4" by (simp only: word_le_nat_alt) simp
    then have "unat (ucast (min w (4::u64)) :: u8) \<le> 4"
      by (simp add: unsigned_ucast_eq unsigned_take_bit_eq take_bit_nat_eq_self)
    then have "4 \<le> unat (4 + ucast (min w (4::u64)) :: u8)"
      by (subst unat_add_no_wrap) simp_all
    then show ?thesis by (rule from_u8_top)
  qed
  with assms show ?thesis
    by (simp add: aged_def effective_priority_def Let_def split: option.split)
qed

lemma critical_shadows_aging:
  assumes wf: "sched_wf s" and a: "sc_aging_threshold_ms s \<noteq> 0"
    and el: "eligible s skip k" "map_option pr_priority (sc_processes s k) = Some Critical"
  shows "\<exists>pid w. select rd s skip (visit_order s) None = Some (Some (Critical, w, pid)) \<and>
    map_option pr_priority (sc_processes s pid) = Some Critical"
proof -
  let ?r = "\<lambda>prio. case sc_rr_positions s prio of None \<Rightarrow> 0 | Some r \<Rightarrow> r"
  let ?xs = "map (Pair Critical) (rr_order (?r Critical) (queued s Critical))"
  have "\<exists>ys. visit_order s = ?xs @ ys"
    by (auto simp: visit_order_def queued_def rr_order_def split: option.split)
  then obtain ys where v: "visit_order s = ?xs @ ys" by blast
  have xs: "(prio, pid) \<in> set ?xs \<longleftrightarrow> prio = Critical \<and> pid \<in> set (queued s Critical)" for prio pid
    by (auto simp: set_rr_order)
  have k: "(Critical, k) \<in> set ?xs" using wf el(2) unfolding xs by (auto simp: sched_wf_def)
  have "cand_ok rd s skip {} None" by (simp add: cand_ok_def)
  from select_ok[OF divides_by_zero_threshold[OF a] this, of ?xs] obtain c where
    c: "select rd s skip ?xs None = Some c" "cand_ok rd s skip (set ?xs) c" by auto
  obtain eff w pid where cc: "c = Some (eff, w, pid)"
    using c(2) k el(1) by (cases c) (auto simp: cand_ok_def)
  have p: "(Critical, pid) \<in> set ?xs" and e: "eff = Critical" "w = 5"
    using c(2) cc xs by (auto simp: cand_ok_def aged_base_Critical[OF a])
  have "map_option pr_priority (sc_processes s pid) = Some Critical"
    using wf p unfolding xs by (auto simp: sched_wf_def)
  then show ?thesis
    using c(1) cc e select_keeps_Critical[OF a] by (simp add: v select_append)
qed

end
