(* ===== verification/Version.thy ===== *)
theory Version
  imports Prelude
begin

text \<open>
  Semantic versions (\<open>aios-block-mgr/src/version.rs\<close>) and the text functions of the standard
  library they use: \<open>str::split\<close>, \<open>trim_start_matches\<close> and \<open>u32::from_str\<close>.
\<close>

subsection \<open>Splitting and numbers\<close>

fun split_on :: "char \<Rightarrow> string \<Rightarrow> string list" where
  "split_on c [] = [[]]"
| "split_on c (x # xs) =
     (if x = c then [] # split_on c xs
      else case split_on c xs of [] \<Rightarrow> [[x]] | p # ps \<Rightarrow> (x # p) # ps)"

fun trim_start_matches :: "char \<Rightarrow> string \<Rightarrow> string" where
  "trim_start_matches c [] = []"
| "trim_start_matches c (x # xs) = (if x = c then trim_start_matches c xs else x # xs)"

definition is_digit_char :: "char \<Rightarrow> bool" where
  "is_digit_char c \<longleftrightarrow> 48 \<le> (of_char c :: nat) \<and> (of_char c :: nat) \<le> 57"

definition digits_value :: "string \<Rightarrow> nat" where
  "digits_value s = foldl (\<lambda>v c. v * 10 + (of_char c - 48)) 0 s"

text \<open>\<open>u32::from_str\<close>: one optional plus sign, then at least one digit, below \<open>2 ^ 32\<close>.\<close>

definition parse_u32 :: "string \<Rightarrow> u32 option" where
  "parse_u32 s =
     (let ds = (case s of c # cs \<Rightarrow> if c = CHR ''+'' then cs else s | [] \<Rightarrow> []) in
      if ds = [] \<or> \<not> list_all is_digit_char ds then None
      else let v = digits_value ds in if v < 2 ^ 32 then Some (of_nat v) else None)"

lemma split_on_nonempty [simp]: "split_on c s \<noteq> []"
  by (induction s) (auto split: list.split)

lemma split_on_append:
  "c \<notin> set p \<Longrightarrow> split_on c (p @ c # s) = p # split_on c s"
  by (induction p) auto

lemma split_on_last: "c \<notin> set p \<Longrightarrow> split_on c p = [p]"
  by (induction p) auto

lemma of_char_digit: "d < 10 \<Longrightarrow> (of_char (digit_char d) :: nat) = 48 + d"
  by (simp add: digit_char_def)

lemma is_digit_digit: "d < 10 \<Longrightarrow> is_digit_char (digit_char d)"
  by (simp add: is_digit_char_def of_char_digit)

lemma dec_digits: "list_all is_digit_char (dec n)"
proof (induction n rule: dec.induct)
  case (1 n)
  then show ?case
    by (subst dec.simps) (simp add: is_digit_digit)
qed

lemma dec_nonempty [simp]: "dec n \<noteq> []"
  by (subst dec.simps) simp

lemma digits_value_dec: "digits_value (dec n) = n"
proof (induction n rule: dec.induct)
  case (1 n)
  then show ?case
    by (subst dec.simps) (auto simp: digits_value_def of_char_digit)
qed

lemma digit_not: "is_digit_char c \<Longrightarrow> c \<noteq> CHR ''+'' \<and> c \<noteq> CHR ''.'' \<and> c \<noteq> CHR ''v''"
  by (auto simp: is_digit_char_def)

lemma dec_chars: "c \<in> set (dec n) \<Longrightarrow> c \<noteq> CHR ''+'' \<and> c \<noteq> CHR ''.'' \<and> c \<noteq> CHR ''v''"
  using dec_digits[of n] by (auto simp: list_all_iff dest: digit_not)

lemma dec_no_dot: "CHR ''.'' \<notin> set (dec n)"
  using dec_chars by blast

lemma dec_hd:
  obtains c cs where "dec n = c # cs" "c \<noteq> CHR ''+''" "c \<noteq> CHR ''v''"
proof (cases "dec n")
  case (Cons c cs)
  with dec_chars[of c n] that show ?thesis by simp
qed simp

lemma parse_dec [simp]:
  fixes w :: u32
  shows "parse_u32 (dec_word w) = Some w"
proof -
  obtain c cs where d: "dec_word w = c # cs" "c \<noteq> CHR ''+''" by (rule dec_hd)
  have "parse_u32 (c # cs) = Some (of_nat (digits_value (c # cs)))"
    using dec_digits[of "unat w"] digits_value_dec[of "unat w"] unat_32_less[of w] d
    by (simp add: parse_u32_def Let_def)
  then show ?thesis using digits_value_dec[of "unat w"] d(1) by simp
qed

subsection \<open>Versions\<close>

datatype SemanticVersion = SemanticVersion (major: u32) (minor: u32) (patch: u32)

datatype VersionParseError = InvalidFormat string

fun show_version_error :: "VersionParseError \<Rightarrow> string" where
  "show_version_error (InvalidFormat s) = ''Invalid version format: '' @ [CHR 0x27] @ s @ [CHR 0x27]"

definition version_parse :: "string \<Rightarrow> VersionParseError + SemanticVersion" where
  "version_parse version =
     (let v = trim_start_matches (CHR ''v'') version; parts = split_on (CHR ''.'') v in
      if length parts \<noteq> 3 then Err (InvalidFormat version)
      else case parse_u32 (parts ! 0) of
          None \<Rightarrow> Err (InvalidFormat version)
        | Some maj \<Rightarrow>
            (case parse_u32 (parts ! 1) of
               None \<Rightarrow> Err (InvalidFormat version)
             | Some mi \<Rightarrow>
                 (case parse_u32 (parts ! 2) of
                    None \<Rightarrow> Err (InvalidFormat version)
                  | Some pat \<Rightarrow> Ok (SemanticVersion maj mi pat))))"

fun is_compatible_with :: "SemanticVersion \<Rightarrow> SemanticVersion \<Rightarrow> bool" where
  "is_compatible_with (SemanticVersion a b c) (SemanticVersion a' b' c') \<longleftrightarrow> a = a' \<and> b' \<le> b"

fun bump_major :: "SemanticVersion \<Rightarrow> SemanticVersion" where
  "bump_major (SemanticVersion a b c) = SemanticVersion (a + 1) 0 0"

fun bump_minor :: "SemanticVersion \<Rightarrow> SemanticVersion" where
  "bump_minor (SemanticVersion a b c) = SemanticVersion a (b + 1) 0"

fun bump_patch :: "SemanticVersion \<Rightarrow> SemanticVersion" where
  "bump_patch (SemanticVersion a b c) = SemanticVersion a b (c + 1)"

fun show_version :: "SemanticVersion \<Rightarrow> string" where
  "show_version (SemanticVersion a b c) = dec_word a @ ''.'' @ dec_word b @ ''.'' @ dec_word c"

text \<open>\<open>impl Ord\<close>: the comparisons of the three numbers, chained with \<open>then\<close>.\<close>

definition version_less :: "SemanticVersion \<Rightarrow> SemanticVersion \<Rightarrow> bool" where
  "version_less v w \<longleftrightarrow> major v < major w \<or> (major v = major w \<and>
     (minor v < minor w \<or> (minor v = minor w \<and> patch v < patch w)))"

instantiation SemanticVersion :: linorder
begin

definition less_SemanticVersion :: "SemanticVersion \<Rightarrow> SemanticVersion \<Rightarrow> bool" where
  "less_SemanticVersion v w \<longleftrightarrow> version_less v w"

definition less_eq_SemanticVersion :: "SemanticVersion \<Rightarrow> SemanticVersion \<Rightarrow> bool" where
  "less_eq_SemanticVersion v w \<longleftrightarrow> v < w \<or> v = w"

instance
proof
  fix v w u :: SemanticVersion
  show "(v < w) = (v \<le> w \<and> \<not> w \<le> v)"
    by (auto simp: less_eq_SemanticVersion_def less_SemanticVersion_def version_less_def)
  show "v \<le> v" by (simp add: less_eq_SemanticVersion_def)
  show "v \<le> w \<Longrightarrow> w \<le> u \<Longrightarrow> v \<le> u"
    by (auto simp: less_eq_SemanticVersion_def less_SemanticVersion_def version_less_def)
  show "v \<le> w \<Longrightarrow> w \<le> v \<Longrightarrow> v = w"
    by (auto simp: less_eq_SemanticVersion_def less_SemanticVersion_def version_less_def)
  show "v \<le> w \<or> w \<le> v"
    by (cases v; cases w) (auto simp: less_eq_SemanticVersion_def less_SemanticVersion_def version_less_def)
qed

end

definition is_newer_than :: "SemanticVersion \<Rightarrow> SemanticVersion \<Rightarrow> bool" where
  "is_newer_than v w \<longleftrightarrow> w < v"

text \<open>
  C38: Printing a version and parsing the text gives the version back, with or without
  leading \<open>v\<close> characters, for every version.
\<close>

theorem version_roundtrip: "version_parse (replicate n (CHR ''v'') @ show_version ver) = Ok ver"
proof -
  obtain a b c where v: "ver = SemanticVersion a b c" by (cases ver)
  obtain x xs where d: "dec_word a = x # xs" "x \<noteq> CHR ''v''" by (rule dec_hd)
  have t: "trim_start_matches (CHR ''v'') (replicate n (CHR ''v'') @ show_version ver) = show_version ver"
    by (induction n) (simp_all add: v d)
  have "split_on (CHR ''.'') (show_version ver) = [dec_word a, dec_word b, dec_word c]"
    by (simp add: v split_on_append split_on_last dec_no_dot)
  with t v show ?thesis by (simp add: version_parse_def Let_def)
qed

text \<open>
   Bumping a version gives a newer one, and one that is compatible with the old
  version exactly for the minor and the patch number, unless the bumped number is at its
  maximum and wraps around.
\<close>

theorem version_bumps_newer:
  assumes "major v \<noteq> - 1" "minor v \<noteq> - 1" "patch v \<noteq> - 1"
  shows "is_newer_than (bump_major v) v \<and> is_newer_than (bump_minor v) v \<and> is_newer_than (bump_patch v) v \<and>
    is_compatible_with (bump_minor v) v \<and> is_compatible_with (bump_patch v) v \<and>
    \<not> is_compatible_with (bump_major v) v"
proof -
  have lt: "x < x + 1" if "x \<noteq> - 1" for x :: u32
  proof -
    have "unat x \<noteq> unat (- 1 :: u32)" using that by (simp add: word_unat_eq_iff)
    then have "unat x + unat (1 :: u32) < 2 ^ 32"
      using unat_32_less[of x] by (simp add: unsigned_minus_1_eq_mask mask_eq_exp_minus_1)
    then have "unat (x + 1) = unat x + 1" using unat_add_no_wrap[of x 1] by simp
    then show ?thesis by (simp add: word_less_nat_alt)
  qed
  show ?thesis
    using assms lt by (cases v) (auto simp: is_newer_than_def less_SemanticVersion_def version_less_def order_less_imp_le)
qed

theorem version_bumps_newer_witness:
  "version_parse ''v1.2.3'' = Ok (SemanticVersion 1 2 3) \<and>
   is_newer_than (bump_major (SemanticVersion 1 2 3)) (SemanticVersion 1 2 3)"
proof -
  have "version_parse ''v1.2.3'' = Ok (SemanticVersion 1 2 3)"
    by (simp add: version_parse_def parse_u32_def is_digit_char_def digits_value_def)
  with version_bumps_newer[of "SemanticVersion 1 2 3"] show ?thesis by simp
qed

end
