(* ===== verification/Capability.thy ===== *)
theory Capability
  imports Prelude "HOL-Library.Sublist"
begin

text \<open>
  Capability tokens (\<open>aios-security/src/capability.rs\<close>) and the access-control layer that
  issues, revokes and checks them (\<open>aios-security/src/access_control.rs\<close>).  SHA-256 is the
  argument \<open>sha\<close>; the clock readings are arguments.
\<close>

subsection \<open>Capabilities and tokens\<close>

datatype Capability =
    NetBind | NetConnect | NetListen | FsRead | FsWrite | FsDelete | HwAccess | MemAlloc | MemShare
  | SchedModify | BlockLoad | BlockUnload | ProcessSpawn | ProcessKill | SystemConfig | CapAll

fun cap_name :: "Capability \<Rightarrow> string" where
  "cap_name NetBind = ''CAP_NET_BIND''"
| "cap_name NetConnect = ''CAP_NET_CONNECT''"
| "cap_name NetListen = ''CAP_NET_LISTEN''"
| "cap_name FsRead = ''CAP_FS_READ''"
| "cap_name FsWrite = ''CAP_FS_WRITE''"
| "cap_name FsDelete = ''CAP_FS_DELETE''"
| "cap_name HwAccess = ''CAP_HW_ACCESS''"
| "cap_name MemAlloc = ''CAP_MEM_ALLOC''"
| "cap_name MemShare = ''CAP_MEM_SHARE''"
| "cap_name SchedModify = ''CAP_SCHED_MODIFY''"
| "cap_name BlockLoad = ''CAP_BLOCK_LOAD''"
| "cap_name BlockUnload = ''CAP_BLOCK_UNLOAD''"
| "cap_name ProcessSpawn = ''CAP_PROCESS_SPAWN''"
| "cap_name ProcessKill = ''CAP_PROCESS_KILL''"
| "cap_name SystemConfig = ''CAP_SYSTEM_CONFIG''"
| "cap_name CapAll = ''CAP_ALL''"

fun cap_description :: "Capability \<Rightarrow> string" where
  "cap_description NetBind = ''Bind to network ports''"
| "cap_description NetConnect = ''Initiate outbound connections''"
| "cap_description NetListen = ''Listen for incoming connections''"
| "cap_description FsRead = ''Read files from filesystem''"
| "cap_description FsWrite = ''Write files to filesystem''"
| "cap_description FsDelete = ''Delete files from filesystem''"
| "cap_description HwAccess = ''Access hardware directly''"
| "cap_description MemAlloc = ''Allocate system memory''"
| "cap_description MemShare = ''Share memory between blocks''"
| "cap_description SchedModify = ''Modify process scheduling''"
| "cap_description BlockLoad = ''Load new blocks into the system''"
| "cap_description BlockUnload = ''Unload blocks from the system''"
| "cap_description ProcessSpawn = ''Spawn new processes''"
| "cap_description ProcessKill = ''Terminate processes''"
| "cap_description SystemConfig = ''Modify system configuration''"
| "cap_description CapAll = ''Unrestricted access to all capabilities''"

definition all_variants :: "Capability list" where
  "all_variants = [NetBind, NetConnect, NetListen, FsRead, FsWrite, FsDelete, HwAccess, MemAlloc,
     MemShare, SchedModify, BlockLoad, BlockUnload, ProcessSpawn, ProcessKill, SystemConfig]"

record capability_token =
  ct_block_id :: u32
  ct_capabilities :: "Capability list"
  ct_issued_at_ms :: u64
  ct_expires_at_ms :: u64
  ct_issuer_signature :: bytes

text \<open>\<open>to_le_bytes\<close>: the least significant byte first.\<close>

definition le_bytes :: "nat \<Rightarrow> nat \<Rightarrow> bytes" where
  "le_bytes n v = map (\<lambda>i. of_nat (v div 256 ^ i)) [0..<n]"

definition string_bytes :: "string \<Rightarrow> bytes" where
  "string_bytes s = map (\<lambda>c. of_nat (of_char c)) s"

definition signed_message :: "bytes \<Rightarrow> u32 \<Rightarrow> Capability list \<Rightarrow> u64 \<Rightarrow> u64 \<Rightarrow> bytes" where
  "signed_message secret block_id capabilities issued_at_ms expires_at_ms =
     secret @ le_bytes 4 (unat block_id) @ concat (map (string_bytes \<circ> cap_name) capabilities) @
     le_bytes 8 (unat issued_at_ms) @ le_bytes 8 (unat expires_at_ms)"

definition compute_signature :: "(bytes \<Rightarrow> bytes) \<Rightarrow> u32 \<Rightarrow> Capability list \<Rightarrow> u64 \<Rightarrow> u64 \<Rightarrow> bytes \<Rightarrow> bytes" where
  "compute_signature sha block_id capabilities issued_at_ms expires_at_ms secret =
     sha (signed_message secret block_id capabilities issued_at_ms expires_at_ms)"

definition token_new :: "(bytes \<Rightarrow> bytes) \<Rightarrow> u64 \<Rightarrow> u32 \<Rightarrow> Capability list \<Rightarrow> u64 \<Rightarrow> bytes \<Rightarrow> capability_token" where
  "token_new sha now block_id capabilities ttl_ms issuer_secret =
     (let issued_at_ms = now; expires_at_ms = issued_at_ms + ttl_ms in
      \<lparr>ct_block_id = block_id, ct_capabilities = capabilities, ct_issued_at_ms = issued_at_ms,
       ct_expires_at_ms = expires_at_ms,
       ct_issuer_signature =
         compute_signature sha block_id capabilities issued_at_ms expires_at_ms issuer_secret\<rparr>)"

definition has_capability :: "capability_token \<Rightarrow> Capability \<Rightarrow> bool" where
  "has_capability t cap \<longleftrightarrow> cap \<in> set (ct_capabilities t) \<or> CapAll \<in> set (ct_capabilities t)"

definition is_expired :: "u64 \<Rightarrow> capability_token \<Rightarrow> bool" where
  "is_expired now t \<longleftrightarrow> ct_expires_at_ms t < now"

definition token_remaining_ms :: "u64 \<Rightarrow> capability_token \<Rightarrow> u64" where
  "token_remaining_ms now t = sat_sub (ct_expires_at_ms t) now"

definition token_verify :: "(bytes \<Rightarrow> bytes) \<Rightarrow> capability_token \<Rightarrow> bytes \<Rightarrow> bool" where
  "token_verify sha t issuer_secret \<longleftrightarrow>
     ct_issuer_signature t =
       compute_signature sha (ct_block_id t) (ct_capabilities t) (ct_issued_at_ms t)
         (ct_expires_at_ms t) issuer_secret"

subsection \<open>The access-control layer\<close>

record violation =
  vi_block_id :: u32
  vi_requested_capability :: Capability
  vi_timestamp_ms :: u64
  vi_details :: string

record access_control =
  ac_tokens :: "u32 \<rightharpoonup> capability_token"
  ac_violations :: "violation list"
  ac_issuer_secret :: bytes
  ac_default_ttl_ms :: u64

definition acl_new :: "bytes \<Rightarrow> u64 \<Rightarrow> access_control" where
  "acl_new issuer_secret default_ttl_ms =
     \<lparr>ac_tokens = Map.empty, ac_violations = [], ac_issuer_secret = issuer_secret,
      ac_default_ttl_ms = default_ttl_ms\<rparr>"

definition issue_token_with_ttl :: "(bytes \<Rightarrow> bytes) \<Rightarrow> u64 \<Rightarrow> u32 \<Rightarrow> Capability list \<Rightarrow> u64 \<Rightarrow>
    access_control \<Rightarrow> capability_token \<times> access_control" where
  "issue_token_with_ttl sha now block_id capabilities ttl_ms acl =
     (let token = token_new sha now block_id capabilities ttl_ms (ac_issuer_secret acl)
      in (token, acl\<lparr>ac_tokens := (ac_tokens acl)(block_id \<mapsto> token)\<rparr>))"

definition issue_token :: "(bytes \<Rightarrow> bytes) \<Rightarrow> u64 \<Rightarrow> u32 \<Rightarrow> Capability list \<Rightarrow>
    access_control \<Rightarrow> capability_token \<times> access_control" where
  "issue_token sha now block_id capabilities acl =
     (let token = token_new sha now block_id capabilities (ac_default_ttl_ms acl) (ac_issuer_secret acl)
      in (token, acl\<lparr>ac_tokens := (ac_tokens acl)(block_id \<mapsto> token)\<rparr>))"

definition revoke_token :: "u32 \<Rightarrow> access_control \<Rightarrow> bool \<times> access_control" where
  "revoke_token block_id acl =
     (ac_tokens acl block_id \<noteq> None, acl\<lparr>ac_tokens := (ac_tokens acl)(block_id := None)\<rparr>)"

definition check_permission :: "u64 \<Rightarrow> u32 \<Rightarrow> Capability \<Rightarrow> access_control \<Rightarrow> unit result" where
  "check_permission now block_id required acl =
     (case ac_tokens acl block_id of
        None \<Rightarrow> Err (PermissionDenied (''No token issued for block '' @ dec_word block_id))
      | Some token \<Rightarrow>
          if is_expired now token
          then Err (PermissionDenied (''Token for block '' @ dec_word block_id @ '' has expired''))
          else if \<not> has_capability token required
          then Err (PermissionDenied (''Block '' @ dec_word block_id @ '' lacks capability '' @ cap_name required))
          else Ok ())"

definition try_check_permission :: "u64 \<Rightarrow> u64 \<Rightarrow> u32 \<Rightarrow> Capability \<Rightarrow> access_control \<Rightarrow> bool \<times> access_control" where
  "try_check_permission now now' block_id required acl =
     (case check_permission now block_id required acl of
        Ok _ \<Rightarrow> (True, acl)
      | Err _ \<Rightarrow> (False, acl\<lparr>ac_violations := ac_violations acl @
          [\<lparr>vi_block_id = block_id, vi_requested_capability = required, vi_timestamp_ms = now',
            vi_details = ''Unauthorized access to '' @ cap_name required\<rparr>]\<rparr>))"

text \<open>\<open>now\<close> gives the clock reading taken while a token is examined.\<close>

definition clean_expired :: "(u32 \<Rightarrow> u64) \<Rightarrow> access_control \<Rightarrow> nat \<times> access_control" where
  "clean_expired now acl =
     (let tokens = (\<lambda>k. case ac_tokens acl k of
            None \<Rightarrow> None
          | Some t \<Rightarrow> if is_expired (now k) t then None else Some t)
      in (map_len (ac_tokens acl) - map_len tokens, acl\<lparr>ac_tokens := tokens\<rparr>))"

subsection \<open>What a signature covers\<close>

lemma le_bytes_Suc: "le_bytes (Suc n) v = of_nat v # le_bytes n (v div 256)"
  by (simp add: le_bytes_def upt_conv_Cons map_Suc_upt[symmetric] div_mult2_eq comp_def
      del: upt_Suc map_Suc_upt)

lemma length_le_bytes [simp]: "length (le_bytes n v) = n"
  by (simp add: le_bytes_def)

lemma byte_eq_mod:
  assumes "(of_nat v :: u8) = of_nat w"
  shows "v mod 256 = w mod 256"
  using arg_cong[OF assms, of unat] by (simp add: unat_of_nat)

lemma le_bytes_inj:
  "v < 256 ^ n \<Longrightarrow> w < 256 ^ n \<Longrightarrow> le_bytes n v = le_bytes n w \<Longrightarrow> v = w"
proof (induction n arbitrary: v w)
  case (Suc n)
  have "v div 256 = w div 256"
    using Suc.prems by (intro Suc.IH) (simp_all add: le_bytes_Suc less_mult_imp_div_less mult.commute)
  moreover have "v mod 256 = w mod 256"
    using Suc.prems(3) by (intro byte_eq_mod) (simp add: le_bytes_Suc)
  ultimately show ?case by (metis div_mult_mod_eq)
qed simp

lemma string_bytes_inj: "string_bytes s = string_bytes r \<Longrightarrow> s = r"
proof (rule map_inj_on[of "\<lambda>c. of_nat (of_char c) :: u8"])
  show "inj_on (\<lambda>c. of_nat (of_char c) :: u8) (set s \<union> set r)"
  proof (rule inj_onI)
    fix c d :: char
    assume "(of_nat (of_char c) :: u8) = of_nat (of_char d)"
    from byte_eq_mod[OF this] show "c = d" by (metis of_char_mod_256 of_char_eq_iff)
  qed
qed (simp add: string_bytes_def)

lemma cap_name_prefix_free: "prefix (cap_name c) (cap_name d) \<Longrightarrow> c = d"
  by (cases c; cases d) simp_all

lemma cap_name_nonempty: "cap_name c \<noteq> []"
  by (cases c) simp_all

lemma concat_prefix_free:
  assumes pf: "\<And>c d. prefix (f c) (f d) \<Longrightarrow> c = d" and ne: "\<And>c. f c \<noteq> []"
  shows "concat (map f xs) = concat (map f ys) \<Longrightarrow> xs = ys"
proof (induction xs arbitrary: ys)
  case Nil
  then show ?case using ne by (cases ys) auto
next
  case (Cons x xs)
  then obtain y ys' where ys: "ys = y # ys'" using ne[of x] by (cases ys) auto
  then have e: "f x @ concat (map f xs) = f y @ concat (map f ys')" using Cons.prems by simp
  then have "prefix (f x) (f y) \<or> prefix (f y) (f x)"
    by (metis prefixI prefix_same_cases)
  then have "x = y" using pf by blast
  with e Cons.IH ys show ?case by simp
qed

lemma concat_names_inj:
  assumes "concat (map (string_bytes \<circ> cap_name) xs) = concat (map (string_bytes \<circ> cap_name) ys)"
  shows "xs = ys"
proof -
  have "string_bytes (concat (map cap_name xs)) = string_bytes (concat (map cap_name ys))"
    using assms by (simp add: string_bytes_def map_concat comp_def)
  then have "concat (map cap_name xs) = concat (map cap_name ys)" by (rule string_bytes_inj)
  then show ?thesis
    using concat_prefix_free[of cap_name xs ys] cap_name_prefix_free cap_name_nonempty by blast
qed

lemma signed_message_inj:
  assumes "signed_message k b cs i e = signed_message k b' cs' i' e'"
  shows "b = b' \<and> cs = cs' \<and> i = i' \<and> e = e'"
proof -
  have "le_bytes 4 (unat b) = le_bytes 4 (unat b')" and
    cs: "concat (map (string_bytes \<circ> cap_name) cs) = concat (map (string_bytes \<circ> cap_name) cs')" and
    "le_bytes 8 (unat i) = le_bytes 8 (unat i')" "le_bytes 8 (unat e) = le_bytes 8 (unat e')"
    using assms by (simp_all add: signed_message_def append_eq_append_conv)
  then have "unat b = unat b'" "unat i = unat i'" "unat e = unat e'"
    using unat_32_less[of b] unat_32_less[of b'] unat_64_less[of i] unat_64_less[of i']
      unat_64_less[of e] unat_64_less[of e'] by (auto intro!: le_bytes_inj)
  with concat_names_inj[OF cs] show ?thesis by (simp add: word_unat_eq_iff)
qed

text \<open>
  C35: A token that was issued verifies under the issuer's secret, and the signature
  binds every field: two tokens that verify under the same secret with the same signature are
  equal, or they exhibit a collision of the hash function.  The capability names are
  concatenated without separators, but no name is a prefix of another, so the encoding of the
  capability list is unambiguous.
\<close>

theorem token_signature_binding:
  "token_verify sha (token_new sha now b cs ttl secret) secret \<and>
   (token_verify sha t secret \<and> token_verify sha t' secret \<and>
      ct_issuer_signature t = ct_issuer_signature t' \<longrightarrow>
    t = t' \<or> (\<exists>x y. x \<noteq> y \<and> sha x = sha y))"
proof -
  have "t = t'"
    if "signed_message secret (ct_block_id t) (ct_capabilities t) (ct_issued_at_ms t) (ct_expires_at_ms t) =
        signed_message secret (ct_block_id t') (ct_capabilities t') (ct_issued_at_ms t') (ct_expires_at_ms t')"
      "ct_issuer_signature t = ct_issuer_signature t'"
    using signed_message_inj[OF that(1)] that(2) by (cases t; cases t') simp
  then show ?thesis
    unfolding token_verify_def compute_signature_def token_new_def Let_def by auto metis
qed

theorem token_signature_binding_witness:
  "\<exists>t. t = token_new (\<lambda>x. x) 5 7 [FsRead] 100 [1, 2] \<and> token_verify (\<lambda>x. x) t [1, 2] \<and>
     \<not> token_verify (\<lambda>x. x) (t\<lparr>ct_capabilities := [CapAll]\<rparr>) [1, 2]"
proof -
  define t where "t = token_new (\<lambda>x. x) 5 7 [FsRead] 100 [1, 2]"
  define t' where "t' = t\<lparr>ct_capabilities := [CapAll]\<rparr>"
  have "ct_capabilities t \<noteq> ct_capabilities t'" by (simp add: t'_def t_def token_new_def Let_def)
  moreover have "ct_issuer_signature t = ct_issuer_signature t'" by (simp add: t'_def)
  moreover note token_signature_binding[of "\<lambda>x. x" 5 7 "[FsRead]" 100 "[1, 2]" t t', folded t_def]
  ultimately have "token_verify (\<lambda>x. x) t [1, 2] \<and> \<not> token_verify (\<lambda>x. x) t' [1, 2]" by blast
  then show ?thesis unfolding t'_def t_def by blast
qed

subsection \<open>Every grant goes back to an issue\<close>

datatype acl_op =
    AIssue u64 u32 "Capability list"
  | AIssueTtl u64 u32 "Capability list" u64
  | ARevoke u32
  | ATry u64 u64 u32 Capability
  | AClean "u32 \<Rightarrow> u64"

fun acl_exec :: "(bytes \<Rightarrow> bytes) \<Rightarrow> acl_op \<Rightarrow> access_control \<Rightarrow> access_control" where
  "acl_exec sha (AIssue now b cs) acl = snd (issue_token sha now b cs acl)"
| "acl_exec sha (AIssueTtl now b cs ttl) acl = snd (issue_token_with_ttl sha now b cs ttl acl)"
| "acl_exec sha (ARevoke b) acl = snd (revoke_token b acl)"
| "acl_exec sha (ATry now now' b c) acl = snd (try_check_permission now now' b c acl)"
| "acl_exec sha (AClean now) acl = snd (clean_expired now acl)"

definition acl_run :: "(bytes \<Rightarrow> bytes) \<Rightarrow> acl_op list \<Rightarrow> access_control \<Rightarrow> access_control" where
  "acl_run sha ops acl = fold (acl_exec sha) ops acl"

text \<open>The issue an operation makes (time, block, capabilities, lifetime), and its revocations.\<close>

fun issue_of :: "u64 \<Rightarrow> acl_op \<Rightarrow> (u64 \<times> u32 \<times> Capability list \<times> u64) option" where
  "issue_of dflt (AIssue now b cs) = Some (now, b, cs, dflt)"
| "issue_of dflt (AIssueTtl now b cs ttl) = Some (now, b, cs, ttl)"
| "issue_of dflt _ = None"

fun replaces :: "u32 \<Rightarrow> acl_op \<Rightarrow> bool" where
  "replaces b (AIssue _ b' _) = (b' = b)"
| "replaces b (AIssueTtl _ b' _ _) = (b' = b)"
| "replaces b (ARevoke b') = (b' = b)"
| "replaces b _ = False"

lemma acl_exec_fixed:
  "ac_issuer_secret (acl_exec sha op acl) = ac_issuer_secret acl"
  "ac_default_ttl_ms (acl_exec sha op acl) = ac_default_ttl_ms acl"
  by (cases op; simp add: issue_token_def issue_token_with_ttl_def revoke_token_def
      try_check_permission_def clean_expired_def Let_def split: sum.split)+

lemma acl_run_snoc: "acl_run sha (ops @ [op]) acl = acl_exec sha op (acl_run sha ops acl)"
  by (simp add: acl_run_def)

lemma acl_run_fixed:
  "ac_issuer_secret (acl_run sha ops acl) = ac_issuer_secret acl"
  "ac_default_ttl_ms (acl_run sha ops acl) = ac_default_ttl_ms acl"
  by (induction ops rule: rev_induct) (simp_all add: acl_run_snoc acl_exec_fixed, simp_all add: acl_run_def)

lemma acl_exec_token:
  assumes "ac_tokens (acl_exec sha op acl) b = Some tok"
  shows "(\<not> replaces b op \<and> ac_tokens acl b = Some tok) \<or>
    (\<exists>t cs life. issue_of (ac_default_ttl_ms acl) op = Some (t, b, cs, life) \<and>
       tok = token_new sha t b cs life (ac_issuer_secret acl))"
  using assms
  by (cases op) (auto simp: issue_token_def issue_token_with_ttl_def revoke_token_def
      try_check_permission_def clean_expired_def Let_def split: sum.splits option.splits if_splits)

lemma acl_run_token:
  assumes "ac_tokens (acl_run sha ops (acl_new secret dflt)) b = Some tok"
  shows "\<exists>pre op post t cs life. ops = pre @ op # post \<and> issue_of dflt op = Some (t, b, cs, life) \<and>
    tok = token_new sha t b cs life secret \<and> (\<forall>o'\<in>set post. \<not> replaces b o')"
  using assms
proof (induction ops rule: rev_induct)
  case Nil
  then show ?case by (simp add: acl_run_def acl_new_def)
next
  case (snoc op ops)
  let ?acl = "acl_run sha ops (acl_new secret dflt)"
  have d: "ac_default_ttl_ms ?acl = dflt" "ac_issuer_secret ?acl = secret"
    by (simp_all add: acl_run_fixed acl_new_def)
  from acl_exec_token[OF snoc.prems[unfolded acl_run_snoc], unfolded d]
  show ?case
  proof (elim disjE conjE exE)
    assume r: "\<not> replaces b op" and tok: "ac_tokens ?acl b = Some tok"
    from snoc.IH[OF tok] obtain pre op' post t cs life where
      "ops = pre @ op' # post" "issue_of dflt op' = Some (t, b, cs, life)"
      "tok = token_new sha t b cs life secret" "\<forall>o'\<in>set post. \<not> replaces b o'" by blast
    with r show ?case by (intro exI[of _ pre] exI[of _ op'] exI[of _ "post @ [op]"]) auto
  next
    fix t cs life
    assume "issue_of dflt op = Some (t, b, cs, life)" "tok = token_new sha t b cs life secret"
    then show ?case by (intro exI[of _ ops] exI[of _ op] exI[of _ "[]"]) auto
  qed
qed

text \<open>
  C34: In every run of the access-control layer, a permission check that succeeds goes
  back to an issue to that very block, of that capability or of \<open>All\<close>, which nothing has replaced
  or revoked since and whose lifetime has not passed.
\<close>

theorem grant_needs_issue:
  assumes "check_permission now b cap (acl_run sha ops (acl_new secret dflt)) = Ok ()"
  shows "\<exists>pre op post t cs life. ops = pre @ op # post \<and> issue_of dflt op = Some (t, b, cs, life) \<and>
    (cap \<in> set cs \<or> CapAll \<in> set cs) \<and> now \<le> t + life \<and> (\<forall>o'\<in>set post. \<not> replaces b o')"
proof -
  obtain tok where tok: "ac_tokens (acl_run sha ops (acl_new secret dflt)) b = Some tok"
    and ok: "\<not> is_expired now tok" "has_capability tok cap"
    using assms by (auto simp: check_permission_def split: option.splits if_splits)
  from acl_run_token[OF tok] obtain pre op post t cs life where
    r: "ops = pre @ op # post" "issue_of dflt op = Some (t, b, cs, life)"
    "tok = token_new sha t b cs life secret" "\<forall>o'\<in>set post. \<not> replaces b o'" by blast
  have "cap \<in> set cs \<or> CapAll \<in> set cs" "now \<le> t + life"
    using ok r(3) by (auto simp: token_new_def Let_def has_capability_def is_expired_def)
  with r show ?thesis by blast
qed

theorem grant_needs_issue_witness:
  "let ops = [AIssue 10 3 [FsRead], ATry 11 11 3 FsWrite, AIssueTtl 12 4 [CapAll] 5, ARevoke 4] in
   check_permission 20 3 FsRead (acl_run (\<lambda>x. x) ops (acl_new [9] 100)) = Ok () \<and>
   (\<exists>pre op post t cs life. ops = pre @ op # post \<and> issue_of 100 op = Some (t, 3, cs, life) \<and>
      (FsRead \<in> set cs \<or> CapAll \<in> set cs) \<and> 20 \<le> t + life \<and> (\<forall>o'\<in>set post. \<not> replaces 3 o'))"
proof -
  let ?ops = "[AIssue 10 3 [FsRead], ATry 11 11 3 FsWrite, AIssueTtl 12 4 [CapAll] 5, ARevoke 4]"
  have "check_permission 20 3 FsRead (acl_run (\<lambda>x. x) ?ops (acl_new [9] 100)) = Ok ()"
    by (simp add: acl_run_def acl_new_def issue_token_def issue_token_with_ttl_def revoke_token_def
        try_check_permission_def check_permission_def token_new_def is_expired_def has_capability_def
        Let_def word_less_nat_alt)
  with grant_needs_issue[OF this] show ?thesis unfolding Let_def by blast
qed

end
