(* ===== verification/Dependency.thy ===== *)
theory Dependency
  imports Prelude
begin

text \<open>
  The block dependency graph (\<open>aios-block-mgr/src/dependency.rs\<close>).  The recursion of the cycle
  check and the loop of the load order carry fuel; a run out of fuel is \<open>None\<close>, and the
  theorems show that one unit more than the number of blocks is enough.  Every iteration over a
  hash map takes its order as an argument.
\<close>

subsection \<open>The graph\<close>

datatype DependencyError = CircularDependency "string list" | DependencyNotFound string

fun join_arrow :: "string list \<Rightarrow> string" where
  "join_arrow [] = ''''"
| "join_arrow [x] = x"
| "join_arrow (x # y # zs) = x @ '' -> '' @ join_arrow (y # zs)"

fun show_dependency_error :: "DependencyError \<Rightarrow> string" where
  "show_dependency_error (CircularDependency chain) = ''Circular dependency detected: '' @ join_arrow chain"
| "show_dependency_error (DependencyNotFound name) = ''Block dependency not found: '' @ [CHR 0x27] @ name @ [CHR 0x27]"

type_synonym graph = "string \<rightharpoonup> string list"

definition graph_new :: graph where
  "graph_new = Map.empty"

definition add_block :: "graph \<Rightarrow> string \<Rightarrow> graph" where
  "add_block g name = or_insert g name []"

fun would_create_cycle :: "nat \<Rightarrow> graph \<Rightarrow> string \<Rightarrow> string \<Rightarrow> string set \<Rightarrow> (bool \<times> string set) option"
  and cycle_through :: "nat \<Rightarrow> graph \<Rightarrow> string \<Rightarrow> string list \<Rightarrow> string set \<Rightarrow> (bool \<times> string set) option"
where
  "would_create_cycle 0 g from to visited = None"
| "would_create_cycle (Suc n) g from to visited =
     (if from = to then Some (True, visited)
      else case g to of
          None \<Rightarrow> Some (False, visited)
        | Some deps \<Rightarrow> cycle_through n g from deps visited)"
| "cycle_through n g from [] visited = Some (False, visited)"
| "cycle_through n g from (dep # deps) visited =
     (if dep \<in> visited then cycle_through n g from deps visited
      else case would_create_cycle n g from dep (insert dep visited) of
          None \<Rightarrow> None
        | Some (True, visited') \<Rightarrow> Some (True, visited')
        | Some (False, visited') \<Rightarrow> cycle_through n g from deps visited')"

definition add_dependency :: "nat \<Rightarrow> graph \<Rightarrow> string \<Rightarrow> string \<Rightarrow> ((DependencyError + unit) \<times> graph) option" where
  "add_dependency fuel g block depends_on =
     (let g1 = or_insert (or_insert g block []) depends_on [] in
      if block = depends_on then Some (Inl (CircularDependency [block]), g1)
      else case would_create_cycle fuel g1 block depends_on {depends_on} of
          None \<Rightarrow> None
        | Some (True, _) \<Rightarrow> Some (Inl (CircularDependency [depends_on, block]), g1)
        | Some (False, _) \<Rightarrow>
            Some (Inr (), update_entry g1 block
              (\<lambda>deps. if depends_on \<in> set deps then deps else deps @ [depends_on])))"

definition dependencies_of :: "graph \<Rightarrow> string \<Rightarrow> string list" where
  "dependencies_of g block = (case g block of None \<Rightarrow> [] | Some deps \<Rightarrow> deps)"

definition dependents_of :: "string list \<Rightarrow> graph \<Rightarrow> string \<Rightarrow> string list" where
  "dependents_of order g block = filter (\<lambda>name. block \<in> set (dependencies_of g name)) order"

definition remove_block :: "graph \<Rightarrow> string \<Rightarrow> graph" where
  "remove_block g name =
     (\<lambda>k. if k = name then None else map_option (filter (\<lambda>d. d \<noteq> name)) (g k))"

subsection \<open>Load order\<close>

fun load_tables :: "graph \<Rightarrow> string list \<Rightarrow> (string \<rightharpoonup> nat) \<times> (string \<rightharpoonup> string list) \<Rightarrow>
    (string \<rightharpoonup> nat) \<times> (string \<rightharpoonup> string list)" where
  "load_tables g [] t = t"
| "load_tables g (block # blocks) t =
     (case g block of
        None \<Rightarrow> load_tables g blocks t
      | Some deps \<Rightarrow> load_tables g blocks
          ((fst t)(block \<mapsto> length deps), fold (\<lambda>dep r. entry_push r dep block) deps (snd t)))"

fun relax :: "string list \<Rightarrow> (string \<rightharpoonup> nat) \<Rightarrow> string list \<Rightarrow> (string \<rightharpoonup> nat) \<times> string list" where
  "relax [] dep_count queue = (dep_count, queue)"
| "relax (d # ds) dep_count queue =
     (case dep_count d of
        None \<Rightarrow> relax ds dep_count queue
      | Some n \<Rightarrow>
          let n' = n - 1 in
          relax ds (dep_count(d \<mapsto> n')) (if n' = 0 then queue @ [d] else queue))"

fun drain :: "nat \<Rightarrow> (string \<rightharpoonup> string list) \<Rightarrow> (string \<rightharpoonup> nat) \<Rightarrow> string list \<Rightarrow> string list \<Rightarrow>
    string list option" where
  "drain n reverse dep_count [] result = Some result"
| "drain 0 reverse dep_count (block # queue) result = None"
| "drain (Suc n) reverse dep_count (block # queue) result =
     (case reverse block of
        None \<Rightarrow> drain n reverse dep_count queue (result @ [block])
      | Some dependents \<Rightarrow>
          let (dep_count', queue') = relax dependents dep_count queue in
          drain n reverse dep_count' queue' (result @ [block]))"

text \<open>
  \<open>order\<close> is the iteration order of the edge map and \<open>order'\<close> that of the count map.
\<close>

definition load_order :: "nat \<Rightarrow> string list \<Rightarrow> string list \<Rightarrow> graph \<Rightarrow> (DependencyError + string list) option" where
  "load_order fuel order order' g =
     (let (dep_count, reverse1) = load_tables g order (Map.empty, Map.empty);
          reverse2 = fold (\<lambda>name r. or_insert r name []) order reverse1;
          queue = filter (\<lambda>name. dep_count name = Some 0) order'
      in case drain fuel reverse2 dep_count queue [] of
           None \<Rightarrow> None
         | Some result \<Rightarrow>
             if length result \<noteq> map_len g
             then Some (Inl (CircularDependency (filter (\<lambda>k. k \<notin> set result) order)))
             else Some (Inr result))"

definition unload_order :: "nat \<Rightarrow> string list \<Rightarrow> string list \<Rightarrow> graph \<Rightarrow> (DependencyError + string list) option" where
  "unload_order fuel order order' g =
     (case load_order fuel order order' g of
        None \<Rightarrow> None
      | Some (Inl e) \<Rightarrow> Some (Inl e)
      | Some (Inr result) \<Rightarrow> Some (Inr (rev result)))"

subsection \<open>The invariant\<close>

definition edge_rel :: "graph \<Rightarrow> (string \<times> string) set" where
  "edge_rel g = {(a, b). b \<in> set (dependencies_of g a)}"

definition graph_wf :: "graph \<Rightarrow> bool" where
  "graph_wf g \<longleftrightarrow> finite (dom g) \<and>
     (\<forall>a. distinct (dependencies_of g a) \<and> set (dependencies_of g a) \<subseteq> dom g) \<and>
     acyclic (edge_rel g)"

lemma dependencies_of_or_insert [simp]: "dependencies_of (or_insert g k []) = dependencies_of g"
  by (auto simp: dependencies_of_def or_insert_apply fun_eq_iff)

lemma edge_rel_or_insert [simp]: "edge_rel (or_insert g k []) = edge_rel g"
  by (simp add: edge_rel_def)

lemma graph_wf_or_insert: "graph_wf g \<Longrightarrow> graph_wf (or_insert g k [])"
  by (auto simp: graph_wf_def)

lemma graph_wf_new: "graph_wf graph_new"
  by (simp add: graph_wf_def graph_new_def dependencies_of_def edge_rel_def acyclic_def)

subsection \<open>The cycle check\<close>

text \<open>Soundness: what the search says about reachability.\<close>

lemma cycle_search_sound:
  "would_create_cycle n g from to V = Some (b, V') \<Longrightarrow> V \<subseteq> V' \<and>
     (if b then (to, from) \<in> (edge_rel g)\<^sup>*
      else from \<noteq> to \<and> from \<notin> V' - V \<and>
        (\<forall>x\<in>insert to (V' - V). \<forall>y. (x, y) \<in> edge_rel g \<longrightarrow> y \<in> V'))"
  "cycle_through n g from ds V = Some (b, V') \<Longrightarrow> V \<subseteq> V' \<and>
     (if b then \<exists>d\<in>set ds. (d, from) \<in> (edge_rel g)\<^sup>*
      else from \<notin> V' - V \<and> set ds \<subseteq> V' \<and>
        (\<forall>x\<in>V' - V. \<forall>y. (x, y) \<in> edge_rel g \<longrightarrow> y \<in> V'))"
proof (induction n g "from" to V and n g "from" ds V arbitrary: b V' and b V'
    rule: would_create_cycle_cycle_through.induct)
  case (2 n g "from" to V)
  show ?case
  proof (cases "from = to \<or> g to = None")
    case True
    with 2(2) show ?thesis by (auto simp: edge_rel_def dependencies_of_def split: if_splits)
  next
    case False
    then obtain deps where d: "g to = Some deps" by auto
    have e: "(to, y) \<in> edge_rel g \<longleftrightarrow> y \<in> set deps" for y
      using d by (simp add: edge_rel_def dependencies_of_def)
    have "cycle_through n g from deps V = Some (b, V')" using 2(2) False d by simp
    from 2(1)[OF _ d this] False e show ?thesis
      by (auto split: if_splits intro: converse_rtrancl_into_rtrancl)
  qed
next
  case (4 n g "from" d ds V)
  show ?case
  proof (cases "d \<in> V")
    case True
    with 4(4) have "cycle_through n g from ds V = Some (b, V')" by simp
    from 4(1)[OF True this] True show ?thesis by (auto split: if_splits)
  next
    case False
    obtain c W where w: "would_create_cycle n g from d (insert d V) = Some (c, W)"
      using 4(4) False by (auto split: option.splits)
    note W = 4(2)[OF False w]
    show ?thesis
    proof (cases c)
      case True
      with 4(4) False w have "b" "V' = W" by auto
      with W True show ?thesis by (auto split: if_splits)
    next
      case c: False
      with 4(4) False w have r: "cycle_through n g from ds W = Some (b, V')" by simp
      have R: "W \<subseteq> V' \<and> (if b then \<exists>d\<in>set ds. (d, from) \<in> (edge_rel g)\<^sup>*
        else from \<notin> V' - W \<and> set ds \<subseteq> V' \<and>
          (\<forall>x\<in>V' - W. \<forall>y. (x, y) \<in> edge_rel g \<longrightarrow> y \<in> V'))"
        by (rule 4(3)[OF False w refl _ r]) (simp add: c)
      have W': "insert d V \<subseteq> W" "from \<noteq> d" "from \<notin> W - insert d V"
        "\<forall>x\<in>insert d (W - insert d V). \<forall>y. (x, y) \<in> edge_rel g \<longrightarrow> y \<in> W"
        using W[unfolded eq_False[THEN iffD2, OF c] if_False] by blast+
      show ?thesis
      proof (cases b)
        case True
        with R W'(1) show ?thesis by auto
      next
        case nb: False
        have sub: "W \<subseteq> V'" and f: "from \<notin> V' - W" and ds: "set ds \<subseteq> V'"
          and cl: "\<forall>x\<in>V' - W. \<forall>y. (x, y) \<in> edge_rel g \<longrightarrow> y \<in> V'" using R nb by simp_all
        have "from \<notin> V' - V" using f W'(2,3) by blast
        moreover have "y \<in> V'" if "x \<in> V' - V" "(x, y) \<in> edge_rel g" for x y
          using that cl W'(4) sub by (cases "x \<in> W") blast+
        moreover have "set (d # ds) \<subseteq> V'" "V \<subseteq> V'" using ds W'(1) sub by auto
        ultimately show ?thesis using nb by simp
      qed
    qed
  qed
qed auto

text \<open>Termination: the depth is bounded by the number of blocks not yet visited.\<close>

lemma cycle_search_total:
  assumes fin: "finite N" and cl: "\<forall>x\<in>N. set (dependencies_of g x) \<subseteq> N"
  shows "to \<in> N \<Longrightarrow> card (N - V) < n \<Longrightarrow> would_create_cycle n g from to V \<noteq> None"
    "set ds \<subseteq> N \<Longrightarrow> card (N - V) \<le> n \<Longrightarrow> cycle_through n g from ds V \<noteq> None"
  using cl
proof (induction n g "from" to V and n g "from" ds V rule: would_create_cycle_cycle_through.induct)
  case (2 n g "from" to V)
  have "set deps \<subseteq> N" if "g to = Some deps" for deps
    using bspec[OF 2(4) 2(2)] that by (simp add: dependencies_of_def)
  with 2(1)[OF _ _ _ _ 2(4)] 2(3) show ?case by (auto split: option.split)
next
  case (4 n g "from" d ds V)
  show ?case
  proof (cases "d \<in> V")
    case True
    with 4 show ?thesis by simp
  next
    case False
    have d: "d \<in> N" using 4(4) by simp
    have c: "card (N - insert d V) < card (N - V)"
      using fin d False by (intro psubset_card_mono) auto
    then have "would_create_cycle n g from d (insert d V) \<noteq> None"
      using 4(2)[OF False d _ 4(6)] 4(5) by simp
    then obtain b W where w: "would_create_cycle n g from d (insert d V) = Some (b, W)" by auto
    have "insert d V \<subseteq> W" using cycle_search_sound(1)[OF w] by simp
    then have "card (N - W) \<le> card (N - V)" using fin by (intro card_mono) auto
    then have "cycle_through n g from ds W \<noteq> None" if "\<not> b"
      using 4(3)[OF False w refl _ _ _ 4(6)] 4(4,5) that by simp
    with w False show ?thesis by (cases b) auto
  qed
qed auto

lemma would_create_cycle_correct:
  assumes wf: "graph_wf g" and to: "to \<in> dom g" and fuel: "card (dom g) < fuel"
  shows "\<exists>V. would_create_cycle fuel g from to {to} = Some ((to, from) \<in> (edge_rel g)\<^sup>*, V)"
proof -
  have "card (dom g - {to}) \<le> card (dom g)" using wf by (intro card_mono) (auto simp: graph_wf_def)
  then have "would_create_cycle fuel g from to {to} \<noteq> None"
    using cycle_search_total(1)[of "dom g" g to "{to}" fuel "from"] wf to fuel
    by (auto simp: graph_wf_def)
  then obtain b V where w: "would_create_cycle fuel g from to {to} = Some (b, V)" by auto
  note S = cycle_search_sound(1)[OF w]
  have "b = ((to, from) \<in> (edge_rel g)\<^sup>*)"
  proof (cases b)
    case True
    then show ?thesis using S by (simp only: simp_thms if_True)
  next
    case False
    have "{to} \<subseteq> V" "from \<noteq> to" "from \<notin> V - {to}"
      "\<forall>x\<in>insert to (V - {to}). \<forall>y. (x, y) \<in> edge_rel g \<longrightarrow> y \<in> V"
      using S[unfolded eq_False[THEN iffD2, OF False] if_False] by blast+
    then have V: "to \<in> V" "from \<notin> V"
      and cl: "\<forall>x\<in>V. \<forall>y. (x, y) \<in> edge_rel g \<longrightarrow> y \<in> V" by blast+
    have "x \<in> V" if "(to, x) \<in> (edge_rel g)\<^sup>*" for x
      using that by (induction rule: rtrancl_induct) (use V cl in auto)
    with V(2) False show ?thesis by auto
  qed
  with w show ?thesis by auto
qed

subsection \<open>Adding and removing edges\<close>

lemma dependencies_of_update:
  "k \<in> dom g \<Longrightarrow> dependencies_of (update_entry g k f) x =
     (if x = k then f (dependencies_of g x) else dependencies_of g x)"
  by (auto simp: dependencies_of_def update_entry_apply)

lemma add_dependency_gen:
  assumes wf: "graph_wf g" and fuel: "card (dom g) + 2 < fuel"
  shows "\<exists>r g'. add_dependency fuel g block dep = Some (r, g') \<and> graph_wf g' \<and>
    dom g' = dom g \<union> {block, dep} \<and>
    (if (dep, block) \<in> (edge_rel g)\<^sup>* then r \<noteq> Inr () \<and> edge_rel g' = edge_rel g
     else r = Inr () \<and> edge_rel g' = insert (block, dep) (edge_rel g))"
proof -
  let ?g = "or_insert (or_insert g block []) dep []"
  have wf1: "graph_wf ?g" by (intro graph_wf_or_insert wf)
  have E: "edge_rel ?g = edge_rel g" by simp
  have fin: "finite (dom g)" using wf by (simp add: graph_wf_def)
  have "card (dom ?g) \<le> Suc (Suc (card (dom g)))"
    using fin by (simp add: card_insert_if)
  then have f: "card (dom ?g) < fuel" using fuel by linarith
  have dep: "dep \<in> dom ?g" by simp
  from would_create_cycle_correct[OF wf1 dep f, of block] obtain V where
    w: "would_create_cycle fuel ?g block dep {dep} = Some ((dep, block) \<in> (edge_rel g)\<^sup>*, V)"
    unfolding E by blast
  show ?thesis
  proof (cases "(dep, block) \<in> (edge_rel g)\<^sup>*")
    case True
    with w wf1 E show ?thesis by (auto simp: add_dependency_def Let_def)
  next
    case False
    then have ne: "block \<noteq> dep" by auto
    let ?f = "\<lambda>deps. if dep \<in> set deps then deps else deps @ [dep]"
    let ?g' = "update_entry ?g block ?f"
    have b: "block \<in> dom ?g" by simp
    note d' = dependencies_of_update[OF b, of ?f]
    have E': "edge_rel ?g' = insert (block, dep) (edge_rel g)"
      unfolding E[symmetric] by (auto simp: edge_rel_def d' split: if_splits)
    have ac: "acyclic (edge_rel ?g')"
      using wf False unfolding E' by (simp add: acyclic_insert graph_wf_def)
    have "distinct (dependencies_of ?g' x) \<and> set (dependencies_of ?g' x) \<subseteq> dom ?g'" for x
      using wf1 dep unfolding d' dom_update_entry
      by (cases "x = block") (auto simp: graph_wf_def simp del: dependencies_of_or_insert dom_or_insert)
    then have "graph_wf ?g'" using ac fin by (simp add: graph_wf_def)
    with False ne w E' show ?thesis by (auto simp: add_dependency_def Let_def)
  qed
qed

lemma dependencies_of_remove:
  "dependencies_of (remove_block g name) a =
     (if a = name then [] else filter (\<lambda>d. d \<noteq> name) (dependencies_of g a))"
  by (auto simp: dependencies_of_def remove_block_def split: option.split)

lemma dom_remove_block: "dom (remove_block g name) = dom g - {name}"
  by (auto simp: remove_block_def dom_def split: if_splits)

lemma graph_wf_remove_block:
  assumes "graph_wf g"
  shows "graph_wf (remove_block g name)"
proof -
  have "edge_rel (remove_block g name) \<subseteq> edge_rel g"
    by (auto simp: edge_rel_def dependencies_of_remove split: if_splits)
  with assms have "acyclic (edge_rel (remove_block g name))"
    by (auto simp: graph_wf_def intro: acyclic_subset)
  with assms show ?thesis
    by (auto simp: graph_wf_def dependencies_of_remove dom_remove_block split: if_splits)
qed

text \<open>
  C14: On a well-formed graph (finite, acyclic, every dependency a known block, listed
  once) adding a dependency always returns: it is refused exactly when the new edge would close
  a cycle, and then no edge is added; otherwise exactly that edge is added.  The graph is
  well-formed and acyclic again.
\<close>

theorem add_dependency_acyclic:
  assumes "graph_wf g" "card (dom g) + 2 < fuel"
  shows "\<exists>r g'. add_dependency fuel g block dep = Some (r, g') \<and> graph_wf g' \<and>
    (if (dep, block) \<in> (edge_rel g)\<^sup>* then r \<noteq> Inr () \<and> edge_rel g' = edge_rel g
     else r = Inr () \<and> edge_rel g' = insert (block, dep) (edge_rel g))"
  using add_dependency_gen[OF assms, of block dep] by blast

definition demo_graph :: graph where
  "demo_graph = [''net'' \<mapsto> [''drv''], ''drv'' \<mapsto> []]"

lemma demo_graph_wf: "graph_wf demo_graph"
proof -
  have "add_dependency 4 graph_new ''net'' ''drv'' = Some (Inr (), demo_graph)"
    by (auto simp: add_dependency_def graph_new_def or_insert_def update_entry_def demo_graph_def
        eval_nat_numeral)
  then show ?thesis
    using add_dependency_gen[OF graph_wf_new, of 4 "''net''" "''drv''"] by (auto simp: graph_new_def)
qed

theorem add_dependency_acyclic_witness:
  "graph_wf demo_graph \<and> card (dom demo_graph) + 2 < 5 \<and>
   (\<exists>r g'. add_dependency 5 demo_graph ''drv'' ''net'' = Some (r, g') \<and> graph_wf g' \<and>
      r = Inl (CircularDependency [''net'', ''drv'']) \<and> edge_rel g' = edge_rel demo_graph)"
proof -
  have c: "card (dom demo_graph) + 2 < 5"
    by (simp add: demo_graph_def card_insert_if)
  have e: "(''net'', ''drv'') \<in> (edge_rel demo_graph)\<^sup>*"
    by (rule r_into_rtrancl) (simp add: edge_rel_def dependencies_of_def demo_graph_def)
  have "fst (the (add_dependency 5 demo_graph ''drv'' ''net'')) = Inl (CircularDependency [''net'', ''drv''])"
    by (simp add: add_dependency_def or_insert_def demo_graph_def eval_nat_numeral)
  with add_dependency_acyclic[OF demo_graph_wf c, of "''drv''" "''net''"] demo_graph_wf c e
  show ?thesis by auto
qed

subsection \<open>The load order is topological\<close>

definition list_at :: "(string \<rightharpoonup> string list) \<Rightarrow> string \<Rightarrow> string list" where
  "list_at m k = (case m k of None \<Rightarrow> [] | Some v \<Rightarrow> v)"

lemma list_at_entry_push: "list_at (entry_push m k v) x = list_at m x @ (if x = k then [v] else [])"
  by (simp add: list_at_def entry_push_apply)

lemma list_at_push_all:
  "distinct ds \<Longrightarrow> list_at (fold (\<lambda>d r. entry_push r d b) ds m) x =
     list_at m x @ (if x \<in> set ds then [b] else [])"
  by (induction ds arbitrary: m) (auto simp: list_at_entry_push)

lemma list_at_or_insert_all: "list_at (fold (\<lambda>n r. or_insert r n []) ns m) = list_at m"
  by (induction ns arbitrary: m) (auto simp: list_at_def or_insert_apply fun_eq_iff)

lemma load_tables_counts:
  "set bs \<subseteq> dom g \<Longrightarrow> fst (load_tables g bs t) x =
     (if x \<in> set bs then Some (length (dependencies_of g x)) else fst t x)"
  by (induction bs arbitrary: t) (auto simp: dependencies_of_def)

lemma load_tables_reverse:
  assumes "\<forall>a. distinct (dependencies_of g a)"
  shows "set bs \<subseteq> dom g \<Longrightarrow> list_at (snd (load_tables g bs t)) x =
     list_at (snd t) x @ filter (\<lambda>b. x \<in> set (dependencies_of g b)) bs"
proof (induction bs arbitrary: t)
  case (Cons b bs)
  then obtain ds where ds: "g b = Some ds" by auto
  then have d: "dependencies_of g b = ds" by (simp add: dependencies_of_def)
  then have "distinct ds" using assms by blast
  with Cons ds d show ?case by (simp add: list_at_push_all)
qed simp

text \<open>The loop invariant; \<open>deps\<close> abbreviates the dependencies of a block.\<close>

definition load_inv :: "graph \<Rightarrow> (string \<rightharpoonup> nat) \<Rightarrow> string list \<Rightarrow> string list \<Rightarrow> bool" where
  "load_inv g cnt q res \<longleftrightarrow> distinct (res @ q) \<and> set (res @ q) \<subseteq> dom g \<and>
     (\<forall>x\<in>dom g. cnt x = Some (card (set (dependencies_of g x) - set res))) \<and>
     (\<forall>x\<in>dom g. cnt x = Some 0 \<longleftrightarrow> x \<in> set (res @ q)) \<and>
     (\<forall>i<length res. set (dependencies_of g (res ! i)) \<subseteq> set (take i res))"

lemma relax_effect:
  assumes "distinct ds" "set ds \<subseteq> dom cnt" "set ds \<inter> set q = {}" "\<forall>d\<in>set ds. cnt d \<noteq> Some 0"
  shows "fst (relax ds cnt q) x = (if x \<in> set ds then map_option (\<lambda>n. n - 1) (cnt x) else cnt x) \<and>
    snd (relax ds cnt q) = q @ filter (\<lambda>d. cnt d = Some 1) ds"
  using assms
proof (induction ds arbitrary: cnt q)
  case (Cons d ds)
  then obtain n where n: "cnt d = Some n" "n \<noteq> 0" by auto
  let ?c = "cnt(d \<mapsto> n - 1)" and ?q = "if n - 1 = 0 then q @ [d] else q"
  have r: "relax (d # ds) cnt q = relax ds ?c ?q" using n by (simp add: Let_def)
  have IH: "fst (relax ds ?c ?q) x = (if x \<in> set ds then map_option (\<lambda>n. n - 1) (?c x) else ?c x) \<and>
    snd (relax ds ?c ?q) = ?q @ filter (\<lambda>d. ?c d = Some 1) ds"
    by (rule Cons.IH) (use Cons.prems in auto)
  have "filter (\<lambda>d. ?c d = Some 1) ds = filter (\<lambda>d. cnt d = Some 1) ds"
    using Cons.prems(1) by (intro filter_cong) auto
  with IH n Cons.prems(1) show ?case unfolding r by (auto split: if_splits)
qed simp

lemma load_step:
  assumes inv: "load_inv g cnt (b # q) res" and wf: "graph_wf g"
    and ds: "distinct ds" "set ds = {x \<in> dom g. b \<in> set (dependencies_of g x)}"
  shows "load_inv g (fst (relax ds cnt q)) (snd (relax ds cnt q)) (res @ [b])"
proof -
  have b: "b \<in> dom g" "b \<notin> set res" "b \<notin> set q"
    using inv by (auto simp: load_inv_def)
  have cnt: "cnt x = Some (card (set (dependencies_of g x) - set res))" if "x \<in> dom g" for x
    using inv that by (simp add: load_inv_def)
  have zero: "cnt x = Some 0 \<longleftrightarrow> x \<in> set (res @ b # q)" if "x \<in> dom g" for x
    using inv that unfolding load_inv_def by blast
  have dec: "card (set (dependencies_of g x) - set res) = Suc (card (set (dependencies_of g x) - set (res @ [b])))"
    if "x \<in> set ds" for x
  proof -
    have bx: "b \<in> set (dependencies_of g x)" using that ds(2) by blast
    have "set (dependencies_of g x) - set res = insert b (set (dependencies_of g x) - set (res @ [b]))"
      using bx b(2) unfolding set_append list.set by blast
    moreover have "b \<notin> set (dependencies_of g x) - set (res @ [b])" by simp
    ultimately show ?thesis by (simp only: card_insert_disjoint finite_Diff finite_set not_False_eq_True)
  qed
  have pos: "cnt d \<noteq> Some 0" if "d \<in> set ds" for d
  proof -
    have "d \<in> dom g" using that ds(2) by blast
    from cnt[OF this] dec[OF that] show ?thesis by simp
  qed
  have dsg: "set ds \<subseteq> dom g" using ds(2) by blast
  have disj: "set ds \<inter> set (res @ b # q) = {}" using pos zero dsg by blast
  have sub: "set ds \<subseteq> dom cnt" using ds(2) cnt by blast
  have disj': "set ds \<inter> set q = {}" using disj by auto
  note R = relax_effect[OF ds(1) sub disj']
  have fstR: "fst (relax ds cnt q) x = (if x \<in> set ds then map_option (\<lambda>n. n - 1) (cnt x) else cnt x)" for x
    using R pos by blast
  have sndR: "snd (relax ds cnt q) = q @ filter (\<lambda>d. cnt d = Some 1) ds" using R pos by blast
  have cnt': "fst (relax ds cnt q) x = Some (card (set (dependencies_of g x) - set (res @ [b])))"
    if "x \<in> dom g" for x
  proof (cases "x \<in> set ds")
    case True
    with dec[OF True] cnt[OF that] show ?thesis by (simp add: fstR)
  next
    case False
    then have "b \<notin> set (dependencies_of g x)" using that ds(2) by blast
    then have "set (dependencies_of g x) - set (res @ [b]) = set (dependencies_of g x) - set res" by auto
    with False cnt[OF that] show ?thesis by (simp add: fstR)
  qed
  have zero': "fst (relax ds cnt q) x = Some 0 \<longleftrightarrow> x \<in> set ((res @ [b]) @ snd (relax ds cnt q))"
    if "x \<in> dom g" for x
  proof (cases "x \<in> set ds")
    case True
    then have "x \<notin> set (res @ b # q)" using pos zero[OF that] by blast
    with True cnt[OF that] dec[OF True] show ?thesis by (auto simp: fstR sndR)
  next
    case False
    with zero[OF that] show ?thesis by (auto simp: fstR sndR)
  qed
  have "\<forall>i<length (res @ [b]). set (dependencies_of g ((res @ [b]) ! i)) \<subseteq> set (take i (res @ [b]))"
  proof (intro allI impI)
    fix i assume i: "i < length (res @ [b])"
    show "set (dependencies_of g ((res @ [b]) ! i)) \<subseteq> set (take i (res @ [b]))"
    proof (cases "i < length res")
      case True
      with inv show ?thesis by (simp add: load_inv_def nth_append)
    next
      case False
      then have "i = length res" using i by simp
      moreover have "set (dependencies_of g b) \<subseteq> set res"
        using cnt[OF b(1)] zero[OF b(1)] by simp
      ultimately show ?thesis by simp
    qed
  qed
  moreover have "distinct ((res @ [b]) @ snd (relax ds cnt q))"
    using inv ds(1) disj unfolding load_inv_def sndR by auto
  moreover have "set ((res @ [b]) @ snd (relax ds cnt q)) \<subseteq> dom g"
    using inv dsg unfolding load_inv_def sndR by auto
  ultimately show ?thesis using cnt' zero' unfolding load_inv_def by blast
qed

lemma drain_ok:
  assumes wf: "graph_wf g"
    and rev: "\<And>b. b \<in> dom g \<Longrightarrow> distinct (list_at reverse b) \<and>
      set (list_at reverse b) = {x \<in> dom g. b \<in> set (dependencies_of g x)}"
  shows "load_inv g cnt q res \<Longrightarrow> card (dom g) \<le> n + length res \<Longrightarrow>
    \<exists>res' cnt'. drain n reverse cnt q res = Some res' \<and> load_inv g cnt' [] res'"
proof (induction n arbitrary: cnt q res)
  case 0
  show ?case
  proof (cases q)
    case (Cons b q')
    have "set (res @ q) \<subseteq> dom g" "distinct (res @ q)" using 0(1) unfolding load_inv_def by blast+
    then have "length (res @ q) \<le> card (dom g)"
      using wf by (metis card_mono distinct_card graph_wf_def)
    with 0(2) Cons show ?thesis by simp
  qed (use 0 in auto)
next
  case (Suc n)
  show ?case
  proof (cases q)
    case (Cons b q')
    let ?ds = "list_at reverse b"
    have b: "b \<in> dom g" using Suc.prems(1) Cons by (simp add: load_inv_def)
    have inv: "load_inv g (fst (relax ?ds cnt q')) (snd (relax ?ds cnt q')) (res @ [b])"
      using load_step[OF Suc.prems(1)[unfolded Cons] wf] rev[OF b] by blast
    have len: "card (dom g) \<le> n + length (res @ [b])" using Suc.prems(2) by simp
    have "drain (Suc n) reverse cnt q res =
        drain n reverse (fst (relax ?ds cnt q')) (snd (relax ?ds cnt q')) (res @ [b])"
      by (cases "reverse b") (simp_all add: Cons list_at_def split_beta)
    with Suc.IH[OF inv len] show ?thesis by simp
  qed (use Suc.prems in auto)
qed

lemma edge_rel_dom:
  assumes "graph_wf g" "(a, b) \<in> edge_rel g"
  shows "a \<in> dom g" "b \<in> dom g"
proof -
  have b: "b \<in> set (dependencies_of g a)" using assms(2) by (simp add: edge_rel_def)
  then show "a \<in> dom g" by (cases "g a") (simp_all add: dependencies_of_def domI)
  from b assms(1) show "b \<in> dom g" unfolding graph_wf_def by blast
qed

lemma load_inv_complete:
  assumes wf: "graph_wf g" and inv: "load_inv g cnt [] res"
  shows "set res = dom g"
proof (rule ccontr)
  assume "set res \<noteq> dom g"
  then have ne: "dom g - set res \<noteq> {}" using inv by (auto simp: load_inv_def)
  have "finite (edge_rel g)"
  proof (rule finite_subset)
    show "edge_rel g \<subseteq> dom g \<times> dom g"
      using edge_rel_dom[OF wf] by (intro subrelI SigmaI) blast+
  qed (use wf in \<open>simp add: graph_wf_def\<close>)
  moreover have "acyclic (edge_rel g)" using wf unfolding graph_wf_def by blast
  ultimately have w: "wf ((edge_rel g)\<inverse>)" by (rule finite_acyclic_wf_converse)
  obtain x where x: "x \<in> dom g - set res" and min: "\<And>y. (y, x) \<in> (edge_rel g)\<inverse> \<Longrightarrow> y \<notin> dom g - set res"
    using wfE_min'[OF w ne] by blast
  have "set (dependencies_of g x) \<subseteq> set res"
  proof
    fix y assume "y \<in> set (dependencies_of g x)"
    then have e: "(x, y) \<in> edge_rel g" by (simp add: edge_rel_def)
    with min[of y] edge_rel_dom(2)[OF wf e] show "y \<in> set res" by blast
  qed
  then have "card (set (dependencies_of g x) - set res) = 0" by (simp add: Diff_eq_empty_iff)
  then have "x \<in> set (res @ [])" using inv x unfolding load_inv_def by (metis DiffD1)
  with x show False by simp
qed

lemma load_order_gen:
  assumes wf: "graph_wf g" and it: "iteration_of order g" "iteration_of order' g"
    and fuel: "card (dom g) \<le> fuel"
  shows "\<exists>res. load_order fuel order order' g = Some (Inr res) \<and> distinct res \<and> set res = dom g \<and>
    (\<forall>i<length res. set (dependencies_of g (res ! i)) \<subseteq> set (take i res))"
proof -
  have fin: "finite (dom g)" and dd: "\<forall>a. distinct (dependencies_of g a)" using wf by (auto simp: graph_wf_def)
  have o: "distinct order" "set order = dom g" "distinct order'" "set order' = dom g"
    using it by (simp_all add: iteration_of_def)
  obtain cnt rev1 where t: "load_tables g order (Map.empty, Map.empty) = (cnt, rev1)"
    by (cases "load_tables g order (Map.empty, Map.empty)")
  let ?rev = "fold (\<lambda>name r. or_insert r name []) order rev1"
  let ?q = "filter (\<lambda>name. cnt name = Some 0) order'"
  have cnt: "cnt x = Some (length (dependencies_of g x))" if "x \<in> dom g" for x
    using load_tables_counts[of order g "(Map.empty, Map.empty)" x] that t o by simp
  have rev: "list_at ?rev b = filter (\<lambda>x. b \<in> set (dependencies_of g x)) order" for b
    using load_tables_reverse[OF dd, of order "(Map.empty, Map.empty)" b] t o
    by (simp add: list_at_or_insert_all) (simp add: list_at_def)
  have "load_inv g cnt ?q []"
    using o cnt dd by (auto simp: load_inv_def distinct_card)
  then obtain res cnt' where r: "drain fuel ?rev cnt ?q [] = Some res" "load_inv g cnt' [] res"
    using drain_ok[OF wf, of ?rev cnt ?q "[]" fuel] fuel o by (auto simp: rev)
  have s: "set res = dom g" using load_inv_complete[OF wf r(2)] .
  have d: "distinct res" using r(2) by (simp add: load_inv_def)
  then have "length res = map_len g" using s by (simp add: map_len_def distinct_card[symmetric])
  then show ?thesis
    using t r s d by (auto simp: load_order_def load_inv_def)
qed

text \<open>
  C15: For a well-formed graph the load order always exists, whatever orders the hash
  maps are iterated in: it lists every block exactly once, each block after all its
  dependencies; and the unload order is its reverse.
\<close>

theorem load_order_topological:
  assumes "graph_wf g" "iteration_of order g" "iteration_of order' g" "card (dom g) \<le> fuel"
  shows "\<exists>res. load_order fuel order order' g = Some (Inr res) \<and>
    unload_order fuel order order' g = Some (Inr (rev res)) \<and> distinct res \<and> set res = dom g \<and>
    (\<forall>i<length res. set (dependencies_of g (res ! i)) \<subseteq> set (take i res))"
  using load_order_gen[OF assms] by (auto simp: unload_order_def)

theorem load_order_topological_witness:
  "load_order 2 [''net'', ''drv''] [''net'', ''drv''] demo_graph = Some (Inr [''drv'', ''net'']) \<and>
   (\<exists>res. load_order 2 [''net'', ''drv''] [''net'', ''drv''] demo_graph = Some (Inr res) \<and>
      distinct res \<and> set res = dom demo_graph)"
proof -
  have it: "iteration_of [''net'', ''drv''] demo_graph"
    by (auto simp: iteration_of_def demo_graph_def)
  have c: "card (dom demo_graph) \<le> 2" by (simp add: demo_graph_def card_insert_if)
  from load_order_topological[OF demo_graph_wf it it c] obtain res where
    r: "load_order 2 [''net'', ''drv''] [''net'', ''drv''] demo_graph = Some (Inr res)"
    "distinct res" "set res = dom demo_graph" by blast
  have "load_order 2 [''net'', ''drv''] [''net'', ''drv''] demo_graph = Some (Inr [''drv'', ''net''])"
    by (simp add: load_order_def demo_graph_def entry_push_def or_insert_def numeral_2_eq_2 map_len_def
        card_insert_if)
  with r show ?thesis by simp
qed

end
