(* ===== verification/Block_Registry.thy ===== *)
theory Block_Registry
  imports Capability Dependency Ipc_Protocol
begin

text \<open>
  The block registry (\<open>aios-block-mgr/src/registry.rs\<close>, types from \<open>aios-core/src/block.rs\<close>) and
  the message router (\<open>aios-block-mgr/src/router.rs\<close>).  SHA-256 is the argument \<open>sha\<close>.  The
  directory tree that boot discovery walks is data: each entry is what the operating system
  reports for it.
\<close>

subsection \<open>Blocks\<close>

definition show_block_id :: "u32 \<Rightarrow> string" where
  "show_block_id i = ''block_'' @ dec_word i"

record block_manifest =
  bm_id :: u32
  bm_name :: string
  bm_version :: string
  bm_sha256 :: bytes

definition show_manifest :: "block_manifest \<Rightarrow> string" where
  "show_manifest m = ''Block('' @ show_block_id (bm_id m) @ '', '' @ bm_name m @ '' v'' @ bm_version m @ '')''"

datatype BlockState = Unloaded | Loaded | Active | Frozen | BlockError

record block_entry =
  be_manifest :: block_manifest
  be_state :: BlockState
  be_binary :: bytes
  be_capabilities :: "capability_token option"

record block_registry =
  br_blocks :: "u32 \<rightharpoonup> block_entry"
  br_next_id :: u32
  br_dependencies :: "string \<rightharpoonup> string list"

definition registry_new :: block_registry where
  "registry_new = \<lparr>br_blocks = Map.empty, br_next_id = 1, br_dependencies = Map.empty\<rparr>"

definition register_block :: "(bytes \<Rightarrow> bytes) \<Rightarrow> string \<Rightarrow> string \<Rightarrow> bytes \<Rightarrow> block_registry \<Rightarrow>
    u32 result \<times> block_registry" where
  "register_block sha name version binary r =
     (let bid = br_next_id r;
          manifest = \<lparr>bm_id = bid, bm_name = name, bm_version = version, bm_sha256 = sha binary\<rparr>
      in (Ok bid, r\<lparr>br_next_id := br_next_id r + 1,
            br_blocks := (br_blocks r)(bid \<mapsto>
              \<lparr>be_manifest = manifest, be_state = Loaded, be_binary = binary,
               be_capabilities = None\<rparr>)\<rparr>))"

definition block_get :: "u32 \<Rightarrow> block_registry \<Rightarrow> block_entry result" where
  "block_get bid r =
     (case br_blocks r bid of None \<Rightarrow> Err (BlockNotFound (show_block_id bid)) | Some e \<Rightarrow> Ok e)"

text \<open>The operations that start with \<open>get_mut(id)?\<close> and then update the entry.\<close>

definition modify_block :: "u32 \<Rightarrow> (block_entry \<Rightarrow> block_entry) \<Rightarrow> block_registry \<Rightarrow>
    unit result \<times> block_registry" where
  "modify_block bid f r =
     (case br_blocks r bid of
        None \<Rightarrow> (Err (BlockNotFound (show_block_id bid)), r)
      | Some e \<Rightarrow> (Ok (), r\<lparr>br_blocks := (br_blocks r)(bid \<mapsto> f e)\<rparr>))"

definition assign_capabilities :: "u32 \<Rightarrow> capability_token \<Rightarrow> block_registry \<Rightarrow> unit result \<times> block_registry" where
  "assign_capabilities bid token r = modify_block bid (\<lambda>e. e\<lparr>be_capabilities := Some token\<rparr>) r"

definition check_capability :: "u64 \<Rightarrow> u32 \<Rightarrow> Capability \<Rightarrow> block_registry \<Rightarrow> unit result" where
  "check_capability now bid required r =
     (case block_get bid r of
        Err e \<Rightarrow> Err e
      | Ok entry \<Rightarrow>
          (case be_capabilities entry of
             Some token \<Rightarrow>
               if is_expired now token
               then Err (PermissionDenied (''Token for block '' @ show_block_id bid @ '' has expired''))
               else if has_capability token required then Ok ()
               else Err (PermissionDenied (''Block '' @ show_block_id bid @ '' lacks capability '' @ cap_name required))
           | None \<Rightarrow> Err (PermissionDenied (''No capabilities assigned to block '' @ show_block_id bid))))"

definition activate_block :: "u32 \<Rightarrow> block_registry \<Rightarrow> unit result \<times> block_registry" where
  "activate_block bid r = modify_block bid (\<lambda>e. e\<lparr>be_state := Active\<rparr>) r"

definition unload_block :: "u32 \<Rightarrow> block_registry \<Rightarrow> block_entry result \<times> block_registry" where
  "unload_block bid r =
     (case br_blocks r bid of
        None \<Rightarrow> (Err (BlockNotFound (show_block_id bid)), r)
      | Some e \<Rightarrow> (Ok e, r\<lparr>br_blocks := (br_blocks r)(bid := None)\<rparr>))"

definition update_state :: "u32 \<Rightarrow> BlockState \<Rightarrow> block_registry \<Rightarrow> unit result \<times> block_registry" where
  "update_state bid st r = modify_block bid (\<lambda>e. e\<lparr>be_state := st\<rparr>) r"

definition find_by_name :: "u32 list \<Rightarrow> string \<Rightarrow> block_registry \<Rightarrow> block_entry option" where
  "find_by_name order name r =
     List.find (\<lambda>e. bm_name (be_manifest e) = name) (List.map_filter (br_blocks r) order)"

definition set_block_dependencies :: "string \<Rightarrow> string list \<Rightarrow> block_registry \<Rightarrow> block_registry" where
  "set_block_dependencies name deps r = r\<lparr>br_dependencies := (br_dependencies r)(name \<mapsto> deps)\<rparr>"

fun add_all_blocks :: "string list \<Rightarrow> graph \<Rightarrow> graph" where
  "add_all_blocks [] g = g"
| "add_all_blocks (n # ns) g = add_all_blocks ns (add_block g n)"

fun add_all_deps :: "nat \<Rightarrow> string \<Rightarrow> string list \<Rightarrow> graph \<Rightarrow> graph option" where
  "add_all_deps fuel name [] g = Some g"
| "add_all_deps fuel name (d # ds) g =
     (case add_dependency fuel g name d of
        None \<Rightarrow> None
      | Some (_, g') \<Rightarrow> add_all_deps fuel name ds g')"

fun add_all_edges :: "nat \<Rightarrow> (string \<rightharpoonup> string list) \<Rightarrow> string list \<Rightarrow> graph \<Rightarrow> graph option" where
  "add_all_edges fuel deps [] g = Some g"
| "add_all_edges fuel deps (n # ns) g =
     (case deps n of
        None \<Rightarrow> add_all_edges fuel deps ns g
      | Some ds \<Rightarrow>
          (case add_all_deps fuel n ds g of
             None \<Rightarrow> None
           | Some g' \<Rightarrow> add_all_edges fuel deps ns g'))"

definition dependency_graph :: "nat \<Rightarrow> u32 list \<Rightarrow> string list \<Rightarrow> block_registry \<Rightarrow> graph option" where
  "dependency_graph fuel order order' r =
     add_all_edges fuel (br_dependencies r) order'
       (add_all_blocks (map (\<lambda>e. bm_name (be_manifest e)) (List.map_filter (br_blocks r) order))
         graph_new)"

definition verify_block_signature :: "(bytes \<Rightarrow> bytes) \<Rightarrow> u32 \<Rightarrow> block_registry \<Rightarrow> bool result" where
  "verify_block_signature sha bid r =
     (case block_get bid r of
        Err e \<Rightarrow> Err e
      | Ok entry \<Rightarrow> Ok (sha (be_binary entry) = bm_sha256 (be_manifest entry)))"

definition swap_binary :: "(bytes \<Rightarrow> bytes) \<Rightarrow> u32 \<Rightarrow> bytes \<Rightarrow> string \<Rightarrow> block_registry \<Rightarrow>
    block_manifest result \<times> block_registry" where
  "swap_binary sha bid new_binary new_version r =
     (case br_blocks r bid of
        None \<Rightarrow> (Err (BlockNotFound (show_block_id bid)), r)
      | Some entry \<Rightarrow>
          let manifest = (be_manifest entry)\<lparr>bm_version := new_version, bm_sha256 := sha new_binary\<rparr>
          in (Ok manifest, r\<lparr>br_blocks := (br_blocks r)(bid \<mapsto>
                entry\<lparr>be_manifest := manifest, be_binary := new_binary, be_state := Active\<rparr>)\<rparr>))"

text \<open>
  Boot discovery.  A directory entry is a directory (\<open>None\<close> when it cannot be read) or a file
  with its printed path, its stem and extension (if they are text) and its contents or the
  error of reading them.
\<close>

datatype dir_entry =
    SubDir "dir_entry list option"
  | FileEntry string "string option" "string option" "string + bytes"

fun splitn2 :: "char \<Rightarrow> string \<Rightarrow> string \<times> string option" where
  "splitn2 c [] = ([], None)"
| "splitn2 c (x # xs) =
     (if x = c then ([], Some xs) else case splitn2 c xs of (a, b) \<Rightarrow> (x # a, b))"

definition discover_file :: "(bytes \<Rightarrow> bytes) \<Rightarrow> string \<Rightarrow> string option \<Rightarrow> string + bytes \<Rightarrow>
    block_registry \<Rightarrow> block_manifest result \<times> block_registry" where
  "discover_file sha path stem content r =
     (let file_stem = (case stem of None \<Rightarrow> ''unknown'' | Some s \<Rightarrow> s);
          (name, rest) = splitn2 (CHR ''_'') file_stem;
          version = (case rest of None \<Rightarrow> ''0.0.0'' | Some v \<Rightarrow> v)
      in case content of
           Inr binary \<Rightarrow>
             (case register_block sha name version binary r of
                (Ok bid, r') \<Rightarrow> (map_sum id be_manifest (block_get bid r'), r')
              | (Err e, r') \<Rightarrow> (Err e, r'))
         | Inl e \<Rightarrow> (Err (IPCError (''Failed to read '' @ path @ '': '' @ e)), r))"

fun walk_recursive :: "(bytes \<Rightarrow> bytes) \<Rightarrow> dir_entry list \<Rightarrow> block_registry \<Rightarrow>
    block_manifest result list \<times> block_registry" where
  "walk_recursive sha [] r = ([], r)"
| "walk_recursive sha (SubDir None # es) r = walk_recursive sha es r"
| "walk_recursive sha (SubDir (Some sub) # es) r =
     (let (res1, r1) = walk_recursive sha sub r; (res2, r2) = walk_recursive sha es r1
      in (res1 @ res2, r2))"
| "walk_recursive sha (FileEntry path stem ext content # es) r =
     (if ext \<noteq> Some ''bin'' \<and> ext \<noteq> Some ''wasm'' then walk_recursive sha es r
      else
        let (res, r1) = discover_file sha path stem content r;
            (res2, r2) = walk_recursive sha es r1
        in (res # res2, r2))"

text \<open>\<open>root = None\<close> is a root that does not exist; creating it yields no blocks either way.\<close>

definition boot_discover :: "(bytes \<Rightarrow> bytes) \<Rightarrow> dir_entry list option option \<Rightarrow> block_registry \<Rightarrow>
    block_manifest result list \<times> block_registry" where
  "boot_discover sha root r =
     (case root of
        None \<Rightarrow> ([], r)
      | Some None \<Rightarrow> ([], r)
      | Some (Some entries) \<Rightarrow> walk_recursive sha entries r)"

subsection \<open>Message routing\<close>

text \<open>
  A handler is a closure with its own state, of type \<open>'h\<close>; \<open>run\<close> calls it and returns its next
  state.
\<close>

record 'h message_router =
  mr_handlers :: "u32 \<rightharpoonup> 'h"
  mr_routes :: "u32 \<rightharpoonup> u32"

definition router_new :: "'h message_router" where
  "router_new = \<lparr>mr_handlers = Map.empty, mr_routes = Map.empty\<rparr>"

definition register_handler :: "u32 \<Rightarrow> 'h \<Rightarrow> 'h message_router \<Rightarrow> 'h message_router" where
  "register_handler bid h m = m\<lparr>mr_handlers := (mr_handlers m)(bid \<mapsto> h)\<rparr>"

definition unregister_handler :: "u32 \<Rightarrow> 'h message_router \<Rightarrow> bool \<times> 'h message_router" where
  "unregister_handler bid m =
     (mr_handlers m bid \<noteq> None,
      m\<lparr>mr_routes := (mr_routes m)(bid := None), mr_handlers := (mr_handlers m)(bid := None)\<rparr>)"

definition add_route :: "u32 \<Rightarrow> u32 \<Rightarrow> 'h message_router \<Rightarrow> 'h message_router" where
  "add_route from to m = m\<lparr>mr_routes := (mr_routes m)(from \<mapsto> to)\<rparr>"

definition route_target :: "'h message_router \<Rightarrow> u32 \<Rightarrow> u32" where
  "route_target m target = (case mr_routes m target of None \<Rightarrow> target | Some t \<Rightarrow> t)"

definition router_dispatch :: "('h \<Rightarrow> 'j ipc_packet \<Rightarrow> 'j ipc_packet option result \<times> 'h) \<Rightarrow>
    'j ipc_packet \<Rightarrow> 'h message_router \<Rightarrow> 'j ipc_packet option result \<times> 'h message_router" where
  "router_dispatch run packet m =
     (let target = route_target m (ih_target_block (pk_header packet)) in
      case mr_handlers m target of
        None \<Rightarrow> (Err (BlockNotFound (''block_'' @ dec_word target)), m)
      | Some h \<Rightarrow>
          (case run h packet of
             (res, h') \<Rightarrow> (res, m\<lparr>mr_handlers := (mr_handlers m)(target \<mapsto> h')\<rparr>)))"

subsection \<open>Every registered block matches its manifest\<close>

datatype reg_op =
    RRegister string string bytes
  | RAssign u32 capability_token
  | RActivate u32
  | RUnload u32
  | RUpdateState u32 BlockState
  | RSetDeps string "string list"
  | RSwap u32 bytes string
  | RBoot "dir_entry list option option"

fun reg_exec :: "(bytes \<Rightarrow> bytes) \<Rightarrow> reg_op \<Rightarrow> block_registry \<Rightarrow> block_registry" where
  "reg_exec sha (RRegister n v b) r = snd (register_block sha n v b r)"
| "reg_exec sha (RAssign i t) r = snd (assign_capabilities i t r)"
| "reg_exec sha (RActivate i) r = snd (activate_block i r)"
| "reg_exec sha (RUnload i) r = snd (unload_block i r)"
| "reg_exec sha (RUpdateState i st) r = snd (update_state i st r)"
| "reg_exec sha (RSetDeps n ds) r = set_block_dependencies n ds r"
| "reg_exec sha (RSwap i b v) r = snd (swap_binary sha i b v r)"
| "reg_exec sha (RBoot root) r = snd (boot_discover sha root r)"

definition reg_run :: "(bytes \<Rightarrow> bytes) \<Rightarrow> reg_op list \<Rightarrow> block_registry" where
  "reg_run sha ops = fold (reg_exec sha) ops registry_new"

definition reg_wf :: "(bytes \<Rightarrow> bytes) \<Rightarrow> block_registry \<Rightarrow> bool" where
  "reg_wf sha r \<longleftrightarrow> (\<forall>bid e. br_blocks r bid = Some e \<longrightarrow>
     bm_id (be_manifest e) = bid \<and> bm_sha256 (be_manifest e) = sha (be_binary e))"

lemma reg_wf_register: "reg_wf sha r \<Longrightarrow> reg_wf sha (snd (register_block sha n v b r))"
  by (auto simp: reg_wf_def register_block_def Let_def)

lemma reg_wf_modify:
  "reg_wf sha r \<Longrightarrow> (\<And>e. be_manifest (f e) = be_manifest e \<and> be_binary (f e) = be_binary e) \<Longrightarrow>
     reg_wf sha (snd (modify_block bid f r))"
  by (auto simp: reg_wf_def modify_block_def split: option.split)

lemma reg_wf_discover: "reg_wf sha r \<Longrightarrow> reg_wf sha (snd (discover_file sha path stem content r))"
  by (cases content) (auto simp: discover_file_def Let_def split_beta reg_wf_def register_block_def)

lemma reg_wf_walk: "reg_wf sha r \<Longrightarrow> reg_wf sha (snd (walk_recursive sha es r))"
proof (induction sha es r rule: walk_recursive.induct)
  case (3 sha sub es r)
  obtain res r1 where w: "walk_recursive sha sub r = (res, r1)" by fastforce
  with 3(1)[OF 3(3)] have "reg_wf sha r1" by simp
  from 3(2)[OF w[symmetric] refl this] w show ?case by (simp add: split_beta)
next
  case (4 sha path stem ext content es r)
  obtain res r1 where d: "discover_file sha path stem content r = (res, r1)" by fastforce
  have "reg_wf sha r1" using reg_wf_discover[OF 4(3), of path stem content] d by simp
  with 4 d show ?case by (auto simp: split_beta Let_def)
qed (auto simp: split_beta Let_def)

lemma reg_wf_exec: "reg_wf sha r \<Longrightarrow> reg_wf sha (reg_exec sha op r)"
proof (cases op)
  case (RBoot root)
  then show "reg_wf sha r \<Longrightarrow> reg_wf sha (reg_exec sha op r)"
    by (auto simp: boot_discover_def reg_wf_walk split: option.split)
qed (auto simp: assign_capabilities_def activate_block_def update_state_def reg_wf_register
    intro!: reg_wf_modify, auto simp: reg_wf_def unload_block_def set_block_dependencies_def
    swap_binary_def Let_def split: option.split)

text \<open>
  C33: After any sequence of registry operations (registrations, boot discovery, hot
  swaps, state changes, unloads; writing through \<open>get_mut\<close> is not one of them), the integrity check of every registered block succeeds with a
  positive answer and its manifest carries the identifier it is filed under; for every other
  identifier the check reports that the block does not exist.
\<close>

theorem registry_signatures_hold:
  "case br_blocks (reg_run sha ops) bid of
     None \<Rightarrow> verify_block_signature sha bid (reg_run sha ops) = Err (BlockNotFound (show_block_id bid))
   | Some e \<Rightarrow> verify_block_signature sha bid (reg_run sha ops) = Ok True \<and> bm_id (be_manifest e) = bid"
proof -
  have "reg_wf sha (reg_run sha ops)"
    unfolding reg_run_def
    by (induction ops rule: rev_induct) (auto simp: reg_wf_exec, simp add: reg_wf_def registry_new_def)
  then show ?thesis
    by (auto simp: reg_wf_def verify_block_signature_def block_get_def split: option.split)
qed

subsection \<open>Loading in dependency order\<close>

lemma add_all_blocks_ok:
  "graph_wf g \<Longrightarrow> graph_wf (add_all_blocks ns g) \<and> dom (add_all_blocks ns g) = dom g \<union> set ns"
  by (induction ns arbitrary: g) (auto simp: add_block_def graph_wf_or_insert)

lemma add_all_deps_ok:
  assumes "finite S" "card S + 2 < fuel" "name \<in> S"
  shows "graph_wf g \<Longrightarrow> dom g \<union> set ds \<subseteq> S \<Longrightarrow>
    \<exists>g'. add_all_deps fuel name ds g = Some g' \<and> graph_wf g' \<and> dom g \<subseteq> dom g' \<and> dom g' \<subseteq> S"
proof (induction ds arbitrary: g)
  case (Cons d ds)
  have "card (dom g) \<le> card S" using Cons.prems(2) assms(1) by (intro card_mono) auto
  then have "card (dom g) + 2 < fuel" using assms(2) by simp
  from add_dependency_gen[OF Cons.prems(1) this, of name d] obtain r g1 where
    g1: "add_dependency fuel g name d = Some (r, g1)" "graph_wf g1" "dom g1 = dom g \<union> {name, d}" by blast
  have "dom g1 \<union> set ds \<subseteq> S" using g1(3) Cons.prems(2) assms(3) by auto
  from Cons.IH[OF g1(2) this] g1 show ?case by auto
qed auto

lemma add_all_edges_ok:
  assumes S: "finite S" "card S + 2 < fuel"
  shows "graph_wf g \<Longrightarrow> dom g \<subseteq> S \<Longrightarrow> \<forall>n ds. n \<in> set ns \<and> deps n = Some ds \<longrightarrow> insert n (set ds) \<subseteq> S \<Longrightarrow>
    \<exists>g'. add_all_edges fuel deps ns g = Some g' \<and> graph_wf g' \<and> dom g \<subseteq> dom g' \<and> dom g' \<subseteq> S"
proof (induction ns arbitrary: g)
  case (Cons n ns)
  have rest: "\<forall>n ds. n \<in> set ns \<and> deps n = Some ds \<longrightarrow> insert n (set ds) \<subseteq> S"
    using Cons.prems(3) unfolding list.set by blast
  show ?case
  proof (cases "deps n")
    case None
    with Cons.IH[OF Cons.prems(1,2) rest] show ?thesis by simp
  next
    case (Some ds)
    then have "insert n (set ds) \<subseteq> S" using Cons.prems(3) unfolding list.set by blast
    then have "n \<in> S" "dom g \<union> set ds \<subseteq> S" using Cons.prems(2) by simp_all
    from add_all_deps_ok[OF S this(1) Cons.prems(1) this(2)] obtain g1 where
      g1: "add_all_deps fuel n ds g = Some g1" "graph_wf g1" "dom g \<subseteq> dom g1" "dom g1 \<subseteq> S" by blast
    from Cons.IH[OF g1(2,4) rest] g1 Some show ?thesis by (auto intro: order_trans)
  qed
qed auto

text \<open>The names a registry mentions: of its blocks, and in the declared dependencies.\<close>

definition registry_names :: "block_registry \<Rightarrow> string set" where
  "registry_names r = (\<lambda>e. bm_name (be_manifest e)) ` ran (br_blocks r) \<union>
     dom (br_dependencies r) \<union> (\<Union>ds\<in>ran (br_dependencies r). set ds)"

text \<open>
   Whatever dependencies were declared, cyclic ones included, the dependency graph of
  a registry is well-formed and acyclic and contains every registered block, and the load order
  computed from it lists all of them, each after its dependencies (for every iteration order of
  the hash maps).
\<close>

theorem registry_load_order:
  assumes it: "iteration_of order (br_blocks r)" "iteration_of order' (br_dependencies r)"
    and fuel: "finite (registry_names r)" "card (registry_names r) + 2 < fuel"
  shows "\<exists>g. dependency_graph fuel order order' r = Some g \<and> acyclic (edge_rel g) \<and>
    (\<forall>e\<in>ran (br_blocks r). bm_name (be_manifest e) \<in> dom g) \<and>
    (\<forall>ks ks'. iteration_of ks g \<longrightarrow> iteration_of ks' g \<longrightarrow>
       (\<exists>res. load_order fuel ks ks' g = Some (Inr res) \<and> set res = dom g \<and> distinct res \<and>
          (\<forall>i<length res. set (dependencies_of g (res ! i)) \<subseteq> set (take i res))))"
proof -
  let ?ns = "map (\<lambda>e. bm_name (be_manifest e)) (List.map_filter (br_blocks r) order)"
  have ran: "set (List.map_filter (br_blocks r) order) = ran (br_blocks r)"
    using it(1) by (force simp: iteration_of_def map_filter_def ran_def)
  have ns: "set ?ns = (\<lambda>e. bm_name (be_manifest e)) ` ran (br_blocks r)"
    by (simp add: ran)
  let ?g = "add_all_blocks ?ns graph_new"
  have g: "graph_wf ?g" "dom ?g = set ?ns"
    using add_all_blocks_ok[OF graph_wf_new, of ?ns] by (auto simp: graph_new_def)
  have sub: "dom ?g \<subseteq> registry_names r" using ns g(2) by (auto simp: registry_names_def)
  have deps: "\<forall>n ds. n \<in> set order' \<and> br_dependencies r n = Some ds \<longrightarrow> insert n (set ds) \<subseteq> registry_names r"
    by (auto simp: registry_names_def ran_def)
  from add_all_edges_ok[OF fuel g(1) sub deps] obtain g' where
    g': "dependency_graph fuel order order' r = Some g'" "graph_wf g'" "dom ?g \<subseteq> dom g'" "dom g' \<subseteq> registry_names r"
    by (auto simp: dependency_graph_def)
  have c: "card (dom g') \<le> fuel" using card_mono[OF fuel(1) g'(4)] fuel(2) by simp
  have "acyclic (edge_rel g')" using g'(2) unfolding graph_wf_def by blast
  moreover have "\<forall>e\<in>ran (br_blocks r). bm_name (be_manifest e) \<in> dom g'"
  proof
    fix e assume "e \<in> ran (br_blocks r)"
    then have "bm_name (be_manifest e) \<in> dom ?g" unfolding g(2) ns by (rule imageI)
    with g'(3) show "bm_name (be_manifest e) \<in> dom g'" by (rule subsetD)
  qed
  moreover have "\<exists>res. load_order fuel ks ks' g' = Some (Inr res) \<and> set res = dom g' \<and> distinct res \<and>
      (\<forall>i<length res. set (dependencies_of g' (res ! i)) \<subseteq> set (take i res))"
    if "iteration_of ks g'" "iteration_of ks' g'" for ks ks'
  proof -
    from load_order_gen[OF g'(2) that c] obtain res where
      "load_order fuel ks ks' g' = Some (Inr res)" "distinct res" "set res = dom g'"
      "\<forall>i<length res. set (dependencies_of g' (res ! i)) \<subseteq> set (take i res)" by (elim exE conjE)
    then show ?thesis by (intro exI[of _ res] conjI)
  qed
  ultimately show ?thesis using g'(1) by (intro exI[of _ g'] conjI allI impI)
qed

definition demo_registry :: block_registry where
  "demo_registry = reg_run (\<lambda>b. b) [RRegister ''net'' ''1.0.0'' [1], RRegister ''drv'' ''1.0.0'' [2],
     RSetDeps ''net'' [''drv''], RSetDeps ''drv'' [''net'']]"

lemmas demo_registry_simps = demo_registry_def reg_run_def registry_new_def register_block_def
  set_block_dependencies_def Let_def

lemma demo_registry_names: "registry_names demo_registry = {''net'', ''drv''}"
  by (auto simp: demo_registry_simps registry_names_def ran_def split: if_splits)

theorem registry_load_order_witness:
  "\<exists>g. dependency_graph 5 [1, 2] [''net'', ''drv''] demo_registry = Some g \<and> acyclic (edge_rel g) \<and>
     {''net'', ''drv''} \<subseteq> dom g"
proof -
  have i: "iteration_of [1, 2] (br_blocks demo_registry)"
    and i': "iteration_of [''net'', ''drv''] (br_dependencies demo_registry)"
    by (auto simp: demo_registry_simps iteration_of_def split: if_splits)
  obtain e1 e2 where "br_blocks demo_registry 1 = Some e1" and n1: "bm_name (be_manifest e1) = ''net''"
    and "br_blocks demo_registry 2 = Some e2" and n2: "bm_name (be_manifest e2) = ''drv''"
    by (simp add: demo_registry_simps)
  then have r: "e1 \<in> ran (br_blocks demo_registry)" "e2 \<in> ran (br_blocks demo_registry)"
    by (auto intro: ranI)
  have f: "finite (registry_names demo_registry)" "card (registry_names demo_registry) + 2 < 5"
    by (simp_all add: demo_registry_names)
  from registry_load_order[OF i i' f] obtain g where
    g: "dependency_graph 5 [1, 2] [''net'', ''drv''] demo_registry = Some g" "acyclic (edge_rel g)"
    "\<forall>e\<in>ran (br_blocks demo_registry). bm_name (be_manifest e) \<in> dom g" by (elim exE conjE)
  have "''net'' \<in> dom g" "''drv'' \<in> dom g" using g(3) r n1 n2 by metis+
  with g(1,2) show ?thesis by (intro exI[of _ g]) simp
qed

end
