(* ===== verification/Persistence.thy ===== *)
theory Persistence
  imports Version
begin

text \<open>
  Persistent storage (\<open>aios-persistence/src/cow_storage.rs\<close>, \<open>aios-persistence/src/recovery.rs\<close>):
  the copy-on-write store, which writes a file next to its place and renames it, and the recovery
  log, a text file of hexadecimal records and completion markers.

  The disk has what running code reads and what survives a crash.  A file written but not synced
  holds anything after a crash; of the renames and removals issued so far a crash keeps the first
  few, in the order they were issued.  Whether an operation of the file system fails, with which
  message and after writing how much, is an argument of the operations that use it.  File names
  are single path components.  The format of a log record (bincode) is a pair of parameters.
\<close>

subsection \<open>The disk\<close>

datatype file_loc = PrimaryFile string | ShadowFile string

datatype fs_op =
    FsWrite file_loc | FsOpen file_loc | FsSync file_loc | FsRename file_loc file_loc
  | FsCopy file_loc file_loc | FsRead file_loc | FsRemove file_loc | FsStat file_loc

text \<open>The message of a failing operation, and what a failing write leaves in the file.\<close>

type_synonym fs_faults = "fs_op \<Rightarrow> (string \<times> u8 list) option"

text \<open>A rename or removal that may not be durable yet; the contents are unknown when the renamed
  file was not synced.\<close>

datatype fs_meta = Renamed file_loc file_loc "u8 list option" | Removed file_loc

record disk =
  dk_live :: "file_loc \<rightharpoonup> u8 list"
  dk_stable :: "file_loc \<rightharpoonup> u8 list"
  dk_dirty :: "file_loc set"
  dk_pending :: "fs_meta list"

definition put_file :: "file_loc \<Rightarrow> u8 list \<Rightarrow> disk \<Rightarrow> disk" where
  "put_file l data d = d\<lparr>dk_live := (dk_live d)(l \<mapsto> data), dk_dirty := insert l (dk_dirty d)\<rparr>"

definition fs_write :: "fs_faults \<Rightarrow> file_loc \<Rightarrow> u8 list \<Rightarrow> disk \<Rightarrow> (string + unit) \<times> disk" where
  "fs_write io l data d =
     (case io (FsWrite l) of
        Some (e, part) \<Rightarrow> (Err e, put_file l part d)
      | None \<Rightarrow> (Ok (), put_file l data d))"

definition not_found :: string where
  "not_found = ''No such file or directory (os error 2)''"

definition fs_open :: "fs_faults \<Rightarrow> file_loc \<Rightarrow> disk \<Rightarrow> string + unit" where
  "fs_open io l d =
     (case io (FsOpen l) of
        Some (e, _) \<Rightarrow> Err e
      | None \<Rightarrow> if dk_live d l = None then Err not_found else Ok ())"

definition fs_sync :: "fs_faults \<Rightarrow> file_loc \<Rightarrow> disk \<Rightarrow> (string + unit) \<times> disk" where
  "fs_sync io l d =
     (case io (FsSync l) of
        Some (e, _) \<Rightarrow> (Err e, d)
      | None \<Rightarrow> (Ok (), d\<lparr>dk_stable := (dk_stable d)(l := dk_live d l), dk_dirty := dk_dirty d - {l}\<rparr>))"

definition fs_rename :: "fs_faults \<Rightarrow> file_loc \<Rightarrow> file_loc \<Rightarrow> disk \<Rightarrow> (string + unit) \<times> disk" where
  "fs_rename io a b d =
     (case io (FsRename a b) of
        Some (e, _) \<Rightarrow> (Err e, d)
      | None \<Rightarrow>
         (case dk_live d a of
            None \<Rightarrow> (Err not_found, d)
          | Some data \<Rightarrow>
              (Ok (), d\<lparr>dk_live := (dk_live d)(b \<mapsto> data, a := None),
                 dk_dirty := (if a \<in> dk_dirty d then insert b (dk_dirty d) - {a} else dk_dirty d - {b}),
                 dk_pending := dk_pending d @ [Renamed a b (if a \<in> dk_dirty d then None else Some data)]\<rparr>)))"

definition fs_read :: "fs_faults \<Rightarrow> file_loc \<Rightarrow> disk \<Rightarrow> string + u8 list" where
  "fs_read io l d =
     (case io (FsRead l) of
        Some (e, _) \<Rightarrow> Err e
      | None \<Rightarrow> (case dk_live d l of None \<Rightarrow> Err not_found | Some data \<Rightarrow> Ok data))"

definition fs_copy :: "fs_faults \<Rightarrow> file_loc \<Rightarrow> file_loc \<Rightarrow> disk \<Rightarrow> (string + unit) \<times> disk" where
  "fs_copy io a b d =
     (case io (FsCopy a b) of
        Some (e, part) \<Rightarrow> (Err e, put_file b part d)
      | None \<Rightarrow> (case dk_live d a of None \<Rightarrow> (Err not_found, d) | Some data \<Rightarrow> (Ok (), put_file b data d)))"

definition fs_remove :: "fs_faults \<Rightarrow> file_loc \<Rightarrow> disk \<Rightarrow> (string + unit) \<times> disk" where
  "fs_remove io l d =
     (case io (FsRemove l) of
        Some (e, _) \<Rightarrow> (Err e, d)
      | None \<Rightarrow> (Ok (), d\<lparr>dk_live := (dk_live d)(l := None), dk_dirty := dk_dirty d - {l},
                    dk_pending := dk_pending d @ [Removed l]\<rparr>))"

text \<open>What is on the disk after a crash that kept the first \<open>k\<close> renames and removals, with \<open>g\<close>
  for the contents of files that were not synced.\<close>

fun replay_meta :: "(file_loc \<rightharpoonup> u8 list) \<Rightarrow> fs_meta \<Rightarrow> (file_loc \<rightharpoonup> u8 list) \<Rightarrow> (file_loc \<rightharpoonup> u8 list)" where
  "replay_meta g (Renamed a b (Some data)) m = m(a := None, b \<mapsto> data)"
| "replay_meta g (Renamed a b None) m = m(a := None, b := g b)"
| "replay_meta g (Removed l) m = m(l := None)"

definition after_crash :: "(file_loc \<rightharpoonup> u8 list) \<Rightarrow> nat \<Rightarrow> disk \<Rightarrow> (file_loc \<rightharpoonup> u8 list)" where
  "after_crash g k d =
     fold (replay_meta g) (take k (dk_pending d)) (\<lambda>l. if l \<in> dk_dirty d then g l else dk_stable d l)"

text \<open>A disk on which every operation so far is durable.\<close>

definition clean_disk :: "disk \<Rightarrow> bool" where
  "clean_disk d \<longleftrightarrow> dk_dirty d = {} \<and> dk_pending d = [] \<and> dk_stable d = dk_live d"

subsection \<open>The copy-on-write store\<close>

definition atomic_write :: "fs_faults \<Rightarrow> string \<Rightarrow> u8 list \<Rightarrow> disk \<Rightarrow> unit result \<times> disk" where
  "atomic_write io file_name data d =
     (let primary = PrimaryFile file_name; shadow = ShadowFile file_name in
      case fs_write io shadow data d of
        (Err e, d1) \<Rightarrow> (Err (IPCError (''Shadow write failed: '' @ e)), d1)
      | (Ok _, d1) \<Rightarrow>
          (case fs_open io shadow d1 of
             Err e \<Rightarrow> (Err (IPCError e), d1)
           | Ok _ \<Rightarrow>
               (case fs_sync io shadow d1 of
                  (Err e, d2) \<Rightarrow> (Err (IPCError e), d2)
                | (Ok _, d2) \<Rightarrow>
                    (case fs_rename io shadow primary d2 of
                       (Err e, d3) \<Rightarrow> (Err (IPCError (''Atomic rename failed: '' @ e)), d3)
                     | (Ok _, d3) \<Rightarrow> (Ok (), d3)))))"

definition storage_read :: "fs_faults \<Rightarrow> string \<Rightarrow> disk \<Rightarrow> u8 list result" where
  "storage_read io file_name d =
     (case fs_read io (PrimaryFile file_name) d of Err e \<Rightarrow> Err (IPCError e) | Ok data \<Rightarrow> Ok data)"

definition storage_exists :: "string \<Rightarrow> disk \<Rightarrow> bool" where
  "storage_exists file_name d \<longleftrightarrow> dk_live d (PrimaryFile file_name) \<noteq> None"

definition storage_rollback :: "fs_faults \<Rightarrow> string \<Rightarrow> disk \<Rightarrow> bool result \<times> disk" where
  "storage_rollback io file_name d =
     (let backup = PrimaryFile (file_name @ ''.backup''); primary = PrimaryFile file_name in
      if dk_live d backup = None then (Ok False, d)
      else
        case (if dk_live d primary \<noteq> None then fs_copy io primary backup d else (Ok (), d)) of
          (Err e, d1) \<Rightarrow> (Err (IPCError e), d1)
        | (Ok _, d1) \<Rightarrow>
            (case fs_read io backup d1 of
               Err e \<Rightarrow> (Err (IPCError e), d1)
             | Ok data \<Rightarrow>
                 (case atomic_write io file_name data d1 of
                    (Err e, d2) \<Rightarrow> (Err e, d2)
                  | (Ok _, d2) \<Rightarrow> (Ok True, d2))))"

definition file_size :: "fs_faults \<Rightarrow> string \<Rightarrow> disk \<Rightarrow> u64 result" where
  "file_size io file_name d =
     (case dk_live d (PrimaryFile file_name) of
        None \<Rightarrow> Ok 0
      | Some data \<Rightarrow> (case io (FsStat (PrimaryFile file_name)) of
                        Some (e, _) \<Rightarrow> Err (IPCError e)
                      | None \<Rightarrow> Ok (of_nat (length data))))"

definition storage_delete :: "fs_faults \<Rightarrow> string \<Rightarrow> disk \<Rightarrow> unit result \<times> disk" where
  "storage_delete io file_name d =
     (if dk_live d (PrimaryFile file_name) \<noteq> None then
        (case fs_remove io (PrimaryFile file_name) d of
           (Err e, d1) \<Rightarrow> (Err (IPCError e), d1)
         | (Ok _, d1) \<Rightarrow> (Ok (), d1))
      else (Ok (), d))"

text \<open>A sequence of writes and deletions, each with the failures it meets.\<close>

datatype storage_op = SWrite fs_faults string "u8 list" | SDelete fs_faults string

fun storage_step :: "storage_op \<Rightarrow> disk \<Rightarrow> disk" where
  "storage_step (SWrite io n data) d = snd (atomic_write io n data d)"
| "storage_step (SDelete io n) d = snd (storage_delete io n d)"

abbreviation storage_run :: "storage_op list \<Rightarrow> disk \<Rightarrow> disk" where
  "storage_run ops d \<equiv> fold storage_step ops d"

subsection \<open>The recovery log\<close>

record recovery_entry =
  re_id :: u64
  re_timestamp_ms :: u64
  re_operation :: string
  re_target :: string
  re_status :: string
  re_metadata :: "u8 list option"

record recovery_log =
  rl_file :: "string option"
  rl_max_entries :: nat
  rl_next_id :: u64

definition hex_digit :: "u8 \<Rightarrow> char" where
  "hex_digit n = char_of (if n < 10 then 48 + unat n else 87 + unat n)"

definition hex_byte :: "u8 \<Rightarrow> string" where
  "hex_byte b = [hex_digit (b div 16), hex_digit (b mod 16)]"

definition encode_hex :: "u8 list \<Rightarrow> string" where
  "encode_hex data = concat (map hex_byte data)"

text \<open>\<open>char::to_digit(16)\<close>\<close>

definition hex_value :: "char \<Rightarrow> u8 option" where
  "hex_value c =
     (let n = (of_char c :: nat) in
      if 48 \<le> n \<and> n \<le> 57 then Some (of_nat (n - 48))
      else if 97 \<le> n \<and> n \<le> 102 then Some (of_nat (n - 87))
      else if 65 \<le> n \<and> n \<le> 70 then Some (of_nat (n - 55))
      else None)"

fun decode_hex :: "string \<Rightarrow> u8 list option" where
  "decode_hex [] = Some []"
| "decode_hex [c] = None"
| "decode_hex (h # l # s) =
     (case (hex_value h, hex_value l, decode_hex s) of
        (Some hi, Some lo, Some out) \<Rightarrow> Some ((hi * 16 + lo) # out)
      | _ \<Rightarrow> None)"

definition strip_prefix :: "string \<Rightarrow> string \<Rightarrow> string option" where
  "strip_prefix p s = (if take (length p) s = p then Some (drop (length p) s) else None)"

text \<open>\<open>str::trim\<close> on the bytes of a string: the width of a white-space character at the start, and
  at the end of a reversed string.\<close>

definition is_ws3 :: "nat \<Rightarrow> nat \<Rightarrow> nat \<Rightarrow> bool" where
  "is_ws3 a b c \<longleftrightarrow>
     (a, b, c) = (0xE1, 0x9A, 0x80) \<or>
     (a, b) = (0xE2, 0x80) \<and> (0x80 \<le> c \<and> c \<le> 0x8A \<or> c = 0xA8 \<or> c = 0xA9 \<or> c = 0xAF) \<or>
     (a, b, c) = (0xE2, 0x81, 0x9F) \<or> (a, b, c) = (0xE3, 0x80, 0x80)"

definition ws_width :: "(nat list \<Rightarrow> nat list) \<Rightarrow> nat list \<Rightarrow> nat" where
  "ws_width turn bs =
     (case bs of
        [] \<Rightarrow> 0
      | a # _ \<Rightarrow>
          if a = 32 \<or> 9 \<le> a \<and> a \<le> 13 then 1
          else if turn (take 2 bs) \<in> {[0xC2, 0x85], [0xC2, 0xA0]} then 2
          else (case turn (take 3 bs) of [x, y, z] \<Rightarrow> if is_ws3 x y z then 3 else 0 | _ \<Rightarrow> 0))"

lemma ws_width_nil [simp]: "ws_width turn [] = 0"
  by (simp add: ws_width_def)

function trim_side :: "(nat list \<Rightarrow> nat list) \<Rightarrow> string \<Rightarrow> string" where
  "trim_side turn s =
     (let n = ws_width turn (map of_char s) in
      if n = 0 then s else trim_side turn (drop n s))"
  by pat_completeness auto
termination
proof (relation "measure (\<lambda>(turn, s). length s)", simp)
  fix turn :: "nat list \<Rightarrow> nat list" and s :: string and n
  assume "n = ws_width turn (map of_char s)" "n \<noteq> 0"
  then show "((turn, drop n s), turn, s) \<in> measure (\<lambda>(turn, s). length s)" by (cases s) auto
qed

declare trim_side.simps [simp del]

definition trim_ws :: "string \<Rightarrow> string" where
  "trim_ws s = rev (trim_side rev (rev (trim_side (\<lambda>b. b) s)))"

definition parse_u64 :: "string \<Rightarrow> u64 option" where
  "parse_u64 s =
     (let ds = (case s of c # cs \<Rightarrow> if c = CHR ''+'' then cs else s | [] \<Rightarrow> []) in
      if ds = [] \<or> \<not> list_all is_digit_char ds then None
      else let v = digits_value ds in if v < 2 ^ 64 then Some (of_nat v) else None)"

text \<open>The complete lines of a file: what follows the last newline is not looked at.\<close>

function complete_lines :: "string \<Rightarrow> string list" where
  "complete_lines s =
     (case position (\<lambda>c. c = CHR 0x0A) s of
        None \<Rightarrow> []
      | Some i \<Rightarrow> take i s # complete_lines (drop (i + 1) s))"
  by pat_completeness auto
termination
  by (relation "measure length") (auto dest: position_SomeD)

declare complete_lines.simps [simp del]

definition scan_line ::
  "(u8 list \<Rightarrow> recovery_entry option) \<Rightarrow> string \<Rightarrow>
   u64 list \<times> recovery_entry list \<Rightarrow> u64 list \<times> recovery_entry list" where
  "scan_line deser line st =
     (case st of (completed_ids, raw_entries) \<Rightarrow>
      case strip_prefix ''COMPLETED:'' line of
        Some id_bytes \<Rightarrow>
          (case parse_u64 (trim_ws id_bytes) of
             Some i \<Rightarrow> (completed_ids @ [i], raw_entries)
           | None \<Rightarrow> st)
      | None \<Rightarrow>
          (case strip_prefix ''ENTRY:'' line of
             Some hex_bytes \<Rightarrow>
               (case Option.bind (decode_hex hex_bytes) deser of
                  Some entry \<Rightarrow> (completed_ids, raw_entries @ [entry])
                | None \<Rightarrow> st)
           | None \<Rightarrow>
               (case deser (map of_char line) of
                  Some entry \<Rightarrow> (completed_ids, raw_entries @ [entry])
                | None \<Rightarrow> st)))"

definition pending_in :: "(u8 list \<Rightarrow> recovery_entry option) \<Rightarrow> string \<Rightarrow> recovery_entry list" where
  "pending_in deser content =
     (case fold (scan_line deser) (complete_lines content) ([], []) of
        (completed_ids, raw_entries) \<Rightarrow>
          filter (\<lambda>e. re_status e = ''pending'' \<and> re_id e \<notin> set completed_ids) raw_entries)"

text \<open>The failures of one call on the log, by the number of the file access: a message, and how
  many bytes an append wrote before it failed.\<close>

type_synonym log_faults = "nat \<Rightarrow> (string \<times> nat) option"

definition get_pending_entries ::
  "(u8 list \<Rightarrow> recovery_entry option) \<Rightarrow> (string \<times> nat) option \<Rightarrow> recovery_log \<Rightarrow> recovery_entry list result" where
  "get_pending_entries deser io lg =
     (case rl_file lg of
        None \<Rightarrow> Ok []
      | Some content \<Rightarrow>
          (case io of Some (e, _) \<Rightarrow> Err (IPCError e) | None \<Rightarrow> Ok (pending_in deser content)))"

definition recovery_new :: "string option \<Rightarrow> nat \<Rightarrow> recovery_log" where
  "recovery_new file max_entries = \<lparr>rl_file = file, rl_max_entries = max_entries, rl_next_id = 0\<rparr>"

text \<open>Opening the log for an append creates it; an append that fails before that is taken as one
  that wrote nothing, which every reader sees as the same log.\<close>

definition append_log :: "(string \<times> nat) option \<Rightarrow> string \<Rightarrow> recovery_log \<Rightarrow> unit result \<times> recovery_log" where
  "append_log io line lg =
     (let old = (case rl_file lg of None \<Rightarrow> [] | Some c \<Rightarrow> c) in
      case io of
        Some (e, n) \<Rightarrow> (Err (IPCError e), lg\<lparr>rl_file := Some (old @ take n line)\<rparr>)
      | None \<Rightarrow> (Ok (), lg\<lparr>rl_file := Some (old @ line)\<rparr>))"

definition clear_log :: "(string \<times> nat) option \<Rightarrow> recovery_log \<Rightarrow> unit result \<times> recovery_log" where
  "clear_log io lg =
     (if rl_file lg = None then (Ok (), lg)
      else case io of Some (e, _) \<Rightarrow> (Err (IPCError e), lg) | None \<Rightarrow> (Ok (), lg\<lparr>rl_file := None\<rparr>))"

definition entry_line :: "u8 list \<Rightarrow> string" where
  "entry_line data = ''ENTRY:'' @ encode_hex data @ [CHR 0x0A]"

definition completed_line :: "u64 \<Rightarrow> string" where
  "completed_line i = ''COMPLETED:'' @ dec_word i @ [CHR 0x0A]"

fun rewrite_log ::
  "(recovery_entry \<Rightarrow> string + u8 list) \<Rightarrow> log_faults \<Rightarrow> nat \<Rightarrow> recovery_entry list \<Rightarrow>
   recovery_log \<Rightarrow> unit result \<times> recovery_log" where
  "rewrite_log ser io i [] lg = (Ok (), lg)"
| "rewrite_log ser io i (entry # es) lg =
     (case ser entry of
        Err e \<Rightarrow> (Err (SerializationError e), lg)
      | Ok data \<Rightarrow>
          (case append_log (io i) (entry_line data) lg of
             (Err e, lg1) \<Rightarrow> (Err e, lg1)
           | (Ok _, lg1) \<Rightarrow> rewrite_log ser io (i + 1) es (lg1\<lparr>rl_next_id := rl_next_id lg1 + 1\<rparr>)))"

definition cleanup_log ::
  "(recovery_entry \<Rightarrow> string + u8 list) \<Rightarrow> (u8 list \<Rightarrow> recovery_entry option) \<Rightarrow> log_faults \<Rightarrow>
   recovery_log \<Rightarrow> unit result \<times> recovery_log" where
  "cleanup_log ser deser io lg =
     (case get_pending_entries deser (io 1) lg of
        Err e \<Rightarrow> (Err e, lg)
      | Ok entries \<Rightarrow>
          if rl_max_entries lg < length entries then
            (case clear_log (io 2) lg of
               (Err e, lg1) \<Rightarrow> (Err e, lg1)
             | (Ok _, lg1) \<Rightarrow>
                 rewrite_log ser io 3 (drop (length entries - rl_max_entries lg) entries)
                   (lg1\<lparr>rl_next_id := 0\<rparr>))
          else (Ok (), lg))"

definition log_entry ::
  "(recovery_entry \<Rightarrow> string + u8 list) \<Rightarrow> (u8 list \<Rightarrow> recovery_entry option) \<Rightarrow> log_faults \<Rightarrow> u64 \<Rightarrow>
   string \<Rightarrow> string \<Rightarrow> recovery_log \<Rightarrow> u64 result \<times> recovery_log" where
  "log_entry ser deser io now op target lg =
     (let entry = \<lparr>re_id = rl_next_id lg, re_timestamp_ms = now, re_operation = op,
                   re_target = target, re_status = ''pending'', re_metadata = None\<rparr> in
      case ser entry of
        Err e \<Rightarrow> (Err (SerializationError e), lg)
      | Ok data \<Rightarrow>
          (case append_log (io 0) (entry_line data) lg of
             (Err e, lg1) \<Rightarrow> (Err e, lg1)
           | (Ok _, lg1) \<Rightarrow>
               let i = rl_next_id lg1; lg2 = lg1\<lparr>rl_next_id := i + 1\<rparr> in
               if of_nat (rl_max_entries lg2) < rl_next_id lg2 then
                 (case cleanup_log ser deser io lg2 of
                    (Err e, lg3) \<Rightarrow> (Err e, lg3)
                  | (Ok _, lg3) \<Rightarrow> (Ok i, lg3))
               else (Ok i, lg2)))"

definition mark_completed :: "(string \<times> nat) option \<Rightarrow> u64 \<Rightarrow> recovery_log \<Rightarrow> unit result \<times> recovery_log" where
  "mark_completed io entry_id lg = append_log io (completed_line entry_id) lg"

text \<open>A history of a log whose file accesses succeed.\<close>

datatype log_op = LogEntry u64 string string | LogDone u64

fun log_step ::
  "(recovery_entry \<Rightarrow> string + u8 list) \<Rightarrow> (u8 list \<Rightarrow> recovery_entry option) \<Rightarrow> log_op \<Rightarrow>
   recovery_log \<Rightarrow> recovery_log" where
  "log_step ser deser (LogEntry now op target) lg = snd (log_entry ser deser (\<lambda>_. None) now op target lg)"
| "log_step ser deser (LogDone i) lg = snd (mark_completed None i lg)"

text \<open>What the history says is in the log: its entries numbered from \<open>i\<close>, and those not completed.\<close>

fun entries_from :: "u64 \<Rightarrow> log_op list \<Rightarrow> recovery_entry list" where
  "entries_from i [] = []"
| "entries_from i (LogEntry now op target # h) =
     \<lparr>re_id = i, re_timestamp_ms = now, re_operation = op, re_target = target,
      re_status = ''pending'', re_metadata = None\<rparr> # entries_from (i + 1) h"
| "entries_from i (LogDone _ # h) = entries_from i h"

definition open_entries :: "log_op list \<Rightarrow> recovery_entry list" where
  "open_entries h = filter (\<lambda>e. LogDone (re_id e) \<notin> set h) (entries_from 0 h)"


subsection \<open>Crashes of the store\<close>

lemma atomic_write_cases:
  assumes "atomic_write io n data d = (r, d')"
  obtains
    (kept) e where "r = Err e" "dk_pending d' = dk_pending d"
      "\<And>m. dk_live d' (PrimaryFile m) = dk_live d (PrimaryFile m)"
      "\<And>m. dk_stable d' (PrimaryFile m) = dk_stable d (PrimaryFile m)"
      "\<And>m. PrimaryFile m \<in> dk_dirty d' \<longleftrightarrow> PrimaryFile m \<in> dk_dirty d"
  | (written) "r = Ok ()"
      "dk_pending d' = dk_pending d @ [Renamed (ShadowFile n) (PrimaryFile n) (Some data)]"
      "\<And>m. dk_live d' (PrimaryFile m) = (if m = n then Some data else dk_live d (PrimaryFile m))"
      "\<And>m. dk_stable d' (PrimaryFile m) = dk_stable d (PrimaryFile m)"
      "\<And>m. PrimaryFile m \<in> dk_dirty d' \<longleftrightarrow> PrimaryFile m \<in> dk_dirty d \<and> m \<noteq> n"
proof -
  note defs = atomic_write_def fs_write_def fs_open_def fs_sync_def fs_rename_def put_file_def Let_def
  show thesis
  proof (cases "io (FsWrite (ShadowFile n)) = None \<and> io (FsOpen (ShadowFile n)) = None \<and>
      io (FsSync (ShadowFile n)) = None \<and> io (FsRename (ShadowFile n) (PrimaryFile n)) = None")
    case True
    with assms show thesis by (intro written) (auto simp: defs)
  next
    case False
    with assms show thesis
      by (cases r; intro kept) (auto simp: defs split: option.splits prod.splits if_splits)
  qed
qed

text \<open>The next operation is durable as a whole or not at all: it issues at most one rename or
  removal, which has the same effect on what survives as on what is read.\<close>

definition primaries_agree :: "(file_loc \<rightharpoonup> u8 list) \<Rightarrow> disk \<Rightarrow> bool" where
  "primaries_agree m d \<longleftrightarrow> (\<forall>n. m (PrimaryFile n) = dk_live d (PrimaryFile n))"

definition primaries_synced :: "disk \<Rightarrow> bool" where
  "primaries_synced d \<longleftrightarrow> (\<forall>n. PrimaryFile n \<notin> dk_dirty d)"

lemma storage_step_meta:
  assumes "primaries_synced d"
  obtains ms where "dk_pending (storage_step op d) = dk_pending d @ ms" "length ms \<le> 1"
    "ms = [] \<Longrightarrow> primaries_agree (dk_live d) (storage_step op d)"
    "\<And>g m. primaries_agree m d \<Longrightarrow> primaries_agree (fold (replay_meta g) ms m) (storage_step op d)"
    "\<And>n. dk_stable (storage_step op d) (PrimaryFile n) = dk_stable d (PrimaryFile n)"
    "primaries_synced (storage_step op d)"
proof (cases op)
  case (SWrite io n data)
  obtain r d' where w: "atomic_write io n data d = (r, d')" by fastforce
  from w show thesis
  proof (cases rule: atomic_write_cases)
    case (kept e)
    with assms show thesis
      by (intro that[of "[]"]) (auto simp: SWrite w primaries_agree_def primaries_synced_def)
  next
    case written
    with assms show thesis
      by (intro that[of "[Renamed (ShadowFile n) (PrimaryFile n) (Some data)]"])
        (auto simp: SWrite w primaries_agree_def primaries_synced_def)
  qed
next
  case (SDelete io n)
  show thesis
  proof (cases "dk_live d (PrimaryFile n) \<noteq> None \<and> io (FsRemove (PrimaryFile n)) = None")
    case True
    with assms show thesis
      by (intro that[of "[Removed (PrimaryFile n)]"])
        (auto simp: SDelete storage_delete_def fs_remove_def primaries_agree_def primaries_synced_def)
  next
    case False
    with assms show thesis
      by (intro that[of "[]"])
        (auto simp: SDelete storage_delete_def fs_remove_def primaries_agree_def primaries_synced_def
              split: option.splits)
  qed
qed

abbreviation crash_base :: "(file_loc \<rightharpoonup> u8 list) \<Rightarrow> disk \<Rightarrow> (file_loc \<rightharpoonup> u8 list)" where
  "crash_base g d \<equiv> (\<lambda>l. if l \<in> dk_dirty d then g l else dk_stable d l)"

lemma replay_primaries:
  assumes "\<And>n. m (PrimaryFile n) = m' (PrimaryFile n)"
  shows "fold (replay_meta g) ms m (PrimaryFile n) = fold (replay_meta g) ms m' (PrimaryFile n)"
  using assms
proof (induction ms arbitrary: m m')
  case (Cons e ms)
  have "replay_meta g e m (PrimaryFile n) = replay_meta g e m' (PrimaryFile n)" for n
    using Cons.prems by (cases "(g, e, m)" rule: replay_meta.cases) auto
  from Cons.IH[of "replay_meta g e m" "replay_meta g e m'", OF this] show ?case by simp
qed simp

lemma storage_run_meta:
  fixes ops :: "storage_op list"
  assumes "clean_disk d"
  defines "d' \<equiv> storage_run ops d"
  shows "primaries_synced d' \<and> (\<forall>n. dk_stable d' (PrimaryFile n) = dk_stable d (PrimaryFile n)) \<and>
    primaries_agree (fold (replay_meta g) (dk_pending d') (dk_stable d)) d'"
  unfolding d'_def
proof (induction ops rule: rev_induct)
  case Nil
  from assms(1) show ?case by (simp add: clean_disk_def primaries_synced_def primaries_agree_def)
next
  case (snoc op ops)
  then have "primaries_synced (storage_run ops d)" by simp
  then show ?case
    by (rule storage_step_meta[of _ op]) (use snoc in auto)
qed

lemma crash_prefix:
  assumes "clean_disk d"
  shows "\<exists>j\<le>length ops. primaries_agree (after_crash g k (storage_run ops d)) (storage_run (take j ops) d)"
proof (induction ops rule: rev_induct)
  case Nil
  from assms show ?case by (auto simp: after_crash_def clean_disk_def primaries_agree_def)
next
  case (snoc op ops)
  let ?d = "storage_run ops d" and ?d' = "storage_run (ops @ [op]) d"
  have inv: "primaries_synced ?d" using storage_run_meta[OF assms, of ops] by blast
  obtain ms where ms: "dk_pending ?d' = dk_pending ?d @ ms" "length ms \<le> 1"
    by (rule storage_step_meta[OF inv, of op]) auto
  have base: "crash_base g ?d' (PrimaryFile n) = dk_stable d (PrimaryFile n)"
    "crash_base g ?d (PrimaryFile n) = dk_stable d (PrimaryFile n)" for n
    using storage_run_meta[OF assms, of "ops @ [op]"] storage_run_meta[OF assms, of ops]
    by (auto simp: primaries_synced_def)
  show ?case
  proof (cases "k < length (dk_pending ?d')")
    case True
    with ms have "take k (dk_pending ?d') = take k (dk_pending ?d)" by auto
    then have "after_crash g k ?d' (PrimaryFile n) = after_crash g k ?d (PrimaryFile n)" for n
      unfolding after_crash_def
      using replay_primaries[of "crash_base g ?d'" "crash_base g ?d" g "take k (dk_pending ?d)" n] base
      by (simp only:)
    then have "primaries_agree (after_crash g k ?d') x = primaries_agree (after_crash g k ?d) x" for x
      by (simp only: primaries_agree_def)
    moreover obtain j where "j \<le> length ops"
      "primaries_agree (after_crash g k ?d) (storage_run (take j ops) d)"
      using snoc by blast
    ultimately show ?thesis by (intro exI[of _ j]) simp
  next
    case False
    then have "take k (dk_pending ?d') = dk_pending ?d'" by simp
    then have "after_crash g k ?d' (PrimaryFile n) =
        fold (replay_meta g) (dk_pending ?d') (dk_stable d) (PrimaryFile n)" for n
      unfolding after_crash_def
      using replay_primaries[of "crash_base g ?d'" "dk_stable d" g "dk_pending ?d'" n] base
      by (simp only:)
    then have "primaries_agree (after_crash g k ?d') ?d'"
      using storage_run_meta[OF assms, of "ops @ [op]" g] by (simp add: primaries_agree_def)
    then show ?thesis by (intro exI[of _ "length (ops @ [op])"]) simp
  qed
qed

subsection \<open>The text of the log\<close>

lemma hex_value_digit: "n < 16 \<Longrightarrow> hex_value (hex_digit n) = Some n"
proof -
  assume "n < 16"
  then have u: "unat n < 16" by (simp add: word_less_nat_alt)
  have "of_nat (unat n) = n" by simp
  with u show ?thesis
    by (auto simp: hex_value_def hex_digit_def word_less_nat_alt Let_def)
qed

lemma hex_digit_no_newline: "n < 16 \<Longrightarrow> hex_digit n \<noteq> CHR 0x0A"
  using hex_value_digit[of n] by (auto simp: hex_value_def)

lemma nibbles: "(b :: u8) div 16 < 16" "b mod 16 < 16" "b div 16 * 16 + b mod 16 = b"
proof -
  have "unat b < 256" using unsigned_less[of b] by simp
  then show "b div 16 < 16" by (simp add: word_less_nat_alt unat_div)
  show "b mod 16 < 16" by (simp add: word_less_nat_alt unat_mod)
  show "b div 16 * 16 + b mod 16 = b" by (rule word_mod_div_equality)
qed

lemma decode_encode_hex [simp]: "decode_hex (encode_hex data) = Some data"
  by (induction data) (simp_all add: encode_hex_def hex_byte_def hex_value_digit nibbles)

lemma encode_hex_no_newline [simp]: "CHR 0x0A \<notin> set (encode_hex data)"
  by (auto simp: encode_hex_def hex_byte_def dest: sym[of "CHR 0x0A"]
        intro: hex_digit_no_newline[OF nibbles(1), THEN notE] hex_digit_no_newline[OF nibbles(2), THEN notE])

lemma position_newline: "CHR 0x0A \<notin> set l \<Longrightarrow> position (\<lambda>c. c = CHR 0x0A) (l @ CHR 0x0A # s) = Some (length l)"
  by (induction l) auto

lemma complete_lines_line: "CHR 0x0A \<notin> set l \<Longrightarrow> complete_lines (l @ CHR 0x0A # s) = l # complete_lines s"
  by (subst complete_lines.simps) (simp add: position_newline)

lemma complete_lines_torn: "CHR 0x0A \<notin> set t \<Longrightarrow> complete_lines t = []"
  by (subst complete_lines.simps) (auto simp: position_None split: option.splits dest!: position_SomeD)

lemma trim_side_digits:
  assumes "list_all is_digit_char s" "\<And>b. set (turn b) = set b"
  shows "trim_side turn s = s"
proof (cases s)
  case (Cons c cs)
  have small: "x \<le> (57 :: nat)" if "x \<in> set (turn (take k (map of_char s)))" for x k
    using assms that by (auto simp: list_all_iff is_digit_char_def dest!: in_set_takeD)
  have "turn (take 2 (map of_char s)) \<notin> {[0xC2, 0x85], [0xC2, 0xA0]}"
    using small[of "0xC2" 2] by auto
  moreover have "48 \<le> (of_char c :: nat)" "of_char c \<le> (57 :: nat)"
    using assms(1) Cons by (auto simp: is_digit_char_def)
  moreover have "(case turn (take 3 (map of_char s)) of
      [x, y, z] \<Rightarrow> if is_ws3 x y z then 3 else 0 | _ \<Rightarrow> 0) = (0 :: nat)"
    using small[of "0xE1" 3] small[of "0xE2" 3] small[of "0xE3" 3]
    by (auto simp: is_ws3_def split: list.split)
  ultimately have "ws_width turn (map of_char s) = 0"
    unfolding ws_width_def Cons by (simp del: take_Suc_Cons)
  then show ?thesis by (subst trim_side.simps) simp
qed (subst trim_side.simps, simp)

lemma trim_ws_digits: "list_all is_digit_char s \<Longrightarrow> trim_ws s = s"
  by (simp add: trim_ws_def trim_side_digits)

lemma parse_dec_u64 [simp]: "parse_u64 (dec_word (w :: u64)) = Some w"
proof -
  obtain c cs where d: "dec_word w = c # cs" "c \<noteq> CHR ''+''" by (rule dec_hd)
  have "parse_u64 (c # cs) = Some (of_nat (digits_value (c # cs)))"
    using dec_digits[of "unat w"] digits_value_dec[of "unat w"] unat_64_less[of w] d
    by (simp add: parse_u64_def Let_def)
  then show ?thesis using digits_value_dec[of "unat w"] d(1) by simp
qed

lemma dec_no_newline [simp]: "CHR 0x0A \<notin> set (dec n)"
  using dec_digits[of n] by (auto simp: list_all_iff is_digit_char_def)

lemma scan_completed:
  "scan_line deser (''COMPLETED:'' @ dec_word i) (cs, es) = (cs @ [i], es)"
  by (simp add: scan_line_def strip_prefix_def trim_ws_digits dec_digits)

lemma scan_entry:
  "deser data = Some e \<Longrightarrow> scan_line deser (''ENTRY:'' @ encode_hex data) (cs, es) = (cs, es @ [e])"
  by (simp add: scan_line_def strip_prefix_def)

lemma complete_lines_entry: "complete_lines (entry_line data @ s) = (''ENTRY:'' @ encode_hex data) # complete_lines s"
  using complete_lines_line[of "''ENTRY:'' @ encode_hex data" s] by (simp add: entry_line_def)

lemma complete_lines_completed:
  "complete_lines (completed_line i @ s) = (''COMPLETED:'' @ dec_word i) # complete_lines s"
  using complete_lines_line[of "''COMPLETED:'' @ dec_word i" s] by (simp add: completed_line_def)

fun log_text :: "(recovery_entry \<Rightarrow> string + u8 list) \<Rightarrow> u64 \<Rightarrow> log_op list \<Rightarrow> string" where
  "log_text ser i [] = []"
| "log_text ser i (LogEntry now op target # h) =
     entry_line (projr (ser (hd (entries_from i [LogEntry now op target])))) @ log_text ser (i + 1) h"
| "log_text ser i (LogDone j # h) = completed_line j @ log_text ser i h"

abbreviation done_ids :: "log_op list \<Rightarrow> u64 list" where
  "done_ids h \<equiv> List.map_filter (\<lambda>x. case x of LogDone i \<Rightarrow> Some i | _ \<Rightarrow> None) h"

text \<open>The serializer can write the entry and reads back what it wrote.\<close>

definition round_trips ::
  "(recovery_entry \<Rightarrow> string + u8 list) \<Rightarrow> (u8 list \<Rightarrow> recovery_entry option) \<Rightarrow> recovery_entry \<Rightarrow> bool" where
  "round_trips ser deser e \<longleftrightarrow> (\<exists>b. ser e = Ok b \<and> deser b = Some e)"

lemma scan_log_text:
  assumes "\<forall>e \<in> set (entries_from i h). round_trips ser deser e"
  shows "fold (scan_line deser) (complete_lines (log_text ser i h @ s)) (cs, es) =
    fold (scan_line deser) (complete_lines s) (cs @ done_ids h, es @ entries_from i h)"
  using assms
proof (induction ser i h arbitrary: cs es rule: log_text.induct)
  case (1 ser i)
  then show ?case by (simp add: map_filter_simps)
next
  case (2 ser i now op target h)
  then obtain b where "ser (hd (entries_from i [LogEntry now op target])) = Ok b"
    "deser b = Some (hd (entries_from i [LogEntry now op target]))"
    by (auto simp: round_trips_def)
  with 2 show ?case by (simp add: complete_lines_entry scan_entry[simplified] map_filter_simps)
next
  case (3 ser i j h)
  then show ?case by (simp add: complete_lines_completed scan_completed[simplified] map_filter_simps)
qed

lemma entries_pending: "e \<in> set (entries_from i h) \<Longrightarrow> re_status e = ''pending''"
  by (induction i h rule: entries_from.induct) auto

lemma done_ids_set: "i \<in> set (done_ids h) \<longleftrightarrow> LogDone i \<in> set h"
  by (induction h) (auto simp: map_filter_simps split: log_op.splits)

lemma pending_in_log_text:
  assumes "\<forall>e \<in> set (entries_from i h). round_trips ser deser e" "CHR 0x0A \<notin> set t"
  shows "pending_in deser (log_text ser i h @ t) = filter (\<lambda>e. LogDone (re_id e) \<notin> set h) (entries_from i h)"
  using scan_log_text[OF assms(1), of t "[]" "[]"] entries_pending[of _ i h]
  by (auto simp: pending_in_def done_ids_set complete_lines_torn[OF assms(2)] intro: filter_cong)

subsection \<open>Histories of the log\<close>

abbreviation log_content :: "recovery_log \<Rightarrow> string" where
  "log_content lg \<equiv> (case rl_file lg of None \<Rightarrow> [] | Some c \<Rightarrow> c)"

lemma log_run_text:
  assumes "\<forall>e \<in> set (entries_from (rl_next_id lg) h). round_trips ser deser e"
    "unat (rl_next_id lg) + length (entries_from (rl_next_id lg) h) \<le> rl_max_entries lg"
    "rl_max_entries lg < 2 ^ 64"
  shows "log_content (fold (log_step ser deser) h lg) = log_content lg @ log_text ser (rl_next_id lg) h"
  using assms
proof (induction h arbitrary: lg)
  case (Cons x h)
  show ?case
  proof (cases x)
    case (LogEntry now op target)
    define e where "e = hd (entries_from (rl_next_id lg) [LogEntry now op target])"
    obtain b where b: "ser e = Ok b" using Cons.prems(1) by (auto simp: LogEntry round_trips_def e_def)
    have n: "unat (rl_next_id lg + 1) = unat (rl_next_id lg) + 1"
      using Cons.prems(2,3) by (intro unat_Suc_64) (simp add: LogEntry)
    have m: "unat (of_nat (rl_max_entries lg) :: u64) = rl_max_entries lg"
      using Cons.prems(3) by (simp add: unat_of_nat)
    have "\<not> of_nat (rl_max_entries lg) < rl_next_id lg + 1"
      using Cons.prems(2) by (simp add: word_less_nat_alt m n LogEntry)
    then have step: "log_step ser deser x lg =
        lg\<lparr>rl_file := Some (log_content lg @ entry_line b), rl_next_id := rl_next_id lg + 1\<rparr>"
      using b by (simp add: LogEntry log_entry_def append_log_def Let_def e_def)
    show ?thesis
      using Cons.IH[of "log_step ser deser x lg"] Cons.prems b n unfolding step
      by (simp add: LogEntry e_def step[unfolded LogEntry log_step.simps])
  next
    case (LogDone i)
    have step: "log_step ser deser x lg = lg\<lparr>rl_file := Some (log_content lg @ completed_line i)\<rparr>"
      by (simp add: LogDone mark_completed_def append_log_def Let_def)
    show ?thesis
      using Cons.IH[of "log_step ser deser x lg"] Cons.prems unfolding step
      by (simp add: LogDone step[unfolded LogDone log_step.simps])
  qed
qed simp

lemma pending_of_content:
  "get_pending_entries deser None (snd (append_log io line lg)) =
     Ok (pending_in deser (log_content lg @ (case io of None \<Rightarrow> line | Some (e, n) \<Rightarrow> take n line)))"
  by (simp add: get_pending_entries_def append_log_def Let_def split: option.split)

subsection \<open>Properties\<close>

text \<open>C18: Crash consistency of the copy-on-write store.  Whatever file-system
  failures a sequence of writes and deletions meets, and whenever the machine then crashes, the
  files of the store are those that some prefix of the sequence left: never a mixture of old and
  new contents, and no later operation without the earlier ones.  A write that succeeds is read
  back, one that fails changes no file of the store.\<close>

theorem cow_crash_prefix:
  assumes "clean_disk d"
  shows "(\<exists>j\<le>length ops. \<forall>n. after_crash g k (storage_run ops d) (PrimaryFile n) =
       dk_live (storage_run (take j ops) d) (PrimaryFile n)) \<and>
    (\<forall>io n data x m. dk_live (snd (atomic_write io n data x)) (PrimaryFile m) =
       (if m = n \<and> is_ok (fst (atomic_write io n data x)) then Some data
        else dk_live x (PrimaryFile m)))"
proof (intro conjI allI)
  show "\<exists>j\<le>length ops. \<forall>n. after_crash g k (storage_run ops d) (PrimaryFile n) =
      dk_live (storage_run (take j ops) d) (PrimaryFile n)"
    using crash_prefix[OF assms] unfolding primaries_agree_def .
next
  fix io n data x m
  obtain r x' where w: "atomic_write io n data x = (r, x')" by fastforce
  then show "dk_live (snd (atomic_write io n data x)) (PrimaryFile m) =
       (if m = n \<and> is_ok (fst (atomic_write io n data x)) then Some data
        else dk_live x (PrimaryFile m))"
    by (cases rule: atomic_write_cases) (simp_all add: w)
qed

definition example_disk :: disk where
  "example_disk = \<lparr>dk_live = [PrimaryFile ''a'' \<mapsto> [1]], dk_stable = [PrimaryFile ''a'' \<mapsto> [1]],
     dk_dirty = {}, dk_pending = []\<rparr>"

theorem cow_crash_prefix_witness:
  "clean_disk example_disk \<and>
   (\<exists>j\<le>2. \<forall>n. after_crash (\<lambda>_. Some [9]) 1
      (storage_run [SWrite (\<lambda>_. None) ''a'' [2], SWrite (\<lambda>_. None) ''b'' [3]] example_disk) (PrimaryFile n) =
      dk_live (storage_run (take j [SWrite (\<lambda>_. None) ''a'' [2], SWrite (\<lambda>_. None) ''b'' [3]]) example_disk)
        (PrimaryFile n))"
proof -
  have c: "clean_disk example_disk" by (simp add: clean_disk_def example_disk_def)
  from cow_crash_prefix[OF c, of "[SWrite (\<lambda>_. None) ''a'' [2], SWrite (\<lambda>_. None) ''b'' [3]]" "\<lambda>_. Some [9]" 1]
  show ?thesis using c by (simp only: list.size add_0 add_Suc numeral_2_eq_2)
qed

text \<open>The recovery log gives back the history it was written from: the
  pending entries read from the file are the logged entries that were not marked completed, in
  order and with their numbers, even when a crash left the beginning of one more line at the end
  of the file.\<close>

lemma recovery_log_replay:
  assumes "\<forall>e \<in> set (entries_from 0 h). round_trips ser deser e"
    and "length (entries_from 0 h) \<le> max_entries" and "max_entries < 2 ^ 64"
    and "CHR 0x0A \<notin> set (take n line)"
  shows "get_pending_entries deser None
      (snd (append_log (Some (e, n)) line
        (fold (log_step ser deser) h (recovery_new None max_entries)))) = Ok (open_entries h)"
proof -
  have "log_content (fold (log_step ser deser) h (recovery_new None max_entries)) = log_text ser 0 h"
    using log_run_text[of "recovery_new None max_entries" h ser deser] assms
    by (simp add: recovery_new_def)
  then show ?thesis
    using pending_in_log_text[OF assms(1,4)] by (simp add: pending_of_content open_entries_def)
qed

text \<open>A serializer for the two entries of the example.\<close>

definition example_history :: "log_op list" where
  "example_history = [LogEntry 7 ''hotswap_start'' ''block_1'', LogDone 0, LogEntry 8 ''hotswap_start'' ''block_2'']"

definition example_ser :: "recovery_entry \<Rightarrow> string + u8 list" where
  "example_ser e = Ok [if re_id e = 0 then 10 else 171]"

definition example_deser :: "u8 list \<Rightarrow> recovery_entry option" where
  "example_deser b =
     (if b = [10] then Some (entries_from 0 example_history ! 0)
      else if b = [171] then Some (entries_from 0 example_history ! 1) else None)"

subsection \<open>Deviations\<close>

text \<open>Rolling a file back copies the current file over the backup before it reads the backup: the
  file keeps its current contents and the previous version is lost.\<close>

lemma rollback_loses_backup:
  assumes "dk_live d (PrimaryFile n) = Some current"
    "dk_live d (PrimaryFile (n @ ''.backup'')) = Some previous" "\<And>x. io x = None"
  shows "fst (storage_rollback io n d) = Ok True"
    "dk_live (snd (storage_rollback io n d)) (PrimaryFile n) = Some current"
    "dk_live (snd (storage_rollback io n d)) (PrimaryFile (n @ ''.backup'')) = Some current"
  using assms
  by (simp_all add: storage_rollback_def fs_copy_def fs_read_def put_file_def atomic_write_def
        fs_write_def fs_open_def fs_sync_def fs_rename_def Let_def)

text \<open>A reopened log numbers its entries from zero again, so a completion marker of an earlier
  session hides a new entry with the same number.\<close>

lemma reopened_log_hides_entry:
  fixes t0 t1 :: u64 and op0 target0 op1 target1 :: string
  assumes "\<And>e. round_trips ser deser e"
  defines "old \<equiv> fold (log_step ser deser) [LogEntry t0 op0 target0, LogDone 0] (recovery_new None 10000)"
  shows "get_pending_entries deser None
    (log_step ser deser (LogEntry t1 op1 target1) (recovery_new (rl_file old) 10000)) = Ok []"
proof -
  let ?h = "[LogEntry t0 op0 target0, LogDone 0]" and ?new = "[LogEntry t1 op1 target1]"
  have o: "log_content old = log_text ser 0 ?h"
    using log_run_text[of "recovery_new None 10000" ?h ser deser] assms(1)
    unfolding old_def by (simp add: recovery_new_def)
  have "log_content (log_step ser deser (LogEntry t1 op1 target1) (recovery_new (rl_file old) 10000)) =
      log_text ser 0 ?h @ log_text ser 0 ?new"
    using log_run_text[of "recovery_new (rl_file old) 10000" ?new ser deser] assms(1) o
    by (simp add: recovery_new_def)
  moreover have "pending_in deser (log_text ser 0 ?h @ log_text ser 0 ?new @ []) = []"
    using scan_log_text[of 0 ?h ser deser "log_text ser 0 ?new @ []" "[]" "[]"]
      scan_log_text[of 0 ?new ser deser "[]" "done_ids ?h" "entries_from 0 ?h"] assms(1)
    unfolding pending_in_def by (simp add: complete_lines_torn map_filter_simps)
  ultimately show ?thesis
    by (auto simp: get_pending_entries_def pending_in_def complete_lines_torn split: option.splits)
qed

text \<open>The beginning of an entry left by a crash swallows the next entry, which is appended to the
  same line.\<close>

lemma decode_hex_bad: "c \<in> set s \<Longrightarrow> hex_value c = None \<Longrightarrow> decode_hex s = None"
  by (induction s rule: decode_hex.induct) (auto split: option.splits)

lemma torn_line_swallows_entry:
  assumes "\<And>e. round_trips ser deser e" "CHR 0x0A \<notin> set t"
  shows "pending_in deser (log_text ser 0 h @ (''ENTRY:'' @ t) @ entry_line data) = open_entries h"
proof -
  have "complete_lines ((''ENTRY:'' @ t) @ entry_line data) = [''ENTRY:'' @ t @ ''ENTRY:'' @ encode_hex data]"
    using assms(2) complete_lines_line[of "''ENTRY:'' @ t @ ''ENTRY:'' @ encode_hex data" "[]"]
    by (simp add: entry_line_def complete_lines_torn)
  moreover have "decode_hex (t @ ''ENTRY:'' @ encode_hex data) = None"
    by (rule decode_hex_bad[of "CHR ''N''"]) (simp_all add: hex_value_def)
  ultimately show ?thesis
    using entries_pending[of _ 0 h] assms(1)
    by (auto simp: pending_in_def scan_log_text scan_line_def strip_prefix_def open_entries_def
          done_ids_set intro: filter_cong)
qed

end
