(* ===== verification/Live_Update.thy ===== *)
theory Live_Update
  imports Ipc_Bus Persistence
begin

text \<open>
  Live updates (\<open>aios-live-update/src/engine.rs\<close>, \<open>state_transfer.rs\<close>, \<open>cow_live_update.rs\<close>):
  replacing the binary of a block while its packets are held back, the entries kept for a rollback,
  and the persisted engine, which writes the old state and binary to the store and notes what it
  does in the recovery log.  SHA-256 and the health check of a new binary are parameters; the
  clocks are arguments.
\<close>

subsection \<open>State transfer\<close>

record 'j bus_snapshot =
  sn_state :: "u8 list"
  sn_pending_packets :: "'j ipc_packet list"

definition extract_state :: "u8 list \<Rightarrow> 'j ipc_bus \<Rightarrow> 'j bus_snapshot \<times> 'j ipc_bus" where
  "extract_state state queue =
     (case bus_freeze queue of (ps, queue') \<Rightarrow> (\<lparr>sn_state = state, sn_pending_packets = ps\<rparr>, queue'))"

definition restore_state :: "'j bus_snapshot \<Rightarrow> 'j ipc_bus \<Rightarrow> 'j ipc_bus" where
  "restore_state snapshot queue = bus_unfreeze (sn_pending_packets snapshot) queue"

fun reroute_packets :: "u32 \<Rightarrow> u32 \<Rightarrow> 'j ipc_packet list \<Rightarrow> nat \<times> 'j ipc_packet list" where
  "reroute_packets old_target new_target [] = (0, [])"
| "reroute_packets old_target new_target (pkt # ps) =
     (case reroute_packets old_target new_target ps of (n, ps') \<Rightarrow>
        if ih_target_block (pk_header pkt) = old_target
        then (n + 1, pkt\<lparr>pk_header := (pk_header pkt)\<lparr>ih_target_block := new_target\<rparr>\<rparr> # ps')
        else (n, pkt # ps'))"

definition reroute_snapshot :: "'j bus_snapshot \<Rightarrow> u32 \<Rightarrow> u32 \<Rightarrow> nat \<times> 'j bus_snapshot" where
  "reroute_snapshot snapshot old_target new_target =
     (case reroute_packets old_target new_target (sn_pending_packets snapshot) of
        (n, ps) \<Rightarrow> (n, snapshot\<lparr>sn_pending_packets := ps\<rparr>))"

subsection \<open>The engine\<close>

record hot_swap_entry =
  hs_block_id :: u32
  hs_old_binary :: "u8 list"
  hs_old_version :: string
  hs_old_state :: "u8 list"
  hs_timestamp :: nat

record swap_record =
  sr_block_id :: u32
  sr_old_version :: string
  sr_new_version :: string
  sr_success :: bool
  sr_rolled_back :: bool
  sr_timestamp :: u64

record live_update_engine =
  lu_rollback_entries :: "u32 \<rightharpoonup> hot_swap_entry"
  lu_rollback_timeout :: nat
  lu_swap_history :: "swap_record list"

definition live_engine_new :: "u64 \<Rightarrow> live_update_engine" where
  "live_engine_new rollback_timeout_ms =
     \<lparr>lu_rollback_entries = Map.empty, lu_rollback_timeout = unat rollback_timeout_ms, lu_swap_history = []\<rparr>"

text \<open>The arguments of one swap, with the monotonic and the wall clock at that moment (milliseconds).\<close>

record swap_args =
  sa_block_id :: u32
  sa_old_binary :: "u8 list"
  sa_old_version :: string
  sa_old_state :: "u8 list"
  sa_new_binary :: "u8 list"
  sa_new_version :: string
  sa_new_sha256 :: "u8 list"
  sa_health_check :: "(u8 list \<Rightarrow> bool) option"
  sa_instant :: nat
  sa_wall_ms :: u64

definition engine_swap ::
  "(u8 list \<Rightarrow> u8 list) \<Rightarrow> swap_args \<Rightarrow> live_update_engine \<times> 'j ipc_bus \<Rightarrow>
   unit result \<times> live_update_engine \<times> 'j ipc_bus" where
  "engine_swap sha256 a st =
     (case st of (engine, queue) \<Rightarrow>
      case extract_state (sa_old_state a) queue of (snapshot, frozen) \<Rightarrow>
        if sha256 (sa_new_binary a) \<noteq> sa_new_sha256 a then
          (Err (HotSwapFailed (''SHA-256 mismatch for block '' @ dec_word (sa_block_id a))),
           engine, restore_state snapshot frozen)
        else if (case sa_health_check a of Some check \<Rightarrow> \<not> check (sa_new_binary a) | None \<Rightarrow> False) then
          (Err (HotSwapFailed (''Health check failed for block '' @ dec_word (sa_block_id a))),
           engine, restore_state snapshot frozen)
        else
          (Ok (),
           engine\<lparr>lu_rollback_entries := (lu_rollback_entries engine)(sa_block_id a \<mapsto>
               \<lparr>hs_block_id = sa_block_id a, hs_old_binary = sa_old_binary a,
                hs_old_version = sa_old_version a, hs_old_state = sa_old_state a,
                hs_timestamp = sa_instant a\<rparr>),
             lu_swap_history := lu_swap_history engine @
               [\<lparr>sr_block_id = sa_block_id a, sr_old_version = sa_old_version a,
                 sr_new_version = sa_new_version a, sr_success = True, sr_rolled_back = False,
                 sr_timestamp = sa_wall_ms a\<rparr>]\<rparr>,
           restore_state snapshot frozen))"

definition engine_rollback ::
  "u64 \<Rightarrow> u32 \<Rightarrow> live_update_engine \<times> 'j ipc_bus \<Rightarrow>
   hot_swap_entry result \<times> live_update_engine \<times> 'j ipc_bus" where
  "engine_rollback wall_ms block_id st =
     (case st of (engine, queue) \<Rightarrow>
      case lu_rollback_entries engine block_id of
        None \<Rightarrow> (Err (RollbackFailed (''No rollback entry for block '' @ dec_word block_id)), engine, queue)
      | Some entry \<Rightarrow>
          (case extract_state (hs_old_state entry) queue of (snapshot, frozen) \<Rightarrow>
             (Ok entry,
              engine\<lparr>lu_rollback_entries := (lu_rollback_entries engine)(block_id := None),
                lu_swap_history := lu_swap_history engine @
                  [\<lparr>sr_block_id = block_id, sr_old_version = hs_old_version entry,
                    sr_new_version = ''rolled_back'', sr_success = True, sr_rolled_back = True,
                    sr_timestamp = wall_ms\<rparr>]\<rparr>,
              restore_state snapshot frozen)))"

definition has_rollback :: "u32 \<Rightarrow> live_update_engine \<Rightarrow> bool" where
  "has_rollback block_id engine \<longleftrightarrow> lu_rollback_entries engine block_id \<noteq> None"

definition expired_rollback :: "nat \<Rightarrow> u32 \<Rightarrow> live_update_engine \<Rightarrow> bool" where
  "expired_rollback now block_id engine \<longleftrightarrow>
     (case lu_rollback_entries engine block_id of
        None \<Rightarrow> False
      | Some entry \<Rightarrow> lu_rollback_timeout engine < now - hs_timestamp entry)"

subsection \<open>The persisted engine\<close>

record persisted_engine =
  pe_engine :: live_update_engine
  pe_disk :: disk
  pe_log :: recovery_log

definition persisted_new :: "u64 \<Rightarrow> disk \<Rightarrow> string option \<Rightarrow> persisted_engine" where
  "persisted_new rollback_timeout_ms d log_file =
     \<lparr>pe_engine = live_engine_new rollback_timeout_ms, pe_disk = d,
      pe_log = recovery_new log_file 10000\<rparr>"

definition block_name :: "u32 \<Rightarrow> string" where
  "block_name block_id = ''block_'' @ dec_word block_id"

definition state_file :: "u32 \<Rightarrow> string" where
  "state_file block_id = block_name block_id @ ''_state.bin''"

definition binary_file :: "u32 \<Rightarrow> string" where
  "binary_file block_id = block_name block_id @ ''_old.bin''"

text \<open>The failures of the file accesses of one call, and the wall clock at its two log entries.\<close>

record call_env =
  ce_fs :: fs_faults
  ce_log_start :: log_faults
  ce_log_end :: log_faults
  ce_time_start :: u64
  ce_time_end :: u64

type_synonym entry_ser = "recovery_entry \<Rightarrow> string + u8 list"
type_synonym entry_deser = "u8 list \<Rightarrow> recovery_entry option"

definition pe_note ::
  "entry_ser \<Rightarrow> entry_deser \<Rightarrow> log_faults \<Rightarrow> u64 \<Rightarrow> string \<Rightarrow> string \<Rightarrow> persisted_engine \<Rightarrow>
   u64 result \<times> persisted_engine" where
  "pe_note ser deser io now op target p =
     (case log_entry ser deser io now op target (pe_log p) of (r, lg) \<Rightarrow> (r, p\<lparr>pe_log := lg\<rparr>))"

definition persisted_swap ::
  "(u8 list \<Rightarrow> u8 list) \<Rightarrow> entry_ser \<Rightarrow> entry_deser \<Rightarrow> call_env \<Rightarrow> swap_args \<Rightarrow>
   persisted_engine \<times> 'j ipc_bus \<Rightarrow> unit result \<times> persisted_engine \<times> 'j ipc_bus" where
  "persisted_swap sha256 ser deser env a st =
     (case st of (p, queue) \<Rightarrow>
      let block_id = sa_block_id a in
      case pe_note ser deser (ce_log_start env) (ce_time_start env) ''hotswap_start'' (block_name block_id) p of
        (Err e, p1) \<Rightarrow> (Err e, p1, queue)
      | (Ok _, p1) \<Rightarrow>
        (case atomic_write (ce_fs env) (state_file block_id) (sa_old_state a) (pe_disk p1) of
           (Err e, d1) \<Rightarrow> (Err e, p1\<lparr>pe_disk := d1\<rparr>, queue)
         | (Ok _, d1) \<Rightarrow>
           (case atomic_write (ce_fs env) (binary_file block_id) (sa_old_binary a) d1 of
              (Err e, d2) \<Rightarrow> (Err e, p1\<lparr>pe_disk := d2\<rparr>, queue)
            | (Ok _, d2) \<Rightarrow>
              (case engine_swap sha256 a (pe_engine p1, queue) of
                 (result, engine, queue') \<Rightarrow>
                   let p2 = p1\<lparr>pe_disk := d2, pe_engine := engine\<rparr> in
                   case (case result of
                           Ok _ \<Rightarrow> pe_note ser deser (ce_log_end env) (ce_time_end env)
                             ''hotswap_complete'' (block_name block_id) p2
                         | Err e \<Rightarrow> pe_note ser deser (ce_log_end env) (ce_time_end env)
                             ''hotswap_failed'' (block_name block_id @ '': '' @ show_exception e) p2) of
                     (Err e, p3) \<Rightarrow> (Err e, p3, queue')
                   | (Ok _, p3) \<Rightarrow> (result, p3, queue')))))"

definition persisted_rollback ::
  "entry_ser \<Rightarrow> entry_deser \<Rightarrow> call_env \<Rightarrow> u64 \<Rightarrow> u32 \<Rightarrow>
   persisted_engine \<times> 'j ipc_bus \<Rightarrow> 'j Payload result \<times> persisted_engine \<times> 'j ipc_bus" where
  "persisted_rollback ser deser env wall_ms block_id st =
     (case st of (p, queue) \<Rightarrow>
      case pe_note ser deser (ce_log_start env) (ce_time_start env) ''rollback_start'' (block_name block_id) p of
        (Err e, p1) \<Rightarrow> (Err e, p1, queue)
      | (Ok _, p1) \<Rightarrow>
        (case engine_rollback wall_ms block_id (pe_engine p1, queue) of
           (result, engine, queue') \<Rightarrow>
             let p2 = p1\<lparr>pe_engine := engine\<rparr> in
             case (case result of
                     Ok _ \<Rightarrow>
                       let d1 = snd (storage_delete (ce_fs env) (state_file block_id) (pe_disk p2));
                           d2 = snd (storage_delete (ce_fs env) (binary_file block_id) d1)
                       in pe_note ser deser (ce_log_end env) (ce_time_end env)
                            ''rollback_complete'' (block_name block_id) (p2\<lparr>pe_disk := d2\<rparr>)
                   | Err e \<Rightarrow> pe_note ser deser (ce_log_end env) (ce_time_end env)
                       ''rollback_failed'' (block_name block_id @ '': '' @ show_exception e) p2) of
               (Err e, p3) \<Rightarrow> (Err e, p3, queue')
             | (Ok _, p3) \<Rightarrow> ((case result of Err e \<Rightarrow> Err e | Ok _ \<Rightarrow> Ok PEmpty), p3, queue')))"

text \<open>The block of an entry that notes the start of a swap whose saved state is still there.\<close>

definition interrupted_block :: "disk \<Rightarrow> recovery_entry \<Rightarrow> u32 option" where
  "interrupted_block d entry =
     (if re_operation entry = ''hotswap_start'' then
        (case Option.bind (strip_prefix ''block_'' (re_target entry)) parse_u32 of
           Some block_id \<Rightarrow> if storage_exists (state_file block_id) d then Some block_id else None
         | None \<Rightarrow> None)
      else None)"

fun recover_entries ::
  "(nat \<Rightarrow> (string \<times> nat) option) \<Rightarrow> nat \<Rightarrow> recovery_entry list \<Rightarrow> u32 list \<Rightarrow> persisted_engine \<Rightarrow>
   u32 list result \<times> persisted_engine" where
  "recover_entries io i [] recovered p = (Ok recovered, p)"
| "recover_entries io i (entry # es) recovered p =
     (case interrupted_block (pe_disk p) entry of
        None \<Rightarrow> recover_entries io (i + 1) es recovered p
      | Some block_id \<Rightarrow>
          (case mark_completed (io i) (re_id entry) (pe_log p) of
             (Err e, lg) \<Rightarrow> (Err e, p\<lparr>pe_log := lg\<rparr>)
           | (Ok _, lg) \<Rightarrow> recover_entries io (i + 1) es (recovered @ [block_id]) (p\<lparr>pe_log := lg\<rparr>)))"

definition recover_from_crash ::
  "entry_deser \<Rightarrow> (nat \<Rightarrow> (string \<times> nat) option) \<Rightarrow> persisted_engine \<Rightarrow> u32 list result \<times> persisted_engine" where
  "recover_from_crash deser io p =
     (case get_pending_entries deser (io 0) (pe_log p) of
        Err e \<Rightarrow> (Err e, p)
      | Ok pending \<Rightarrow> recover_entries io 1 pending [] p)"

subsection \<open>Runs of the engine\<close>



text \<open>A new binary is accepted when it has the announced hash and passes the health check, if there
  is one.\<close>

definition accepted :: "(u8 list \<Rightarrow> u8 list) \<Rightarrow> swap_args \<Rightarrow> bool" where
  "accepted sha256 a \<longleftrightarrow> sha256 (sa_new_binary a) = sa_new_sha256 a \<and>
     (case sa_health_check a of None \<Rightarrow> True | Some check \<Rightarrow> check (sa_new_binary a))"











subsection \<open>Recovery\<close>

abbreviation no_faults :: "nat \<Rightarrow> (string \<times> nat) option" where
  "no_faults \<equiv> (\<lambda>_. None)"

abbreviation interrupted_ids :: "disk \<Rightarrow> recovery_entry list \<Rightarrow> u64 list" where
  "interrupted_ids d es \<equiv> map re_id (filter (\<lambda>e. interrupted_block d e \<noteq> None) es)"

abbreviation interrupted_blocks :: "disk \<Rightarrow> recovery_entry list \<Rightarrow> u32 list" where
  "interrupted_blocks d es \<equiv> List.map_filter (interrupted_block d) es"

lemma recover_entries_run:
  "recover_entries no_faults i es bs p = (r, p') \<Longrightarrow>
     r = Ok (bs @ interrupted_blocks (pe_disk p) es) \<and> pe_disk p' = pe_disk p \<and>
     log_content (pe_log p') = log_content (pe_log p) @
       concat (map completed_line (interrupted_ids (pe_disk p) es))"
proof (induction es arbitrary: i bs p)
  case (Cons e es)
  then show ?case
    by (cases "interrupted_block (pe_disk p) e")
      (auto simp: map_filter_simps mark_completed_def append_log_def Let_def dest!: Cons.IH)
qed (simp add: map_filter_simps)


lemma entries_from_done [simp]: "entries_from i (h @ map LogDone ids) = entries_from i h"
proof (induction i h rule: entries_from.induct)
  case (1 i)
  show ?case by (induction ids) simp_all
qed simp_all


lemma pending_of_text:
  assumes "\<forall>e \<in> set (entries_from 0 h). round_trips ser deser e" "CHR 0x0A \<notin> set torn"
    "log_content lg = log_text ser 0 h @ torn"
  shows "get_pending_entries deser None lg = Ok (open_entries h)"
  using pending_in_log_text[OF assms(1,2)] assms(3)
  by (auto simp: get_pending_entries_def open_entries_def pending_in_def complete_lines_torn
        split: option.splits)

lemma recover_from_text:
  assumes "\<forall>e \<in> set (entries_from 0 h). round_trips ser deser e" "CHR 0x0A \<notin> set torn"
    "log_content (pe_log p) = log_text ser 0 h @ torn" "recover_from_crash deser no_faults p = (r, p')"
  shows "r = Ok (interrupted_blocks (pe_disk p) (open_entries h))" "pe_disk p' = pe_disk p"
    "log_content (pe_log p') = log_text ser 0 h @ torn @
       concat (map completed_line (interrupted_ids (pe_disk p) (open_entries h)))"
proof -
  have "recover_entries no_faults 1 (open_entries h) [] p = (r, p')"
    using assms pending_of_text[of h ser deser torn "pe_log p"] by (simp add: recover_from_crash_def)
  from recover_entries_run[OF this] assms(3)
  show "r = Ok (interrupted_blocks (pe_disk p) (open_entries h))" "pe_disk p' = pe_disk p"
    "log_content (pe_log p') = log_text ser 0 h @ torn @
       concat (map completed_line (interrupted_ids (pe_disk p) (open_entries h)))"
    by (simp_all del: map_map)
qed


lemma interrupted_block_start:
  "re_operation e = ''hotswap_start'' \<Longrightarrow> re_target e = block_name b \<Longrightarrow>
   storage_exists (state_file b) d \<Longrightarrow> interrupted_block d e = Some b"
  by (simp add: interrupted_block_def block_name_def strip_prefix_def)

lemma restarted_content:
  assumes "\<forall>e \<in> set (entries_from 0 h). round_trips ser deser e"
    "length (entries_from 0 h) \<le> 10000"
  shows "log_content (pe_log (persisted_new t d (rl_file (fold (log_step ser deser) h (recovery_new None 10000))))) =
    log_text ser 0 h"
  using log_run_text[of "recovery_new None 10000" h ser deser] assms
  by (simp add: persisted_new_def recovery_new_def)

subsection \<open>Properties\<close>







subsection \<open>Deviations\<close>

text \<open>A swap that succeeded leaves its start entry pending and its saved state on the disk, so the
  next start reports it as interrupted.\<close>

lemma atomic_write_no_faults:
  obtains d' where "atomic_write (\<lambda>_. None) n data d = (Ok (), d')"
    "\<And>m. dk_live d' (PrimaryFile m) = (if m = n then Some data else dk_live d (PrimaryFile m))"
proof -
  obtain r d' where w: "atomic_write (\<lambda>_. None) n data d = (r, d')" by fastforce
  have r: "r = Ok ()"
    using w by (auto simp: atomic_write_def fs_write_def fs_open_def fs_sync_def fs_rename_def
        put_file_def Let_def)
  from w show thesis
    by (cases rule: atomic_write_cases) (use that[of d'] w r in simp_all)
qed

lemma log_entry_no_faults:
  assumes "\<And>e. round_trips ser deser e" "unat (rl_next_id lg) < rl_max_entries lg" "rl_max_entries lg < 2 ^ 64"
  shows "log_entry ser deser no_faults now op target lg =
    (Ok (rl_next_id lg), log_step ser deser (LogEntry now op target) lg)"
    "rl_next_id (log_step ser deser (LogEntry now op target) lg) = rl_next_id lg + 1"
    "rl_max_entries (log_step ser deser (LogEntry now op target) lg) = rl_max_entries lg"
proof -
  let ?e = "\<lparr>re_id = rl_next_id lg, re_timestamp_ms = now, re_operation = op,
    re_target = target, re_status = ''pending'', re_metadata = None\<rparr>"
  obtain x where "ser ?e = Ok x" using assms(1)[of ?e] by (auto simp: round_trips_def)
  moreover have "unat (rl_next_id lg + 1) = unat (rl_next_id lg) + 1"
    using assms(2,3) by (intro unat_Suc_64) simp
  moreover have "unat (of_nat (rl_max_entries lg) :: u64) = rl_max_entries lg"
    using assms(3) by (simp add: unat_of_nat)
  ultimately have "\<not> of_nat (rl_max_entries lg) < rl_next_id lg + 1" and "ser ?e = Ok x"
    using assms(2) by (simp_all add: word_less_nat_alt)
  then show "log_entry ser deser no_faults now op target lg =
      (Ok (rl_next_id lg), log_step ser deser (LogEntry now op target) lg)"
    "rl_next_id (log_step ser deser (LogEntry now op target) lg) = rl_next_id lg + 1"
    "rl_max_entries (log_step ser deser (LogEntry now op target) lg) = rl_max_entries lg"
    by (simp_all add: log_entry_def append_log_def Let_def)
qed

lemma completed_swap_reported:
  fixes q :: "'j ipc_bus" and a :: swap_args
  assumes rt: "\<And>e. round_trips ser deser e" and acc: "accepted sha256 a"
    and env: "ce_fs env = (\<lambda>_. None)" "ce_log_start env = no_faults" "ce_log_end env = no_faults"
    and sw: "persisted_swap sha256 ser deser env a (persisted_new t d None, q) = (r, p, q')"
  shows "r = Ok ()"
    "fst (recover_from_crash deser no_faults (persisted_new t (pe_disk p) (rl_file (pe_log p)))) =
       Ok [sa_block_id a]"
proof -
  let ?b = "sa_block_id a"
  let ?h = "[LogEntry (ce_time_start env) ''hotswap_start'' (block_name ?b),
    LogEntry (ce_time_end env) ''hotswap_complete'' (block_name ?b)]"
  let ?l0 = "recovery_new None 10000"
  let ?l1 = "log_step ser deser (hd ?h) ?l0"
  have l1: "rl_next_id ?l1 = 1" "rl_max_entries ?l1 = 10000"
    using log_entry_no_faults(2,3)[OF rt, of ?l0] by (simp_all add: recovery_new_def)
  obtain d1 where d1: "atomic_write (\<lambda>_. None) (state_file ?b) (sa_old_state a) d = (Ok (), d1)"
    "\<And>m. dk_live d1 (PrimaryFile m) = (if m = state_file ?b then Some (sa_old_state a) else dk_live d (PrimaryFile m))"
    using atomic_write_no_faults[of "state_file ?b" "sa_old_state a" d] by metis
  obtain d2 where d2: "atomic_write (\<lambda>_. None) (binary_file ?b) (sa_old_binary a) d1 = (Ok (), d2)"
    "\<And>m. dk_live d2 (PrimaryFile m) = (if m = binary_file ?b then Some (sa_old_binary a) else dk_live d1 (PrimaryFile m))"
    using atomic_write_no_faults[of "binary_file ?b" "sa_old_binary a" d1] by metis
  obtain e q2 where es: "engine_swap sha256 a (live_engine_new t, q) = (Ok (), e, q2)"
    using acc by (cases "extract_state (sa_old_state a) q")
      (auto simp: engine_swap_def accepted_def split: option.splits)
  note first = log_entry_no_faults(1)[OF rt, of ?l0 "ce_time_start env" "''hotswap_start''" "block_name ?b"]
  note second = log_entry_no_faults(1)[OF rt, of ?l1 "ce_time_end env" "''hotswap_complete''" "block_name ?b"]
  have rp: "r = Ok ()" "pe_disk p = d2" "pe_log p = fold (log_step ser deser) ?h ?l0"
    using sw first second l1 d1(1) d2(1) es env
    by (auto simp: persisted_swap_def persisted_new_def pe_note_def Let_def recovery_new_def
        simp del: log_step.simps)
  then show "r = Ok ()" by simp
  obtain r' p' where rec: "recover_from_crash deser no_faults
      (persisted_new t d2 (rl_file (fold (log_step ser deser) ?h ?l0))) = (r', p')" by fastforce
  have rts: "\<forall>e \<in> set (entries_from 0 ?h). round_trips ser deser e" using rt by blast
  have "storage_exists (state_file ?b) d2"
    using d1(2) d2(2) by (simp add: storage_exists_def)
  then have "interrupted_blocks d2 (open_entries ?h) = [?b]"
    by (simp add: open_entries_def map_filter_simps interrupted_block_start)
      (simp add: interrupted_block_def)
  moreover have c: "log_content (pe_log (persisted_new t d2 (rl_file (fold (log_step ser deser) ?h ?l0)))) =
      log_text ser 0 ?h @ []"
    unfolding append_Nil2 by (rule restarted_content[OF rts]) simp
  moreover have "r' = Ok (interrupted_blocks d2 (open_entries ?h))"
    using recover_from_text(1)[OF rts _ c rec] by (simp add: persisted_new_def)
  ultimately show "fst (recover_from_crash deser no_faults
      (persisted_new t (pe_disk p) (rl_file (pe_log p)))) = Ok [?b]"
    using rec rp by simp
qed

end
