(* ===== verification/Spec2Isabelle.thy ===== *)
theory Spec2Isabelle
  imports Ring_Buffer Ring_Concurrency Ipc_Bus Ring_Transport Kernel_Boot Tcp_Example Kernel_Example Scheduler_Policy Version Block_Registry Live_Update
begin

text \<open>
  A verification development for AIOS (the \<open>aios-core\<close> repository).  The system has two halves: a
  bare-metal kernel (\<open>aios-kernel\<close>) and a set of host crates around blocks that exchange packets
  (\<open>aios-ringbuf\<close>, \<open>aios-ipc\<close>, \<open>aios-process-mgr\<close>, \<open>aios-block-mgr\<close>, \<open>aios-security\<close>,
  \<open>aios-persistence\<close>, \<open>aios-live-update\<close>).  The theories follow the crates; each definition carries
  the name of the function it models, with a prefix where HOL or another part uses the name.

  \<^bold>\<open>Conventions.\<close>  Machine integers are words of their width, \<open>usize\<close> values are natural numbers
  (with \<open>uadd\<close> and \<open>usub\<close> wrapping at 64 bits where the code's arithmetic can), a hash map is a partial
  function, and an iteration over one takes the order as an argument.  A call that returns a
  \<open>Result\<close> has type \<open>AIOSException + 'a\<close>; a panic or a loop that does not end is \<open>None\<close>.  Clocks,
  devices and failures of the file system are arguments.  SHA-256, bincode and the health check of
  a binary are parameters; properties that need something of them have it as a hypothesis.

  \<^bold>\<open>Prelude.\<close>  Word and list lemmas, the error type of \<open>aios-core/src/error.rs\<close>, decimal printing.

  \<^bold>\<open>Ring buffer\<close> (\<open>aios-ringbuf/src\<close>).  \<open>Ring_Buffer\<close> has the buffer with its memory and the two
  positions; runs of reads and writes refine a bounded queue (locale \<open>bounded_fifo\<close>), and a zero-copy
  read equals a copying one.  \<open>Ring_Concurrency\<close> splits one \<open>write\<close> and one \<open>read\<close> into atomic
  accesses and single copied bytes and shows that no interleaving loses, tears or reorders a byte.
  \<open>wait_for_data\<close> is a partial function on the sequence of clock readings; it is shown to return once
  the clock passes the timeout.

  \<^bold>\<open>Packets, bus and transport\<close> (\<open>aios-core/src/ipc_protocol.rs\<close>, \<open>aios-ipc/src\<close>).  \<open>Ipc_Protocol\<close>
  has the packets, \<open>Ipc_Bus\<close> the bus with both back-pressure policies: bound, duplicate suppression,
  priority order as a stable sort, and the round trip of freezing.  \<open>Ring_Transport\<close> carries packets
  over ring buffers.

  \<^bold>\<open>Scheduler of the host\<close> (\<open>aios-process-mgr/src\<close>).  \<open>Task\<close> and \<open>Scheduler\<close> have the data and all
  operations; \<open>Scheduler_Frame\<close> says what each leaves alone; \<open>Scheduler_Invariant\<close> proves the
  well-formedness of the process table, queues, memory account and current process for every
  reachable state; \<open>Scheduler_Policy\<close> proves what is chosen, in normal mode with aging (including
  the one case that panics) and in real-time mode.  The invariant needs spawns that do not overflow
  the account and rollbacks to the priority the process still has; both conditions are shown to be
  necessary.

  \<^bold>\<open>Security and blocks\<close> (\<open>aios-security/src\<close>, \<open>aios-block-mgr/src\<close>).  \<open>Capability\<close>: a granted
  permission goes back to an issued, unexpired, unrevoked token, and a signature binds every field up
  to collisions of the hash.  \<open>Dependency\<close>: adding an edge keeps the graph acyclic and the load order
  is topological.  \<open>Version\<close>: printing and parsing.  \<open>Block_Registry\<close>: the integrity check of a
  registered block holds after every sequence of operations.

  \<^bold>\<open>Persistence and live update\<close> (\<open>aios-persistence/src\<close>, \<open>aios-live-update/src\<close>).  \<open>Persistence\<close>
  models a disk on which unsynced contents are lost in a crash and renames are kept in order; the
  copy-on-write store is then always a prefix of its history, and the recovery log is read back even
  with a torn last line.  \<open>Live_Update\<close> shows that swaps and rollbacks give the bus back unchanged,
  that a rollback returns to what the last accepted swap replaced, and that recovery after a
  restart reports each open swap.  The log is taken up to its 10000 entries, where the code starts to
  prune it.

  \<^bold>\<open>Kernel memory\<close> (\<open>aios-kernel/src/heap.rs\<close>, \<open>memory.rs\<close>).  \<open>Kernel_Heap\<close> runs the free-list
  allocator on a memory of cells, with the headers inside the heap; it refines a first-fit allocator
  on tilings of the window, so payloads of different owners are disjoint and nothing leaks.
  \<open>Kernel_Paging\<close> has the page tables in physical memory; \<open>Kernel_Boot\<close> the frame allocator and the
  mapping of the heap.

  \<^bold>\<open>Kernel network\<close> (\<open>net.rs\<close>, \<open>sock.rs\<close>).  \<open>Kernel_Net\<close> has frames, checksums, ARP and the loopback
  ring, \<open>Kernel_Socket\<close> the socket table and the TCP state machine, \<open>Socket_Invariant\<close> the ranges of
  all fields under arbitrary frames.  \<open>Kernel_Tcp\<close> joins two machines by a network that loses,
  repeats and reorders frames: the received bytes are a subsequence of the sent ones, and a prefix
  unless the receiver acknowledged a segment that did not fit its ring.  The argument needs fewer than
  4 GiB in each direction, so that sequence numbers do not repeat.  \<open>Tcp_Progress\<close> shows what a
  retransmission repairs and that segments of more than 1440 bytes are never sent, \<open>Tcp_Handshake\<close>
  the opening of a connection, and \<open>Tcp_Example\<close> has concrete runs.

  \<^bold>\<open>Kernel scheduler, faults and system calls\<close> (\<open>sched.rs\<close>, \<open>fault.rs\<close>, \<open>syscalls.rs\<close>,
  \<open>interrupts.rs\<close>).  \<open>Kernel_Interfaces\<close> has the interfaces: \<open>message_queue\<close>, interpreted for the
  mailboxes and the key ring, and \<open>separation\<close>, interpreted for sockets, windows and
  saved registers.  \<open>Kernel_Sched\<close> has the task table and the fault path, with the statics of
  \<open>fault.rs\<close> as a record that the state of the scheduler extends.  \<open>Kernel_Switch\<close> shows that a switch
  loads exactly the registers a task is owed and that a ready task waits for at most six switches;
  \<open>Kernel_Fault\<close> that the fault queue is a queue and recovery a round trip.  \<open>Kernel_Syscall\<close> has the
  dispatcher with every system call.  An access through a user pointer goes through the page tables
  and has one of three results: it is done, it traps because the address is not canonical, or it
  reaches the memory of the kernel itself, of which the model has no bytes; a handler with the last
  result has the value \<open>None\<close>, and the properties of \<open>Kernel_Gate\<close> (isolation of tasks, messages, the
  console) speak of runs without it.  \<open>Kernel_Example\<close> has concrete runs.

  \<^bold>\<open>Departures.\<close>  The last section of several theories proves runs on which the code does not do what
  its documentation says, for example \<open>rollback_loses_backup\<close> or \<open>large_segment_never_sent\<close>.

  \<^bold>\<open>Not modelled.\<close>  Drawing, device drivers and boot glue of the kernel, its DHCP client, and the
  host crates that wrap external services, hardware features or user interfaces; floating-point
  statistics; log lines.
\<close>

end
